(* ===== verification/Prelude.thy ===== *)
theory Prelude
  imports Main "HOL-Library.Word" "HOL-Library.Monad_Syntax"
begin

text \<open>
  Shared vocabulary of the development: the machine types of \<^verbatim>\<open>inc/types.h\<close>, the named
  theorem collections, the abstraction of linked lists threaded through a next-pointer
  (the page free list and the environment free list are such lists), and general lemmas on
  words, options and finite counting that several components use.
\<close>

unbundle bit_operations_syntax

section \<open>Machine types\<close>

type_synonym u8 = "8 word"
type_synonym u16 = "16 word"
type_synonym u32 = "32 word"
type_synonym u64 = "64 word"

section \<open>Error codes, inc/error.h\<close>

abbreviation (input) E_UNSPECIFIED :: int where "E_UNSPECIFIED \<equiv> 1"
abbreviation (input) E_BAD_ENV :: int where "E_BAD_ENV \<equiv> 2"
abbreviation (input) E_INVAL :: int where "E_INVAL \<equiv> 3"
abbreviation (input) E_NO_MEM :: int where "E_NO_MEM \<equiv> 4"
abbreviation (input) E_NO_FREE_ENV :: int where "E_NO_FREE_ENV \<equiv> 5"
abbreviation (input) E_FAULT :: int where "E_FAULT \<equiv> 6"
abbreviation (input) E_IPC_NOT_RECV :: int where "E_IPC_NOT_RECV \<equiv> 7"
abbreviation (input) E_EOF :: int where "E_EOF \<equiv> 8"
abbreviation (input) E_NO_DISK :: int where "E_NO_DISK \<equiv> 9"
abbreviation (input) E_MAX_OPEN :: int where "E_MAX_OPEN \<equiv> 10"
abbreviation (input) E_NOT_FOUND :: int where "E_NOT_FOUND \<equiv> 11"
abbreviation (input) E_BAD_PATH :: int where "E_BAD_PATH \<equiv> 12"
abbreviation (input) E_FILE_EXISTS :: int where "E_FILE_EXISTS \<equiv> 13"
abbreviation (input) E_NOT_EXEC :: int where "E_NOT_EXEC \<equiv> 14"
abbreviation (input) E_NOT_SUPP :: int where "E_NOT_SUPP \<equiv> 15"

named_theorems mmu_simps \<open>arithmetic reading of the address macros\<close>
named_theorems frame_simps \<open>what an operation leaves unchanged\<close>

section \<open>Lists threaded through next pointers\<close>

text \<open>
  \<open>chain nxt h xs\<close>: starting at \<open>h\<close> and following \<open>nxt\<close> until the null pointer
  visits exactly the nodes \<open>xs\<close>, in this order.
\<close>

fun chain :: "('a \<Rightarrow> 'a option) \<Rightarrow> 'a option \<Rightarrow> 'a list \<Rightarrow> bool" where
  "chain nxt h [] \<longleftrightarrow> h = None"
| "chain nxt h (x # xs) \<longleftrightarrow> h = Some x \<and> chain nxt (nxt x) xs"

lemma chain_None [simp]: "chain nxt None xs \<longleftrightarrow> xs = []"
  by (cases xs) auto

lemma chain_Some: "chain nxt (Some x) xs \<longleftrightarrow> (\<exists>ys. xs = x # ys \<and> chain nxt (nxt x) ys)"
  by (cases xs) auto

lemma chain_unique: "chain nxt h xs \<Longrightarrow> chain nxt h ys \<Longrightarrow> xs = ys"
  by (induction xs arbitrary: h ys) (auto simp: chain_Some)

lemma chain_suffix:
  "chain nxt h (xs @ y # ys) \<Longrightarrow> chain nxt (Some y) (y # ys)"
  by (induction xs arbitrary: h) auto

text \<open>A list that ends in the null pointer never visits a node twice.\<close>

lemma chain_distinct: "chain nxt h xs \<Longrightarrow> distinct xs"
proof (induction xs arbitrary: h)
  case Nil
  then show ?case by simp
next
  case (Cons x xs)
  have "x \<notin> set xs"
  proof
    assume "x \<in> set xs"
    then obtain as bs where split: "xs = as @ x # bs"
      by (auto dest: split_list)
    from Cons.prems have "chain nxt (Some x) (x # as @ x # bs)" by (simp add: split)
    moreover from this have "chain nxt (Some x) (x # bs)"
      using chain_suffix [of nxt "Some x" "x # as" x bs] by simp
    ultimately have "x # as @ x # bs = x # bs" by (rule chain_unique)
    then show False by simp
  qed
  with Cons show ?case by auto
qed

lemma chain_upd [simp]:
  "x \<notin> set xs \<Longrightarrow> chain (nxt(x := y)) h xs \<longleftrightarrow> chain nxt h xs"
  by (induction xs arbitrary: h) auto

lemma chain_cong:
  "(\<And>x. x \<in> set xs \<Longrightarrow> f x = g x) \<Longrightarrow> chain f h xs \<longleftrightarrow> chain g h xs"
  by (induction xs arbitrary: h) auto

lemma chain_push:
  assumes "chain nxt h xs" and "x \<notin> set xs"
  shows "chain (nxt(x := h)) (Some x) (x # xs)"
  using assms by simp

section \<open>Counting\<close>

lemma card_insert_fresh:
  "finite A \<Longrightarrow> x \<notin> A \<Longrightarrow> card (insert x A) = Suc (card A)"
  by simp

lemma card_remove_member:
  "finite A \<Longrightarrow> x \<in> A \<Longrightarrow> Suc (card (A - {x})) = card A"
  by (metis card.remove)

section \<open>Words\<close>

lemma unat_inc: "unat (x :: 'a::len word) + 1 < 2 ^ LENGTH('a) \<Longrightarrow> unat (x + 1) = unat x + 1"
  by (simp add: unat_word_ariths)

section \<open>Multiples of a unit\<close>

lemma multiple_gap:
  fixes x y c :: nat
  assumes "x mod c = 0" and "y mod c = 0" and "x < y"
  shows "x + c \<le> y"
proof -
  obtain k l where kl: "x = c * k" "y = c * l" using assms(1,2) by (auto simp: mod_eq_0_iff_dvd elim!: dvdE)
  then have "k < l" using assms(3) by (cases "c = 0") auto
  then have "c * (k + 1) \<le> c * l" by (intro mult_le_mono2) simp
  with kl show ?thesis by simp
qed

lemma below_ceiling:
  fixes a m :: nat
  assumes "a < (m + 4095) div 4096 * 4096"
  shows "a div 4096 * 4096 < m"
proof -
  have "a div 4096 < (m + 4095) div 4096" using assms by (rule less_mult_imp_div_less)
  then have "(a div 4096 + 1) * 4096 \<le> m + 4095"
    by (simp add: less_eq_div_iff_mult_less_eq Suc_le_eq [symmetric] del: Suc_le_eq)
  then show ?thesis by simp
qed

lemma le_ceiling: "(m :: nat) \<le> (m + 4095) div 4096 * 4096"
proof -
  have "(m + 4095) div 4096 * 4096 + (m + 4095) mod 4096 = m + 4095" by simp
  moreover have "(m + 4095) mod 4096 < 4096" by simp
  ultimately show ?thesis by linarith
qed

lemma less_ceiling: "a < m \<Longrightarrow> a < (m + 4095) div 4096 * 4096" for a m :: nat
  using le_ceiling [of m] by linarith

lemma same_unit:
  fixes a b :: nat
  assumes "b div 4096 * 4096 \<le> a" and "a div 4096 * 4096 < b"
  shows "b div 4096 \<le> a div 4096" and "a div 4096 \<le> b div 4096"
  using assms by (simp_all add: less_eq_div_iff_mult_less_eq)

section \<open>Walking round a ring\<close>

lemma ring_reach:
  fixes n start j :: nat
  assumes "j < n"
  shows "\<exists>i < n. (start + i) mod n = j"
proof -
  let ?r = "start mod n"
  have r: "?r < n" using assms by simp
  show ?thesis
  proof (cases "?r \<le> j")
    case True
    have "(start + (j - ?r)) mod n = (?r + (j - ?r)) mod n" by (rule mod_add_left_eq [symmetric])
    also have "\<dots> = j" using True assms by simp
    finally show ?thesis using assms by (intro exI [of _ "j - ?r"]) auto
  next
    case False
    have "(start + (j + n - ?r)) mod n = (?r + (j + n - ?r)) mod n" by (rule mod_add_left_eq [symmetric])
    also have "\<dots> = (j + n) mod n" using r by simp
    also have "\<dots> = j" using assms by simp
    finally show ?thesis using False r by (intro exI [of _ "j + n - ?r"]) auto
  qed
qed

lemma div_add_small: "a mod n + k < n \<Longrightarrow> (a + k) div n = a div n" for a k n :: nat
proof -
  assume less: "a mod n + k < n"
  have "a + k = a mod n + k + n * (a div n)" by simp
  then show "(a + k) div n = a div n" using less div_mult_self2 [of n "a mod n + k" "a div n"] by simp
qed

lemma sint_of_small: "k < 2 ^ 31 \<Longrightarrow> sint (of_nat k :: u32) = int k"
  using signed_take_bit_int_eq_self [of 31 "int k"] by (simp add: signed_of_nat)

lemma sint_small: "unat x < 2 ^ 31 \<Longrightarrow> sint x = int (unat x)" for x :: u32
  using sint_of_small [of "unat x"] by simp

text \<open>Division of C, towards zero.\<close>

definition cdiv :: "u32 \<Rightarrow> nat \<Rightarrow> u32" where
  "cdiv x n = word_of_int (if sint x \<ge> 0 then sint x div int n else - (- sint x div int n))"

definition cmod :: "u32 \<Rightarrow> nat \<Rightarrow> u32" where
  "cmod x n = x - cdiv x n * of_nat n"

lemma cdiv_cmod_small:
  assumes "unat x < 2 ^ 31" and "0 < n"
  shows "unat (cdiv x n) = unat x div n" "unat (cmod x n) = unat x mod n"
proof -
  have div: "cdiv x n = of_nat (unat x div n)"
    unfolding cdiv_def sint_small [OF assms(1)] by (simp only: of_nat_0_le_iff if_True zdiv_int [symmetric] of_int_of_nat_eq)
  moreover have "unat x div n < 2 ^ 32" by (rule le_less_trans [OF div_le_dividend]) (use assms(1) in simp)
  ultimately show "unat (cdiv x n) = unat x div n" by (simp add: unat_of_nat)
  have "x = of_nat (unat x div n * n + unat x mod n)" by (simp only: div_mult_mod_eq) simp
  then have "x = of_nat (unat x div n) * of_nat n + of_nat (unat x mod n)" by (simp only: of_nat_add of_nat_mult)
  then have "cmod x n = of_nat (unat x mod n)" unfolding cmod_def div by (metis add_diff_cancel_left')
  moreover have "unat x mod n < 2 ^ 32" by (rule le_less_trans [OF mod_less_eq_dividend]) (use assms(1) in simp)
  ultimately show "unat (cmod x n) = unat x mod n" by (simp add: unat_of_nat)
qed

section \<open>Bytes of words, and overwriting\<close>

lemma byte_lane:
  assumes "i < 4" and "j < 4"
  shows "(ucast (drop_bit (8 * i) (w AND NOT (push_bit (8 * j) 0xFF) OR push_bit (8 * j) (ucast b)) :: u32) :: u8) =
    (if i = j then b else ucast (drop_bit (8 * i) w))"
proof (rule bit_word_eqI)
  fix n :: nat
  assume "n < LENGTH(8)"
  then have n: "n < 8" by simp
  have ff: "(0xFF :: u32) = mask 8" by (simp add: mask_eq_exp_minus_1)
  have lane: "8 * j \<le> 8 * i + n \<and> 8 * i + n - 8 * j < 8 \<longleftrightarrow> i = j" using n by auto
  have high: "\<not> bit b m" if "8 \<le> m" for m using that bit_imp_le_length [of b m] by auto
  have bits: "8 * i + n < 32" using n assms by simp
  show "bit (ucast (drop_bit (8 * i) (w AND NOT (push_bit (8 * j) 0xFF) OR push_bit (8 * j) (ucast b)) :: u32) :: u8) n \<longleftrightarrow>
     bit (if i = j then b else ucast (drop_bit (8 * i) w)) n"
    unfolding ff using n lane bits high [of "8 * i + n - 8 * j"]
    by (auto simp: bit_simps)
qed

text \<open>Overwriting with a list of bytes from an offset on.\<close>

definition over :: "nat \<Rightarrow> 'a list \<Rightarrow> (nat \<Rightarrow> 'a) \<Rightarrow> nat \<Rightarrow> 'a" where
  "over k bs f = (\<lambda>i. if k \<le> i \<and> i < k + length bs then bs ! (i - k) else f i)"

lemma over_Nil [simp]: "over k [] f = f"
  by (auto simp: over_def fun_eq_iff)

lemma over_Cons: "over k (b # bs) f = over (Suc k) bs (f(k := b))"
  by (auto simp: over_def fun_eq_iff nth_Cons' Suc_diff_Suc)

lemma over_append: "over k (xs @ ys) f = over (k + length xs) ys (over k xs f)"
  by (auto simp: over_def fun_eq_iff nth_append)

lemma over_cong: "f i = g i \<Longrightarrow> over k xs f i = over k xs g i"
  by (simp add: over_def)

text \<open>The little-endian word at an offset.\<close>

definition word_at :: "(nat \<Rightarrow> u8) \<Rightarrow> nat \<Rightarrow> u32" where
  "word_at f k = ucast (ucast (f k) OR push_bit 8 (ucast (f (k + 1))) :: u16) OR
     push_bit 16 (ucast (ucast (f (k + 2)) OR push_bit 8 (ucast (f (k + 3))) :: u16))"

text \<open>Clearing the low bits rounds down.\<close>

lemma unat_clear_low: "unat (x AND NOT (mask n)) = unat x div 2 ^ n * 2 ^ n" for x :: u32
proof -
  have "(x AND NOT (mask n)) AND (x AND mask n) = 0" "(x AND NOT (mask n)) OR (x AND mask n) = x"
    by (rule bit_word_eqI, auto simp: bit_simps)+
  then have "x AND NOT (mask n) = x - (x AND mask n)"
    using word_plus_and_or [of "x AND NOT (mask n)" "x AND mask n"] by (simp add: algebra_simps)
  moreover have "unat (x AND mask n) = unat x mod 2 ^ n"
    unfolding take_bit_eq_mask [symmetric] unsigned_take_bit_eq by (rule take_bit_eq_mod)
  moreover have "x AND mask n \<le> x" by (simp add: word_le_nat_alt calculation(2))
  ultimately show ?thesis by (simp add: unat_sub minus_mod_eq_div_mult)
qed

end
