(* ===== verification/Mmu.thy ===== *)
theory Mmu
  imports Prelude
begin

text \<open>
  The address arithmetic of \<^verbatim>\<open>inc/mmu.h\<close>, \<^verbatim>\<open>inc/memlayout.h\<close> and \<^verbatim>\<open>inc/types.h\<close>: how a linear
  address splits into page directory index, page table index and offset, the permission bits
  of a page table entry, the rounding macros, and the constants of the virtual memory map.
  The lemmas read every macro as arithmetic on natural numbers, recompose an address from its
  parts, and show what an entry built from a page address and permission bits decodes to.
\<close>

unbundle bit_operations_syntax

section \<open>Linear addresses\<close>

definition PGNUM :: "u32 \<Rightarrow> u32" where
  "PGNUM la = drop_bit 12 la"

definition PDX :: "u32 \<Rightarrow> u32" where
  "PDX la = drop_bit 22 la AND 0x3FF"

definition PTX :: "u32 \<Rightarrow> u32" where
  "PTX la = drop_bit 12 la AND 0x3FF"

definition PGOFF :: "u32 \<Rightarrow> u32" where
  "PGOFF la = la AND 0xFFF"

definition PGADDR :: "u32 \<Rightarrow> u32 \<Rightarrow> u32 \<Rightarrow> u32" where
  "PGADDR d t off = push_bit 22 d OR push_bit 12 t OR off"

abbreviation NPDENTRIES :: nat where "NPDENTRIES \<equiv> 1024"
abbreviation NPTENTRIES :: nat where "NPTENTRIES \<equiv> 1024"
abbreviation PGSIZE :: u32 where "PGSIZE \<equiv> 4096"
abbreviation PTSIZE :: u32 where "PTSIZE \<equiv> 4194304"

section \<open>Page table entries\<close>

abbreviation PTE_P :: u32 where "PTE_P \<equiv> 0x001"
abbreviation PTE_W :: u32 where "PTE_W \<equiv> 0x002"
abbreviation PTE_U :: u32 where "PTE_U \<equiv> 0x004"
abbreviation PTE_PWT :: u32 where "PTE_PWT \<equiv> 0x008"
abbreviation PTE_PCD :: u32 where "PTE_PCD \<equiv> 0x010"
abbreviation PTE_D :: u32 where "PTE_D \<equiv> 0x040"
abbreviation PTE_AVAIL :: u32 where "PTE_AVAIL \<equiv> 0xE00"
definition PTE_SYSCALL :: u32 where
  "PTE_SYSCALL = PTE_AVAIL OR PTE_P OR PTE_W OR PTE_U"

definition PTE_ADDR :: "u32 \<Rightarrow> u32" where
  "PTE_ADDR pte = pte AND NOT 0xFFF"

section \<open>Virtual memory map\<close>

abbreviation KERNBASE :: u32 where "KERNBASE \<equiv> 0xF0000000"
abbreviation IOPHYSMEM :: u32 where "IOPHYSMEM \<equiv> 0x0A0000"
abbreviation EXTPHYSMEM :: u32 where "EXTPHYSMEM \<equiv> 0x100000"
abbreviation KSTACKTOP :: u32 where "KSTACKTOP \<equiv> KERNBASE"
abbreviation KSTKSIZE :: u32 where "KSTKSIZE \<equiv> 32768"
abbreviation KSTKGAP :: u32 where "KSTKGAP \<equiv> 32768"
definition MMIOLIM :: u32 where "MMIOLIM = KSTACKTOP - PTSIZE"
definition MMIOBASE :: u32 where "MMIOBASE = MMIOLIM - PTSIZE"
definition ULIM :: u32 where "ULIM = MMIOBASE"
definition UVPT :: u32 where "UVPT = ULIM - PTSIZE"
definition UPAGES :: u32 where "UPAGES = UVPT - PTSIZE"
definition UENVS :: u32 where "UENVS = UPAGES - PTSIZE"
definition UTOP :: u32 where "UTOP = UENVS"
definition UXSTACKTOP :: u32 where "UXSTACKTOP = UTOP"
definition USTACKTOP :: u32 where "USTACKTOP = UTOP - 2 * PGSIZE"
definition UTEXT :: u32 where "UTEXT = 2 * PTSIZE"
definition UTEMP :: u32 where "UTEMP = PTSIZE"
definition PFTEMP :: u32 where "PFTEMP = UTEMP + PTSIZE - PGSIZE"
abbreviation MPENTRY_PADDR :: u32 where "MPENTRY_PADDR \<equiv> 0x7000"

section \<open>Rounding\<close>

definition ROUNDDOWN :: "u32 \<Rightarrow> u32 \<Rightarrow> u32" where
  "ROUNDDOWN a n = a - a mod n"

definition ROUNDUP :: "u32 \<Rightarrow> u32 \<Rightarrow> u32" where
  "ROUNDUP a n = ROUNDDOWN (a + n - 1) n"

section \<open>The macros as arithmetic\<close>

lemma layout_values:
  "MMIOLIM = 0xEFC00000" "MMIOBASE = 0xEF800000" "ULIM = 0xEF800000" "UVPT = 0xEF400000"
  "UPAGES = 0xEF000000" "UENVS = 0xEEC00000" "UTOP = 0xEEC00000" "UXSTACKTOP = 0xEEC00000"
  "USTACKTOP = 0xEEBFE000" "UTEXT = 0x00800000" "UTEMP = 0x00400000" "PFTEMP = 0x007FF000"
  "PTE_SYSCALL = 0xE07"
  by (simp_all add: MMIOLIM_def MMIOBASE_def ULIM_def UVPT_def UPAGES_def UENVS_def UTOP_def
      UXSTACKTOP_def USTACKTOP_def UTEXT_def UTEMP_def PFTEMP_def PTE_SYSCALL_def)

lemma mask_0x3FF: "(0x3FF :: u32) = mask 10"
  by (simp add: mask_eq_exp_minus_1)

lemma mask_0xFFF: "(0xFFF :: u32) = mask 12"
  by (simp add: mask_eq_exp_minus_1)

lemma unat_PGNUM [mmu_simps]: "unat (PGNUM la) = unat la div 4096"
  by (simp add: PGNUM_def drop_bit_eq_div unat_div)

lemma unat_PGOFF [mmu_simps]: "unat (PGOFF la) = unat la mod 4096"
  unfolding PGOFF_def mask_0xFFF
  by (simp add: take_bit_eq_mask [symmetric] take_bit_eq_mod unat_mod)

lemma unat_PTX [mmu_simps]: "unat (PTX la) = unat la div 4096 mod 1024"
  unfolding PTX_def mask_0x3FF
  by (simp add: take_bit_eq_mask [symmetric] take_bit_eq_mod drop_bit_eq_div unat_mod unat_div)

lemma unat_div_4M_bound: "unat (la :: u32) div 4194304 < 1024"
  using unsigned_less [of la, where 'a = nat] by (simp add: div_less_iff_less_mult)

lemma unat_PDX [mmu_simps]: "unat (PDX la) = unat la div 4194304"
  unfolding PDX_def mask_0x3FF
  using unat_div_4M_bound [of la]
  by (simp add: take_bit_eq_mask [symmetric] take_bit_eq_mod drop_bit_eq_div unat_mod unat_div)

lemma PDX_bound [simp]: "unat (PDX la) < 1024"
  by (simp add: unat_PDX unat_div_4M_bound)

lemma PTX_bound [simp]: "unat (PTX la) < 1024"
  by (simp add: unat_PTX)

lemma PGOFF_bound [simp]: "unat (PGOFF la) < 4096"
  by (simp add: unat_PGOFF)

lemma PTE_ADDR_add_PGOFF: "PTE_ADDR pte + PGOFF pte = pte"
proof -
  have "PTE_ADDR pte AND PGOFF pte = 0"
    unfolding PTE_ADDR_def PGOFF_def by (rule bit_word_eqI) (auto simp: bit_simps)
  moreover have "PTE_ADDR pte OR PGOFF pte = pte"
    unfolding PTE_ADDR_def PGOFF_def by (rule bit_word_eqI) (auto simp: bit_simps)
  ultimately show ?thesis
    using word_plus_and_or [of "PTE_ADDR pte" "PGOFF pte"] by simp
qed

lemma unat_PTE_ADDR [mmu_simps]: "unat (PTE_ADDR pte) = unat pte - unat pte mod 4096"
proof -
  have "PTE_ADDR pte = pte - PGOFF pte"
    using PTE_ADDR_add_PGOFF [of pte] by (simp add: algebra_simps)
  moreover have "PGOFF pte \<le> pte"
    by (simp add: word_le_nat_alt unat_PGOFF)
  ultimately show ?thesis by (simp add: unat_sub unat_PGOFF)
qed

lemma PGNUM_PTE_ADDR [simp]: "PGNUM (PTE_ADDR pte) = PGNUM pte"
proof (rule bit_word_eqI)
  fix n :: nat
  assume "n < LENGTH(32)"
  then show "bit (PGNUM (PTE_ADDR pte)) n \<longleftrightarrow> bit (PGNUM pte) n"
    using bit_imp_le_length [of pte "12 + n"]
    by (auto simp: PGNUM_def PTE_ADDR_def mask_0xFFF bit_simps)
qed

lemma unat_ROUNDDOWN [mmu_simps]: "unat (ROUNDDOWN a n) = unat a - unat a mod unat n"
proof -
  have "a mod n \<le> a" by (simp add: word_le_nat_alt unat_mod)
  then show ?thesis by (simp add: ROUNDDOWN_def unat_sub unat_mod)
qed

text \<open>
  Rounding up is exact only when the addition does not wrap: near the top of the address
  space \<open>ROUNDUP\<close> of a nonzero value is \<open>0\<close>.
\<close>

lemma unat_ROUNDUP:
  assumes "unat a + unat n \<le> 2 ^ 32" and "n \<noteq> 0"
  shows "unat (ROUNDUP a n) = (unat a + unat n - 1) div unat n * unat n"
proof -
  have pos: "0 < unat n" using assms(2) by (simp add: unat_gt_0)
  have "unat (a + n - 1) = unat a + unat n - 1"
  proof -
    have "unat (a + (n - 1)) = unat a + unat (n - 1)"
    proof (rule unat_add_lem [THEN iffD1])
      show "unat a + unat (n - 1) < 2 ^ LENGTH(32)"
        using assms pos by (simp add: unat_minus_one)
    qed
    with assms pos show ?thesis by (simp add: unat_minus_one algebra_simps)
  qed
  then show ?thesis
    by (simp add: ROUNDUP_def unat_ROUNDDOWN minus_mod_eq_div_mult)
qed

lemma ROUNDUP_wraps: "ROUNDUP 0xFFFFF001 PGSIZE = 0"
  by (simp add: ROUNDUP_def ROUNDDOWN_def)

section \<open>Decomposing and recomposing addresses\<close>

lemma PGADDR_parts: "PGADDR (PDX la) (PTX la) (PGOFF la) = la"
proof (rule bit_word_eqI)
  fix n :: nat
  assume "n < LENGTH(32)"
  then have "n < 12 \<or> 12 \<le> n \<and> n < 22 \<or> 22 \<le> n \<and> n < 32" by auto
  then show "bit (PGADDR (PDX la) (PTX la) (PGOFF la)) n \<longleftrightarrow> bit la n"
    by (auto simp: PGADDR_def PDX_def PTX_def PGOFF_def mask_0x3FF mask_0xFFF bit_simps)
qed

lemma small_bits:
  assumes "unat (x :: u32) < 2 ^ k" and "bit x n"
  shows "n < k"
proof -
  from assms(1) have "take_bit k (unat x) = unat x" by (rule take_bit_nat_eq_self)
  moreover from assms(2) have "bit (unat x) n"
    by (simp add: bit_unsigned_iff bit_imp_le_length)
  ultimately show ?thesis by (metis bit_take_bit_iff)
qed

lemma PDX_PGADDR:
  assumes "unat d < 1024" and "unat t < 1024" and "unat off < 4096"
  shows "PDX (PGADDR d t off) = d" and "PTX (PGADDR d t off) = t"
    and "PGOFF (PGADDR d t off) = off"
proof -
  have d: "n < 10" if "bit d n" for n using small_bits [of d 10 n] assms(1) that by simp
  have t: "n < 10" if "bit t n" for n using small_bits [of t 10 n] assms(2) that by simp
  have off: "n < 12" if "bit off n" for n using small_bits [of off 12 n] assms(3) that by simp
  show "PDX (PGADDR d t off) = d"
    by (rule bit_word_eqI)
      (auto simp: PDX_def PGADDR_def mask_0x3FF bit_simps dest: d t off)
  show "PTX (PGADDR d t off) = t"
    by (rule bit_word_eqI)
      (auto simp: PTX_def PGADDR_def mask_0x3FF bit_simps dest: d t off)
  show "PGOFF (PGADDR d t off) = off"
    by (rule bit_word_eqI)
      (auto simp: PGOFF_def PGADDR_def mask_0xFFF bit_simps dest: d t off)
qed

section \<open>Entries built from a page number and permission bits\<close>

text \<open>
  \<open>mk_pte n perm\<close> is the value the code stores for page \<open>n\<close> with permission bits \<open>perm\<close>;
  \<open>pfn\<close> and the flag tests read it back, provided \<open>perm\<close> stays within the low twelve bits.
\<close>

definition pfn :: "u32 \<Rightarrow> nat" where
  "pfn pte = unat (PGNUM (PTE_ADDR pte))"

definition present :: "u32 \<Rightarrow> bool" where
  "present pte \<longleftrightarrow> pte AND PTE_P \<noteq> 0"

definition perm_bits :: "u32 \<Rightarrow> bool" where
  "perm_bits perm \<longleftrightarrow> perm AND NOT 0xFFF = 0"

definition mk_pte :: "nat \<Rightarrow> u32 \<Rightarrow> u32" where
  "mk_pte n perm = push_bit 12 (of_nat n) OR perm OR PTE_P"

lemma present_iff_bit: "present pte \<longleftrightarrow> bit pte 0"
proof -
  have "pte AND 1 = of_bool (odd pte)" by (simp add: and_one_eq mod2_eq_if)
  then show ?thesis by (simp add: present_def bit_0)
qed

lemma present_mk_pte [simp]: "present (mk_pte n perm)"
  unfolding present_iff_bit mk_pte_def bit_or_iff by simp

lemma not_present_0 [simp]: "\<not> present 0"
  by (simp add: present_def)

lemma perm_bits_bit: "perm_bits perm \<Longrightarrow> bit perm n \<Longrightarrow> n < 12"
  unfolding perm_bits_def mask_0xFFF
  by (metis bit_and_iff bit_imp_le_length bit_mask_iff bit_not_iff_eq bit_0_eq bot_apply
      bot_bool_def min.cobounded1 min_less_iff_conj not_less possible_bit_def possible_bit_word)

lemma perm_bits_PTE_P: "bit PTE_P n \<Longrightarrow> n < 12"
  by (simp add: bit_1_iff)

lemma pfn_mk_pte:
  assumes "n < 2 ^ 20" and "perm_bits perm"
  shows "pfn (mk_pte n perm) = n"
proof -
  have small: "unat (of_nat n :: u32) = n"
    using assms(1) by (simp add: unat_of_nat)
  have "PGNUM (mk_pte n perm) = of_nat n"
  proof (rule bit_word_eqI)
    fix k :: nat
    assume "k < LENGTH(32)"
    moreover have "\<not> bit perm (12 + k)" using perm_bits_bit [OF assms(2)] by force
    moreover have "\<not> bit PTE_P (12 + k)" by (simp add: bit_1_iff)
    moreover have "k < 20" if "bit (of_nat n :: u32) k"
      using small_bits [OF _ that, of 20] small assms(1) by simp
    ultimately show "bit (PGNUM (mk_pte n perm)) k \<longleftrightarrow> bit (of_nat n :: u32) k"
      by (auto simp: PGNUM_def mk_pte_def bit_simps)
  qed
  then show ?thesis by (simp add: pfn_def small)
qed

lemma mk_pte_flags:
  assumes "unat f < 4096"
  shows "mk_pte n perm AND f = (perm OR PTE_P) AND f"
proof (rule bit_word_eqI)
  fix k :: nat
  have "k < 12" if "bit f k" using small_bits [OF _ that, of 12] assms by simp
  then show "bit (mk_pte n perm AND f) k \<longleftrightarrow> bit ((perm OR PTE_P) AND f) k"
    by (auto simp: mk_pte_def bit_simps)
qed

end
