(* ===== verification/Fifo.thy ===== *)
theory Fifo
  imports Prelude
begin

text \<open>
  First-in first-out queues: the contract \<open>fifo\<close> that the console input buffer, the network card's
  descriptor rings and pipes keep, what a client may conclude from it, and the arithmetic of ring
  buffers that the implementations share.
\<close>

section \<open>The contract\<close>

fun get_n :: "('s \<Rightarrow> 'a option \<times> 's) \<Rightarrow> nat \<Rightarrow> 's \<Rightarrow> 'a list \<times> 's" where
  "get_n get 0 s = ([], s)"
| "get_n get (Suc n) s =
     (case get s of
        (None, s) \<Rightarrow> ([], s)
      | (Some x, s) \<Rightarrow> (case get_n get n s of (xs, s) \<Rightarrow> (x # xs, s)))"

locale fifo =
  fixes inv :: "'s \<Rightarrow> bool" and items :: "'s \<Rightarrow> 'a list" and cap :: nat
    and put :: "'a \<Rightarrow> 's \<Rightarrow> 's" and get :: "'s \<Rightarrow> 'a option \<times> 's"
  assumes put_law: "inv s \<Longrightarrow> length (items s) < cap \<Longrightarrow> inv (put x s) \<and> items (put x s) = items s @ [x]"
    and get_Nil: "inv s \<Longrightarrow> items s = [] \<Longrightarrow> get s = (None, s)"
    and get_Cons: "inv s \<Longrightarrow> items s = x # xs \<Longrightarrow> \<exists>s'. get s = (Some x, s') \<and> inv s' \<and> items s' = xs"
begin

lemma put_all:
  "inv s \<Longrightarrow> length (items s) + length xs \<le> cap \<Longrightarrow>
    inv (fold put xs s) \<and> items (fold put xs s) = items s @ xs"
proof (induction xs arbitrary: s)
  case Nil
  then show ?case by simp
next
  case (Cons x xs)
  then show ?case using put_law [of s x] Cons.IH [of "put x s"] by simp
qed

lemma get_all:
  "inv s \<Longrightarrow> items s = xs @ ys \<Longrightarrow>
    \<exists>s'. get_n get (length xs) s = (xs, s') \<and> inv s' \<and> items s' = ys"
proof (induction xs arbitrary: s)
  case Nil
  then show ?case by simp
next
  case (Cons x xs)
  then obtain s' where "get s = (Some x, s')" "inv s'" "items s' = xs @ ys"
    using get_Cons [of s x "xs @ ys"] by auto
  with Cons.IH [of s'] show ?case by auto
qed

lemma in_order:
  assumes "inv s" and "items s = []" and "length xs \<le> cap"
  shows "\<exists>s'. get_n get (length xs) (fold put xs s) = (xs, s') \<and> inv s' \<and> items s' = []"
  using put_all [OF assms(1), of xs] get_all [of "fold put xs s" xs "[]"] assms by simp

end

section \<open>Ring buffers\<close>

definition ring :: "(nat \<Rightarrow> 'a) \<Rightarrow> nat \<Rightarrow> nat \<Rightarrow> nat \<Rightarrow> 'a list" where
  "ring buf n r k = map (\<lambda>i. buf ((r + i) mod n)) [0..<k]"

lemma ring_0 [simp]: "ring buf n r 0 = []"
  by (simp add: ring_def)

lemma length_ring [simp]: "length (ring buf n r k) = k"
  by (simp add: ring_def)

lemma ring_Suc: "ring buf n r (Suc k) = buf (r mod n) # ring buf n (Suc r) k"
  by (simp add: ring_def upt_conv_Cons map_Suc_upt [symmetric] del: upt_Suc)

lemma ring_mod: "ring buf n (r mod n) k = ring buf n r k"
  by (simp add: ring_def mod_add_left_eq)

lemma ring_slots_le:
  fixes n :: nat
  assumes "i \<le> j" and "j < n" and "(r + i) mod n = (r + j) mod n"
  shows "i = j"
proof -
  have "n dvd (r + j) - (r + i)"
    using assms(1,3) by (subst mod_eq_dvd_iff_nat [symmetric]) simp_all
  then have "n dvd j - i" by simp
  then show ?thesis using assms(1,2) by (auto dest: dvd_imp_le)
qed

lemma ring_slots_distinct:
  fixes n :: nat
  assumes "i < n" and "j < n" and "(r + i) mod n = (r + j) mod n"
  shows "i = j"
  using ring_slots_le [of i j n r] ring_slots_le [of j i n r] assms by (cases "i \<le> j") auto

lemma ring_put:
  assumes "k < n"
  shows "ring (buf((r + k) mod n := x)) n r (Suc k) = ring buf n r k @ [x]"
proof -
  have "(r + i) mod n \<noteq> (r + k) mod n" if "i < k" for i
    using ring_slots_distinct [of i n k r] that assms by auto
  then show ?thesis by (simp add: ring_def)
qed

lemma ring_cong:
  "(\<And>i. i < k \<Longrightarrow> f ((r + i) mod n) = g ((r + i) mod n)) \<Longrightarrow> ring f n r k = ring g n r k"
  by (simp add: ring_def)

text \<open>A position that is stepped and reset at the end of the buffer.\<close>

definition ring_step :: "nat \<Rightarrow> nat \<Rightarrow> nat" where
  "ring_step n p = (if p + 1 = n then 0 else p + 1)"

lemma ring_step_mod: "p < n \<Longrightarrow> ring_step n p = Suc p mod n"
  by (auto simp: ring_step_def)

text \<open>How many slots lie between a read and a write position.\<close>

definition ring_count :: "nat \<Rightarrow> nat \<Rightarrow> nat \<Rightarrow> nat" where
  "ring_count n r w = (if r \<le> w then w - r else w + n - r)"

lemma ring_count_bound: "r < n \<Longrightarrow> w < n \<Longrightarrow> ring_count n r w < n"
  by (auto simp: ring_count_def)

lemma ring_count_pos: "r < n \<Longrightarrow> w < n \<Longrightarrow> (r + ring_count n r w) mod n = w"
  by (auto simp: ring_count_def)

lemma ring_count_0: "r < n \<Longrightarrow> w < n \<Longrightarrow> ring_count n r w = 0 \<longleftrightarrow> r = w"
  by (auto simp: ring_count_def)

lemma ring_count_put:
  assumes "r < n" and "w < n" and "ring_count n r w < n - 1"
  shows "ring_count n r (ring_step n w) = Suc (ring_count n r w)"
  using assms by (auto simp: ring_count_def ring_step_def split: if_splits)

lemma ring_count_get:
  assumes "r < n" and "w < n" and "r \<noteq> w"
  shows "Suc (ring_count n (ring_step n r) w) = ring_count n r w"
  using assms by (auto simp: ring_count_def ring_step_def split: if_splits)

end
