(* ===== verification/Console.thy ===== *)
theory Console
  imports Fifo
begin

text \<open>
  The console, \<^verbatim>\<open>kern/console.c\<close>: the keyboard translation, the circular input buffer fed by the
  keyboard and the serial port, and the text display.

  The devices are the state fields \<open>kbd_port\<close> and \<open>serial_port\<close> (what the controllers will answer to
  the next reads, as status and data bytes; empty means that the status shows no data) and
  \<open>serial_tx\<close> and \<open>lpt_tx\<close> (the bytes written to the ports, latest first). Waiting for a device to
  become ready and the cursor registers are left out.
\<close>

unbundle bit_operations_syntax

abbreviation CONSBUFSIZE :: nat where "CONSBUFSIZE \<equiv> 512"
abbreviation CRT_COLS :: nat where "CRT_COLS \<equiv> 80"
abbreviation CRT_SIZE :: nat where "CRT_SIZE \<equiv> 2000"

record Console =
  cons_buf :: "nat \<Rightarrow> u8"
  cons_rpos :: nat
  cons_wpos :: nat
  kbd_shift :: u32
  kbd_port :: "(u8 \<times> u8) list"
  serial_exists :: bool
  serial_port :: "u8 list"
  serial_tx :: "u8 list"
  lpt_tx :: "u8 list"
  crt_buf :: "nat \<Rightarrow> u16"
  crt_pos :: nat

section \<open>Keyboard\<close>

abbreviation SHIFT :: u32 where "SHIFT \<equiv> 1"
abbreviation CTL :: u32 where "CTL \<equiv> 2"
abbreviation ALT :: u32 where "ALT \<equiv> 4"
abbreviation CAPSLOCK :: u32 where "CAPSLOCK \<equiv> 8"
abbreviation NUMLOCK :: u32 where "NUMLOCK \<equiv> 16"
abbreviation SCROLLLOCK :: u32 where "SCROLLLOCK \<equiv> 32"
abbreviation E0ESC :: u32 where "E0ESC \<equiv> 64"
abbreviation KBS_DIB :: u8 where "KBS_DIB \<equiv> 0x01"
abbreviation KBS_TERR :: u8 where "KBS_TERR \<equiv> 0x20"

definition shiftcode :: "u8 \<Rightarrow> u32" where
  "shiftcode data =
     (if data = 0x1D \<or> data = 0x9D then CTL
      else if data = 0x2A \<or> data = 0x36 then SHIFT
      else if data = 0x38 \<or> data = 0xB8 then ALT else 0)"

definition togglecode :: "u8 \<Rightarrow> u32" where
  "togglecode data =
     (if data = 0x3A then CAPSLOCK else if data = 0x45 then NUMLOCK
      else if data = 0x46 then SCROLLLOCK else 0)"

text \<open>A table of 256 codes: the listed prefix, the designated entries, zero elsewhere.\<close>

definition keymap :: "u8 list \<Rightarrow> (nat \<times> u8) list \<Rightarrow> nat \<Rightarrow> u8" where
  "keymap pre ents i =
     (case map_of ents i of Some c \<Rightarrow> c | None \<Rightarrow> if i < length pre then pre ! i else 0)"

definition normalmap :: "nat \<Rightarrow> u8" where
  "normalmap = keymap
    [0, 27, 49, 50, 51, 52, 53, 54, 55, 56, 57, 48, 45, 61, 8, 9,
     113, 119, 101, 114, 116, 121, 117, 105, 111, 112, 91, 93, 10, 0, 97, 115,
     100, 102, 103, 104, 106, 107, 108, 59, 39, 96, 0, 92, 122, 120, 99, 118,
     98, 110, 109, 44, 46, 47, 0, 42, 0, 32, 0, 0, 0, 0, 0, 0,
     0, 0, 0, 0, 0, 0, 0, 55, 56, 57, 45, 52, 53, 54, 43, 49,
     50, 51, 48, 46, 0, 0, 0, 0]
    [(0xC7, 224), (0x9C, 10), (0xB5, 47), (0xC8, 226), (0xC9, 230), (0xCB, 228), (0xCD, 229), (0xCF, 225), (0xD0, 227), (0xD1, 231), (0xD2, 232), (0xD3, 233)]"

definition shiftmap :: "nat \<Rightarrow> u8" where
  "shiftmap = keymap
    [0, 27, 33, 64, 35, 36, 37, 94, 38, 42, 40, 41, 95, 43, 8, 9,
     81, 87, 69, 82, 84, 89, 85, 73, 79, 80, 123, 125, 10, 0, 65, 83,
     68, 70, 71, 72, 74, 75, 76, 58, 34, 126, 0, 124, 90, 88, 67, 86,
     66, 78, 77, 60, 62, 63, 0, 42, 0, 32, 0, 0, 0, 0, 0, 0,
     0, 0, 0, 0, 0, 0, 0, 55, 56, 57, 45, 52, 53, 54, 43, 49,
     50, 51, 48, 46, 0, 0, 0, 0]
    [(0xC7, 224), (0x9C, 10), (0xB5, 47), (0xC8, 226), (0xC9, 230), (0xCB, 228), (0xCD, 229), (0xCF, 225), (0xD0, 227), (0xD1, 231), (0xD2, 232), (0xD3, 233)]"

definition ctlmap :: "nat \<Rightarrow> u8" where
  "ctlmap = keymap
    [0, 0, 0, 0, 0, 0, 0, 0, 0, 0, 0, 0, 0, 0, 0, 0,
     17, 23, 5, 18, 20, 25, 21, 9, 15, 16, 0, 0, 13, 0, 1, 19,
     4, 6, 7, 8, 10, 11, 12, 0, 0, 0, 0, 28, 26, 24, 3, 22,
     2, 14, 13, 0, 0, 239, 0, 0]
    [(0x97, 224), (0xB5, 239), (0xC8, 226), (0xC9, 230), (0xCB, 228), (0xCD, 229), (0xCF, 225), (0xD0, 227), (0xD1, 231), (0xD2, 232), (0xD3, 233)]"

definition charcode :: "u32 \<Rightarrow> nat \<Rightarrow> u8" where
  "charcode k = (if k = 0 then normalmap else if k = SHIFT then shiftmap else ctlmap)"

definition kbd_proc_data :: "Console \<Rightarrow> int \<times> Console" where
  "kbd_proc_data s =
     (case kbd_port s of
        [] \<Rightarrow> (- 1, s)
      | (stat, data) # rest \<Rightarrow>
          if stat AND KBS_DIB = 0 then (- 1, s)
          else if stat AND KBS_TERR \<noteq> 0 then (- 1, s)
          else
            let s = s\<lparr>kbd_port := rest\<rparr>; shift = kbd_shift s in
            if data = 0xE0 then (0, s\<lparr>kbd_shift := shift OR E0ESC\<rparr>)
            else if data AND 0x80 \<noteq> 0 then
              let data = (if shift AND E0ESC \<noteq> 0 then data else data AND 0x7F)
              in (0, s\<lparr>kbd_shift := shift AND NOT (shiftcode data OR E0ESC)\<rparr>)
            else
              let esc = shift AND E0ESC \<noteq> 0;
                  data = (if esc then data OR 0x80 else data);
                  shift = (if esc then shift AND NOT E0ESC else shift);
                  shift = shift OR shiftcode data;
                  shift = shift XOR togglecode data;
                  c = charcode (shift AND (CTL OR SHIFT)) (unat data);
                  c = (if shift AND CAPSLOCK \<noteq> 0 then
                         if 97 \<le> c \<and> c \<le> 122 then c - 32
                         else if 65 \<le> c \<and> c \<le> 90 then c + 32 else c
                       else c)
              in (int (unat c), s\<lparr>kbd_shift := shift\<rparr>))"

section \<open>Input buffer\<close>

definition serial_proc_data :: "Console \<Rightarrow> int \<times> Console" where
  "serial_proc_data s =
     (case serial_port s of [] \<Rightarrow> (- 1, s) | c # rest \<Rightarrow> (int (unat c), s\<lparr>serial_port := rest\<rparr>))"

text \<open>One character into the buffer, the body of the loop of \<^verbatim>\<open>cons_intr\<close>.\<close>

definition cons_put :: "u8 \<Rightarrow> Console \<Rightarrow> Console" where
  "cons_put c s =
     (let s = s\<lparr>cons_buf := (cons_buf s)(cons_wpos s := c), cons_wpos := cons_wpos s + 1\<rparr>
      in if cons_wpos s = CONSBUFSIZE then s\<lparr>cons_wpos := 0\<rparr> else s)"

partial_function (option) cons_intr :: "(Console \<Rightarrow> int \<times> Console) \<Rightarrow> Console \<Rightarrow> Console option" where
  "cons_intr proc s =
     (case proc s of
        (c, s) \<Rightarrow>
          if c = - 1 then Some s
          else if c = 0 then cons_intr proc s
          else cons_intr proc (cons_put (of_int c) s))"

definition serial_intr :: "Console \<Rightarrow> Console option" where
  "serial_intr s = (if serial_exists s then cons_intr serial_proc_data s else Some s)"

definition kbd_intr :: "Console \<Rightarrow> Console option" where
  "kbd_intr s = cons_intr kbd_proc_data s"

text \<open>Taking a character from the buffer, the second half of \<^verbatim>\<open>cons_getc\<close>.\<close>

definition cons_take :: "Console \<Rightarrow> u8 option \<times> Console" where
  "cons_take s =
     (if cons_rpos s \<noteq> cons_wpos s then
        let c = cons_buf s (cons_rpos s);
            s = s\<lparr>cons_rpos := cons_rpos s + 1\<rparr>;
            s = (if cons_rpos s = CONSBUFSIZE then s\<lparr>cons_rpos := 0\<rparr> else s)
        in (Some c, s)
      else (None, s))"

definition cons_getc :: "Console \<Rightarrow> (int \<times> Console) option" where
  "cons_getc s =
     do { s \<leftarrow> serial_intr s;
          s \<leftarrow> kbd_intr s;
          Some (case cons_take s of
                  (Some c, s) \<Rightarrow> (int (unat c), s)
                | (None, s) \<Rightarrow> (0, s)) }"

text \<open>Reading characters one call after the other, as the monitor's line editor does.\<close>

fun read_chars :: "nat \<Rightarrow> Console \<Rightarrow> (int list \<times> Console) option" where
  "read_chars 0 s = Some ([], s)"
| "read_chars (Suc n) s =
     do { (c, s) \<leftarrow> cons_getc s; (cs, s) \<leftarrow> read_chars n s; Some (c # cs, s) }"

section \<open>Output\<close>

definition serial_putc :: "u32 \<Rightarrow> Console \<Rightarrow> Console" where
  "serial_putc c s = s\<lparr>serial_tx := ucast c # serial_tx s\<rparr>"

definition lpt_putc :: "u32 \<Rightarrow> Console \<Rightarrow> Console" where
  "lpt_putc c s = s\<lparr>lpt_tx := ucast c # lpt_tx s\<rparr>"

definition cga_scroll :: "Console \<Rightarrow> Console" where
  "cga_scroll s =
     (if CRT_SIZE \<le> crt_pos s
      then s\<lparr>crt_buf := (\<lambda>i. if i < CRT_SIZE - CRT_COLS then crt_buf s (i + CRT_COLS)
                             else if i < CRT_SIZE then 0x0700 OR 32 else crt_buf s i),
             crt_pos := crt_pos s - CRT_COLS\<rparr>
      else s)"

text \<open>\<^verbatim>\<open>cga_putc\<close> of a character other than a tab. \<^verbatim>\<open>crt_pos\<close> is 16 bits wide and stays far below 65536.\<close>

definition cga_plain :: "u32 \<Rightarrow> Console \<Rightarrow> Console" where
  "cga_plain c s =
     (let c = (if c AND NOT 0xFF = 0 then c OR 0x0700 else c);
          low = c AND 0xFF;
          s = (if low = 8 then
                 if 0 < crt_pos s
                 then s\<lparr>crt_pos := crt_pos s - 1,
                        crt_buf := (crt_buf s)(crt_pos s - 1 := ucast ((c AND NOT 0xFF) OR 32))\<rparr>
                 else s
               else if low = 10 then
                 s\<lparr>crt_pos := (crt_pos s + CRT_COLS) - (crt_pos s + CRT_COLS) mod CRT_COLS\<rparr>
               else if low = 13 then s\<lparr>crt_pos := crt_pos s - crt_pos s mod CRT_COLS\<rparr>
               else s\<lparr>crt_buf := (crt_buf s)(crt_pos s := ucast c), crt_pos := crt_pos s + 1\<rparr>)
      in cga_scroll s)"

definition put_space :: "Console \<Rightarrow> Console" where
  "put_space s = cga_plain 32 (lpt_putc 32 (serial_putc 32 s))"

definition cga_putc :: "u32 \<Rightarrow> Console \<Rightarrow> Console" where
  "cga_putc c s = (if c AND 0xFF = 9 then cga_scroll ((put_space ^^ 5) s) else cga_plain c s)"

definition cons_putc :: "u32 \<Rightarrow> Console \<Rightarrow> Console" where
  "cons_putc c s = cga_putc c (lpt_putc c (serial_putc c s))"

section \<open>The input buffer is a queue\<close>

definition cons_inv :: "Console \<Rightarrow> bool" where
  "cons_inv s \<longleftrightarrow> cons_rpos s < CONSBUFSIZE \<and> cons_wpos s < CONSBUFSIZE"

definition cons_items :: "Console \<Rightarrow> u8 list" where
  "cons_items s = ring (cons_buf s) CONSBUFSIZE (cons_rpos s) (ring_count CONSBUFSIZE (cons_rpos s) (cons_wpos s))"

lemma cons_put_step:
  "cons_put c s = s\<lparr>cons_buf := (cons_buf s)(cons_wpos s := c), cons_wpos := ring_step CONSBUFSIZE (cons_wpos s)\<rparr>"
  by (simp add: cons_put_def ring_step_def Let_def)

lemma cons_take_step:
  "cons_take s = (if cons_rpos s \<noteq> cons_wpos s
     then (Some (cons_buf s (cons_rpos s)), s\<lparr>cons_rpos := ring_step CONSBUFSIZE (cons_rpos s)\<rparr>) else (None, s))"
  by (simp add: cons_take_def ring_step_def Let_def)

interpretation consq: fifo cons_inv cons_items "CONSBUFSIZE - 1" cons_put cons_take
proof unfold_locales
  fix s x
  assume inv: "cons_inv s" and room: "length (cons_items s) < CONSBUFSIZE - 1"
  let ?k = "ring_count CONSBUFSIZE (cons_rpos s) (cons_wpos s)"
  have r: "cons_rpos s < CONSBUFSIZE" "cons_wpos s < CONSBUFSIZE" "?k < CONSBUFSIZE - 1"
    using inv room by (simp_all add: cons_inv_def cons_items_def)
  have "ring ((cons_buf s)(cons_wpos s := x)) CONSBUFSIZE (cons_rpos s) (Suc ?k) = cons_items s @ [x]"
    using ring_put [of ?k CONSBUFSIZE "cons_buf s" "cons_rpos s" x] ring_count_pos [OF r(1,2)] r(3)
    by (simp add: cons_items_def)
  moreover have "ring_step CONSBUFSIZE (cons_wpos s) < CONSBUFSIZE" using r(2) by (simp add: ring_step_def)
  ultimately show "cons_inv (cons_put x s) \<and> cons_items (cons_put x s) = cons_items s @ [x]"
    using ring_count_put [OF r] r(1) by (simp add: cons_put_step cons_inv_def cons_items_def)
next
  fix s
  assume "cons_inv s" "cons_items s = []"
  then have "ring_count CONSBUFSIZE (cons_rpos s) (cons_wpos s) = 0"
    by (metis cons_items_def length_ring list.size(3))
  with \<open>cons_inv s\<close> show "cons_take s = (None, s)"
    by (simp add: cons_take_step cons_inv_def ring_count_0)
next
  fix s x xs
  assume inv: "cons_inv s" and it: "cons_items s = x # xs"
  then have r: "cons_rpos s < CONSBUFSIZE" "cons_wpos s < CONSBUFSIZE" by (simp_all add: cons_inv_def)
  have ne: "cons_rpos s \<noteq> cons_wpos s"
    using it ring_count_0 [OF r] by (auto simp: cons_items_def)
  let ?k = "ring_count CONSBUFSIZE (ring_step CONSBUFSIZE (cons_rpos s)) (cons_wpos s)"
  have "cons_items s = cons_buf s (cons_rpos s) #
      ring (cons_buf s) CONSBUFSIZE (ring_step CONSBUFSIZE (cons_rpos s)) ?k"
    unfolding cons_items_def ring_count_get [OF r ne, symmetric] ring_Suc
    using r(1) by (simp add: ring_step_mod ring_mod)
  then show "\<exists>s'. cons_take s = (Some x, s') \<and> cons_inv s' \<and> cons_items s' = xs"
    using ne it r by (auto simp: cons_take_step cons_inv_def cons_items_def ring_step_def)
qed

section \<open>Draining the devices\<close>

lemma cons_put_serial: "cons_put c (s\<lparr>serial_port := x\<rparr>) = (cons_put c s)\<lparr>serial_port := x\<rparr>"
  by (cases s) (simp add: cons_put_step)

lemma serial_drain:
  "cons_intr serial_proc_data s = Some (fold cons_put (filter (\<lambda>c. c \<noteq> 0) (serial_port s)) (s\<lparr>serial_port := []\<rparr>))"
proof (induction "serial_port s" arbitrary: s)
  case Nil
  then show ?case by (subst cons_intr.simps) (simp add: serial_proc_data_def)
next
  case (Cons c cs)
  let ?s = "s\<lparr>serial_port := cs\<rparr>"
  have IH: "cons_intr serial_proc_data ?s = Some (fold cons_put (filter (\<lambda>c. c \<noteq> 0) cs) (s\<lparr>serial_port := []\<rparr>))"
    using Cons.hyps(1) [of ?s] by simp
  have IH': "cons_intr serial_proc_data (cons_put c ?s) =
      Some (fold cons_put (filter (\<lambda>c. c \<noteq> 0) cs) (cons_put c (s\<lparr>serial_port := []\<rparr>)))"
    using Cons.hyps(1) [of "cons_put c ?s"] by (simp add: cons_put_serial)
  have "serial_proc_data s = (int (unat c), ?s)"
    using Cons.hyps(2) [symmetric] by (simp add: serial_proc_data_def)
  moreover have "int (unat c) = 0 \<longleftrightarrow> c = 0" by (metis of_nat_eq_0_iff unat_eq_zero)
  moreover have "int (unat c) \<noteq> - 1" using of_nat_0_le_iff [of "unat c", where 'a = int] by linarith
  moreover have "of_int (int (unat c)) = c" by simp
  ultimately show ?case
    using IH IH' Cons.hyps(2) [symmetric] by (subst cons_intr.simps) (simp del: of_int_of_nat_eq)
qed

lemma kbd_proc_shrinks:
  assumes "kbd_proc_data s = (c, s')" and "c \<noteq> - 1"
  shows "length (kbd_port s') < length (kbd_port s)"
  using assms by (auto simp: kbd_proc_data_def Let_def split: list.splits prod.splits if_splits)

lemma kbd_drain: "\<exists>s'. cons_intr kbd_proc_data s = Some s'"
proof (induction "length (kbd_port s)" arbitrary: s rule: less_induct)
  case less
  obtain c s1 where c: "kbd_proc_data s = (c, s1)" by fastforce
  show ?case
  proof (cases "c = - 1")
    case True
    then show ?thesis using c by (subst cons_intr.simps) simp
  next
    case False
    note lt = kbd_proc_shrinks [OF c False]
    have "kbd_port (cons_put x s1) = kbd_port s1" for x by (simp add: cons_put_step)
    then obtain s2 s3 where "cons_intr kbd_proc_data s1 = Some s2"
        "cons_intr kbd_proc_data (cons_put (of_int c) s1) = Some s3"
      using less [of s1] less [of "cons_put (of_int c) s1"] lt by metis
    then show ?thesis using c False by (subst cons_intr.simps) simp
  qed
qed

lemma kbd_empty: "kbd_port s = [] \<Longrightarrow> cons_intr kbd_proc_data s = Some s"
  by (subst cons_intr.simps) (simp add: kbd_proc_data_def)

lemma cons_put_fields [simp]:
  "kbd_port (fold cons_put xs s) = kbd_port s" "serial_port (fold cons_put xs s) = serial_port s"
  "serial_exists (fold cons_put xs s) = serial_exists s" "cons_rpos (fold cons_put xs s) = cons_rpos s"
  by (induction xs arbitrary: s) (simp_all add: cons_put_step)

lemma cons_put_wpos:
  "cons_wpos s < CONSBUFSIZE \<Longrightarrow> cons_wpos (fold cons_put xs s) = (cons_wpos s + length xs) mod CONSBUFSIZE"
proof (induction xs arbitrary: s)
  case Nil
  then show ?case by simp
next
  case (Cons x xs)
  have "cons_wpos (cons_put x s) = Suc (cons_wpos s) mod CONSBUFSIZE"
    using Cons.prems by (simp add: cons_put_step ring_step_mod)
  then show ?case using Cons.IH [of "cons_put x s"] by (simp add: mod_add_left_eq)
qed

lemma cons_getc_serial:
  assumes "serial_exists s" and "kbd_port s = []" and "0 \<notin> set (serial_port s)"
  shows "cons_getc s = Some (case cons_take (fold cons_put (serial_port s) (s\<lparr>serial_port := []\<rparr>)) of
      (Some c, s) \<Rightarrow> (int (unat c), s) | (None, s) \<Rightarrow> (0, s))"
proof -
  have "filter (\<lambda>c. c \<noteq> 0) (serial_port s) = serial_port s"
    using assms(3) by (intro filter_True) auto
  then show ?thesis
    using assms by (simp add: cons_getc_def serial_intr_def kbd_intr_def serial_drain kbd_empty)
qed

lemma read_buffered:
  assumes "cons_inv s" and "cons_items s = cs" and "serial_port s = []" and "kbd_port s = []"
    and "0 \<notin> set cs"
  shows "\<exists>s'. read_chars (length cs) s = Some (map (\<lambda>c. int (unat c)) cs, s')"
  using assms
proof (induction cs arbitrary: s)
  case Nil
  then show ?case by simp
next
  case (Cons c cs)
  from consq.get_Cons [OF Cons.prems(1,2)] obtain s1 where
    s1: "cons_take s = (Some c, s1)" "cons_inv s1" "cons_items s1 = cs" by blast
  then have dev: "serial_port s1 = []" "kbd_port s1 = []"
    using Cons.prems(3,4) by (auto simp: cons_take_step split: if_splits)
  have same: "s\<lparr>serial_port := []\<rparr> = s" using Cons.prems(3) by simp
  have "cons_intr serial_proc_data s = Some s"
    unfolding serial_drain Cons.prems(3) same by simp
  then have "cons_getc s = Some (int (unat c), s1)"
    using s1(1) Cons.prems(4) by (simp add: cons_getc_def serial_intr_def kbd_intr_def kbd_empty)
  then show ?case using Cons.IH [OF s1(2,3) dev] Cons.prems(5) by auto
qed

section \<open>The display\<close>

text \<open>The cursor stays on the screen and nothing outside the frame buffer is written.\<close>

definition on_screen :: "Console \<Rightarrow> Console \<Rightarrow> bool" where
  "on_screen s s' \<longleftrightarrow> crt_pos s' < CRT_SIZE \<and> (\<forall>i \<ge> CRT_SIZE. crt_buf s' i = crt_buf s i)"

lemma cga_scroll_on:
  assumes "crt_pos s \<le> CRT_SIZE + CRT_COLS - 1"
  shows "on_screen s (cga_scroll s)"
  using assms by (auto simp: on_screen_def cga_scroll_def)

lemma cga_plain_on:
  assumes "crt_pos s < CRT_SIZE"
  shows "on_screen s (cga_plain c s)"
proof -
  have on: "on_screen s (cga_scroll s')"
    if "crt_pos s' \<le> CRT_SIZE + CRT_COLS - 1" "\<forall>i \<ge> CRT_SIZE. crt_buf s' i = crt_buf s i" for s'
    using cga_scroll_on [OF that(1)] that(2) by (auto simp: on_screen_def)
  show ?thesis
    unfolding cga_plain_def Let_def using assms by (intro on) (auto split: if_splits)
qed

lemma on_screen_trans: "on_screen s s' \<Longrightarrow> on_screen s' s'' \<Longrightarrow> on_screen s s''"
  by (auto simp: on_screen_def)

lemma put_space_on: "crt_pos s < CRT_SIZE \<Longrightarrow> on_screen s (put_space s)"
  using cga_plain_on [of "lpt_putc 32 (serial_putc 32 s)" 32]
  by (simp add: put_space_def on_screen_def lpt_putc_def serial_putc_def)

lemma put_spaces_on: "crt_pos s < CRT_SIZE \<Longrightarrow> on_screen s ((put_space ^^ n) s)"
proof (induction n)
  case 0
  then show ?case by (simp add: on_screen_def)
next
  case (Suc n)
  then have s: "on_screen s ((put_space ^^ n) s)" by simp
  then have "on_screen ((put_space ^^ n) s) (put_space ((put_space ^^ n) s))"
    by (intro put_space_on) (simp add: on_screen_def)
  with s show ?case by (simp add: on_screen_trans)
qed

lemma cons_putc_on:
  assumes "crt_pos s < CRT_SIZE"
  shows "on_screen s (cons_putc c s)"
proof -
  let ?s = "lpt_putc c (serial_putc c s)"
  have "on_screen ?s (cga_putc c ?s)"
  proof (cases "c AND 0xFF = 9")
    case True
    have a: "on_screen ?s ((put_space ^^ 5) ?s)"
      using assms by (intro put_spaces_on) (simp add: lpt_putc_def serial_putc_def)
    then have "on_screen ((put_space ^^ 5) ?s) (cga_scroll ((put_space ^^ 5) ?s))"
      by (intro cga_scroll_on) (simp add: on_screen_def)
    with a True show ?thesis by (simp add: cga_putc_def on_screen_trans)
  next
    case False
    then show ?thesis
      using assms cga_plain_on [of ?s c] by (simp add: cga_putc_def lpt_putc_def serial_putc_def)
  qed
  then show ?thesis by (simp add: cons_putc_def on_screen_def lpt_putc_def serial_putc_def)
qed

section \<open>Properties\<close>

definition idle_console :: Console where
  "idle_console = \<lparr>cons_buf = (\<lambda>_. 0), cons_rpos = 0, cons_wpos = 0, kbd_shift = 0, kbd_port = [],
     serial_exists = True, serial_port = [], serial_tx = [], lpt_tx = [], crt_buf = (\<lambda>_. 0), crt_pos = 0\<rparr>"

text \<open>C19. Up to 511 characters that arrive on the serial line while the input buffer is empty are
  returned by successive calls of \<^verbatim>\<open>cons_getc\<close>, complete and in order.\<close>

theorem console_input_in_order:
  assumes "serial_exists s" and "kbd_port s = []" and "cons_inv s" and "cons_items s = []"
    and "0 \<notin> set (serial_port s)" and "length (serial_port s) < CONSBUFSIZE"
  shows "\<exists>s'. read_chars (length (serial_port s)) s = Some (map (\<lambda>c. int (unat c)) (serial_port s), s')"
proof (cases "serial_port s")
  case Nil
  then show ?thesis by simp
next
  case (Cons c cs)
  let ?s = "fold cons_put (serial_port s) (s\<lparr>serial_port := []\<rparr>)"
  have "cons_inv (s\<lparr>serial_port := []\<rparr>)" "cons_items (s\<lparr>serial_port := []\<rparr>) = []"
    using assms(3,4) by (simp_all add: cons_inv_def cons_items_def)
  then have "cons_inv ?s" "cons_items ?s = c # cs"
    using consq.put_all [of "s\<lparr>serial_port := []\<rparr>" "serial_port s"] assms(6) Cons by simp_all
  from consq.get_Cons [OF this] obtain s1 where
    s1: "cons_take ?s = (Some c, s1)" "cons_inv s1" "cons_items s1 = cs" by blast
  then have dev: "serial_port s1 = []" "kbd_port s1 = []"
    using assms(2) by (auto simp: cons_take_step split: if_splits)
  have "cons_getc s = Some (int (unat c), s1)"
    using cons_getc_serial [OF assms(1,2,5)] s1(1) by simp
  then show ?thesis
    using read_buffered [OF s1(2,3) dev] assms(5) Cons by auto
qed

theorem console_input_in_order_witness:
  "\<exists>s'. read_chars (Suc (Suc 0)) (idle_console\<lparr>serial_port := [104, 105]\<rparr>) = Some ([104, 105], s')"
proof -
  let ?s = "idle_console\<lparr>serial_port := [104, 105]\<rparr>"
  have "\<exists>s'. read_chars (length (serial_port ?s)) ?s = Some (map (\<lambda>c. int (unat c)) (serial_port ?s), s')"
    by (rule console_input_in_order)
      (simp_all add: idle_console_def cons_inv_def cons_items_def ring_count_def)
  then show ?thesis by (simp del: read_chars.simps)
qed

text \<open>The input buffer has no check for being full: 512 characters that arrive before the first is
  read bring the write position back to the read position, the buffer looks empty, and
  \<^verbatim>\<open>cons_getc\<close> reports no input at all.\<close>

lemma console_loses_full_buffer:
  assumes "serial_exists s" and "kbd_port s = []" and "cons_inv s" and "cons_items s = []"
    and "0 \<notin> set (serial_port s)" and "length (serial_port s) = CONSBUFSIZE"
  shows "\<exists>s'. cons_getc s = Some (0, s')"
proof -
  let ?s = "fold cons_put (serial_port s) (s\<lparr>serial_port := []\<rparr>)"
  have "cons_rpos s = cons_wpos s"
    using assms(3,4) ring_count_0 [of "cons_rpos s" CONSBUFSIZE "cons_wpos s"]
    by (auto simp: cons_inv_def cons_items_def dest: arg_cong [of _ _ length])
  moreover have "cons_wpos ?s = cons_wpos s"
    using cons_put_wpos [of "s\<lparr>serial_port := []\<rparr>" "serial_port s"] assms(3,6)
    by (simp add: cons_inv_def)
  ultimately have "cons_take ?s = (None, ?s)" by (simp add: cons_take_step)
  then show ?thesis using cons_getc_serial [OF assms(1,2,5)] by simp
qed

lemma console_loses_full_buffer_example:
  "\<exists>s'. cons_getc (idle_console\<lparr>serial_port := replicate 512 65\<rparr>) = Some (0, s')"
  by (rule console_loses_full_buffer)
    (simp_all add: idle_console_def cons_inv_def cons_items_def ring_count_def)

text \<open>Printing any sequence of characters keeps the cursor on the 25 by 80 screen and never writes
  outside the frame buffer.\<close>

lemma console_output_in_bounds:
  assumes "crt_pos s < CRT_SIZE"
  shows "crt_pos (fold cons_putc cs s) < CRT_SIZE \<and> (\<forall>i. crt_buf (fold cons_putc cs s) (CRT_SIZE + i) = crt_buf s (CRT_SIZE + i))"
proof -
  have "on_screen s (fold cons_putc cs s)"
    using assms
  proof (induction cs arbitrary: s)
    case Nil
    then show ?case by (simp add: on_screen_def)
  next
    case (Cons c cs)
    note c = cons_putc_on [OF Cons.prems, of c]
    then show ?case using Cons.IH [of "cons_putc c s"] by (auto simp: on_screen_def)
  qed
  then show ?thesis by (simp add: on_screen_def)
qed

lemma console_output_in_bounds_example:
  "crt_pos (fold cons_putc [72, 10, 9, 8, 13] (idle_console\<lparr>crt_pos := 1999\<rparr>)) < CRT_SIZE"
  using console_output_in_bounds [of "idle_console\<lparr>crt_pos := 1999\<rparr>" "[72, 10, 9, 8, 13]"] by simp

end
