(* ===== verification/E1000.thy ===== *)
theory E1000
  imports Prelude
begin

text \<open>
  The driver of the E1000 network card, \<^verbatim>\<open>kern/e1000.c\<close>. The card's registers are one map from
  register offsets; the descriptor rings and packet buffers are the driver's arrays. The physical
  addresses of the arrays, fixed by the linker, are parameters of the initialisation. What the card
  does with the rings is not modelled: the theorems are about what the driver leaves in them.
\<close>

unbundle bit_operations_syntax

abbreviation NTXDESC :: nat where "NTXDESC \<equiv> 64"
abbreviation TXBUFFSIZE :: nat where "TXBUFFSIZE \<equiv> 2048"
abbreviation NRXDESC :: nat where "NRXDESC \<equiv> 128"
abbreviation RXBUFFSIZE :: nat where "RXBUFFSIZE \<equiv> 2048"
abbreviation RCTL :: nat where "RCTL \<equiv> 0x00100"
abbreviation TCTL :: nat where "TCTL \<equiv> 0x00400"
abbreviation TIPG :: nat where "TIPG \<equiv> 0x00410"
abbreviation RDBAL :: nat where "RDBAL \<equiv> 0x02800"
abbreviation RDBAH :: nat where "RDBAH \<equiv> 0x02804"
abbreviation RDLEN :: nat where "RDLEN \<equiv> 0x02808"
abbreviation RDH :: nat where "RDH \<equiv> 0x02810"
abbreviation RDT :: nat where "RDT \<equiv> 0x02818"
abbreviation TDBAL :: nat where "TDBAL \<equiv> 0x03800"
abbreviation TDBAH :: nat where "TDBAH \<equiv> 0x03804"
abbreviation TDLEN :: nat where "TDLEN \<equiv> 0x03808"
abbreviation TDH :: nat where "TDH \<equiv> 0x03810"
abbreviation TDT :: nat where "TDT \<equiv> 0x03818"
abbreviation RA :: nat where "RA \<equiv> 0x05400"
abbreviation TXD_STAT_DD :: u8 where "TXD_STAT_DD \<equiv> 1"
abbreviation RXD_STAT_DD :: u8 where "RXD_STAT_DD \<equiv> 1"
abbreviation TXD_CMD_EOP :: u8 where "TXD_CMD_EOP \<equiv> 1"
abbreviation TXD_CMD_RS :: u8 where "TXD_CMD_RS \<equiv> 8"

record tx_desc =
  tx_addr :: u32
  tx_length :: u16
  tx_cmd :: u8
  tx_status :: u8

record rx_desc =
  rx_addr :: u32
  rx_length :: u16
  rx_status :: u8

record Nic =
  E1000REG :: "nat \<Rightarrow> u32"
  txqueue :: "nat \<Rightarrow> tx_desc"
  rxqueue :: "nat \<Rightarrow> rx_desc"
  txbuffer :: "nat \<Rightarrow> nat \<Rightarrow> u8"
  rxbuffer :: "nat \<Rightarrow> nat \<Rightarrow> u8"

section \<open>Initialisation\<close>

definition txdesc_init :: "(nat \<Rightarrow> u32) \<Rightarrow> Nic \<Rightarrow> Nic" where
  "txdesc_init buf_pa s = s\<lparr>txbuffer := (\<lambda>_ _. 0),
     txqueue := (\<lambda>i. if i < NTXDESC
       then \<lparr>tx_addr = buf_pa i, tx_length = 0, tx_cmd = 0, tx_status = TXD_STAT_DD\<rparr> else txqueue s i)\<rparr>"

definition set_reg :: "nat \<Rightarrow> u32 \<Rightarrow> Nic \<Rightarrow> Nic" where
  "set_reg r v s = s\<lparr>E1000REG := (E1000REG s)(r := v)\<rparr>"

definition tx_init :: "u32 \<Rightarrow> Nic \<Rightarrow> Nic" where
  "tx_init queue_pa s =
     fold (\<lambda>(r, v). set_reg r v)
       [(TDBAL, queue_pa), (TDBAH, 0), (TDLEN, 64 * 16), (TDH, 0), (TDT, 0),
        (TCTL, 0x2 OR 0x8 OR (0xff0 AND push_bit 4 0x10) OR (0x3ff000 AND push_bit 12 0x40)),
        (TIPG, 10 OR push_bit 10 8 OR push_bit 20 12)] s"

definition rxdesc_init :: "(nat \<Rightarrow> u32) \<Rightarrow> Nic \<Rightarrow> Nic" where
  "rxdesc_init buf_pa s = s\<lparr>rxbuffer := (\<lambda>_ _. 0),
     rxqueue := (\<lambda>i. if i < NRXDESC
       then \<lparr>rx_addr = buf_pa i, rx_length = 0, rx_status = 0\<rparr> else rxqueue s i)\<rparr>"

definition rx_init :: "u32 \<Rightarrow> Nic \<Rightarrow> Nic" where
  "rx_init queue_pa s =
     fold (\<lambda>(r, v). set_reg r v)
       [(RA, 0x52 OR push_bit 8 0x54 OR push_bit 16 0x00 OR push_bit 24 0x12),
        (RA + 4, 0x34 OR push_bit 8 0x56 OR 0x80000000),
        (RDBAL, queue_pa), (RDBAH, 0), (RDLEN, 128 * 16), (RDH, 0), (RDT, 128 - 1),
        (RCTL, 0x2 OR 0x8000 OR 0x4000000)] s"

section \<open>Packets\<close>

text \<open>Copying bytes to the start of a buffer.\<close>

definition blit :: "u8 list \<Rightarrow> (nat \<Rightarrow> u8) \<Rightarrow> nat \<Rightarrow> u8" where
  "blit bs buf = (\<lambda>k. if k < length bs then bs ! k else buf k)"

text \<open>\<open>src\<close> are the \<^verbatim>\<open>length\<close> bytes at the caller's address.\<close>

definition txpacket :: "Nic \<Rightarrow> u8 list \<Rightarrow> int \<times> Nic" where
  "txpacket s src =
     (let tail = unat (E1000REG s TDT);
          d = txqueue s tail
      in if tx_status d AND TXD_STAT_DD = 0 then (- 1, s)
         else
           let len = (if TXBUFFSIZE < length src then TXBUFFSIZE else length src);
               s = s\<lparr>txbuffer := (txbuffer s)(tail := blit (take len src) (txbuffer s tail)),
                     txqueue := (txqueue s)(tail := d\<lparr>tx_length := of_nat len,
                       tx_status := tx_status d AND NOT TXD_STAT_DD, tx_cmd := TXD_CMD_EOP OR TXD_CMD_RS\<rparr>)\<rparr>
           in (0, set_reg TDT (of_nat ((tail + 1) mod NTXDESC)) s))"

text \<open>The bytes copied to the caller, the result, and the state.\<close>

definition rxpacket :: "Nic \<Rightarrow> u8 list \<times> int \<times> Nic" where
  "rxpacket s =
     (let tail = (unat (E1000REG s RDT) + 1) mod NRXDESC;
          d = rxqueue s tail
      in if rx_status d AND RXD_STAT_DD = 0 then ([], 0, s)
         else
           (map (rxbuffer s tail) [0..<unat (rx_length d)], int (unat (rx_length d)),
            set_reg RDT (of_nat tail)
              (s\<lparr>rxqueue := (rxqueue s)(tail := d\<lparr>rx_status := rx_status d AND NOT RXD_STAT_DD\<rparr>)\<rparr>)))"

text \<open>\<^verbatim>\<open>e1000_init\<close> after the card is enabled and its registers are mapped.\<close>

definition e1000_init :: "(nat \<Rightarrow> u32) \<Rightarrow> u32 \<Rightarrow> (nat \<Rightarrow> u32) \<Rightarrow> u32 \<Rightarrow> Nic \<Rightarrow> Nic" where
  "e1000_init tx_buf tx_pa rx_buf rx_pa s = rx_init rx_pa (rxdesc_init rx_buf (tx_init tx_pa (txdesc_init tx_buf s)))"

section \<open>Sending a burst\<close>

text \<open>The results of sending packets one after the other.\<close>

fun send_all :: "u8 list list \<Rightarrow> Nic \<Rightarrow> int list \<times> Nic" where
  "send_all [] s = ([], s)"
| "send_all (p # ps) s =
     (case txpacket s p of (r, s) \<Rightarrow> (case send_all ps s of (rs, s) \<Rightarrow> (r # rs, s)))"

definition packet_at :: "Nic \<Rightarrow> nat \<Rightarrow> u8 list" where
  "packet_at s i = map (txbuffer s i) [0..<unat (tx_length (txqueue s i))]"

definition tx_free :: "Nic \<Rightarrow> nat \<Rightarrow> bool" where
  "tx_free s i \<longleftrightarrow> tx_status (txqueue s i) AND TXD_STAT_DD \<noteq> 0"

lemma txpacket_free:
  assumes "E1000REG s TDT = of_nat t" and "t < NTXDESC" and "tx_free s t" and "length p \<le> TXBUFFSIZE"
  shows "\<exists>s'. txpacket s p = (0, s') \<and> E1000REG s' TDT = of_nat (Suc t mod NTXDESC) \<and>
    E1000REG s' TDH = E1000REG s TDH \<and> \<not> tx_free s' t \<and> packet_at s' t = p \<and>
    (\<forall>i. i \<noteq> t \<longrightarrow> tx_free s' i = tx_free s i \<and> packet_at s' i = packet_at s i)"
proof -
  have t: "unat (of_nat t :: u32) = t" using assms(2) by (simp add: unat_of_nat)
  have len: "unat (of_nat (length p) :: u16) = length p" using assms(4) by (simp add: unat_of_nat)
  have clear: "(x AND NOT 1) AND 1 = 0" for x :: u8
    by (simp add: and.assoc)
  have "map (blit p buf) [0..<length p] = p" for buf by (rule nth_equalityI) (simp_all add: blit_def)
  then show ?thesis
    using assms t len clear
    by (auto simp: txpacket_def Let_def tx_free_def set_reg_def packet_at_def)
qed

lemma send_all_slots:
  assumes "E1000REG s TDT = of_nat t" and "t + length ps \<le> NTXDESC" and "\<forall>i. t \<le> i \<and> i < NTXDESC \<longrightarrow> tx_free s i"
    and "\<forall>p \<in> set ps. length p \<le> TXBUFFSIZE"
  shows "\<exists>s'. send_all ps s = (replicate (length ps) 0, s') \<and>
    (ps \<noteq> [] \<longrightarrow> E1000REG s' TDT = of_nat ((t + length ps) mod NTXDESC)) \<and> E1000REG s' TDH = E1000REG s TDH \<and>
    (\<forall>i < length ps. packet_at s' (t + i) = ps ! i \<and> \<not> tx_free s' (t + i)) \<and>
    (\<forall>i < t. packet_at s' i = packet_at s i \<and> tx_free s' i = tx_free s i)"
  using assms
proof (induction ps arbitrary: s t)
  case Nil
  then show ?case by simp
next
  case (Cons p ps)
  have t: "t < NTXDESC" using Cons.prems(2) by simp
  from txpacket_free [OF Cons.prems(1) t] Cons.prems(3,4) t obtain s1 where
    s1: "txpacket s p = (0, s1)" "E1000REG s1 TDT = of_nat (Suc t mod NTXDESC)" "E1000REG s1 TDH = E1000REG s TDH"
      "\<not> tx_free s1 t" "packet_at s1 t = p"
      "\<forall>i. i \<noteq> t \<longrightarrow> tx_free s1 i = tx_free s i \<and> packet_at s1 i = packet_at s i"
    by auto
  show ?case
  proof (cases "ps = []")
    case True
    then show ?thesis using s1 by simp
  next
    case False
    then have small: "Suc t < NTXDESC" using Cons.prems(2) by (cases ps) auto
    obtain s' where s': "send_all ps s1 = (replicate (length ps) 0, s')"
        "E1000REG s' TDT = of_nat ((Suc t + length ps) mod NTXDESC)" "E1000REG s' TDH = E1000REG s1 TDH"
        "\<forall>i < length ps. packet_at s' (Suc t + i) = ps ! i \<and> \<not> tx_free s' (Suc t + i)"
        "\<forall>i < Suc t. packet_at s' i = packet_at s1 i \<and> tx_free s' i = tx_free s1 i"
      using Cons.IH [of s1 "Suc t"] s1 Cons.prems small False by auto
    have "packet_at s' (t + i) = (p # ps) ! i \<and> \<not> tx_free s' (t + i)" if "i < length (p # ps)" for i
      using that s'(4,5) s1(4,5) by (cases i) auto
    then show ?thesis
      using s1(1,3,6) s'(1,2,3,5) by auto
  qed
qed

section \<open>Properties\<close>


definition zero_nic :: Nic where
  "zero_nic = \<lparr>E1000REG = (\<lambda>_. 0), txqueue = (\<lambda>_. \<lparr>tx_addr = 0, tx_length = 0, tx_cmd = 0, tx_status = 0\<rparr>),
     rxqueue = (\<lambda>_. \<lparr>rx_addr = 0, rx_length = 0, rx_status = 0\<rparr>), txbuffer = (\<lambda>_ _. 0), rxbuffer = (\<lambda>_ _. 0)\<rparr>"


text \<open>The driver lets the ring fill up completely: after 64 packets that the card has not touched
  yet, every descriptor is in use and the tail register is back at the head register, which the card
  takes to mean that there is nothing to send.\<close>

lemma tx_ring_full_looks_empty:
  assumes "length ps = NTXDESC" and "\<forall>p \<in> set ps. length p \<le> TXBUFFSIZE"
  shows "\<exists>s'. send_all ps (e1000_init tb tp rb rp s) = (replicate NTXDESC 0, s') \<and>
    E1000REG s' TDT = E1000REG s' TDH \<and> (\<forall>i < NTXDESC. \<not> tx_free s' i)"
proof -
  let ?s = "e1000_init tb tp rb rp s"
  have "E1000REG ?s TDT = of_nat 0" "\<forall>i. 0 \<le> i \<and> i < NTXDESC \<longrightarrow> tx_free ?s i" "E1000REG ?s TDH = 0"
    by (simp_all add: e1000_init_def rx_init_def rxdesc_init_def tx_init_def txdesc_init_def set_reg_def tx_free_def)
  moreover have "ps \<noteq> []" using assms(1) by auto
  ultimately show ?thesis
    using send_all_slots [of ?s 0 ps] assms by auto
qed

lemma tx_ring_full_looks_empty_example:
  "\<exists>s'. send_all (replicate NTXDESC [7]) (e1000_init (\<lambda>_. 0) 0 (\<lambda>_. 0) 0 zero_nic) = (replicate NTXDESC 0, s') \<and>
     E1000REG s' TDT = E1000REG s' TDH"
proof -
  have "length (replicate NTXDESC [7 :: u8]) = NTXDESC" "\<forall>p \<in> set (replicate NTXDESC [7 :: u8]). length p \<le> TXBUFFSIZE"
    by simp_all
  from tx_ring_full_looks_empty [OF this] show ?thesis by blast
qed

end
