(* ===== verification/KState.thy ===== *)
theory KState
  imports Mmu Console E1000
begin

text \<open>
  The kernel's data, one record per C structure and one field per global variable.

  Representation of pointers. A \<^verbatim>\<open>struct PageInfo *\<close> into \<^verbatim>\<open>pages[]\<close> and a \<^verbatim>\<open>struct Env *\<close> into
  \<^verbatim>\<open>envs[]\<close> are indices, the null pointer is \<open>None\<close>. A kernel pointer to the start of a physical
  page (\<^verbatim>\<open>pde_t *pgdir\<close>, the result of \<^verbatim>\<open>page2kva\<close>) is the number of that page: the kernel maps
  physical page \<open>n\<close> at \<^verbatim>\<open>KERNBASE + n * PGSIZE\<close>, so the two determine each other (\<open>KADDR\<close> and
  \<open>PADDR\<close> below are the conversions on addresses). A \<^verbatim>\<open>pte_t *\<close> is a page number and a slot.
  Physical memory, \<open>frames\<close>, is addressed by page number and 32-bit slot; byte accesses are
  defined on top of it.

  Control. An operation of the memory manager returns \<open>None\<close> when an \<^verbatim>\<open>assert\<close> fails or \<^verbatim>\<open>panic\<close> is
  called. Operations that may leave the kernel (\<^verbatim>\<open>env_run\<close> never returns to its caller) return an
  \<open>outcome\<close>.
\<close>

unbundle bit_operations_syntax

section \<open>Physical pages, inc/memlayout.h\<close>

record PageInfo =
  pp_link :: "nat option"
  pp_ref :: u16

section \<open>Trap frames, inc/trap.h\<close>

record PushRegs =
  reg_edi :: u32
  reg_esi :: u32
  reg_ebp :: u32
  reg_oesp :: u32
  reg_ebx :: u32
  reg_edx :: u32
  reg_ecx :: u32
  reg_eax :: u32

record Trapframe =
  tf_regs :: PushRegs
  tf_es :: u16
  tf_ds :: u16
  tf_trapno :: u32
  tf_err :: u32
  tf_eip :: u32
  tf_cs :: u16
  tf_eflags :: u32
  tf_esp :: u32
  tf_ss :: u16

section \<open>Environments, inc/env.h\<close>

datatype EnvStatus = ENV_FREE | ENV_DYING | ENV_RUNNABLE | ENV_RUNNING | ENV_NOT_RUNNABLE

datatype EnvType = ENV_TYPE_USER | ENV_TYPE_FS | ENV_TYPE_NS

abbreviation NENV :: nat where "NENV \<equiv> 1024"

definition ENVX :: "u32 \<Rightarrow> nat" where
  "ENVX envid = unat (envid AND (1024 - 1))"

record Env =
  env_tf :: Trapframe
  env_link :: "nat option"
  env_id :: u32
  env_parent_id :: u32
  env_type :: EnvType
  env_status :: EnvStatus
  env_runs :: u32
  env_cpunum :: nat
  env_pgdir :: "nat option"
  env_pgfault_upcall :: u32
  env_ipc_recving :: bool
  env_ipc_dstva :: u32
  env_ipc_value :: u32
  env_ipc_from :: u32
  env_ipc_perm :: u32

section \<open>Processors and the big kernel lock, kern/cpu.h and kern/spinlock.h\<close>

abbreviation NCPU :: nat where "NCPU \<equiv> 8"

datatype CpuStatus = CPU_UNUSED | CPU_STARTED | CPU_HALTED

record CpuInfo =
  cpu_status :: CpuStatus
  cpu_env :: "nat option"
  cpu_cr3 :: nat \<comment> \<open>page directory loaded in this processor's cr3\<close>

record spinlock =
  locked :: bool
  lock_cpu :: "nat option"

section \<open>The kernel's globals\<close>

record kstate =
  npages :: nat
  npages_basemem :: nat
  nextfree :: u32
  pages :: "nat \<Rightarrow> PageInfo"
  page_free_list :: "nat option"
  frames :: "nat \<Rightarrow> nat \<Rightarrow> u32"
  kern_pgdir :: nat
  mmio_base :: u32
  user_mem_check_addr :: u32
  invlpgs :: "u32 list" \<comment> \<open>addresses flushed by invlpg, latest first\<close>
  envs :: "nat \<Rightarrow> Env"
  env_free_list :: "nat option"
  cpus :: "nat \<Rightarrow> CpuInfo"
  cpunum :: nat \<comment> \<open>the processor that executes\<close>
  kernel_lock :: spinlock
  ticks :: u32
  console :: Console
  nic :: Nic

definition curenv :: "kstate \<Rightarrow> nat option" where
  "curenv s = cpu_env (cpus s (cpunum s))"

datatype 'a outcome =
    Ret 'a kstate \<comment> \<open>returns to its caller\<close>
  | Leave kstate \<comment> \<open>leaves the kernel: resumed an environment or halted the processor\<close>
  | Monitor kstate \<comment> \<open>stays in the kernel monitor for ever\<close>
  | Panic

section \<open>Access helpers\<close>

definition upd_page :: "nat \<Rightarrow> (PageInfo \<Rightarrow> PageInfo) \<Rightarrow> kstate \<Rightarrow> kstate" where
  "upd_page p f s = s\<lparr>pages := (pages s)(p := f (pages s p))\<rparr>"

definition set_word :: "nat \<Rightarrow> nat \<Rightarrow> u32 \<Rightarrow> kstate \<Rightarrow> kstate" where
  "set_word p i v s = s\<lparr>frames := (frames s)(p := (frames s p)(i := v))\<rparr>"

definition zero_page :: "nat \<Rightarrow> kstate \<Rightarrow> kstate" where
  "zero_page p s = s\<lparr>frames := (frames s)(p := (\<lambda>_. 0))\<rparr>"

definition upd_env :: "nat \<Rightarrow> (Env \<Rightarrow> Env) \<Rightarrow> kstate \<Rightarrow> kstate" where
  "upd_env e f s = s\<lparr>envs := (envs s)(e := f (envs s e))\<rparr>"

definition upd_cpu :: "(CpuInfo \<Rightarrow> CpuInfo) \<Rightarrow> kstate \<Rightarrow> kstate" where
  "upd_cpu f s = s\<lparr>cpus := (cpus s)(cpunum s := f (cpus s (cpunum s)))\<rparr>"

abbreviation free_next :: "kstate \<Rightarrow> nat \<Rightarrow> nat option" where
  "free_next s \<equiv> \<lambda>p. pp_link (pages s p)"

abbreviation env_next :: "kstate \<Rightarrow> nat \<Rightarrow> nat option" where
  "env_next s \<equiv> \<lambda>e. env_link (envs s e)"

lemma upd_page_simps [simp]:
  "pages (upd_page p f s) = (pages s)(p := f (pages s p))"
  "page_free_list (upd_page p f s) = page_free_list s"
  "frames (upd_page p f s) = frames s"
  "npages (upd_page p f s) = npages s"
  "npages_basemem (upd_page p f s) = npages_basemem s"
  "kern_pgdir (upd_page p f s) = kern_pgdir s"
  "envs (upd_page p f s) = envs s"
  "env_free_list (upd_page p f s) = env_free_list s"
  "cpus (upd_page p f s) = cpus s"
  "cpunum (upd_page p f s) = cpunum s"
  "invlpgs (upd_page p f s) = invlpgs s"
  "kernel_lock (upd_page p f s) = kernel_lock s"
  "ticks (upd_page p f s) = ticks s"
  "console (upd_page p f s) = console s"
  "nic (upd_page p f s) = nic s"
  "nextfree (upd_page p f s) = nextfree s"
  "mmio_base (upd_page p f s) = mmio_base s"
  "user_mem_check_addr (upd_page p f s) = user_mem_check_addr s"
  by (simp_all add: upd_page_def)

lemma set_word_simps [simp]:
  "pages (set_word p i v s) = pages s"
  "page_free_list (set_word p i v s) = page_free_list s"
  "frames (set_word p i v s) = (frames s)(p := (frames s p)(i := v))"
  "npages (set_word p i v s) = npages s"
  "npages_basemem (set_word p i v s) = npages_basemem s"
  "kern_pgdir (set_word p i v s) = kern_pgdir s"
  "envs (set_word p i v s) = envs s"
  "env_free_list (set_word p i v s) = env_free_list s"
  "cpus (set_word p i v s) = cpus s"
  "cpunum (set_word p i v s) = cpunum s"
  "invlpgs (set_word p i v s) = invlpgs s"
  "kernel_lock (set_word p i v s) = kernel_lock s"
  "ticks (set_word p i v s) = ticks s"
  "console (set_word p i v s) = console s"
  "nic (set_word p i v s) = nic s"
  "nextfree (set_word p i v s) = nextfree s"
  "mmio_base (set_word p i v s) = mmio_base s"
  "user_mem_check_addr (set_word p i v s) = user_mem_check_addr s"
  by (simp_all add: set_word_def)

lemma zero_page_simps [simp]:
  "pages (zero_page p s) = pages s"
  "page_free_list (zero_page p s) = page_free_list s"
  "frames (zero_page p s) = (frames s)(p := (\<lambda>_. 0))"
  "npages (zero_page p s) = npages s"
  "npages_basemem (zero_page p s) = npages_basemem s"
  "kern_pgdir (zero_page p s) = kern_pgdir s"
  "envs (zero_page p s) = envs s"
  "env_free_list (zero_page p s) = env_free_list s"
  "cpus (zero_page p s) = cpus s"
  "cpunum (zero_page p s) = cpunum s"
  "invlpgs (zero_page p s) = invlpgs s"
  "kernel_lock (zero_page p s) = kernel_lock s"
  "ticks (zero_page p s) = ticks s"
  "console (zero_page p s) = console s"
  "nic (zero_page p s) = nic s"
  "nextfree (zero_page p s) = nextfree s"
  "mmio_base (zero_page p s) = mmio_base s"
  "user_mem_check_addr (zero_page p s) = user_mem_check_addr s"
  by (simp_all add: zero_page_def)

lemma upd_env_simps [simp]:
  "pages (upd_env e f s) = pages s"
  "page_free_list (upd_env e f s) = page_free_list s"
  "frames (upd_env e f s) = frames s"
  "npages (upd_env e f s) = npages s"
  "npages_basemem (upd_env e f s) = npages_basemem s"
  "kern_pgdir (upd_env e f s) = kern_pgdir s"
  "envs (upd_env e f s) = (envs s)(e := f (envs s e))"
  "env_free_list (upd_env e f s) = env_free_list s"
  "cpus (upd_env e f s) = cpus s"
  "cpunum (upd_env e f s) = cpunum s"
  "invlpgs (upd_env e f s) = invlpgs s"
  "kernel_lock (upd_env e f s) = kernel_lock s"
  "ticks (upd_env e f s) = ticks s"
  "console (upd_env e f s) = console s"
  "nic (upd_env e f s) = nic s"
  "nextfree (upd_env e f s) = nextfree s"
  "mmio_base (upd_env e f s) = mmio_base s"
  "user_mem_check_addr (upd_env e f s) = user_mem_check_addr s"
  by (simp_all add: upd_env_def)

lemma upd_cpu_simps [simp]:
  "pages (upd_cpu f s) = pages s"
  "page_free_list (upd_cpu f s) = page_free_list s"
  "frames (upd_cpu f s) = frames s"
  "npages (upd_cpu f s) = npages s"
  "kern_pgdir (upd_cpu f s) = kern_pgdir s"
  "envs (upd_cpu f s) = envs s"
  "env_free_list (upd_cpu f s) = env_free_list s"
  "cpus (upd_cpu f s) = (cpus s)(cpunum s := f (cpus s (cpunum s)))"
  "cpunum (upd_cpu f s) = cpunum s"
  "invlpgs (upd_cpu f s) = invlpgs s"
  "kernel_lock (upd_cpu f s) = kernel_lock s"
  "ticks (upd_cpu f s) = ticks s"
  "console (upd_cpu f s) = console s"
  "nic (upd_cpu f s) = nic s"
  "npages_basemem (upd_cpu f s) = npages_basemem s"
  "nextfree (upd_cpu f s) = nextfree s"
  "mmio_base (upd_cpu f s) = mmio_base s"
  "user_mem_check_addr (upd_cpu f s) = user_mem_check_addr s"
  by (simp_all add: upd_cpu_def)

lemma curenv_upd [simp]:
  "curenv (upd_page p g s) = curenv s"
  "curenv (set_word p i v s) = curenv s"
  "curenv (zero_page p s) = curenv s"
  "curenv (upd_env e h s) = curenv s"
  "curenv (upd_cpu f s) = cpu_env (f (cpus s (cpunum s)))"
  by (simp_all add: curenv_def)

lemma unat_ENVX: "ENVX envid = unat envid mod 1024"
proof -
  have "(1024 - 1 :: u32) = mask 10" by (simp add: mask_eq_exp_minus_1)
  then show ?thesis
    unfolding ENVX_def
    by (simp only: take_bit_eq_mask [symmetric]) (simp add: take_bit_eq_mod unat_mod)
qed

lemma ENVX_bound [simp]: "ENVX envid < NENV"
  by (simp add: unat_ENVX)

section \<open>The zero-initialised kernel\<close>

text \<open>
  What \<^verbatim>\<open>memset(envs, 0, ...)\<close> and the C runtime give the kernel before it initialises itself;
  used to clear trap frames and as the base of the concrete states that exercise the theorems.
\<close>

definition zero_regs :: PushRegs where
  "zero_regs = \<lparr>reg_edi = 0, reg_esi = 0, reg_ebp = 0, reg_oesp = 0, reg_ebx = 0, reg_edx = 0,
     reg_ecx = 0, reg_eax = 0\<rparr>"

definition zero_tf :: Trapframe where
  "zero_tf = \<lparr>tf_regs = zero_regs, tf_es = 0, tf_ds = 0, tf_trapno = 0, tf_err = 0, tf_eip = 0,
     tf_cs = 0, tf_eflags = 0, tf_esp = 0, tf_ss = 0\<rparr>"

definition zero_env :: Env where
  "zero_env = \<lparr>env_tf = zero_tf, env_link = None, env_id = 0, env_parent_id = 0,
     env_type = ENV_TYPE_USER, env_status = ENV_FREE, env_runs = 0, env_cpunum = 0,
     env_pgdir = None, env_pgfault_upcall = 0, env_ipc_recving = False, env_ipc_dstva = 0,
     env_ipc_value = 0, env_ipc_from = 0, env_ipc_perm = 0\<rparr>"

definition zero_kernel :: kstate where
  "zero_kernel = \<lparr>npages = 0, npages_basemem = 0, nextfree = 0,
     pages = (\<lambda>_. \<lparr>pp_link = None, pp_ref = 0\<rparr>), page_free_list = None, frames = (\<lambda>_ _. 0),
     kern_pgdir = 0, mmio_base = MMIOBASE, user_mem_check_addr = 0, invlpgs = [],
     envs = (\<lambda>_. zero_env), env_free_list = None,
     cpus = (\<lambda>_. \<lparr>cpu_status = CPU_UNUSED, cpu_env = None, cpu_cr3 = 0\<rparr>), cpunum = 0,
     kernel_lock = \<lparr>locked = False, lock_cpu = None\<rparr>, ticks = 0,
     console = idle_console, nic = zero_nic\<rparr>"

end
