(* ===== verification/PageAlloc.thy ===== *)
theory PageAlloc
  imports KState
begin

text \<open>
  Physical memory management, the first half of \<^verbatim>\<open>kern/pmap.c\<close>: the boot allocator, the sizing of
  physical memory, the free list of pages and its operations, and the kernel's own self test of
  them. \<open>free_list s xs\<close> is the invariant of the free list; the locale \<open>page_pool\<close> is what the
  rest of the kernel may assume about allocation.
\<close>

unbundle bit_operations_syntax

section \<open>Address conversions, kern/pmap.h\<close>

definition PADDR :: "u32 \<Rightarrow> u32 option" where
  "PADDR kva = (if kva < KERNBASE then None else Some (kva - KERNBASE))"

definition KADDR :: "kstate \<Rightarrow> u32 \<Rightarrow> u32 option" where
  "KADDR s pa = (if npages s \<le> unat (PGNUM pa) then None else Some (pa + KERNBASE))"

definition page2pa :: "nat \<Rightarrow> u32" where
  "page2pa pp = push_bit 12 (of_nat pp)"

definition pa2page :: "kstate \<Rightarrow> u32 \<Rightarrow> nat option" where
  "pa2page s pa = (if npages s \<le> unat (PGNUM pa) then None else Some (unat (PGNUM pa)))"

text \<open>A kernel pointer to a page, as the page's number: \<open>KADDR\<close> applied to the page's address.\<close>

definition kpage :: "kstate \<Rightarrow> u32 \<Rightarrow> nat option" where
  "kpage s pa = map_option (\<lambda>kva. unat (PGNUM (kva - KERNBASE))) (KADDR s pa)"

definition page2kva :: "kstate \<Rightarrow> nat \<Rightarrow> nat option" where
  "page2kva s pp = kpage s (page2pa pp)"

section \<open>Sizing memory and the boot allocator\<close>

definition nvram_read :: "(nat \<Rightarrow> u8) \<Rightarrow> nat \<Rightarrow> u32" where
  "nvram_read mc146818_read r =
     ucast (mc146818_read r) OR push_bit 8 (ucast (mc146818_read (r + 1)))"

definition i386_detect_memory :: "(nat \<Rightarrow> u8) \<Rightarrow> kstate \<Rightarrow> kstate" where
  "i386_detect_memory cmos s =
     (let basemem = nvram_read cmos 0x15;
          extmem = nvram_read cmos 0x17;
          ext16mem = nvram_read cmos 0x34 * 64;
          totalmem = (if ext16mem \<noteq> 0 then 16 * 1024 + ext16mem
                      else if extmem \<noteq> 0 then 1 * 1024 + extmem
                      else basemem)
      in s\<lparr>npages := unat (totalmem div (PGSIZE div 1024)),
           npages_basemem := unat (basemem div (PGSIZE div 1024))\<rparr>)"

definition boot_alloc :: "u32 \<Rightarrow> kstate \<Rightarrow> u32 \<Rightarrow> (u32 \<times> kstate) option" where
  "boot_alloc end_sym s n =
     (let nf = (if nextfree s = 0 then ROUNDUP end_sym PGSIZE else nextfree s);
          result = nf;
          nf' = ROUNDUP (nf + n) PGSIZE
      in if nf' - KERNBASE > of_nat (npages s) * PGSIZE then None
         else Some (result, s\<lparr>nextfree := nf'\<rparr>))"

section \<open>The page free list\<close>

definition page_in_use :: "kstate \<Rightarrow> nat \<Rightarrow> nat \<Rightarrow> bool" where
  "page_in_use s num_extmem_alloc i \<longleftrightarrow>
     i = 0 \<or> i = unat (MPENTRY_PADDR div PGSIZE) \<or>
     npages_basemem s \<le> i \<and>
       i < npages_basemem s + unat ((EXTPHYSMEM - IOPHYSMEM) div PGSIZE) + num_extmem_alloc"

fun page_init_loop :: "kstate \<Rightarrow> nat \<Rightarrow> nat list \<Rightarrow> kstate" where
  "page_init_loop s ext [] = s"
| "page_init_loop s ext (i # is) =
     (if page_in_use s ext i
      then page_init_loop (upd_page i (\<lambda>_. \<lparr>pp_link = None, pp_ref = 1\<rparr>) s) ext is
      else page_init_loop
             ((upd_page i (\<lambda>_. \<lparr>pp_link = page_free_list s, pp_ref = 0\<rparr>) s)
                \<lparr>page_free_list := Some i\<rparr>) ext is)"

definition page_init :: "u32 \<Rightarrow> kstate \<Rightarrow> kstate option" where
  "page_init end_sym s =
     do { (nf, s) \<leftarrow> boot_alloc end_sym (s\<lparr>page_free_list := None\<rparr>) 0;
          let ext = unat ((nf - KERNBASE) div PGSIZE);
          Some (page_init_loop s ext [0..<npages s]) }"

definition page_alloc :: "kstate \<Rightarrow> bool \<Rightarrow> (nat option \<times> kstate) option" where
  "page_alloc s alloc_zero =
     (case page_free_list s of
        None \<Rightarrow> Some (None, s)
      | Some result \<Rightarrow>
          let s = s\<lparr>page_free_list := pp_link (pages s result)\<rparr>;
              s = upd_page result (\<lambda>pi. pi\<lparr>pp_link := None\<rparr>) s
          in if alloc_zero
             then do { kva \<leftarrow> page2kva s result; Some (Some result, zero_page kva s) }
             else Some (Some result, s))"

definition page_free :: "kstate \<Rightarrow> nat \<Rightarrow> kstate option" where
  "page_free s pp =
     (if pp_ref (pages s pp) \<noteq> 0 then None
      else if pp_link (pages s pp) \<noteq> None then None
      else Some ((upd_page pp (\<lambda>pi. pi\<lparr>pp_link := page_free_list s\<rparr>) s)\<lparr>page_free_list := Some pp\<rparr>))"

definition page_decref :: "kstate \<Rightarrow> nat \<Rightarrow> kstate option" where
  "page_decref s pp =
     (let s = upd_page pp (\<lambda>pi. pi\<lparr>pp_ref := pp_ref pi - 1\<rparr>) s
      in if pp_ref (pages s pp) = 0 then page_free s pp else Some s)"

definition page_incref :: "kstate \<Rightarrow> nat \<Rightarrow> kstate" where
  "page_incref s pp = upd_page pp (\<lambda>pi. pi\<lparr>pp_ref := pp_ref pi + 1\<rparr>) s"

section \<open>The allocator's self test\<close>

text \<open>\<^verbatim>\<open>check_page_alloc\<close>: \<open>None\<close> is a failed assertion.\<close>

fun count_free :: "nat \<Rightarrow> (nat \<Rightarrow> nat option) \<Rightarrow> nat option \<Rightarrow> nat option" where
  "count_free fuel nxt None = Some 0"
| "count_free 0 nxt (Some p) = None"
| "count_free (Suc fuel) nxt (Some p) = map_option Suc (count_free fuel nxt (nxt p))"

definition alloc3 :: "kstate \<Rightarrow> ((nat \<times> nat \<times> nat) \<times> kstate) option" where
  "alloc3 s =
     do { (p0, s) \<leftarrow> page_alloc s False; pp0 \<leftarrow> p0;
          (p1, s) \<leftarrow> page_alloc s False; pp1 \<leftarrow> p1;
          (p2, s) \<leftarrow> page_alloc s False; pp2 \<leftarrow> p2;
          if pp1 \<noteq> pp0 \<and> pp2 \<noteq> pp1 \<and> pp2 \<noteq> pp0 then Some ((pp0, pp1, pp2), s) else None }"

definition free3 :: "kstate \<Rightarrow> nat \<times> nat \<times> nat \<Rightarrow> kstate option" where
  "free3 s ps =
     (case ps of (pp0, pp1, pp2) \<Rightarrow>
       do { s \<leftarrow> page_free s pp0; s \<leftarrow> page_free s pp1; page_free s pp2 })"

definition assert_that :: "bool \<Rightarrow> unit option" where
  "assert_that b = (if b then Some () else None)"

definition check_page_alloc :: "kstate \<Rightarrow> kstate option" where
  "check_page_alloc s =
     do { nfree \<leftarrow> count_free (npages s) (free_next s) (page_free_list s);
          (ps, s) \<leftarrow> alloc3 s;
          let (pp0, pp1, pp2) = ps;
          assert_that (page2pa pp0 < of_nat (npages s) * PGSIZE);
          assert_that (page2pa pp1 < of_nat (npages s) * PGSIZE);
          assert_that (page2pa pp2 < of_nat (npages s) * PGSIZE);
          let fl = page_free_list s;
          let s = s\<lparr>page_free_list := None\<rparr>;
          (r, s) \<leftarrow> page_alloc s False;
          assert_that (r = None);
          s \<leftarrow> free3 s (pp0, pp1, pp2);
          (ps, s) \<leftarrow> alloc3 s;
          let (pp0, pp1, pp2) = ps;
          (r, s) \<leftarrow> page_alloc s False;
          assert_that (r = None);
          kva \<leftarrow> page2kva s pp0;
          let s = s\<lparr>frames := (frames s)(kva := (\<lambda>_. 0x01010101))\<rparr>;
          s \<leftarrow> page_free s pp0;
          (r, s) \<leftarrow> page_alloc s True;
          pp \<leftarrow> r;
          assert_that (pp0 = pp);
          c \<leftarrow> page2kva s pp;
          assert_that (\<forall>i \<in> {0..<1024}. frames s c i = 0);
          let s = s\<lparr>page_free_list := fl\<rparr>;
          s \<leftarrow> free3 s (pp0, pp1, pp2);
          nfree' \<leftarrow> count_free (npages s) (free_next s) (page_free_list s);
          assert_that (nfree = nfree');
          Some s }"

section \<open>Sequences of allocator calls\<close>

text \<open>
  A client of the allocator: it frees only pages it holds (the discipline the kernel keeps by
  reference counts). \<open>pool_run\<close> threads the state and the set of held pages through a sequence of
  calls; \<open>None\<close> is a panic.
\<close>

datatype pool_op = PAlloc bool | PFree nat

fun pool_run ::
  "('s \<Rightarrow> bool \<Rightarrow> (nat option \<times> 's) option) \<Rightarrow> ('s \<Rightarrow> nat \<Rightarrow> 's option) \<Rightarrow>
   pool_op list \<Rightarrow> 's \<Rightarrow> nat set \<Rightarrow> ('s \<times> nat set) option" where
  "pool_run alloc free [] s held = Some (s, held)"
| "pool_run alloc free (PAlloc z # ops) s held =
     do { (r, s) \<leftarrow> alloc s z;
          pool_run alloc free ops s (case r of None \<Rightarrow> held | Some p \<Rightarrow> insert p held) }"
| "pool_run alloc free (PFree p # ops) s held =
     (if p \<in> held
      then do { s \<leftarrow> free s p; pool_run alloc free ops s (held - {p}) }
      else pool_run alloc free ops s held)"

section \<open>Invariant of the free list\<close>

text \<open>
  The pages \<open>ps\<close> are exactly the pages on the free list, in order: all within physical memory
  and without references. The kernel maps at most 256 MB of physical memory at \<^verbatim>\<open>KERNBASE\<close>.
\<close>

definition free_list :: "kstate \<Rightarrow> nat list \<Rightarrow> bool" where
  "free_list s ps \<longleftrightarrow>
     npages s \<le> 65536 \<and> chain (free_next s) (page_free_list s) ps \<and>
     (\<forall>p \<in> set ps. p < npages s \<and> pp_ref (pages s p) = 0)"

text \<open>A page that was allocated and is not referenced yet: what \<^verbatim>\<open>page_alloc\<close> hands out.\<close>

definition fresh_page :: "kstate \<Rightarrow> nat \<Rightarrow> bool" where
  "fresh_page s p \<longleftrightarrow>
     p < npages s \<and> pp_ref (pages s p) = 0 \<and> pp_link (pages s p) = None \<and>
     (\<forall>ps. free_list s ps \<longrightarrow> p \<notin> set ps)"

lemma free_list_distinct: "free_list s ps \<Longrightarrow> distinct ps"
  by (auto simp: free_list_def intro: chain_distinct)

lemma free_list_unique: "free_list s ps \<Longrightarrow> free_list s qs \<Longrightarrow> ps = qs"
  by (auto simp: free_list_def intro: chain_unique)

lemma unat_page2pa: "p < 65536 \<Longrightarrow> unat (page2pa p) = p * 4096"
  by (simp add: page2pa_def push_bit_eq_mult unat_word_ariths unat_of_nat)

lemma PGNUM_page2pa: "p < 65536 \<Longrightarrow> unat (PGNUM (page2pa p)) = p"
  by (simp add: unat_PGNUM unat_page2pa)

lemma kpage_eq: "kpage s pa = (if npages s \<le> unat (PGNUM pa) then None else Some (unat (PGNUM pa)))"
  by (simp add: kpage_def KADDR_def)

lemma page2kva_eq [simp]: "p < npages s \<Longrightarrow> npages s \<le> 65536 \<Longrightarrow> page2kva s p = Some p"
  by (simp add: page2kva_def kpage_eq PGNUM_page2pa)

lemma page_alloc_Nil: "free_list s [] \<Longrightarrow> page_alloc s z = Some (None, s)"
  by (simp add: free_list_def page_alloc_def)

lemma page_alloc_Cons:
  assumes "free_list s (p # ps)"
  shows "page_alloc s z =
    Some (Some p, (if z then zero_page p else id)
      (upd_page p (\<lambda>pi. pi\<lparr>pp_link := None\<rparr>) (s\<lparr>page_free_list := pp_link (pages s p)\<rparr>)))"
  using assms by (auto simp: free_list_def page_alloc_def Let_def)

lemma free_list_alloc:
  assumes "free_list s (p # ps)" and "page_alloc s z = Some (r, s')"
  shows "r = Some p" and "free_list s' ps" and "fresh_page s' p"
    and "\<And>q. q \<noteq> p \<Longrightarrow> pages s' q = pages s q"
    and "pp_ref (pages s' p) = 0" and "pp_link (pages s' p) = None"
    and "frames s' = (if z then (frames s)(p := (\<lambda>_. 0)) else frames s)"
proof -
  have dist: "p \<notin> set ps" using free_list_distinct [OF assms(1)] by simp
  have s': "s' = (if z then zero_page p else id)
      (upd_page p (\<lambda>pi. pi\<lparr>pp_link := None\<rparr>) (s\<lparr>page_free_list := pp_link (pages s p)\<rparr>))"
    and "r = Some p"
    using assms(2) page_alloc_Cons [OF assms(1), of z] by auto
  then show "r = Some p" by simp
  have chain: "chain ((free_next s)(p := None)) (pp_link (pages s p)) ps"
    using assms(1) dist by (simp add: free_list_def)
  have next': "free_next s' = (free_next s)(p := None)"
    by (auto simp: s')
  show fl: "free_list s' ps"
    using assms(1) dist chain unfolding free_list_def next'
    by (auto simp: s')
  show "\<And>q. q \<noteq> p \<Longrightarrow> pages s' q = pages s q"
    and "pp_ref (pages s' p) = 0" and "pp_link (pages s' p) = None"
    and "frames s' = (if z then (frames s)(p := (\<lambda>_. 0)) else frames s)"
    using assms(1) by (auto simp: s' free_list_def)
  moreover have "p < npages s'" using assms(1) by (auto simp: free_list_def s')
  moreover have "p \<notin> set qs" if "free_list s' qs" for qs
    using free_list_unique [OF fl that] dist by simp
  ultimately show "fresh_page s' p" by (simp add: fresh_page_def)
qed

lemma page_free_fresh:
  assumes "free_list s ps" and "fresh_page s p"
  shows "\<exists>s'. page_free s p = Some s' \<and> free_list s' (p # ps) \<and> frames s' = frames s \<and>
    (\<forall>q. q \<noteq> p \<longrightarrow> pages s' q = pages s q)"
proof -
  have notin: "p \<notin> set ps" using assms by (auto simp: fresh_page_def)
  define s' where "s' = (upd_page p (\<lambda>pi. pi\<lparr>pp_link := page_free_list s\<rparr>) s)\<lparr>page_free_list := Some p\<rparr>"
  have "page_free s p = Some s'"
    using assms(2) by (simp add: page_free_def fresh_page_def s'_def)
  moreover have "free_list s' (p # ps)"
  proof -
    have "free_next s' = (free_next s)(p := page_free_list s)" by (auto simp: s'_def)
    then show ?thesis
      using assms notin unfolding free_list_def fresh_page_def by (auto simp: s'_def)
  qed
  ultimately show ?thesis by (auto simp: s'_def)
qed

text \<open>Every field but the free list, the page descriptors and (when zeroing) memory is kept.\<close>

lemma page_alloc_frame [frame_simps]:
  assumes "page_alloc s z = Some (r, s')"
  shows "npages s' = npages s" "kern_pgdir s' = kern_pgdir s" "envs s' = envs s"
    "env_free_list s' = env_free_list s" "cpus s' = cpus s" "cpunum s' = cpunum s"
    "kernel_lock s' = kernel_lock s" "ticks s' = ticks s" "curenv s' = curenv s"
    "invlpgs s' = invlpgs s" "npages_basemem s' = npages_basemem s" "mmio_base s' = mmio_base s"
    "nextfree s' = nextfree s" "user_mem_check_addr s' = user_mem_check_addr s"
    "console s' = console s" "nic s' = nic s"
  using assms
  by (auto simp: page_alloc_def Let_def curenv_def split: option.splits if_splits Option.bind_splits)

lemma page_free_frame [frame_simps]:
  assumes "page_free s p = Some s'"
  shows "npages s' = npages s" "kern_pgdir s' = kern_pgdir s" "envs s' = envs s"
    "env_free_list s' = env_free_list s" "cpus s' = cpus s" "cpunum s' = cpunum s"
    "kernel_lock s' = kernel_lock s" "ticks s' = ticks s" "curenv s' = curenv s"
    "invlpgs s' = invlpgs s" "frames s' = frames s" "npages_basemem s' = npages_basemem s"
    "mmio_base s' = mmio_base s" "nextfree s' = nextfree s"
    "user_mem_check_addr s' = user_mem_check_addr s" "console s' = console s" "nic s' = nic s"
  using assms by (auto simp: page_free_def curenv_def split: if_splits)

section \<open>The allocator as an interface\<close>

text \<open>
  \<open>pool s ps A\<close>: \<open>ps\<close> are the free pages in order and \<open>A\<close> pages that are allocated but not
  referenced.
\<close>

definition pool :: "kstate \<Rightarrow> nat list \<Rightarrow> nat set \<Rightarrow> bool" where
  "pool s ps A \<longleftrightarrow>
     free_list s ps \<and> set ps \<inter> A = {} \<and>
     (\<forall>p \<in> A. p < npages s \<and> pp_ref (pages s p) = 0 \<and> pp_link (pages s p) = None)"

lemma pool_fresh: "pool s ps A \<Longrightarrow> p \<in> A \<Longrightarrow> fresh_page s p"
  by (auto simp: pool_def fresh_page_def dest: free_list_unique)

lemma pool_alloc:
  assumes "pool s (p # ps) A"
  shows "\<exists>s'. page_alloc s z = Some (Some p, s') \<and> pool s' ps (insert p A) \<and>
    npages s' = npages s \<and> (z \<longrightarrow> frames s' p = (\<lambda>_. 0)) \<and>
    (\<forall>q. q \<noteq> p \<longrightarrow> pages s' q = pages s q)"
proof -
  from assms have fl: "free_list s (p # ps)" and "p \<notin> A" by (auto simp: pool_def)
  then obtain s' where a: "page_alloc s z = Some (Some p, s')"
    using page_alloc_Cons [OF fl, of z] by simp
  note facts = free_list_alloc [OF fl a] page_alloc_frame(1) [OF a]
  have "p \<notin> set ps" using free_list_distinct [OF fl] by simp
  moreover have "pages s' q = pages s q" if "q \<in> A" for q
    using that \<open>p \<notin> A\<close> facts(4) by metis
  moreover have "p < npages s'" using facts(3) by (simp add: fresh_page_def)
  ultimately have "pool s' ps (insert p A)"
    using assms facts(2,5,6,8) by (auto simp: pool_def)
  with a facts show ?thesis by auto
qed

lemma pool_free:
  assumes "pool s ps A" and "p \<in> A"
  shows "\<exists>s'. page_free s p = Some s' \<and> pool s' (p # ps) (A - {p}) \<and> npages s' = npages s \<and>
    (\<forall>q. q \<noteq> p \<longrightarrow> pages s' q = pages s q)"
proof -
  from assms have fl: "free_list s ps" by (simp add: pool_def)
  obtain s' where f: "page_free s p = Some s'" "free_list s' (p # ps)"
    and other: "\<And>q. q \<noteq> p \<Longrightarrow> pages s' q = pages s q"
    using page_free_fresh [OF fl pool_fresh [OF assms]] by blast
  moreover have "npages s' = npages s" using f(1) by (rule page_free_frame)
  ultimately show ?thesis using assms by (auto simp: pool_def)
qed

locale page_pool =
  fixes alloc :: "'s \<Rightarrow> bool \<Rightarrow> (nat option \<times> 's) option"
    and free :: "'s \<Rightarrow> nat \<Rightarrow> 's option"
    and pool :: "'s \<Rightarrow> nat list \<Rightarrow> nat set \<Rightarrow> bool"
  assumes alloc_empty: "pool s [] A \<Longrightarrow> alloc s z = Some (None, s)"
    and alloc_head: "pool s (p # ps) A \<Longrightarrow>
      \<exists>s'. alloc s z = Some (Some p, s') \<and> pool s' ps (insert p A)"
    and free_push: "pool s ps A \<Longrightarrow> p \<in> A \<Longrightarrow>
      \<exists>s'. free s p = Some s' \<and> pool s' (p # ps) (A - {p})"
    and free_held_disjoint: "pool s ps A \<Longrightarrow> distinct ps \<and> set ps \<inter> A = {}"
begin

text \<open>
  No sequence of calls panics, loses a page or hands out a page twice: free and held pages stay
  disjoint and together are the pages the sequence started with.
\<close>

lemma run_conserves:
  assumes "pool s ps A"
  shows "\<exists>s' ps' A'. pool_run alloc free ops s A = Some (s', A') \<and> pool s' ps' A' \<and>
    set ps' \<union> A' = set ps \<union> A"
  using assms
proof (induction ops arbitrary: s ps A)
  case Nil
  then show ?case by auto
next
  case (Cons op ops)
  show ?case
  proof (cases op)
    case (PAlloc z)
    show ?thesis
    proof (cases ps)
      case Nil
      with Cons.prems have "alloc s z = Some (None, s)" by (simp add: alloc_empty)
      with Cons.IH [OF Cons.prems] PAlloc show ?thesis by simp
    next
      case (Cons p ps')
      with Cons.prems obtain s' where "alloc s z = Some (Some p, s')" "pool s' ps' (insert p A)"
        using alloc_head by blast
      with Cons.IH [OF this(2)] PAlloc Cons show ?thesis by auto
    qed
  next
    case (PFree p)
    show ?thesis
    proof (cases "p \<in> A")
      case True
      with Cons.prems obtain s' where f: "free s p = Some s'" "pool s' (p # ps) (A - {p})"
        using free_push by blast
      have "set (p # ps) \<union> (A - {p}) = set ps \<union> A" using True by auto
      with Cons.IH [OF f(2)] f(1) PFree True show ?thesis by simp
    next
      case False
      with Cons.IH [OF Cons.prems] PFree show ?thesis by simp
    qed
  qed
qed

text \<open>The pool is a stack: a freed page is the next one allocated.\<close>

lemma free_then_alloc:
  assumes "pool s ps A" and "p \<in> A"
  shows "\<exists>s' s''. free s p = Some s' \<and> alloc s' z = Some (Some p, s'') \<and> pool s'' ps A"
proof -
  obtain s' where f: "free s p = Some s'" "pool s' (p # ps) (A - {p})"
    using free_push [OF assms] by blast
  obtain s'' where "alloc s' z = Some (Some p, s'')" "pool s'' ps (insert p (A - {p}))"
    using alloc_head [OF f(2)] by blast
  with f assms(2) show ?thesis by (auto simp: insert_absorb)
qed

end

interpretation kpool: page_pool page_alloc page_free pool
proof unfold_locales
  show "page_alloc s z = Some (None, s)" if "pool s [] A" for s A z
    using that page_alloc_Nil by (simp add: pool_def)
  show "\<exists>s'. page_alloc s z = Some (Some p, s') \<and> pool s' ps (insert p A)"
    if "pool s (p # ps) A" for s p ps A z
    using pool_alloc [OF that] by blast
  show "\<exists>s'. page_free s p = Some s' \<and> pool s' (p # ps) (A - {p})"
    if "pool s ps A" "p \<in> A" for s ps A p
    using pool_free [OF that] by blast
  show "distinct ps \<and> set ps \<inter> A = {}" if "pool s ps A" for s ps A
    using that free_list_distinct by (auto simp: pool_def)
qed

section \<open>Initialisation\<close>

lemma page_in_use_cong [simp]:
  "page_in_use (upd_page i f s) ext p = page_in_use s ext p"
  "page_in_use (s\<lparr>page_free_list := h\<rparr>) ext p = page_in_use s ext p"
  "page_in_use (s\<lparr>nextfree := nf\<rparr>) ext p = page_in_use s ext p"
  by (simp_all add: page_in_use_def)

lemma page_init_loop_spec:
  assumes "chain (free_next s) (page_free_list s) ps" and "distinct is"
    and "set is \<inter> set ps = {}" and "\<forall>p \<in> set ps. pp_ref (pages s p) = 0"
  shows "let s' = page_init_loop s ext is; qs = rev (filter (\<lambda>i. \<not> page_in_use s ext i) is) @ ps
    in chain (free_next s') (page_free_list s') qs \<and> (\<forall>p \<in> set qs. pp_ref (pages s' p) = 0) \<and>
       (\<forall>p \<in> set is. page_in_use s ext p \<longrightarrow> pp_ref (pages s' p) = 1) \<and>
       (\<forall>p. p \<notin> set is \<longrightarrow> pages s' p = pages s p) \<and> npages s' = npages s"
  using assms
proof (induction "is" arbitrary: s ps)
  case Nil
  then show ?case by (simp add: Let_def)
next
  case (Cons i "is")
  show ?case
  proof (cases "page_in_use s ext i")
    case True
    let ?s = "upd_page i (\<lambda>_. \<lparr>pp_link = None, pp_ref = 1\<rparr>) s"
    have "free_next ?s = (free_next s)(i := None)" by auto
    then have "chain (free_next ?s) (page_free_list ?s) ps" using Cons.prems by simp
    moreover have "\<forall>p \<in> set ps. pp_ref (pages ?s p) = 0" using Cons.prems by auto
    ultimately show ?thesis
      using Cons.IH [of ?s ps] Cons.prems True by (auto simp: Let_def)
  next
    case False
    let ?s = "(upd_page i (\<lambda>_. \<lparr>pp_link = page_free_list s, pp_ref = 0\<rparr>) s)\<lparr>page_free_list := Some i\<rparr>"
    have "free_next ?s = (free_next s)(i := page_free_list s)" by auto
    then have "chain (free_next ?s) (page_free_list ?s) (i # ps)" using Cons.prems by simp
    moreover have "\<forall>p \<in> set (i # ps). pp_ref (pages ?s p) = 0" using Cons.prems by auto
    moreover have "set is \<inter> set (i # ps) = {}" using Cons.prems by auto
    ultimately show ?thesis
      using Cons.IH [of ?s "i # ps"] Cons.prems False by (auto simp: Let_def)
  qed
qed

lemma boot_alloc_Some:
  assumes "nf = (if nextfree s = 0 then ROUNDUP end_sym PGSIZE else nextfree s)"
    and "ROUNDUP (nf + n) PGSIZE - KERNBASE \<le> of_nat (npages s) * PGSIZE"
  shows "boot_alloc end_sym s n = Some (nf, s\<lparr>nextfree := ROUNDUP (nf + n) PGSIZE\<rparr>)"
  using assms by (simp add: boot_alloc_def Let_def)

lemma page_init_free_list:
  assumes "nf = (if nextfree s = 0 then ROUNDUP end_sym PGSIZE else nextfree s)"
    and "ROUNDUP nf PGSIZE - KERNBASE \<le> of_nat (npages s) * PGSIZE" and "npages s \<le> 65536"
  shows "\<exists>s'. page_init end_sym s = Some s' \<and> npages s' = npages s \<and>
    free_list s' (rev (filter (\<lambda>i. \<not> page_in_use s (unat ((nf - KERNBASE) div PGSIZE)) i)
      [0..<npages s])) \<and>
    (\<forall>p < npages s. page_in_use s (unat ((nf - KERNBASE) div PGSIZE)) p \<longrightarrow>
       pp_ref (pages s' p) = 1)"
proof -
  let ?s = "s\<lparr>page_free_list := None, nextfree := ROUNDUP nf PGSIZE\<rparr>"
  let ?ext = "unat ((nf - KERNBASE) div PGSIZE)"
  have "boot_alloc end_sym (s\<lparr>page_free_list := None\<rparr>) 0 =
      Some (nf, (s\<lparr>page_free_list := None\<rparr>)\<lparr>nextfree := ROUNDUP (nf + 0) PGSIZE\<rparr>)"
    by (rule boot_alloc_Some) (use assms in simp_all)
  then have "page_init end_sym s = Some (page_init_loop ?s ?ext [0..<npages s])"
    by (simp add: page_init_def Let_def)
  with page_init_loop_spec [of ?s "[]" "[0..<npages s]" ?ext] assms(3)
  show ?thesis by (auto simp: Let_def free_list_def)
qed

section \<open>Double frees\<close>

lemma chain_closed_loop:
  assumes "chain nxt h (ps @ [p])"
  shows "\<not> chain (nxt(p := h)) (Some p) xs"
proof
  have step: "\<exists>rest. ys = qs @ p # rest"
    if "chain nxt g (qs @ [p])" "chain (nxt(p := h)) g ys" "p \<notin> set qs" for g qs ys
    using that
  proof (induction qs arbitrary: g ys)
    case Nil
    then show ?case by (cases ys) auto
  next
    case (Cons q qs)
    then obtain zs where "ys = q # zs" "chain (nxt(p := h)) (nxt q) zs"
      by (cases ys) (auto simp: fun_upd_def)
    with Cons show ?case by auto
  qed
  assume c: "chain (nxt(p := h)) (Some p) xs"
  then obtain ys where ys: "xs = p # ys" "chain (nxt(p := h)) h ys"
    by (cases xs) auto
  have "p \<notin> set ps" using chain_distinct [OF assms] by simp
  with step [OF assms ys(2)] obtain rest where "ys = ps @ p # rest" by blast
  with chain_distinct [OF c] ys(1) show False by simp
qed

section \<open>The self test\<close>

lemma count_free_chain:
  "chain nxt h ps \<Longrightarrow> length ps \<le> fuel \<Longrightarrow> count_free fuel nxt h = Some (length ps)"
proof (induction ps arbitrary: h fuel)
  case Nil
  then show ?case by (cases fuel) auto
next
  case (Cons p ps)
  then show ?case by (cases fuel) auto
qed

lemma free_list_length:
  assumes "free_list s ps"
  shows "length ps \<le> npages s"
proof -
  have "set ps \<subseteq> {..<npages s}" using assms by (auto simp: free_list_def)
  then have "card (set ps) \<le> npages s" by (metis card_lessThan card_mono finite_lessThan)
  then show ?thesis using free_list_distinct [OF assms] by (simp add: distinct_card)
qed

lemma count_free_free_list:
  "free_list s ps \<Longrightarrow> count_free (npages s) (free_next s) (page_free_list s) = Some (length ps)"
  using free_list_length by (auto simp: free_list_def intro: count_free_chain)

lemma pool_alloc3:
  assumes "pool s (a # b # c # ps) A"
  shows "\<exists>s'. alloc3 s = Some ((a, b, c), s') \<and> pool s' ps ({a, b, c} \<union> A) \<and> npages s' = npages s \<and>
    (\<forall>q. q \<notin> {a, b, c} \<longrightarrow> pages s' q = pages s q)"
proof -
  obtain s1 where 1: "page_alloc s False = Some (Some a, s1)" "pool s1 (b # c # ps) (insert a A)"
    "npages s1 = npages s" "\<forall>q. q \<noteq> a \<longrightarrow> pages s1 q = pages s q"
    using pool_alloc [OF assms, of False] by blast
  obtain s2 where 2: "page_alloc s1 False = Some (Some b, s2)" "pool s2 (c # ps) (insert b (insert a A))"
    "npages s2 = npages s1" "\<forall>q. q \<noteq> b \<longrightarrow> pages s2 q = pages s1 q"
    using pool_alloc [OF 1(2), of False] by blast
  obtain s3 where 3: "page_alloc s2 False = Some (Some c, s3)"
    "pool s3 ps (insert c (insert b (insert a A)))" "npages s3 = npages s2"
    "\<forall>q. q \<noteq> c \<longrightarrow> pages s3 q = pages s2 q"
    using pool_alloc [OF 2(2), of False] by blast
  have "distinct [a, b, c]"
    using free_list_distinct [of s "a # b # c # ps"] assms by (auto simp: pool_def)
  then show ?thesis
    using 1 2 3 by (auto simp: alloc3_def insert_commute)
qed

lemma pool_free3:
  assumes "pool s ps A" and "{a, b, c} \<subseteq> A" and "distinct [a, b, c]"
  shows "\<exists>s'. free3 s (a, b, c) = Some s' \<and> pool s' (c # b # a # ps) (A - {a, b, c}) \<and>
    npages s' = npages s \<and> (\<forall>q. q \<notin> {a, b, c} \<longrightarrow> pages s' q = pages s q)"
proof -
  obtain s1 where 1: "page_free s a = Some s1" "pool s1 (a # ps) (A - {a})" "npages s1 = npages s"
    "\<forall>q. q \<noteq> a \<longrightarrow> pages s1 q = pages s q"
    using pool_free [OF assms(1)] assms(2) by blast
  obtain s2 where 2: "page_free s1 b = Some s2" "pool s2 (b # a # ps) (A - {a} - {b})"
    "npages s2 = npages s" "\<forall>q. q \<noteq> b \<longrightarrow> pages s2 q = pages s1 q"
    using pool_free [OF 1(2), of b] assms(2,3) 1(3) by auto
  obtain s3 where 3: "page_free s2 c = Some s3" "pool s3 (c # b # a # ps) (A - {a} - {b} - {c})"
    "npages s3 = npages s" "\<forall>q. q \<noteq> c \<longrightarrow> pages s3 q = pages s2 q"
    using pool_free [OF 2(2), of c] assms(2,3) 2(3) by auto
  have "A - {a} - {b} - {c} = A - {a, b, c}" by auto
  then show ?thesis using 1(1,4) 2(1,4) 3 by (simp add: free3_def)
qed

lemma pool_steal: "pool s ps A \<Longrightarrow> pool (s\<lparr>page_free_list := None\<rparr>) [] A"
  by (auto simp: pool_def free_list_def)

lemma pool_write_frame: "pool s ps A \<Longrightarrow> pool (s\<lparr>frames := m\<rparr>) ps A"
  by (auto simp: pool_def free_list_def)

lemma page2pa_in_memory:
  assumes "p < npages s" and "npages s \<le> 65536"
  shows "page2pa p < of_nat (npages s) * PGSIZE"
  using assms by (simp add: word_less_nat_alt unat_page2pa unat_word_ariths unat_of_nat)

lemma pool_bound: "pool s ps A \<Longrightarrow> p \<in> A \<union> set ps \<Longrightarrow> p < npages s \<and> npages s \<le> 65536"
  by (auto simp: pool_def free_list_def)

text \<open>Giving back a free list that was set aside, while its pages were not touched.\<close>

lemma pool_restore:
  assumes "pool s1 ps A" and "pool s2 qs A" and "npages s2 = npages s1"
    and "\<forall>q. q \<notin> A \<longrightarrow> pages s2 q = pages s1 q"
  shows "pool (s2\<lparr>page_free_list := page_free_list s1\<rparr>) ps A"
proof -
  have same: "pages s2 p = pages s1 p" if "p \<in> set ps" for p
    using that assms(1,4) by (auto simp: pool_def)
  then have "chain (free_next s2) (page_free_list s1) ps \<longleftrightarrow> chain (free_next s1) (page_free_list s1) ps"
    by (intro chain_cong) simp
  with same assms show ?thesis by (auto simp: pool_def free_list_def)
qed

lemma check_page_alloc_spec:
  assumes "free_list s (a # b # c # ps)"
  shows "\<exists>s'. check_page_alloc s = Some s' \<and> free_list s' (a # b # c # ps)"
proof -
  let ?P = "{a, b, c}"
  from assms have p0: "pool s (a # b # c # ps) {}" by (simp add: pool_def)
  have dist: "distinct [a, b, c]" "distinct [c, b, a]" and eq: "{c, b, a} = ?P"
    using free_list_distinct [OF assms] by auto
  obtain s1 where 1: "alloc3 s = Some ((a, b, c), s1)" "pool s1 ps ?P" "npages s1 = npages s"
    using pool_alloc3 [OF p0] by auto
  let ?s2 = "s1\<lparr>page_free_list := None\<rparr>"
  have 2: "pool ?s2 [] ?P" using 1(2) by (rule pool_steal)
  obtain s3 where 3: "free3 ?s2 (a, b, c) = Some s3" "pool s3 [c, b, a] {}" "npages s3 = npages s"
    "\<forall>q. q \<notin> ?P \<longrightarrow> pages s3 q = pages s1 q"
    using pool_free3 [OF 2, of a b c] dist 1(3) by auto
  obtain s4 where 4: "alloc3 s3 = Some ((c, b, a), s4)" "pool s4 [] ?P" "npages s4 = npages s"
    "\<forall>q. q \<notin> ?P \<longrightarrow> pages s4 q = pages s3 q"
    using pool_alloc3 [OF 3(2)] 3(3) eq by auto
  let ?s5 = "s4\<lparr>frames := (frames s4)(c := (\<lambda>_. 0x01010101))\<rparr>"
  have 5: "pool ?s5 [] ?P" using 4(2) by (rule pool_write_frame)
  obtain s6 where 6: "page_free ?s5 c = Some s6" "pool s6 [c] (?P - {c})" "npages s6 = npages s"
    "\<forall>q. q \<noteq> c \<longrightarrow> pages s6 q = pages s4 q"
    using pool_free [OF 5, of c] 4(3) by auto
  obtain s7 where 7: "page_alloc s6 True = Some (Some c, s7)" "pool s7 [] ?P"
    "npages s7 = npages s" "frames s7 c = (\<lambda>_. 0)" "\<forall>q. q \<noteq> c \<longrightarrow> pages s7 q = pages s6 q"
    using pool_alloc [OF 6(2), of True] 6(3) by (auto simp: insert_commute insert_absorb)
  let ?s8 = "s7\<lparr>page_free_list := page_free_list s1\<rparr>"
  have "\<forall>q. q \<notin> ?P \<longrightarrow> pages s7 q = pages s1 q" using 3(4) 4(4) 6(4) 7(5) by simp
  then have 8: "pool ?s8 ps ?P" using pool_restore [OF 1(2) 7(2)] 1(3) 7(3) by simp
  obtain s9 where 9: "free3 ?s8 (c, b, a) = Some s9" "pool s9 (a # b # c # ps) {}" "npages s9 = npages s"
    using pool_free3 [OF 8, of c b a] dist 7(3) by auto
  have bound: "p < npages s \<and> npages s \<le> 65536" if "p \<in> ?P" for p
    using pool_bound [OF 1(2), of p] that 1(3) by auto
  have kva: "page2kva s4 c = Some c" "page2kva s7 c = Some c"
    using bound [of c] 4(3) 7(3) by simp_all
  have pa: "page2pa p < of_nat (npages s) * PGSIZE" if "p \<in> ?P" for p
    using bound [OF that] page2pa_in_memory [of p s] by simp
  have fl9: "free_list s9 (a # b # c # ps)" using 9(2) by (simp add: pool_def)
  have "check_page_alloc s = Some s9"
    using 1(1,3) 3(1) 4(1,3) 6(1) 7(1,3,4) 9(1,3) kva pa [of a] pa [of b] pa [of c]
      kpool.alloc_empty [OF 2, of False] kpool.alloc_empty [OF 4(2), of False]
      count_free_free_list [OF assms] count_free_free_list [OF fl9]
    by (simp add: check_page_alloc_def assert_that_def Let_def)
  with fl9 show ?thesis by blast
qed

section \<open>Properties\<close>

text \<open>C8. No sequence of \<^verbatim>\<open>page_alloc\<close> and \<^verbatim>\<open>page_free\<close> calls by a client that frees only pages it holds
  panics, loses a page or hands a page out twice: afterwards the free list is well formed, no
  held page is on it, and the free and the held pages together are the pages that were free at
  the start.\<close>

theorem allocator_conserves_pages:
  assumes "free_list s ps"
  shows "\<exists>s' ps' held. pool_run page_alloc page_free ops s {} = Some (s', held) \<and>
    free_list s' ps' \<and> distinct ps' \<and> set ps' \<inter> held = {} \<and> set ps' \<union> held = set ps"
proof -
  from assms have "pool s ps {}" by (simp add: pool_def)
  from kpool.run_conserves [OF this, of ops] obtain s' ps' held where
    "pool_run page_alloc page_free ops s {} = Some (s', held)" "pool s' ps' held"
    "set ps' \<union> held = set ps" by auto
  then show ?thesis
    by (intro exI [of _ s'] exI [of _ ps'] exI [of _ held]) (auto simp: pool_def free_list_distinct)
qed

text \<open>Three pages of memory, pages 2 and 1 free.\<close>

definition two_free_pages :: kstate where
  "two_free_pages = zero_kernel\<lparr>npages := 3, page_free_list := Some 2,
     pages := (\<lambda>_. \<lparr>pp_link = None, pp_ref = 0\<rparr>)(2 := \<lparr>pp_link = Some 1, pp_ref = 0\<rparr>)\<rparr>"

lemma two_free_pages_list: "free_list two_free_pages [2, 1]"
  by (simp add: two_free_pages_def free_list_def zero_kernel_def)

theorem allocator_conserves_pages_witness:
  "\<exists>s' ps' held. pool_run page_alloc page_free [PAlloc False, PAlloc True, PFree 2] two_free_pages {} =
      Some (s', held) \<and>
    free_list s' ps' \<and> distinct ps' \<and> set ps' \<inter> held = {} \<and> set ps' \<union> held = {2, 1}"
  using allocator_conserves_pages [OF two_free_pages_list, of "[PAlloc False, PAlloc True, PFree 2]"]
  by simp

text \<open>\<^verbatim>\<open>page_init\<close> succeeds when the kernel image fits into memory and leaves on the free list
  exactly the pages the code does not reserve; in particular page 0, the processor start-up page
  and everything from the end of base memory up to the boot allocator's next free byte (the I/O
  hole, the kernel image, the page and environment tables) are never free.\<close>

lemma page_init_reserves:
  assumes "nf = (if nextfree s = 0 then ROUNDUP end_sym PGSIZE else nextfree s)"
    and "ROUNDUP nf PGSIZE - KERNBASE \<le> of_nat (npages s) * PGSIZE" and "npages s \<le> 65536"
  shows "\<exists>s' ps. page_init end_sym s = Some s' \<and> free_list s' ps \<and> 0 \<notin> set ps \<and>
    unat (MPENTRY_PADDR div PGSIZE) \<notin> set ps \<and>
    (\<forall>p \<in> set ps. npages_basemem s \<le> p \<longrightarrow> unat (nf - KERNBASE) < p * 4096) \<and>
    (\<forall>p < npages s. p \<notin> set ps \<longrightarrow> pp_ref (pages s' p) = 1)"
proof -
  let ?ext = "unat ((nf - KERNBASE) div PGSIZE)"
  obtain s' where s': "page_init end_sym s = Some s'"
    "free_list s' (rev (filter (\<lambda>i. \<not> page_in_use s ?ext i) [0..<npages s]))"
    "\<forall>p < npages s. page_in_use s ?ext p \<longrightarrow> pp_ref (pages s' p) = 1"
    using page_init_free_list [OF assms] by blast
  have "unat (nf - KERNBASE) < p * 4096" if "npages_basemem s \<le> p" "\<not> page_in_use s ?ext p" for p
    using that by (auto simp: page_in_use_def unat_div)
  then show ?thesis
    using s' by (intro exI [of _ s'] exI conjI) (auto simp: page_in_use_def)
qed

lemma page_init_reserves_example:
  "\<exists>s' ps. page_init 0xF0000F00 (zero_kernel\<lparr>npages := 9, npages_basemem := 4\<rparr>) = Some s' \<and>
    free_list s' ps \<and> 0 \<notin> set ps \<and> unat (MPENTRY_PADDR div PGSIZE) \<notin> set ps"
  using page_init_reserves [of "0xF0001000" "zero_kernel\<lparr>npages := 9, npages_basemem := 4\<rparr>" "0xF0000F00"]
  by (auto simp: zero_kernel_def ROUNDUP_def ROUNDDOWN_def)

text \<open>The kernel's boot-time self test of the allocator always succeeds when at least three
  pages are free, and it gives back the free list page for page as it found it.\<close>

lemma check_page_alloc_passes:
  assumes "free_list s ps" and "3 \<le> length ps"
  shows "\<exists>s'. check_page_alloc s = Some s' \<and> free_list s' ps"
proof -
  obtain a b c qs where "ps = a # b # c # qs"
    using assms(2) by (auto simp: numeral_3_eq_3 Suc_le_length_iff)
  with check_page_alloc_spec assms(1) show ?thesis by blast
qed

lemma check_page_alloc_passes_example:
  "\<exists>s'. check_page_alloc (zero_kernel\<lparr>npages := 4, page_free_list := Some 3,
      pages := (\<lambda>p. \<lparr>pp_link = (if 1 < p then Some (p - 1) else None), pp_ref = 0\<rparr>)\<rparr>) = Some s' \<and>
    free_list s' [3, 2, 1]"
  by (rule check_page_alloc_passes) (simp_all add: free_list_def zero_kernel_def)

text \<open>The double-free check of \<^verbatim>\<open>page_free\<close> misses the page at the end of the free list: its link
  is null like that of an allocated page, so freeing it again succeeds and turns the free list
  into a cycle, which no finite list describes.\<close>

lemma page_free_misses_last:
  assumes "free_list s (ps @ [p])"
  shows "\<exists>s'. page_free s p = Some s' \<and> (\<forall>qs. \<not> free_list s' qs)"
proof -
  have chain: "chain (free_next s) (page_free_list s) (ps @ [p])"
    using assms by (simp add: free_list_def)
  have "pp_link (pages s p) = None" using chain_suffix [OF chain] by simp
  moreover have "pp_ref (pages s p) = 0" using assms by (simp add: free_list_def)
  moreover have "\<not> chain ((free_next s)(p := page_free_list s)) (Some p) qs" for qs
    using chain_closed_loop [OF chain] .
  ultimately show ?thesis
    by (auto simp: page_free_def free_list_def fun_upd_def if_distrib cong: if_cong)
qed

lemma page_free_misses_last_example:
  "\<exists>s'. page_free two_free_pages 1 = Some s' \<and> (\<forall>qs. \<not> free_list s' qs)"
  using page_free_misses_last [of two_free_pages "[2]" 1] two_free_pages_list by simp

end
