(* ===== verification/PageTable.thy ===== *)
theory PageTable
  imports PageAlloc
begin

text \<open>
  Two-level page tables, the second half of \<^verbatim>\<open>kern/pmap.c\<close>. A page directory is a physical page
  (\<open>None\<close> is the null pointer, which \<^verbatim>\<open>pgdir_walk\<close> asserts against); a \<^verbatim>\<open>pte_t *\<close> is a page and a slot.

  \<open>umap\<close> is what the tables of the live page directories say about the user part of the address
  space, as one finite map; \<open>vm_inv\<close> relates it to the reference counts and the free list. The
  refinement lemmas show that \<^verbatim>\<open>page_insert\<close> and \<^verbatim>\<open>page_remove\<close> are point updates of that map.
\<close>

unbundle bit_operations_syntax

section \<open>Walking and changing the tables\<close>

definition walk_entry :: "kstate \<Rightarrow> nat \<Rightarrow> u32 \<Rightarrow> ((nat \<times> nat) option \<times> kstate) option" where
  "walk_entry s pd va =
     do { pg_table \<leftarrow> kpage s (PTE_ADDR (frames s pd (unat (PDX va))));
          Some (Some (pg_table, unat (PTX va)), s) }"

definition pgdir_walk ::
  "kstate \<Rightarrow> nat option \<Rightarrow> u32 \<Rightarrow> bool \<Rightarrow> ((nat \<times> nat) option \<times> kstate) option" where
  "pgdir_walk s pgdir va create =
     do { pd \<leftarrow> pgdir;
          if present (frames s pd (unat (PDX va))) then walk_entry s pd va
          else if \<not> create then Some (None, s)
          else do { (new_page, s) \<leftarrow> page_alloc s True;
                    case new_page of
                      None \<Rightarrow> Some (None, s)
                    | Some np \<Rightarrow>
                        let s = page_incref s np;
                            s = set_word pd (unat (PDX va)) (page2pa np OR PTE_P OR PTE_W OR PTE_U) s
                        in walk_entry s pd va } }"

fun boot_map_region_loop ::
  "nat \<Rightarrow> kstate \<Rightarrow> nat option \<Rightarrow> u32 \<Rightarrow> u32 \<Rightarrow> u32 \<Rightarrow> kstate option" where
  "boot_map_region_loop 0 s pgdir va pa perm = Some s"
| "boot_map_region_loop (Suc n) s pgdir va pa perm =
     do { (entry, s) \<leftarrow> pgdir_walk s pgdir va True;
          (t, j) \<leftarrow> entry;
          boot_map_region_loop n (set_word t j (pa OR perm OR PTE_P) s) pgdir
            (va + PGSIZE) (pa + PGSIZE) perm }"

definition boot_map_region ::
  "kstate \<Rightarrow> nat option \<Rightarrow> u32 \<Rightarrow> u32 \<Rightarrow> u32 \<Rightarrow> u32 \<Rightarrow> kstate option" where
  "boot_map_region s pgdir va sz pa perm =
     boot_map_region_loop (unat (sz div PGSIZE)) s pgdir va pa perm"

definition tlb_invalidate :: "kstate \<Rightarrow> nat option \<Rightarrow> u32 \<Rightarrow> kstate" where
  "tlb_invalidate s pgdir va =
     (case curenv s of
        None \<Rightarrow> s\<lparr>invlpgs := va # invlpgs s\<rparr>
      | Some e \<Rightarrow> if env_pgdir (envs s e) = pgdir then s\<lparr>invlpgs := va # invlpgs s\<rparr> else s)"

text \<open>\<open>page_lookup\<close> returns the page together with what the code stores in \<^verbatim>\<open>*pte_store\<close>.\<close>

definition page_lookup :: "kstate \<Rightarrow> nat option \<Rightarrow> u32 \<Rightarrow> (nat \<times> nat \<times> nat) option option" where
  "page_lookup s pgdir va =
     do { (entry, s) \<leftarrow> pgdir_walk s pgdir va False;
          case entry of
            None \<Rightarrow> Some None
          | Some (t, j) \<Rightarrow>
              if \<not> present (frames s t j) then Some None
              else do { ret \<leftarrow> pa2page s (PTE_ADDR (frames s t j)); Some (Some (ret, t, j)) } }"

definition page_remove :: "kstate \<Rightarrow> nat option \<Rightarrow> u32 \<Rightarrow> kstate option" where
  "page_remove s pgdir va =
     do { r \<leftarrow> page_lookup s pgdir va;
          case r of
            None \<Rightarrow> Some s
          | Some (page, t, j) \<Rightarrow>
              do { s \<leftarrow> page_decref s page;
                   let s = tlb_invalidate s pgdir va;
                   Some (set_word t j 0 s) } }"

definition page_insert ::
  "kstate \<Rightarrow> nat option \<Rightarrow> nat \<Rightarrow> u32 \<Rightarrow> u32 \<Rightarrow> (int \<times> kstate) option" where
  "page_insert s pgdir pp va perm =
     do { (entry, s) \<leftarrow> pgdir_walk s pgdir va True;
          case entry of
            None \<Rightarrow> Some (- E_NO_MEM, s)
          | Some (t, j) \<Rightarrow>
              do { let s = page_incref s pp;
                   s \<leftarrow> (if present (frames s t j)
                        then page_remove (tlb_invalidate s pgdir va) pgdir va
                        else Some s);
                   Some (0, set_word t j (page2pa pp OR perm OR PTE_P) s) } }"

definition mmio_map_region :: "kstate \<Rightarrow> u32 \<Rightarrow> u32 \<Rightarrow> (u32 \<times> kstate) option" where
  "mmio_map_region s pa sz =
     (let sz = ROUNDUP sz PGSIZE;
          pa = ROUNDDOWN pa PGSIZE
      in if sz + mmio_base s \<ge> MMIOLIM then None
         else do { s' \<leftarrow> boot_map_region s (Some (kern_pgdir s)) (mmio_base s) sz pa
                          (PTE_PCD OR PTE_PWT OR PTE_W);
                   let ret = mmio_base s;
                   Some (ret, s'\<lparr>mmio_base := ret + sz\<rparr>) })"

text \<open>The loop of \<^verbatim>\<open>user_mem_check\<close>; \<open>va0\<close> is the rounded start address.\<close>

partial_function (option) user_mem_check_loop ::
  "kstate \<Rightarrow> nat option \<Rightarrow> u32 \<Rightarrow> u32 \<Rightarrow> u32 \<Rightarrow> u32 \<Rightarrow> (int \<times> kstate) option" where
  "user_mem_check_loop s pgdir va start end_va perm =
     (if start < end_va then
        do { (cur, s) \<leftarrow> pgdir_walk s pgdir start False;
             if start > ULIM \<or>
                (case cur of None \<Rightarrow> True | Some (t, j) \<Rightarrow> frames s t j AND perm \<noteq> perm)
             then Some (- E_FAULT, s\<lparr>user_mem_check_addr :=
                     (if start = ROUNDDOWN va PGSIZE then va else start)\<rparr>)
             else user_mem_check_loop s pgdir va (start + PGSIZE) end_va perm }
      else Some (0, s))"

definition user_mem_check :: "kstate \<Rightarrow> nat \<Rightarrow> u32 \<Rightarrow> u32 \<Rightarrow> u32 \<Rightarrow> (int \<times> kstate) option" where
  "user_mem_check s env va len perm =
     user_mem_check_loop s (env_pgdir (envs s env)) va
       (ROUNDDOWN va PGSIZE) (ROUNDUP (va + len) PGSIZE) perm"

definition check_va2pa :: "kstate \<Rightarrow> nat \<Rightarrow> u32 \<Rightarrow> u32 option" where
  "check_va2pa s pgdir va =
     (let pde = frames s pgdir (unat (PDX va)) in
      if \<not> present pde then Some (NOT 0)
      else do { p \<leftarrow> kpage s (PTE_ADDR pde);
                if \<not> present (frames s p (unat (PTX va))) then Some (NOT 0)
                else Some (PTE_ADDR (frames s p (unat (PTX va)))) })"

section \<open>Setting up the kernel's address space\<close>

text \<open>
  \<^verbatim>\<open>mem_init_mp\<close>: one mapped stack and one unmapped guard per processor below \<^verbatim>\<open>KSTACKTOP\<close>. The
  addresses of the per-processor stacks, laid out by the linker, are a parameter.
\<close>

fun mem_init_mp_loop :: "(nat \<Rightarrow> u32) \<Rightarrow> nat list \<Rightarrow> kstate \<Rightarrow> kstate option" where
  "mem_init_mp_loop percpu_kstacks [] s = Some s"
| "mem_init_mp_loop percpu_kstacks (i # is) s =
     do { pa \<leftarrow> PADDR (percpu_kstacks i);
          let kstacktop_i = KSTACKTOP - of_nat i * (KSTKGAP + KSTKSIZE);
          s \<leftarrow> boot_map_region s (Some (kern_pgdir s)) (kstacktop_i - KSTKSIZE) KSTKSIZE pa PTE_W;
          mem_init_mp_loop percpu_kstacks is s }"

definition mem_init_mp :: "(nat \<Rightarrow> u32) \<Rightarrow> kstate \<Rightarrow> kstate option" where
  "mem_init_mp percpu_kstacks s = mem_init_mp_loop percpu_kstacks [0..<NCPU] s"

section \<open>The abstract address spaces\<close>

text \<open>
  \<open>D\<close> is the set of live page directories. A mapping is addressed by directory, directory index
  below that of \<^verbatim>\<open>UTOP\<close> and table index; \<open>umap\<close> gives its entry when both levels are present.
\<close>

definition NUPD :: nat where "NUPD = unat (PDX UTOP)"

definition utab :: "kstate \<Rightarrow> nat \<Rightarrow> nat \<Rightarrow> nat option" where
  "utab s d i = (if present (frames s d i) then Some (pfn (frames s d i)) else None)"

definition tables :: "nat set \<Rightarrow> kstate \<Rightarrow> nat set" where
  "tables D s = {t. \<exists>d \<in> D. \<exists>i < NUPD. utab s d i = Some t}"

definition umap :: "nat set \<Rightarrow> kstate \<Rightarrow> nat \<times> nat \<times> nat \<Rightarrow> u32 option" where
  "umap D s = (\<lambda>(d, i, j).
     if d \<in> D \<and> i < NUPD \<and> j < NPTENTRIES
     then case utab s d i of
            None \<Rightarrow> None
          | Some t \<Rightarrow> if present (frames s t j) then Some (frames s t j) else None
     else None)"

text \<open>The number of mappings of a page.\<close>

definition refs :: "('k \<Rightarrow> u32 option) \<Rightarrow> nat \<Rightarrow> 'k set" where
  "refs m p = {x. \<exists>e. m x = Some e \<and> pfn e = p}"

definition count :: "('k \<Rightarrow> u32 option) \<Rightarrow> nat \<Rightarrow> nat" where
  "count m p = card (refs m p)"

definition owned :: "kstate \<Rightarrow> nat list \<Rightarrow> nat \<Rightarrow> bool" where
  "owned s ps p \<longleftrightarrow> p < npages s \<and> p \<notin> set ps \<and> pp_link (pages s p) = None \<and> pp_ref (pages s p) = 1"

definition vm_dirs :: "nat set \<Rightarrow> kstate \<Rightarrow> nat list \<Rightarrow> bool" where
  "vm_dirs D s ps \<longleftrightarrow> finite D \<and> free_list s ps \<and> (\<forall>d \<in> D. owned s ps d) \<and>
     (\<forall>d \<in> D. \<forall>i < NUPD. \<forall>t. utab s d i = Some t \<longrightarrow> owned s ps t \<and> t \<notin> D \<and>
        (\<forall>d' \<in> D. \<forall>i' < NUPD. utab s d' i' = Some t \<longrightarrow> d' = d \<and> i' = i))"

text \<open>Page \<open>p\<close> is a user page with reference count \<open>n\<close>: in use, and neither a directory nor a table.\<close>

definition user_page :: "nat set \<Rightarrow> kstate \<Rightarrow> nat list \<Rightarrow> nat \<Rightarrow> nat \<Rightarrow> bool" where
  "user_page D s ps p n \<longleftrightarrow> p < npages s \<and> p \<notin> set ps \<and> p \<notin> D \<and> p \<notin> tables D s \<and>
     pp_link (pages s p) = None \<and> unat (pp_ref (pages s p)) = n"

definition vm_counts :: "nat set \<Rightarrow> kstate \<Rightarrow> nat list \<Rightarrow> (nat \<Rightarrow> nat) \<Rightarrow> bool" where
  "vm_counts D s ps c \<longleftrightarrow> vm_dirs D s ps \<and> (\<forall>p. 0 < c p \<longrightarrow> user_page D s ps p (c p))"

definition vm_inv :: "nat set \<Rightarrow> kstate \<Rightarrow> nat list \<Rightarrow> bool" where
  "vm_inv D s ps \<longleftrightarrow> vm_counts D s ps (count (umap D s))"

text \<open>What no operation on page tables changes.\<close>

definition mem_frame :: "kstate \<Rightarrow> kstate \<Rightarrow> bool" where
  "mem_frame s s' \<longleftrightarrow>
     npages s' = npages s \<and> npages_basemem s' = npages_basemem s \<and> nextfree s' = nextfree s \<and>
     kern_pgdir s' = kern_pgdir s \<and> mmio_base s' = mmio_base s \<and>
     user_mem_check_addr s' = user_mem_check_addr s \<and> envs s' = envs s \<and>
     env_free_list s' = env_free_list s \<and> cpus s' = cpus s \<and> cpunum s' = cpunum s \<and>
     kernel_lock s' = kernel_lock s \<and> ticks s' = ticks s \<and> console s' = console s \<and> nic s' = nic s"

lemma mem_frame_refl [simp]: "mem_frame s s"
  by (simp add: mem_frame_def)

lemma mem_frame_trans: "mem_frame s s' \<Longrightarrow> mem_frame s' s'' \<Longrightarrow> mem_frame s s''"
  by (simp add: mem_frame_def)

lemma mem_frame_curenv: "mem_frame s s' \<Longrightarrow> curenv s' = curenv s"
  by (simp add: mem_frame_def curenv_def)

lemma mem_frame_upds [simp]:
  "mem_frame s (upd_page p f s)" "mem_frame s (set_word p i v s)" "mem_frame s (zero_page p s)"
  "mem_frame s (s\<lparr>page_free_list := h\<rparr>)" "mem_frame s (tlb_invalidate s pgdir va)"
  "mem_frame s (page_incref s p)"
  by (simp_all add: mem_frame_def upd_page_def set_word_def zero_page_def tlb_invalidate_def
      page_incref_def split: option.split)

section \<open>Counting mappings\<close>

text \<open>
  What an operation on page tables does not write: the pages that are neither directories nor tables nor free keep
  their contents, and in the directories it only adds tables, writable for the user.
\<close>

definition user_frame :: "nat set \<Rightarrow> kstate \<Rightarrow> nat list \<Rightarrow> kstate \<Rightarrow> bool" where
  "user_frame D s ps s' \<longleftrightarrow> (\<forall>p. p \<notin> D \<longrightarrow> p \<notin> tables D s \<longrightarrow> p \<notin> set ps \<longrightarrow> frames s' p = frames s p) \<and>
     (\<forall>d \<in> D. \<forall>i. frames s' d i = frames s d i \<or>
        i < NUPD \<and> \<not> present (frames s d i) \<and> (\<exists>np. frames s' d i = mk_pte np (PTE_W OR PTE_U)))"

lemma user_frame_same: "frames s' = frames s \<Longrightarrow> user_frame D s ps s'"
  by (simp add: user_frame_def)

lemma user_frame_cong: "frames s2 = frames s1 \<Longrightarrow> user_frame D s ps s2 = user_frame D s ps s1"
  by (simp add: user_frame_def)

lemma user_frame_write:
  assumes "user_frame D s ps s'" and "t \<notin> D" and "t \<in> tables D s \<or> t \<in> set ps"
    and "\<forall>p. p \<noteq> t \<longrightarrow> frames s'' p = frames s' p"
  shows "user_frame D s ps s''"
  unfolding user_frame_def
proof (intro conjI allI impI ballI)
  fix p assume "p \<notin> D" "p \<notin> tables D s" "p \<notin> set ps"
  then show "frames s'' p = frames s p" using assms unfolding user_frame_def by metis
next
  fix d i assume "d \<in> D"
  then have "frames s'' d = frames s' d" using assms(2,4) by metis
  then show "frames s'' d i = frames s d i \<or>
      i < NUPD \<and> \<not> present (frames s d i) \<and> (\<exists>np. frames s'' d i = mk_pte np (PTE_W OR PTE_U))"
    using assms(1) \<open>d \<in> D\<close> unfolding user_frame_def by simp
qed

lemma finite_refs: "finite (dom m) \<Longrightarrow> finite (refs m p)"
  by (rule finite_subset [of _ "dom m"]) (auto simp: refs_def)

lemma refs_insert:
  "m x = None \<Longrightarrow> refs (m(x \<mapsto> e)) p = (if p = pfn e then insert x (refs m p) else refs m p)"
  by (auto simp: refs_def)

lemma refs_delete:
  "m x = Some e \<Longrightarrow> refs (m(x := None)) p = (if p = pfn e then refs m p - {x} else refs m p)"
  by (auto simp: refs_def)

lemma count_insert:
  assumes "finite (dom m)" and "m x = None"
  shows "count (m(x \<mapsto> e)) = (count m)(pfn e := count m (pfn e) + 1)"
proof
  fix p
  have "x \<notin> refs m q" for q using assms(2) by (simp add: refs_def)
  then show "count (m(x \<mapsto> e)) p = ((count m)(pfn e := count m (pfn e) + 1)) p"
    by (simp add: count_def refs_insert [of m x, OF assms(2)] finite_refs [OF assms(1)])
qed

lemma count_delete:
  assumes "finite (dom m)" and "m x = Some e"
  shows "count (m(x := None)) = (count m)(pfn e := count m (pfn e) - 1)"
proof
  fix p
  have "x \<in> refs m (pfn e)" using assms(2) by (simp add: refs_def)
  then show "count (m(x := None)) p = ((count m)(pfn e := count m (pfn e) - 1)) p"
    by (simp add: count_def refs_delete [of m x, OF assms(2)] finite_refs [OF assms(1)])
qed

lemma count_positive:
  assumes "finite (dom m)" and "m x = Some e"
  shows "0 < count m (pfn e)"
proof -
  have "x \<in> refs m (pfn e)" using assms(2) by (simp add: refs_def)
  then show ?thesis using finite_refs [OF assms(1)] by (auto simp: count_def card_gt_0_iff)
qed

lemma finite_umap: "finite D \<Longrightarrow> finite (dom (umap D s))"
  by (rule finite_subset [of _ "D \<times> {..<NUPD} \<times> {..<NPTENTRIES}"])
    (auto simp: umap_def split: if_splits)

section \<open>The steps of the operations\<close>

lemma frame_set_word [simp]:
  "free_list (set_word t j v s) ps = free_list s ps" "owned (set_word t j v s) ps p = owned s ps p"
  by (simp_all add: free_list_def owned_def)

text \<open>Writing one slot of a user page table updates the map at one point.\<close>

lemma write_slot_utab:
  assumes "t \<notin> D" and "d \<in> D"
  shows "utab (set_word t j v s) d i = utab s d i"
  using assms by (auto simp: utab_def)

lemma write_slot:
  assumes "vm_counts D s ps c" and "d \<in> D" and "i < NUPD" and "j < NPTENTRIES"
    and "utab s d i = Some t"
  shows "vm_counts D (set_word t j v s) ps c"
    and "umap D (set_word t j v s) = (umap D s)((d, i, j) := if present v then Some v else None)"
proof -
  have dirs: "vm_dirs D s ps" using assms(1) by (simp add: vm_counts_def)
  have t: "t \<notin> D" and inj: "\<And>d' i'. d' \<in> D \<Longrightarrow> i' < NUPD \<Longrightarrow> utab s d' i' = Some t \<Longrightarrow> d' = d \<and> i' = i"
    using dirs assms(2,3,5) unfolding vm_dirs_def by blast+
  note ut = write_slot_utab [OF t]
  have tabs: "tables D (set_word t j v s) = tables D s"
    by (auto simp: tables_def ut)
  have "vm_dirs D (set_word t j v s) ps = vm_dirs D s ps"
    unfolding vm_dirs_def frame_set_word by (simp add: ut cong: conj_cong ball_cong)
  then show "vm_counts D (set_word t j v s) ps c"
    using assms(1) by (simp add: vm_counts_def user_page_def tabs)
  show "umap D (set_word t j v s) = (umap D s)((d, i, j) := if present v then Some v else None)"
  proof (rule ext, clarify)
    fix d' i' j'
    show "umap D (set_word t j v s) (d', i', j') =
      ((umap D s)((d, i, j) := if present v then Some v else None)) (d', i', j')"
    proof (cases "d' \<in> D \<and> i' < NUPD \<and> j' < NPTENTRIES")
      case False
      then have "(d', i', j') \<noteq> (d, i, j)" using assms(2-4) by auto
      with False show ?thesis by (auto simp: umap_def)
    next
      case True
      show ?thesis
      proof (cases "utab s d' i' = Some t")
        case tab: True
        then have "d' = d" "i' = i" using inj True by auto
        with tab True assms(2-4) show ?thesis by (simp add: umap_def ut)
      next
        case False
        then have "(d', i', j') \<noteq> (d, i, j)" using assms(5) by auto
        with False True show ?thesis by (auto simp: umap_def ut split: option.split)
      qed
    qed
  qed
qed

text \<open>Reference counts.\<close>

lemma frames_cong:
  assumes "frames s' = frames s"
  shows "utab s' = utab s" and "tables D s' = tables D s" and "umap D s' = umap D s"
proof -
  show ut: "utab s' = utab s" using assms by (intro ext) (simp add: utab_def)
  show "tables D s' = tables D s" "umap D s' = umap D s"
    unfolding tables_def umap_def assms ut by (rule refl)+
qed

lemma vm_dirs_other_page:
  assumes "vm_dirs D s ps" and "p \<notin> D" and "p \<notin> tables D s"
    and "free_list s' qs" and "set qs \<subseteq> insert p (set ps)"
    and "frames s' = frames s" and "\<forall>q. q \<noteq> p \<longrightarrow> pages s' q = pages s q" and "npages s' = npages s"
  shows "vm_dirs D s' qs"
proof -
  have keep: "owned s' qs q" if "owned s ps q" "q \<noteq> p" for q
    using that assms(5,7,8) by (auto simp: owned_def)
  have ut: "utab s' d i = utab s d i" for d i using assms(6) by (simp add: utab_def)
  have "owned s' qs d" if "d \<in> D" for d
    using that keep assms(1,2) unfolding vm_dirs_def by blast
  moreover have "owned s' qs t" if "d \<in> D" "i < NUPD" "utab s d i = Some t" for d i t
    using that keep assms(1,3) unfolding vm_dirs_def tables_def by blast
  ultimately show ?thesis
    using assms(1,4) unfolding vm_dirs_def ut by blast
qed

lemma vm_countsD:
  assumes "vm_counts D s ps c"
  shows "vm_dirs D s ps" and "free_list s ps" and "finite D" and "\<And>p. 0 < c p \<Longrightarrow> user_page D s ps p (c p)"
  using assms unfolding vm_counts_def vm_dirs_def by blast+

lemma counts_other_page:
  assumes "vm_counts D s ps c" and "p \<notin> D" and "p \<notin> tables D s"
    and "free_list s' qs" and "set qs \<subseteq> insert p (set ps)"
    and "frames s' = frames s" and "\<forall>q. q \<noteq> p \<longrightarrow> pages s' q = pages s q" and "npages s' = npages s"
    and "0 < n \<Longrightarrow> user_page D s' qs p n"
  shows "vm_counts D s' qs (c(p := n))"
proof -
  have "vm_dirs D s' qs"
    using vm_dirs_other_page [OF vm_countsD(1) [OF assms(1)] assms(2-8)] .
  moreover have "user_page D s' qs q (c q)" if "0 < c q" "q \<noteq> p" for q
  proof -
    have "q \<notin> set qs"
      using vm_countsD(4) [OF assms(1) that(1)] that(2) assms(5) by (auto simp: user_page_def)
    then show ?thesis
      using vm_countsD(4) [OF assms(1) that(1)] that(2) assms(7,8) frames_cong(2) [OF assms(6)]
      by (simp add: user_page_def)
  qed
  ultimately show ?thesis
    using assms(9) by (simp add: vm_counts_def)
qed

lemma incref_counts:
  assumes "vm_counts D s ps c" and "user_page D s ps p (c p)" and "c p < 65535"
  shows "vm_counts D (page_incref s p) ps (c(p := c p + 1))"
proof -
  let ?s = "page_incref s p"
  have p: "p \<notin> D" "p \<notin> tables D s" "p \<notin> set ps" "unat (pp_ref (pages s p)) = c p"
    using assms(2) by (auto simp: user_page_def)
  have ref: "unat (pp_ref (pages s p) + 1) = c p + 1"
    using assms(3) p(4) unat_inc [of "pp_ref (pages s p)"] by simp
  have "free_next ?s = free_next s" by (auto simp: page_incref_def)
  then have fl: "free_list ?s ps"
    using vm_countsD(2) [OF assms(1)] p(3) by (auto simp: free_list_def page_incref_def)
  have "user_page D ?s ps p (c p + 1)"
    using assms(2) ref frames_cong(2) [of ?s s D] by (simp add: user_page_def page_incref_def)
  then show ?thesis
    using fl by (intro counts_other_page [OF assms(1) p(1,2)]) (auto simp: page_incref_def)
qed

lemma decref_counts:
  assumes "vm_counts D s ps c" and "0 < c p"
  shows "\<exists>s'. page_decref s p = Some s' \<and>
    vm_counts D s' (if c p = 1 then p # ps else ps) (c(p := c p - 1)) \<and>
    frames s' = frames s \<and> mem_frame s s' \<and> invlpgs s' = invlpgs s"
proof -
  let ?s = "upd_page p (\<lambda>pi. pi\<lparr>pp_ref := pp_ref pi - 1\<rparr>) s"
  have user: "user_page D s ps p (c p)" using vm_countsD(4) [OF assms] .
  then have p: "p < npages s" "p \<notin> set ps" "p \<notin> D" "p \<notin> tables D s" "pp_link (pages s p) = None"
    "unat (pp_ref (pages s p)) = c p"
    by (simp_all add: user_page_def)
  have ref: "unat (pp_ref (pages s p) - 1) = c p - 1"
    using assms(2) p(6) by (metis unat_0 less_irrefl unat_minus_one)
  have "free_next ?s = free_next s" by auto
  then have fl: "free_list ?s ps"
    using vm_countsD(2) [OF assms(1)] p(2) by (auto simp: free_list_def)
  show ?thesis
  proof (cases "c p = 1")
    case True
    then have zero: "pp_ref (pages s p) - 1 = 0" using ref by (simp add: unat_eq_zero)
    then have "fresh_page ?s p"
      using p fl by (auto simp: fresh_page_def dest: free_list_unique)
    from page_free_fresh [OF fl this] obtain s' where
      s': "page_free ?s p = Some s'" "free_list s' (p # ps)" "frames s' = frames s"
        "\<forall>q. q \<noteq> p \<longrightarrow> pages s' q = pages s q" by auto
    have "vm_counts D s' (p # ps) (c(p := 0))"
      using s' page_free_frame(1) [OF s'(1)] by (intro counts_other_page [OF assms(1) p(3,4)]) auto
    moreover have "mem_frame s s'" "invlpgs s' = invlpgs s"
      using s'(1) by (auto simp: page_free_def mem_frame_def upd_page_def split: if_splits)
    ultimately show ?thesis
      using s' zero True by (auto simp: page_decref_def)
  next
    case False
    then have "pp_ref (pages s p) - 1 \<noteq> 0"
      using ref assms(2) by (metis unat_0 diff_is_0_eq' diffs0_imp_equal less_one linorder_not_le nat_less_le)
    then have "page_decref s p = Some ?s" by (simp add: page_decref_def)
    moreover have "user_page D ?s ps p (c p - 1)"
      using user ref frames_cong(2) [of ?s s D] by (simp add: user_page_def)
    then have "vm_counts D ?s ps (c(p := c p - 1))"
      using fl by (intro counts_other_page [OF assms(1) p(3,4)]) auto
    ultimately show ?thesis using False by simp
  qed
qed

text \<open>The walk: a present table is found, a missing one is taken from the free list.\<close>

lemma kpage_PTE_ADDR: "kpage s (PTE_ADDR pde) = (if npages s \<le> pfn pde then None else Some (pfn pde))"
  by (simp add: kpage_eq pfn_def)

lemma pa2page_PTE_ADDR: "pa2page s (PTE_ADDR pte) = (if npages s \<le> pfn pte then None else Some (pfn pte))"
  by (simp add: pa2page_def pfn_def)

lemma walk_present:
  assumes "utab s d (unat (PDX va)) = Some t" and "t < npages s"
  shows "pgdir_walk s (Some d) va create = Some (Some (t, unat (PTX va)), s)"
  using assms by (auto simp: pgdir_walk_def walk_entry_def utab_def kpage_PTE_ADDR split: if_splits)

lemma walk_absent:
  assumes "utab s d (unat (PDX va)) = None"
  shows "pgdir_walk s (Some d) va False = Some (None, s)"
  using assms by (auto simp: pgdir_walk_def utab_def split: if_splits)

lemma vm_countsT:
  assumes "vm_counts D s ps c" and "d \<in> D" and "i < NUPD" and "utab s d i = Some t"
  shows "t < npages s" and "t \<notin> D" and "owned s ps t"
  using assms unfolding vm_counts_def vm_dirs_def owned_def by blast+

lemma new_table:
  assumes "vm_counts D s (np # ps) c" and "d \<in> D" and "i < NUPD" and "utab s d i = None"
    and "free_list s' ps" and "frames s' np = (\<lambda>_. 0)"
    and "\<forall>q. q \<noteq> np \<longrightarrow> frames s' q = (if q = d then (frames s d)(i := pde) else frames s q)"
    and "present pde" and "pfn pde = np"
    and "\<forall>q. q \<noteq> np \<longrightarrow> pages s' q = pages s q" and "owned s' ps np" and "npages s' = npages s"
  shows "vm_counts D s' ps c" and "umap D s' = umap D s"
    and "\<And>p n. user_page D s (np # ps) p n \<Longrightarrow> user_page D s' ps p n"
proof -
  note dirs = vm_countsD(1) [OF assms(1)]
  have npD: "np \<notin> D" using dirs unfolding vm_dirs_def owned_def by (meson list.set_intros(1))
  have npt: "utab s d' i' \<noteq> Some np" if "d' \<in> D" "i' < NUPD" for d' i'
    using dirs that unfolding vm_dirs_def owned_def by (meson list.set_intros(1))
  have ut: "utab s' d' i' = (if d' = d \<and> i' = i then Some np else utab s d' i')" if "d' \<in> D" for d' i'
  proof -
    have "frames s' d' = (if d' = d then (frames s d)(i := pde) else frames s d')"
      using assms(7) npD that by metis
    then show ?thesis using assms(8,9) by (auto simp: utab_def)
  qed
  have tabs: "tables D s' \<subseteq> insert np (tables D s)"
    by (auto simp: tables_def ut split: if_splits)
  have own: "owned s' ps q" if "owned s (np # ps) q" for q
    using that assms(10,12) by (auto simp: owned_def)
  show user: "user_page D s' ps p n" if "user_page D s (np # ps) p n" for p n
    using that assms(10,12) tabs by (auto simp: user_page_def)
  have tab: "owned s' ps t \<and> t \<notin> D \<and> (\<forall>d' \<in> D. \<forall>i' < NUPD. utab s' d' i' = Some t \<longrightarrow> d' = e \<and> i' = k)"
    if "e \<in> D" "k < NUPD" "utab s' e k = Some t" for e k t
  proof (cases "e = d \<and> k = i")
    case True
    then have "t = np" using that ut [of e k] by simp
    then show ?thesis using True assms(11) npD npt by (auto simp: ut)
  next
    case False
    then have old: "utab s e k = Some t" using that ut [of e k] by auto
    then have "t \<noteq> np" using npt that by auto
    moreover have "owned s (np # ps) t \<and> t \<notin> D \<and>
        (\<forall>d' \<in> D. \<forall>i' < NUPD. utab s d' i' = Some t \<longrightarrow> d' = e \<and> i' = k)"
      using dirs old that unfolding vm_dirs_def by blast
    ultimately show ?thesis using own by (auto simp: ut split: if_splits)
  qed
  have "vm_dirs D s' ps"
    unfolding vm_dirs_def using tab own dirs assms(5) unfolding vm_dirs_def by blast
  then show "vm_counts D s' ps c"
    using user vm_countsD(4) [OF assms(1)] by (simp add: vm_counts_def)
  show "umap D s' = umap D s"
  proof (rule ext, clarify)
    fix d' i' j'
    show "umap D s' (d', i', j') = umap D s (d', i', j')"
    proof (cases "d' \<in> D \<and> i' < NUPD")
      case True
      have "frames s' t = frames s t" if "utab s d' i' = Some t" for t
        using that True npt assms(2,7) vm_countsT(2) [OF assms(1), of d' i' t] by metis
      then show ?thesis
        using True assms(4,6) by (auto simp: umap_def ut split: option.split)
    qed (auto simp: umap_def)
  qed
qed

lemma page2pa_pte: "page2pa np OR PTE_P OR PTE_W OR PTE_U = mk_pte np (PTE_W OR PTE_U)"
  by (simp add: page2pa_def mk_pte_def or.assoc)

lemmas page2pa_pte' = page2pa_pte [simplified]

text \<open>A walk that has to create the table takes the first free page.\<close>

lemma walk_new_table:
  assumes "free_list s (np # qs)" and "d \<noteq> np" and "utab s d (unat (PDX va)) = None"
  obtains s' where "pgdir_walk s (Some d) va True = Some (Some (np, unat (PTX va)), s')"
    "frames s' = (frames s)(np := (\<lambda>_. 0), d := (frames s d)(unat (PDX va) := mk_pte np (PTE_W OR PTE_U)))"
    "\<forall>q. q \<noteq> np \<longrightarrow> pages s' q = pages s q" "free_list s' qs" "owned s' qs np" "mem_frame s s'"
proof -
  have absent: "\<not> present (frames s d (unat (PDX va)))" using assms(3) by (simp add: utab_def split: if_splits)
  obtain s1 where s1: "page_alloc s True = Some (Some np, s1)"
    using page_alloc_Cons [OF assms(1), of True] by auto
  note a = free_list_alloc [OF assms(1) s1]
  let ?pde = "mk_pte np (PTE_W OR PTE_U)"
  let ?s' = "set_word d (unat (PDX va)) ?pde (page_incref s1 np)"
  have np: "np < npages s" "npages s \<le> 65536" "np \<notin> set qs"
    using assms(1) free_list_distinct [OF assms(1)] by (auto simp: free_list_def)
  have pfn: "pfn ?pde = np" using np by (simp add: pfn_mk_pte perm_bits_def)
  have npages1: "npages s1 = npages s" by (rule page_alloc_frame(1) [OF s1])
  have nxt: "free_next (page_incref s1 np) = free_next s1" by (auto simp: page_incref_def)
  have op: "pgdir_walk s (Some d) va True = Some (Some (np, unat (PTX va)), ?s')"
    using absent s1 pfn np npages1
    by (simp add: pgdir_walk_def page2pa_pte' Let_def walk_entry_def kpage_PTE_ADDR page_incref_def)
  have fr: "frames ?s' = (frames s)(np := (\<lambda>_. 0), d := (frames s d)(unat (PDX va) := ?pde))"
    using a(7) assms(2) by (auto simp: page_incref_def)
  have fl: "free_list ?s' qs"
    using a(2) np(3) nxt by (auto simp: free_list_def page_incref_def)
  have own: "owned ?s' qs np"
    using np a(5,6) npages1 by (simp add: owned_def page_incref_def)
  have mf: "mem_frame s ?s'"
    using page_alloc_frame [OF s1] by (simp add: mem_frame_def page_incref_def)
  show ?thesis
    by (rule that [OF op fr _ fl own mf]) (use a(4) in \<open>simp add: page_incref_def\<close>)
qed

lemma pgdir_walk_create:
  assumes "vm_counts D s ps c" and "d \<in> D" and "unat (PDX va) < NUPD"
  obtains (full) "utab s d (unat (PDX va)) = None" "ps = []" "pgdir_walk s (Some d) va True = Some (None, s)"
  | (walk) s' t qs where "pgdir_walk s (Some d) va True = Some (Some (t, unat (PTX va)), s')"
      "utab s' d (unat (PDX va)) = Some t" "vm_counts D s' qs c" "umap D s' = umap D s"
      "\<And>p n. user_page D s ps p n \<Longrightarrow> user_page D s' qs p n" "mem_frame s s'"
      "qs = ps \<or> ps = t # qs" "user_frame D s ps s'" "t \<in> tables D s \<or> t \<in> set ps"
      "utab s d (unat (PDX va)) \<noteq> None \<Longrightarrow> qs = ps"
      "\<And>x i. x \<in> D \<Longrightarrow> (x, i) \<noteq> (d, unat (PDX va)) \<Longrightarrow> utab s' x i = utab s x i"
proof (cases "utab s d (unat (PDX va))")
  case (Some t)
  have "t \<in> tables D s" using Some assms(2,3) by (auto simp: tables_def)
  then show ?thesis
    using walk_present [OF Some vm_countsT(1) [OF assms Some]] Some assms(1)
    by (intro walk [of t s ps]) (simp_all add: user_frame_same)
next
  case None
  then have absent: "\<not> present (frames s d (unat (PDX va)))" by (simp add: utab_def split: if_splits)
  show ?thesis
  proof (cases ps)
    case Nil
    then have "page_alloc s True = Some (None, s)"
      using page_alloc_Nil vm_countsD(2) [OF assms(1)] by blast
    with None Nil absent show ?thesis by (intro full) (simp_all add: pgdir_walk_def)
  next
    case (Cons np qs)
    have fl: "free_list s (np # qs)" using vm_countsD(2) [OF assms(1)] Cons by simp
    have np: "np < npages s" "npages s \<le> 65536" using fl by (auto simp: free_list_def)
    have npD: "np \<notin> D" using vm_countsD(1) [OF assms(1)] Cons by (auto simp: vm_dirs_def owned_def)
    then have dnp: "d \<noteq> np" using assms(2) by auto
    obtain s' where s': "pgdir_walk s (Some d) va True = Some (Some (np, unat (PTX va)), s')"
        "frames s' = (frames s)(np := (\<lambda>_. 0), d := (frames s d)(unat (PDX va) := mk_pte np (PTE_W OR PTE_U)))"
        "\<forall>q. q \<noteq> np \<longrightarrow> pages s' q = pages s q" "free_list s' qs" "owned s' qs np" "mem_frame s s'"
      by (rule walk_new_table [OF fl dnp None])
    have pfn: "pfn (mk_pte np (PTE_W OR PTE_U)) = np" using np by (simp add: pfn_mk_pte perm_bits_def)
    have ut: "utab s' d (unat (PDX va)) = Some np"
      unfolding utab_def s'(2) fun_upd_same using pfn by simp
    have new: "vm_counts D s' qs c" "umap D s' = umap D s"
        "\<And>p n. user_page D s (np # qs) p n \<Longrightarrow> user_page D s' qs p n"
      using assms(1) Cons dnp s'(2,3,6)
      by (intro new_table [OF _ assms(2,3) None s'(4) _ _ present_mk_pte pfn _ s'(5)];
          simp add: mem_frame_def)+
    have uf: "user_frame D s ps s'"
      using assms(2,3) npD absent Cons by (auto simp: user_frame_def s'(2))
    show ?thesis
      by (rule walk [OF s'(1) ut new(1,2) _ s'(6) _ uf])
        (use new(3) Cons None npD in \<open>auto simp: utab_def s'(2)\<close>)
  qed
qed

section \<open>Refinement\<close>

lemma page_lookup_umap:
  assumes "vm_counts D s ps c" and "d \<in> D" and "unat (PDX va) < NUPD"
    and "\<And>x e. umap D s x = Some e \<Longrightarrow> pfn e < npages s"
  shows "umap D s (d, unat (PDX va), unat (PTX va)) = None \<Longrightarrow> page_lookup s (Some d) va = Some None"
    and "umap D s (d, unat (PDX va), unat (PTX va)) = Some e \<Longrightarrow>
      \<exists>t. utab s d (unat (PDX va)) = Some t \<and> frames s t (unat (PTX va)) = e \<and> present e \<and>
        page_lookup s (Some d) va = Some (Some (pfn e, t, unat (PTX va)))"
proof -
  show "page_lookup s (Some d) va = Some None"
    if "umap D s (d, unat (PDX va), unat (PTX va)) = None"
  proof (cases "utab s d (unat (PDX va))")
    case None
    then show ?thesis by (simp add: page_lookup_def walk_absent)
  next
    case (Some t)
    then show ?thesis
      using that assms(2,3) walk_present [OF Some vm_countsT(1) [OF assms(1-3) Some]]
      by (auto simp: page_lookup_def umap_def split: if_splits)
  qed
  show "\<exists>t. utab s d (unat (PDX va)) = Some t \<and> frames s t (unat (PTX va)) = e \<and> present e \<and>
        page_lookup s (Some d) va = Some (Some (pfn e, t, unat (PTX va)))"
    if m: "umap D s (d, unat (PDX va), unat (PTX va)) = Some e"
  proof -
    obtain t where t: "utab s d (unat (PDX va)) = Some t" "frames s t (unat (PTX va)) = e" "present e"
      using m by (auto simp: umap_def split: if_splits option.splits)
    have "pa2page s (PTE_ADDR e) = Some (pfn e)"
      using assms(4) [OF m] by (simp add: pa2page_def pfn_def)
    then show ?thesis
      using t walk_present [OF t(1) vm_countsT(1) [OF assms(1-3) t(1)]]
      by (simp add: page_lookup_def)
  qed
qed

lemma vm_counts_tlb [simp]:
  "vm_counts D (tlb_invalidate s pgdir va) ps c = vm_counts D s ps c"
  "umap D (tlb_invalidate s pgdir va) = umap D s"
  "utab (tlb_invalidate s pgdir va) = utab s"
  "frames (tlb_invalidate s pgdir va) = frames s"
proof -
  have same: "pages (tlb_invalidate s pgdir va) = pages s" "frames (tlb_invalidate s pgdir va) = frames s"
    "npages (tlb_invalidate s pgdir va) = npages s"
    "page_free_list (tlb_invalidate s pgdir va) = page_free_list s"
    by (simp_all add: tlb_invalidate_def split: option.split)
  note fr = frames_cong [OF same(2)]
  show "vm_counts D (tlb_invalidate s pgdir va) ps c = vm_counts D s ps c"
    by (simp add: vm_counts_def vm_dirs_def user_page_def owned_def free_list_def same fr)
  show "umap D (tlb_invalidate s pgdir va) = umap D s" "utab (tlb_invalidate s pgdir va) = utab s"
    "frames (tlb_invalidate s pgdir va) = frames s"
    using fr same by simp_all
qed

text \<open>
  \<open>page_remove\<close> in a state whose counts may differ from the map (as in the middle of
  \<open>page_insert\<close>): it drops one reference, and the mapping.
\<close>

lemma page_remove_counts:
  assumes "vm_counts D s ps c" and "d \<in> D" and "unat (PDX va) < NUPD"
    and "umap D s (d, unat (PDX va), unat (PTX va)) = Some e"
    and "\<And>x e. umap D s x = Some e \<Longrightarrow> 0 < c (pfn e)"
  shows "\<exists>s'. page_remove s (Some d) va = Some s' \<and>
    vm_counts D s' (if c (pfn e) = 1 then pfn e # ps else ps) (c(pfn e := c (pfn e) - 1)) \<and>
    umap D s' = (umap D s)((d, unat (PDX va), unat (PTX va)) := None) \<and>
    utab s' d = utab s d \<and> mem_frame s s' \<and>
    (curenv s = None \<or> env_pgdir (envs s (the (curenv s))) = Some d \<longrightarrow> va \<in> set (invlpgs s')) \<and>
    (\<exists>t. utab s d (unat (PDX va)) = Some t \<and> (\<forall>p. p \<noteq> t \<longrightarrow> frames s' p = frames s p))"
proof -
  have bound: "pfn f < npages s" if "umap D s x = Some f" for x f
    using vm_countsD(4) [OF assms(1) assms(5) [OF that]] by (simp add: user_page_def)
  obtain t where t: "utab s d (unat (PDX va)) = Some t"
      "page_lookup s (Some d) va = Some (Some (pfn e, t, unat (PTX va)))"
    using page_lookup_umap(2) [OF assms(1-3) _ assms(4)] bound by blast
  obtain s1 where s1: "page_decref s (pfn e) = Some s1"
      "vm_counts D s1 (if c (pfn e) = 1 then pfn e # ps else ps) (c(pfn e := c (pfn e) - 1))"
      "frames s1 = frames s" "mem_frame s s1" "invlpgs s1 = invlpgs s"
    using decref_counts [OF assms(1) assms(5) [OF assms(4)]] by blast
  let ?s2 = "tlb_invalidate s1 (Some d) va"
  let ?s' = "set_word t (unat (PTX va)) 0 ?s2"
  have "page_remove s (Some d) va = Some ?s'"
    using t(2) s1(1) by (simp add: page_remove_def)
  moreover have "utab ?s2 d (unat (PDX va)) = Some t"
    using t(1) frames_cong(1) [OF s1(3)] by simp
  note w = write_slot [OF _ assms(2,3) PTX_bound this, of _ "c(pfn e := c (pfn e) - 1)" va 0]
  have "vm_counts D ?s' (if c (pfn e) = 1 then pfn e # ps else ps) (c(pfn e := c (pfn e) - 1))"
    using w(1) s1(2) by simp
  moreover have "umap D ?s' = (umap D s)((d, unat (PDX va), unat (PTX va)) := None)"
    using w(2) s1(2) frames_cong(3) [OF s1(3)] by simp
  moreover have "utab ?s' d = utab s d"
    using write_slot_utab [OF vm_countsT(2) [OF assms(1-3) t(1)] assms(2)] frames_cong(1) [OF s1(3)]
    by (intro ext) simp
  moreover have "mem_frame s ?s'"
    by (rule mem_frame_trans [OF s1(4) mem_frame_trans [OF mem_frame_upds(5) mem_frame_upds(2)]])
  moreover have "va \<in> set (invlpgs ?s')"
    if "curenv s = None \<or> env_pgdir (envs s (the (curenv s))) = Some d"
    using that s1(4) mem_frame_curenv [OF s1(4)]
    by (auto simp: tlb_invalidate_def mem_frame_def split: option.split)
  moreover have "\<forall>p. p \<noteq> t \<longrightarrow> frames ?s' p = frames s p" using s1(3) by (simp add: set_word_def)
  ultimately show ?thesis using t(1) by blast
qed

lemma NUPD_value: "NUPD = 955"
  by (simp add: NUPD_def unat_PDX layout_values)

lemma below_UTOP: "va < UTOP \<longleftrightarrow> unat (PDX va) < NUPD"
  unfolding NUPD_value unat_PDX layout_values word_less_nat_alt by (simp add: div_less_iff_less_mult)

abbreviation slot :: "nat \<Rightarrow> u32 \<Rightarrow> nat \<times> nat \<times> nat" where
  "slot d va \<equiv> (d, unat (PDX va), unat (PTX va))"

lemma vm_invD:
  assumes "vm_inv D s ps"
  shows "vm_counts D s ps (count (umap D s))" and "finite (dom (umap D s))"
    and "\<And>x e. umap D s x = Some e \<Longrightarrow> 0 < count (umap D s) (pfn e)"
    and "\<And>x e. umap D s x = Some e \<Longrightarrow> pfn e < npages s"
proof -
  show c: "vm_counts D s ps (count (umap D s))" using assms by (simp add: vm_inv_def)
  show fin: "finite (dom (umap D s))" using finite_umap vm_countsD(3) [OF c] .
  show pos: "0 < count (umap D s) (pfn e)" if "umap D s x = Some e" for x e
    using count_positive [OF fin that] .
  show "pfn e < npages s" if "umap D s x = Some e" for x e
    using vm_countsD(4) [OF c pos [OF that]] by (simp add: user_page_def)
qed

lemma table_write:
  assumes "vm_counts D s ps c" and "d \<in> D" and "i < NUPD" and "utab s d i = Some t"
    and "\<forall>p. p \<noteq> t \<longrightarrow> frames s' p = frames s p"
  shows "user_frame D s ps s'"
proof -
  have "t \<in> tables D s" "t \<notin> D" using assms(2-4) vm_countsT(2) [OF assms(1-4)] by (auto simp: tables_def)
  then show ?thesis using user_frame_write [OF user_frame_same [OF refl]] assms(5) by blast
qed

lemma page_remove_refines:
  assumes "vm_inv D s ps" and "d \<in> D" and "va < UTOP"
  shows "\<exists>s' ps'. page_remove s (Some d) va = Some s' \<and> vm_inv D s' ps' \<and>
    umap D s' = (umap D s)(slot d va := None) \<and> mem_frame s s' \<and> utab s' d = utab s d \<and>
    ps' = (case umap D s (slot d va) of None \<Rightarrow> ps
           | Some e \<Rightarrow> if count (umap D s) (pfn e) = 1 then pfn e # ps else ps) \<and>
    (\<forall>e. umap D s (slot d va) = Some e \<longrightarrow>
      (curenv s = None \<or> env_pgdir (envs s (the (curenv s))) = Some d \<longrightarrow> va \<in> set (invlpgs s'))) \<and>
    user_frame D s ps s'"
proof (cases "umap D s (slot d va)")
  case None
  then have "page_remove s (Some d) va = Some s"
    using page_lookup_umap(1) [OF vm_invD(1) [OF assms(1)] assms(2)] vm_invD(4) [OF assms(1)] assms(3)
    by (simp add: page_remove_def below_UTOP)
  moreover have "umap D s = (umap D s)(slot d va := None)"
    using None by (simp add: fun_upd_idem)
  moreover have "user_frame D s ps s" by (rule user_frame_same) simp
  ultimately show ?thesis using assms(1) None by (metis mem_frame_refl option.distinct(1) option.simps(4))
next
  case (Some e)
  note inv = vm_invD [OF assms(1)]
  obtain s' ps' t where s': "page_remove s (Some d) va = Some s'"
      "vm_counts D s' ps' ((count (umap D s))(pfn e := count (umap D s) (pfn e) - 1))"
      "umap D s' = (umap D s)(slot d va := None)" "mem_frame s s'" "utab s' d = utab s d"
      "curenv s = None \<or> env_pgdir (envs s (the (curenv s))) = Some d \<longrightarrow> va \<in> set (invlpgs s')"
      "ps' = (if count (umap D s) (pfn e) = 1 then pfn e # ps else ps)"
      "utab s d (unat (PDX va)) = Some t" "\<forall>p. p \<noteq> t \<longrightarrow> frames s' p = frames s p"
    using page_remove_counts [OF inv(1) assms(2) _ Some] inv(3) assms(3) below_UTOP by blast
  moreover have "user_frame D s ps s'"
    using table_write [OF inv(1) assms(2) _ s'(8)] s'(9) assms(3) below_UTOP by blast
  moreover have "vm_inv D s' ps'"
    using count_delete [OF inv(2) Some] s'(2,3) by (simp add: vm_inv_def)
  ultimately show ?thesis using Some by (intro exI [of _ s'] exI [of _ ps']) simp
qed

lemma user_page_cong:
  assumes "frames s' = frames s" and "pages s' = pages s" and "npages s' = npages s"
  shows "user_page D s' ps p n = user_page D s ps p n"
  using assms frames_cong(2) [OF assms(1)] by (simp add: user_page_def)

text \<open>
  \<open>page_insert\<close> of a user page: either a table is missing and no page is free, and nothing
  changes, or the mapping is set.
\<close>

lemma page_insert_full:
  assumes "vm_inv D s ps" and "d \<in> D" and "va < UTOP" and "perm_bits perm"
    and "user_page D s ps pp (count (umap D s) pp)" and "count (umap D s) pp < 65535"
  shows "utab s d (unat (PDX va)) = None \<and> ps = [] \<and> page_insert s (Some d) pp va perm = Some (- E_NO_MEM, s) \<or>
    (\<exists>s' ps'. page_insert s (Some d) pp va perm = Some (0, s') \<and> vm_inv D s' ps' \<and>
      umap D s' = (umap D s)(slot d va \<mapsto> mk_pte pp perm) \<and> mem_frame s s' \<and> user_frame D s ps s' \<and>
      length ps \<le> length ps' + (if utab s d (unat (PDX va)) = None then 1 else 0) \<and>
      (\<forall>x \<in> D. \<forall>i. (x, i) \<noteq> (d, unat (PDX va)) \<longrightarrow> utab s' x i = utab s x i))"
proof -
  let ?m = "umap D s" and ?i = "unat (PDX va)" and ?j = "unat (PTX va)"
  let ?c = "count ?m" and ?new = "mk_pte pp perm"
  note inv = vm_invD [OF assms(1)]
  have i: "?i < NUPD" using assms(3) below_UTOP by simp
  have pp: "pp < npages s" "npages s \<le> 65536" "pp < 2 ^ 20"
    using assms(5) vm_countsD(2) [OF inv(1)] by (auto simp: user_page_def free_list_def)
  have pfn: "pfn ?new = pp" using pp assms(4) by (simp add: pfn_mk_pte)
  have new: "page2pa pp OR perm OR PTE_P = ?new" by (simp add: page2pa_def mk_pte_def)
  from inv(1) assms(2) i show ?thesis
  proof (cases rule: pgdir_walk_create)
    case full
    then show ?thesis by (simp add: page_insert_def)
  next
    case w: (walk s1 t qs)
    let ?s2 = "page_incref s1 pp" and ?c2 = "?c(pp := ?c pp + 1)"
    have s2: "vm_counts D ?s2 qs ?c2" "frames ?s2 = frames s1" "mem_frame s ?s2"
      using incref_counts [OF w(3)] w(5,6) assms(5,6)
      by (auto simp: page_incref_def intro: mem_frame_trans)
    note fr2 = frames_cong [OF s2(2)]
    have entry: "?m (slot d va) = (if present (frames s1 t ?j) then Some (frames s1 t ?j) else None)"
      using w(2) assms(2) i unfolding w(4) [symmetric] by (simp add: umap_def)
    have set: "\<exists>s' ps'. Some (0 :: int, set_word t ?j ?new s3) = Some (0, s') \<and> vm_inv D s' ps' \<and>
        umap D s' = ?m(slot d va \<mapsto> ?new) \<and> mem_frame s s' \<and> user_frame D s ps s' \<and>
        length ps \<le> length ps' + (if utab s d ?i = None then 1 else 0) \<and>
        (\<forall>x \<in> D. \<forall>i. (x, i) \<noteq> (d, ?i) \<longrightarrow> utab s' x i = utab s x i)"
      if "vm_counts D s3 rs (count (?m(slot d va \<mapsto> ?new)))" "mem_frame s s3" "utab s3 d ?i = Some t"
        "umap D s3 = ?m(slot d va := v)" "\<forall>p. p \<noteq> t \<longrightarrow> frames s3 p = frames s1 p" "length qs \<le> length rs" for s3 rs v
    proof -
      have "t \<notin> D" using vm_countsT(2) [OF that(1) assms(2) i that(3)] .
      then have "user_frame D s ps (set_word t ?j ?new s3)"
        using user_frame_write [OF w(8) _ w(9)] that(5) by (simp add: set_word_def)
      moreover have "\<forall>x \<in> D. \<forall>i. (x, i) \<noteq> (d, ?i) \<longrightarrow> utab (set_word t ?j ?new s3) x i = utab s x i"
      proof (intro ballI allI impI)
        fix x k assume x: "x \<in> D" "(x, k) \<noteq> (d, ?i)"
        then have "x \<noteq> t" using \<open>t \<notin> D\<close> by auto
        then have "utab (set_word t ?j ?new s3) x k = utab s1 x k" using that(5) by (simp add: utab_def set_word_def)
        then show "utab (set_word t ?j ?new s3) x k = utab s x k" using w(11) [OF x] by simp
      qed
      moreover have "length ps \<le> length rs + (if utab s d ?i = None then 1 else 0)" using w(7,10) that(6) by auto
      ultimately show ?thesis
        using write_slot [OF that(1) assms(2) i PTX_bound that(3), of va ?new] that
        by (auto simp: vm_inv_def intro: mem_frame_trans [OF _ mem_frame_upds(2)])
    qed
    show ?thesis
    proof (cases "?m (slot d va)")
      case None
      then have "page_insert s (Some d) pp va perm = Some (0, set_word t ?j ?new ?s2)"
        using w(1) entry s2(2) by (simp add: page_insert_def new split: if_splits)
      moreover have "count (?m(slot d va \<mapsto> ?new)) = ?c2"
        using count_insert [OF inv(2) None, of ?new] pfn by simp
      ultimately show ?thesis
        using set [of ?s2 qs None] s2 fr2 w(2,4) None by (simp add: fun_upd_idem)
    next
      case (Some e)
      let ?s2' = "tlb_invalidate ?s2 (Some d) va"
      have e: "present e" "frames s1 t ?j = e" using Some entry by (auto split: if_splits)
      have c2: "vm_counts D ?s2' qs ?c2" "umap D ?s2' = ?m" using s2(1) fr2(3) w(4) by simp_all
      have pos: "0 < ?c2 (pfn f)" if "umap D ?s2' x = Some f" for x f
        using inv(3) [of x f] that c2(2) by simp
      have "umap D ?s2' (slot d va) = Some e" using Some c2(2) by simp
      from page_remove_counts [OF c2(1) assms(2) i this] pos obtain s3 rs where
        s3: "page_remove ?s2' (Some d) va = Some s3"
          "vm_counts D s3 rs (?c2(pfn e := ?c2 (pfn e) - 1))" "umap D s3 = ?m(slot d va := None)"
          "utab s3 d = utab ?s2' d" "mem_frame ?s2' s3"
          "rs = (if ?c2 (pfn e) = 1 then pfn e # qs else qs)"
          "\<exists>t. utab ?s2' d ?i = Some t \<and> (\<forall>p. p \<noteq> t \<longrightarrow> frames s3 p = frames ?s2' p)"
        unfolding c2(2) by blast
      have kept: "\<forall>p. p \<noteq> t \<longrightarrow> frames s3 p = frames s1 p" "length qs \<le> length rs"
        using s3(6,7) s2(2) fr2(1) w(2) by auto
      have "page_insert s (Some d) pp va perm = Some (0, set_word t ?j ?new s3)"
        using w(1) e s2(2) s3(1) by (simp add: page_insert_def new)
      moreover have "count (?m(slot d va \<mapsto> ?new)) = ?c2(pfn e := ?c2 (pfn e) - 1)"
      proof -
        have "finite (dom (?m(slot d va := None)))" using inv(2) by simp
        from count_insert [OF this, of "slot d va" ?new] count_delete [OF inv(2) Some] inv(3) [OF Some]
        show ?thesis by (auto simp: pfn)
      qed
      moreover have "mem_frame s s3"
        using mem_frame_trans [OF s2(3)] mem_frame_trans [OF mem_frame_upds(5) s3(5)] by blast
      ultimately show ?thesis
        using set [OF _ _ _ s3(3) kept] s3(2,4) fr2(1) w(2) by (simp only: vm_counts_tlb(3)) blast
    qed
  qed
qed

lemma page_insert_refines:
  assumes "vm_inv D s ps" and "d \<in> D" and "va < UTOP" and "perm_bits perm"
    and "user_page D s ps pp (count (umap D s) pp)" and "count (umap D s) pp < 65535"
  shows "utab s d (unat (PDX va)) = None \<and> ps = [] \<and> page_insert s (Some d) pp va perm = Some (- E_NO_MEM, s) \<or>
    (\<exists>s' ps'. page_insert s (Some d) pp va perm = Some (0, s') \<and> vm_inv D s' ps' \<and>
      umap D s' = (umap D s)(slot d va \<mapsto> mk_pte pp perm) \<and> mem_frame s s')"
  using page_insert_full [OF assms] by blast

section \<open>Creating and dropping directories and tables\<close>

lemma vm_invI:
  assumes "vm_dirs D s ps" and "\<And>x e. umap D s x = Some e \<Longrightarrow> user_page D s ps (pfn e) (count (umap D s) (pfn e))"
  shows "vm_inv D s ps"
proof -
  have "user_page D s ps p (count (umap D s) p)" if "0 < count (umap D s) p" for p
  proof -
    from that obtain x e where "umap D s x = Some e" "pfn e = p"
      by (auto simp: count_def refs_def card_gt_0_iff)
    with assms(2) show ?thesis by blast
  qed
  with assms(1) show ?thesis by (simp add: vm_inv_def vm_counts_def)
qed

lemma vm_inv_user: "vm_inv D s ps \<Longrightarrow> umap D s x = Some e \<Longrightarrow> user_page D s ps (pfn e) (count (umap D s) (pfn e))"
  using vm_invD(1,3) vm_countsD(4) by blast

lemma vm_inv_cong:
  assumes "frames s' = frames s" and "pages s' = pages s" and "npages s' = npages s"
    and "page_free_list s' = page_free_list s"
  shows "vm_inv D s' ps = vm_inv D s ps"
  unfolding vm_inv_def vm_counts_def vm_dirs_def user_page_def owned_def free_list_def
    frames_cong [OF assms(1)] assms by (rule refl)

lemma new_dir:
  assumes "vm_inv D s (p # ps)" and "\<And>q. q \<noteq> p \<Longrightarrow> frames s' q = frames s q"
    and "\<And>i. i < NUPD \<Longrightarrow> \<not> present (frames s' p i)" and "\<And>q. q \<noteq> p \<Longrightarrow> pages s' q = pages s q"
    and "owned s' ps p" and "free_list s' ps" and "npages s' = npages s"
  shows "vm_inv (insert p D) s' ps" and "umap (insert p D) s' = umap D s" and "p \<notin> D"
proof -
  note inv = vm_invD [OF assms(1)]
  note dirs = vm_countsD(1) [OF inv(1)]
  show pD: "p \<notin> D" using dirs unfolding vm_dirs_def owned_def by (meson list.set_intros(1))
  have ptab: "utab s d i \<noteq> Some p" if "d \<in> D" "i < NUPD" for d i
    using dirs that unfolding vm_dirs_def owned_def by (meson list.set_intros(1))
  have utp: "utab s' p i = None" if "i < NUPD" for i using assms(3) that by (simp add: utab_def)
  have ut: "utab s' d i = utab s d i" if "d \<in> D" for d i
  proof -
    have "d \<noteq> p" using that pD by blast
    then show ?thesis using assms(2) by (simp add: utab_def)
  qed
  have tabs: "tables (insert p D) s' = tables D s" by (auto simp: tables_def utp ut)
  show m: "umap (insert p D) s' = umap D s"
  proof (rule ext, clarify)
    fix d i j
    show "umap (insert p D) s' (d, i, j) = umap D s (d, i, j)"
    proof (cases "d \<in> D \<and> i < NUPD")
      case True
      have "frames s' t = frames s t" if "utab s d i = Some t" for t
        using that True ptab assms(2) by metis
      then show ?thesis using True by (auto simp: umap_def ut split: option.split)
    next
      case False
      then show ?thesis using pD by (cases "d = p") (auto simp: umap_def utp)
    qed
  qed
  have own: "owned s' ps q" if "owned s (p # ps) q" for q
    using that assms(4,7) by (auto simp: owned_def)
  have tab: "owned s' ps t \<and> t \<notin> insert p D \<and>
      (\<forall>d' \<in> insert p D. \<forall>i' < NUPD. utab s' d' i' = Some t \<longrightarrow> d' = d \<and> i' = i)"
    if "d \<in> insert p D" "i < NUPD" "utab s' d i = Some t" for d i t
  proof -
    have d: "d \<in> D" using that utp by auto
    then have old: "utab s d i = Some t" using that ut by auto
    have "owned s (p # ps) t \<and> t \<notin> D \<and>
        (\<forall>d' \<in> D. \<forall>i' < NUPD. utab s d' i' = Some t \<longrightarrow> d' = d \<and> i' = i)"
      using dirs d old that unfolding vm_dirs_def by blast
    then show ?thesis using own utp ut ptab [OF d that(2)] old by auto
  qed
  have "finite D" "\<And>d. d \<in> D \<Longrightarrow> owned s' ps d"
    using dirs own unfolding vm_dirs_def by blast+
  then have "vm_dirs (insert p D) s' ps"
    unfolding vm_dirs_def using tab assms(5,6) by blast
  then show "vm_inv (insert p D) s' ps"
  proof (rule vm_invI)
    fix x e
    assume "umap (insert p D) s' x = Some e"
    then have "user_page D s (p # ps) (pfn e) (count (umap D s) (pfn e))"
      using vm_inv_user [OF assms(1)] m by simp
    then show "user_page (insert p D) s' ps (pfn e) (count (umap (insert p D) s') (pfn e))"
      unfolding m using assms(4,7) tabs by (auto simp: user_page_def)
  qed
qed

lemma drop_dir:
  assumes "vm_inv D s ps" and "d \<in> D" and "\<And>i. i < NUPD \<Longrightarrow> utab s d i = None"
    and "frames s' = frames s" and "\<And>q. q \<noteq> d \<Longrightarrow> pages s' q = pages s q"
    and "free_list s' (d # ps)" and "npages s' = npages s"
  shows "vm_inv (D - {d}) s' (d # ps)" and "umap (D - {d}) s' = umap D s"
proof -
  note dirs = vm_countsD(1) [OF vm_invD(1) [OF assms(1)]]
  note ut = frames_cong(1) [OF assms(4)]
  have tabs: "tables (D - {d}) s' \<subseteq> tables D s" by (auto simp: tables_def ut)
  show m: "umap (D - {d}) s' = umap D s"
    using assms(3) unfolding umap_def ut assms(4) by (intro ext) (auto split: if_splits)
  have own: "owned s' (d # ps) q" if "owned s ps q" "q \<noteq> d" for q
    using that assms(5,7) by (auto simp: owned_def)
  have "owned s' (d # ps) t \<and> t \<notin> D - {d} \<and>
      (\<forall>d' \<in> D - {d}. \<forall>i' < NUPD. utab s d' i' = Some t \<longrightarrow> d' = e \<and> i' = i)"
    if "e \<in> D - {d}" "i < NUPD" "utab s e i = Some t" for e i t
  proof -
    have "owned s ps t \<and> t \<notin> D \<and> (\<forall>d' \<in> D. \<forall>i' < NUPD. utab s d' i' = Some t \<longrightarrow> d' = e \<and> i' = i)"
      using dirs that unfolding vm_dirs_def by blast
    then show ?thesis using own assms(2) by blast
  qed
  moreover have "finite (D - {d})" "\<And>e. e \<in> D - {d} \<Longrightarrow> owned s' (d # ps) e"
    using dirs own unfolding vm_dirs_def by blast+
  ultimately have "vm_dirs (D - {d}) s' (d # ps)"
    unfolding vm_dirs_def ut using assms(6) by blast
  then show "vm_inv (D - {d}) s' (d # ps)"
  proof (rule vm_invI)
    fix x e
    assume "umap (D - {d}) s' x = Some e"
    then have u: "user_page D s ps (pfn e) (count (umap D s) (pfn e))"
      using vm_inv_user [OF assms(1)] m by simp
    then have "pfn e \<noteq> d" using assms(2) by (auto simp: user_page_def)
    with u show "user_page (D - {d}) s' (d # ps) (pfn e) (count (umap (D - {d}) s') (pfn e))"
      unfolding m using assms(5,7) tabs by (auto simp: user_page_def)
  qed
qed

lemma drop_table:
  assumes "vm_inv D s ps" and "d \<in> D" and "i < NUPD" and "utab s d i = Some t"
    and "\<And>j. j < NPTENTRIES \<Longrightarrow> umap D s (d, i, j) = None"
    and "frames s' = (frames s)(d := (frames s d)(i := 0))" and "\<And>q. q \<noteq> t \<Longrightarrow> pages s' q = pages s q"
    and "free_list s' (t # ps)" and "npages s' = npages s"
  shows "vm_inv D s' (t # ps)" and "umap D s' = umap D s"
    and "utab s' d = (utab s d)(i := None)"
proof -
  note c = vm_invD(1) [OF assms(1)]
  note dirs = vm_countsD(1) [OF c]
  have ut: "utab s' e k = (if e = d \<and> k = i then None else utab s e k)" for e k
    using assms(6) by (simp add: utab_def)
  then show "utab s' d = (utab s d)(i := None)" by auto
  have uniq: "e = d \<and> k = i" if "e \<in> D" "k < NUPD" "utab s e k = Some t" for e k
    using dirs that assms(2-4) unfolding vm_dirs_def by blast
  have tD: "t \<notin> D" using vm_countsT(2) [OF c assms(2-4)] .
  have tabs: "tables D s' \<subseteq> tables D s" "t \<notin> tables D s'"
    using uniq by (auto simp: tables_def ut split: if_splits)
  show m: "umap D s' = umap D s"
  proof (rule ext, clarify)
    fix e k j
    show "umap D s' (e, k, j) = umap D s (e, k, j)"
    proof (cases "e \<in> D \<and> k < NUPD")
      case True
      have "frames s' r = frames s r" if "utab s e k = Some r" for r
        using vm_countsT(2) [OF c, of e k r] that True assms(2,6) by auto
      then show ?thesis
        using True assms(5) [of j] by (auto simp: umap_def ut split: option.split)
    qed (auto simp: umap_def)
  qed
  have own: "owned s' (t # ps) q" if "owned s ps q" "q \<noteq> t" for q
    using that assms(7,9) by (auto simp: owned_def)
  have "owned s' (t # ps) r \<and> r \<notin> D \<and>
      (\<forall>d' \<in> D. \<forall>i' < NUPD. utab s' d' i' = Some r \<longrightarrow> d' = e \<and> i' = k)"
    if "e \<in> D" "k < NUPD" "utab s' e k = Some r" for e k r
  proof -
    have old: "utab s e k = Some r" "\<not> (e = d \<and> k = i)" using that ut by (auto split: if_splits)
    then have "r \<noteq> t" using uniq that by blast
    moreover have "owned s ps r \<and> r \<notin> D \<and> (\<forall>d' \<in> D. \<forall>i' < NUPD. utab s d' i' = Some r \<longrightarrow> d' = e \<and> i' = k)"
      using dirs old that unfolding vm_dirs_def by blast
    ultimately show ?thesis using own by (auto simp: ut split: if_splits)
  qed
  moreover have "finite D" "\<And>e. e \<in> D \<Longrightarrow> owned s' (t # ps) e"
    using dirs own tD unfolding vm_dirs_def by metis+
  ultimately have "vm_dirs D s' (t # ps)"
    unfolding vm_dirs_def using assms(8) by blast
  then show "vm_inv D s' (t # ps)"
  proof (rule vm_invI)
    fix x e
    assume "umap D s' x = Some e"
    then have u: "user_page D s ps (pfn e) (count (umap D s) (pfn e))"
      using vm_inv_user [OF assms(1)] m by simp
    moreover have "pfn e \<noteq> t" using u assms(2-4) by (auto simp: user_page_def tables_def)
    ultimately show "user_page D s' (t # ps) (pfn e) (count (umap D s') (pfn e))"
      unfolding m using assms(7,9) tabs by (auto simp: user_page_def)
  qed
qed

lemma decref_owned:
  assumes "owned s ps p" and "free_list s ps"
  shows "\<exists>s'. page_decref s p = Some s' \<and> free_list s' (p # ps) \<and> frames s' = frames s \<and>
    (\<forall>q. q \<noteq> p \<longrightarrow> pages s' q = pages s q) \<and> mem_frame s s'"
proof -
  let ?s = "upd_page p (\<lambda>pi. pi\<lparr>pp_ref := pp_ref pi - 1\<rparr>) s"
  have nxt: "free_next ?s = free_next s" by auto
  have fl: "free_list ?s ps"
    unfolding free_list_def nxt using assms by (auto simp: free_list_def owned_def)
  have "fresh_page ?s p"
    using assms fl by (auto simp: fresh_page_def owned_def dest: free_list_unique)
  from page_free_fresh [OF fl this] obtain s' where
    s': "page_free ?s p = Some s'" "free_list s' (p # ps)" "frames s' = frames s"
      "\<forall>q. q \<noteq> p \<longrightarrow> pages s' q = pages s q" by auto
  have "mem_frame s s'"
    using s'(1) by (auto simp: page_free_def mem_frame_def upd_page_def split: if_splits)
  moreover have "page_decref s p = Some s'"
    using s'(1) assms(1) by (simp add: page_decref_def owned_def)
  ultimately show ?thesis using s' by blast
qed

section \<open>The address-space interface\<close>

text \<open>
  What the system calls may assume of the page tables: insertion, removal and lookup at an
  address behave like the operations of a finite map from slots to entries.
\<close>

locale paging =
  fixes inv :: "'s \<Rightarrow> bool" and amap :: "'s \<Rightarrow> 'k \<Rightarrow> u32 option" and at :: "'a \<Rightarrow> 'k"
    and valid :: "'a \<Rightarrow> bool" and mappable :: "'s \<Rightarrow> nat \<Rightarrow> bool"
    and ins :: "'s \<Rightarrow> nat \<Rightarrow> 'a \<Rightarrow> u32 \<Rightarrow> (int \<times> 's) option"
    and rem :: "'s \<Rightarrow> 'a \<Rightarrow> 's option" and look :: "'s \<Rightarrow> 'a \<Rightarrow> nat option option"
  assumes mappable_small: "mappable s p \<Longrightarrow> p < 2 ^ 20"
    and ins_law: "inv s \<Longrightarrow> valid a \<Longrightarrow> mappable s p \<Longrightarrow> perm_bits perm \<Longrightarrow>
      ins s p a perm = Some (- E_NO_MEM, s) \<or>
      (\<exists>s'. ins s p a perm = Some (0, s') \<and> inv s' \<and> amap s' = (amap s)(at a \<mapsto> mk_pte p perm))"
    and rem_law: "inv s \<Longrightarrow> valid a \<Longrightarrow>
      \<exists>s'. rem s a = Some s' \<and> inv s' \<and> amap s' = (amap s)(at a := None)"
    and look_law: "inv s \<Longrightarrow> valid a \<Longrightarrow> look s a = Some (map_option pfn (amap s (at a)))"
begin

lemma insert_lookup:
  assumes "inv s" and "valid a" and "mappable s p" and "perm_bits perm"
    and "ins s p a perm = Some (0, s')"
  shows "inv s' \<and> look s' a = Some (Some p) \<and> (\<forall>b. valid b \<longrightarrow> at b \<noteq> at a \<longrightarrow> look s' b = look s b)"
proof -
  from ins_law [OF assms(1-4)] assms(5) have s': "inv s'" "amap s' = (amap s)(at a \<mapsto> mk_pte p perm)"
    by auto
  then show ?thesis
    using look_law assms(1,2,4) mappable_small [OF assms(3)] by (simp add: pfn_mk_pte)
qed

lemma remove_lookup:
  assumes "inv s" and "valid a"
  shows "\<exists>s'. rem s a = Some s' \<and> inv s' \<and> look s' a = Some None \<and>
    (\<forall>b. valid b \<longrightarrow> at b \<noteq> at a \<longrightarrow> look s' b = look s b)"
proof -
  from rem_law [OF assms] obtain s' where "rem s a = Some s'" "inv s'" "amap s' = (amap s)(at a := None)"
    by blast
  then show ?thesis using look_law assms by simp
qed

lemma insert_remove:
  assumes "inv s" and "valid a" and "mappable s p" and "perm_bits perm" and "amap s (at a) = None"
    and "ins s p a perm = Some (0, s')"
  shows "\<exists>s''. rem s' a = Some s'' \<and> inv s'' \<and> amap s'' = amap s"
proof -
  from ins_law [OF assms(1-4)] assms(6) have s': "inv s'" "amap s' = (amap s)(at a \<mapsto> mk_pte p perm)"
    by auto
  from rem_law [OF s'(1) assms(2)] s'(2) assms(5) show ?thesis by (auto simp: fun_upd_idem)
qed

end

lemma free_list_of: "vm_inv D s ps \<Longrightarrow> vm_inv D s qs \<Longrightarrow> ps = qs"
  using free_list_unique vm_countsD(2) vm_invD(1) by blast

interpretation kvm: paging "\<lambda>s. \<exists>ps. vm_inv D s ps" "umap D" "\<lambda>(d, va). slot d va"
  "\<lambda>(d, va). d \<in> D \<and> va < UTOP"
  "\<lambda>s p. \<exists>ps. vm_inv D s ps \<and> user_page D s ps p (count (umap D s) p) \<and> count (umap D s) p < 65535"
  "\<lambda>s p (d, va) perm. page_insert s (Some d) p va perm" "\<lambda>s (d, va). page_remove s (Some d) va"
  "\<lambda>s (d, va). map_option (map_option fst) (page_lookup s (Some d) va)" for D
proof unfold_locales
  fix s p
  assume "\<exists>ps. vm_inv D s ps \<and> user_page D s ps p (count (umap D s) p) \<and> count (umap D s) p < 65535"
  then show "p < 2 ^ 20"
    by (auto dest!: vm_invD(1) vm_countsD(2) simp: user_page_def free_list_def)
next
  fix s p perm and a :: "nat \<times> u32"
  assume "\<exists>ps. vm_inv D s ps" "case a of (d, va) \<Rightarrow> d \<in> D \<and> va < UTOP" "perm_bits perm"
    "\<exists>ps. vm_inv D s ps \<and> user_page D s ps p (count (umap D s) p) \<and> count (umap D s) p < 65535"
  then show "(case a of (d, va) \<Rightarrow> \<lambda>perm. page_insert s (Some d) p va perm) perm = Some (- E_NO_MEM, s) \<or>
    (\<exists>s'. (case a of (d, va) \<Rightarrow> \<lambda>perm. page_insert s (Some d) p va perm) perm = Some (0, s') \<and>
      (\<exists>ps. vm_inv D s' ps) \<and>
      umap D s' = (umap D s)((case a of (d, va) \<Rightarrow> slot d va) \<mapsto> mk_pte p perm))"
    using page_insert_refines by (cases a) fastforce
next
  fix s and a :: "nat \<times> u32"
  assume "\<exists>ps. vm_inv D s ps" "case a of (d, va) \<Rightarrow> d \<in> D \<and> va < UTOP"
  then show "\<exists>s'. (case a of (d, va) \<Rightarrow> page_remove s (Some d) va) = Some s' \<and> (\<exists>ps. vm_inv D s' ps) \<and>
      umap D s' = (umap D s)((case a of (d, va) \<Rightarrow> slot d va) := None)"
    using page_remove_refines by (cases a) fastforce
next
  fix s and a :: "nat \<times> u32"
  assume a: "\<exists>ps. vm_inv D s ps" "case a of (d, va) \<Rightarrow> d \<in> D \<and> va < UTOP"
  then obtain ps d va where inv: "vm_inv D s ps" and ad: "a = (d, va)" "d \<in> D" "unat (PDX va) < NUPD"
    by (cases a) (auto simp: below_UTOP)
  note l = page_lookup_umap [OF vm_invD(1) [OF inv] ad(2,3)]
  show "(case a of (d, va) \<Rightarrow> map_option (map_option fst) (page_lookup s (Some d) va)) =
      Some (map_option pfn (umap D s (case a of (d, va) \<Rightarrow> slot d va)))"
    using l(1) l(2) vm_invD(4) [OF inv] ad(1)
    by (cases "umap D s (slot d va)") (fastforce, fastforce)
qed

section \<open>Checking user pointers\<close>

text \<open>The test \<^verbatim>\<open>user_mem_check\<close> makes of the page that holds address \<open>a\<close>.\<close>

definition access_ok :: "kstate \<Rightarrow> nat \<Rightarrow> u32 \<Rightarrow> u32 \<Rightarrow> bool" where
  "access_ok s d perm a \<longleftrightarrow> ROUNDDOWN a PGSIZE \<le> ULIM \<and>
     (case utab s d (unat (PDX a)) of None \<Rightarrow> False
      | Some t \<Rightarrow> frames s t (unat (PTX a)) AND perm = perm)"

definition tables_in_memory :: "kstate \<Rightarrow> nat \<Rightarrow> bool" where
  "tables_in_memory s d \<longleftrightarrow> (\<forall>i t. utab s d i = Some t \<longrightarrow> t < npages s)"

lemma same_page:
  assumes "unat a div 4096 = unat b div 4096"
  shows "PDX a = PDX b" and "PTX a = PTX b" and "ROUNDDOWN a PGSIZE = ROUNDDOWN b PGSIZE"
proof -
  have "unat x div 4194304 = unat x div 4096 div 1024" for x :: u32
    by (simp add: div_mult2_eq [symmetric])
  then show "PDX a = PDX b" using assms by (simp add: word_unat_eq_iff unat_PDX)
  show "PTX a = PTX b" using assms by (simp add: word_unat_eq_iff unat_PTX)
  show "ROUNDDOWN a PGSIZE = ROUNDDOWN b PGSIZE"
    using assms by (simp add: word_unat_eq_iff unat_ROUNDDOWN minus_mod_eq_div_mult)
qed

lemma access_ok_same_page:
  "unat a div 4096 = unat b div 4096 \<Longrightarrow> access_ok s d perm a = access_ok s d perm b"
  by (simp add: access_ok_def same_page [of a b] split: option.split)

lemma access_check:
  assumes "tables_in_memory s d" and "ROUNDDOWN start PGSIZE = start"
  shows "user_mem_check_loop s (Some d) va start end_va perm =
    (if start < end_va then
       if access_ok s d perm start then user_mem_check_loop s (Some d) va (start + PGSIZE) end_va perm
       else Some (- E_FAULT, s\<lparr>user_mem_check_addr := (if start = ROUNDDOWN va PGSIZE then va else start)\<rparr>)
     else Some (0, s))"
proof (cases "utab s d (unat (PDX start))")
  case None
  then show ?thesis
    by (subst user_mem_check_loop.simps) (simp add: walk_absent access_ok_def)
next
  case (Some t)
  then have "t < npages s" using assms(1) by (simp add: tables_in_memory_def)
  with Some assms(2) show ?thesis
    by (subst user_mem_check_loop.simps) (auto simp: walk_present access_ok_def not_le)
qed

lemma page_step:
  assumes "unat start + Suc n * 4096 < 2 ^ 32" and "ROUNDDOWN start PGSIZE = start"
  shows "unat (start + PGSIZE) = unat start + 4096" and "ROUNDDOWN (start + PGSIZE) PGSIZE = start + PGSIZE"
proof -
  show u: "unat (start + PGSIZE) = unat start + 4096"
    using assms(1) by (simp add: unat_word_ariths)
  have "unat start mod 4096 = 0"
    using arg_cong [OF assms(2), of unat] mod_le_divisor [of 4096 "unat start"]
    by (simp add: unat_ROUNDDOWN)
  with u show "ROUNDDOWN (start + PGSIZE) PGSIZE = start + PGSIZE"
    by (simp add: word_unat_eq_iff unat_ROUNDDOWN)
qed

lemma check_loop_ok:
  assumes "tables_in_memory s d" and "ROUNDDOWN start PGSIZE = start"
    and "unat end_va = unat start + n * 4096"
    and "\<And>a. unat start \<le> unat a \<Longrightarrow> unat a < unat end_va \<Longrightarrow> access_ok s d perm a"
  shows "user_mem_check_loop s (Some d) va start end_va perm = Some (0, s)"
  using assms(2-4)
proof (induction n arbitrary: start)
  case 0
  then show ?case by (subst access_check [OF assms(1)]) (simp_all add: word_less_nat_alt)
next
  case (Suc n)
  have lt: "unat start + Suc n * 4096 < 2 ^ 32"
    using Suc.prems(2) unsigned_less [of end_va, where 'a = nat] by simp
  note step = page_step [OF lt Suc.prems(1)]
  have "user_mem_check_loop s (Some d) va (start + PGSIZE) end_va perm = Some (0, s)"
    using Suc.prems step by (intro Suc.IH) simp_all
  moreover have "access_ok s d perm start" "start < end_va"
    using Suc.prems by (simp_all add: word_less_nat_alt)
  ultimately show ?case by (subst access_check [OF assms(1) Suc.prems(1)]) simp
qed

lemma check_loop_fault:
  assumes "tables_in_memory s d" and "ROUNDDOWN start PGSIZE = start"
    and "unat end_va = unat start + n * 4096"
    and "ROUNDDOWN bad PGSIZE = bad" and "unat start \<le> unat bad" and "unat bad < unat end_va"
    and "\<not> access_ok s d perm bad"
    and "\<And>a. unat start \<le> unat a \<Longrightarrow> unat a < unat bad \<Longrightarrow> access_ok s d perm a"
  shows "user_mem_check_loop s (Some d) va start end_va perm =
    Some (- E_FAULT, s\<lparr>user_mem_check_addr := (if bad = ROUNDDOWN va PGSIZE then va else bad)\<rparr>)"
  using assms(2,3,5,8)
proof (induction n arbitrary: start)
  case 0
  then show ?case using assms(6) by simp
next
  case (Suc n)
  have lt: "unat start + Suc n * 4096 < 2 ^ 32"
    using Suc.prems(2) unsigned_less [of end_va, where 'a = nat] by simp
  note step = page_step [OF lt Suc.prems(1)]
  have start: "start < end_va" using Suc.prems by (simp add: word_less_nat_alt)
  show ?case
  proof (cases "bad = start")
    case True
    then show ?thesis
      using start assms(7) by (subst access_check [OF assms(1) Suc.prems(1)]) simp
  next
    case False
    have "unat start mod 4096 = 0" "unat bad mod 4096 = 0"
      using arg_cong [OF Suc.prems(1), of unat] arg_cong [OF assms(4), of unat]
      by (simp_all add: unat_ROUNDDOWN)
    moreover have "unat start < unat bad"
      using False Suc.prems(3) by (metis le_neq_implies_less word_unat_eq_iff)
    ultimately have next': "unat start + 4096 \<le> unat bad" by (rule multiple_gap)
    have "user_mem_check_loop s (Some d) va (start + PGSIZE) end_va perm =
        Some (- E_FAULT, s\<lparr>user_mem_check_addr := (if bad = ROUNDDOWN va PGSIZE then va else bad)\<rparr>)"
      using Suc.prems step next' by (intro Suc.IH) simp_all
    moreover have "access_ok s d perm start"
      using Suc.prems(4) [of start] next' by simp
    ultimately show ?thesis
      using start by (subst access_check [OF assms(1) Suc.prems(1)]) simp
  qed
qed

lemma user_mem_check_spec:
  assumes "env_pgdir (envs s e) = Some d" and "tables_in_memory s d" and "0 < len"
    and "unat va + unat len + 4095 < 2 ^ 32"
  shows "(\<forall>a. va \<le> a \<and> a < va + len \<longrightarrow> access_ok s d perm a) \<and>
      user_mem_check s e va len perm = Some (0, s) \<or>
    (\<exists>a. va \<le> a \<and> a < va + len \<and> \<not> access_ok s d perm a \<and>
      (\<forall>b. va \<le> b \<and> b < a \<longrightarrow> access_ok s d perm b) \<and>
      user_mem_check s e va len perm = Some (- E_FAULT, s\<lparr>user_mem_check_addr := a\<rparr>))"
proof -
  let ?start = "ROUNDDOWN va PGSIZE" and ?fin = "ROUNDUP (va + len) PGSIZE"
  let ?q = "unat va div 4096" and ?r = "(unat va + unat len + 4095) div 4096"
  have sum: "unat (va + len) = unat va + unat len"
    using assms(4) by (simp add: unat_word_ariths)
  have start: "unat ?start = ?q * 4096" by (simp add: unat_ROUNDDOWN minus_mod_eq_div_mult)
  have "unat ?fin = (unat (va + len) + unat PGSIZE - 1) div unat PGSIZE * unat PGSIZE"
    using assms(4) sum by (intro unat_ROUNDUP) simp_all
  then have fin': "unat ?fin = ?r * 4096" by (simp add: sum)
  have qr: "?q \<le> ?r" by (intro div_le_mono) simp
  then have n: "unat ?fin = unat ?start + (?r - ?q) * 4096"
    using start fin' by (simp add: diff_mult_distrib)
  have al: "ROUNDDOWN (ROUNDDOWN x PGSIZE) PGSIZE = ROUNDDOWN x PGSIZE" for x
    by (simp add: word_unat_eq_iff unat_ROUNDDOWN minus_mod_eq_div_mult)
  have len: "0 < unat len" using assms(3) by (simp add: word_less_nat_alt)
  \<comment> \<open>every page of the loop has an address of the range, not above the page's last one\<close>
  have inside: "\<exists>b. va \<le> b \<and> b < va + len \<and> unat b div 4096 = unat a div 4096 \<and> (b \<le> a \<or> b = va)"
    if "unat ?start \<le> unat a" "unat a < unat ?fin" for a
  proof (cases "va \<le> ROUNDDOWN a PGSIZE")
    case True
    have "unat a div 4096 * 4096 < unat va + unat len"
      using that(2) fin' below_ceiling [of "unat a" "unat va + unat len"] by simp
    with True show ?thesis
      by (intro exI [of _ "ROUNDDOWN a PGSIZE"])
        (auto simp: word_le_nat_alt word_less_nat_alt sum unat_ROUNDDOWN minus_mod_eq_div_mult)
  next
    case False
    then have "unat va div 4096 = unat a div 4096"
      using that(1) start same_unit [of "unat va" "unat a"]
      by (simp add: word_le_nat_alt unat_ROUNDDOWN minus_mod_eq_div_mult)
    then show ?thesis
      using len by (intro exI [of _ va]) (auto simp: word_less_nat_alt sum)
  qed
  show ?thesis
  proof (cases "\<forall>a. va \<le> a \<and> a < va + len \<longrightarrow> access_ok s d perm a")
    case True
    then have "access_ok s d perm a" if "unat ?start \<le> unat a" "unat a < unat ?fin" for a
      using inside [OF that] access_ok_same_page by blast
    then have "user_mem_check s e va len perm = Some (0, s)"
      using check_loop_ok [OF assms(2) al n] by (simp add: user_mem_check_def assms(1))
    with True show ?thesis by blast
  next
    case False
    define P where "P = (\<lambda>k. \<exists>a. unat a = k \<and> va \<le> a \<and> a < va + len \<and> \<not> access_ok s d perm a)"
    from False have "\<exists>k. P k" by (auto simp: P_def)
    then have "P (LEAST k. P k)" by (rule LeastI_ex)
    then obtain a where a: "unat a = (LEAST k. P k)" "va \<le> a" "a < va + len" "\<not> access_ok s d perm a"
      unfolding P_def by blast
    have least: "access_ok s d perm b" if "va \<le> b" "b < a" for b
    proof (rule ccontr)
      assume "\<not> access_ok s d perm b"
      then have "P (unat b)" using that a(3) by (auto simp: P_def)
      then show False using Least_le [of P "unat b"] that(2) a(1) by (simp add: word_less_nat_alt)
    qed
    let ?bad = "ROUNDDOWN a PGSIZE"
    have same: "unat ?bad div 4096 = unat a div 4096"
      by (simp add: unat_ROUNDDOWN minus_mod_eq_div_mult)
    have bad: "\<not> access_ok s d perm ?bad" using a(4) access_ok_same_page [OF same] by simp
    have lo: "unat ?start \<le> unat ?bad" "unat ?bad \<le> unat a"
      using a(2) by (simp_all add: word_le_nat_alt unat_ROUNDDOWN minus_mod_eq_div_mult div_le_mono)
    have "unat a < unat ?fin"
      using a(3) fin' less_ceiling [of "unat a" "unat va + unat len"]
      by (simp add: word_less_nat_alt sum)
    then have hi: "unat ?bad < unat ?fin" using lo by simp
    have before: "access_ok s d perm b" if "unat ?start \<le> unat b" "unat b < unat ?bad" for b
    proof -
      have "unat b < unat ?fin" using that(2) hi by simp
      with inside [OF that(1)] obtain b' where b': "va \<le> b'" "unat b' div 4096 = unat b div 4096"
        by blast
      have "unat b div 4096 < unat a div 4096"
        using that(2) by (simp add: unat_ROUNDDOWN minus_mod_eq_div_mult less_mult_imp_div_less)
      then have "b' < a" using b'(2) by (metis div_le_mono leD linorder_not_less word_less_nat_alt)
      then show ?thesis using least b' access_ok_same_page by blast
    qed
    have "(if ?bad = ?start then va else ?bad) = a"
    proof (cases "?bad = ?start")
      case True
      then have "unat va div 4096 = unat a div 4096" using same start by (metis div_mult_self_is_m zero_less_numeral)
      then have "\<not> access_ok s d perm va" using a(4) access_ok_same_page by blast
      then have "\<not> va < a" using least by blast
      then show ?thesis using True a(2) by simp
    next
      case False
      then have "?q < unat a div 4096"
        using lo(1) by (simp add: word_unat_eq_iff unat_ROUNDDOWN minus_mod_eq_div_mult)
      then have "unat va < unat a div 4096 * 4096" by (simp add: div_less_iff_less_mult)
      then have "va \<le> ?bad" by (simp add: word_le_nat_alt unat_ROUNDDOWN minus_mod_eq_div_mult)
      then have "\<not> ?bad < a" using least bad by blast
      then show ?thesis using False lo(2) by (simp add: word_less_nat_alt word_unat_eq_iff)
    qed
    then have "user_mem_check s e va len perm = Some (- E_FAULT, s\<lparr>user_mem_check_addr := a\<rparr>)"
      using check_loop_fault [OF assms(2) al n al lo(1) hi bad] before
      by (simp add: user_mem_check_def assms(1))
    with a least show ?thesis by blast
  qed
qed

section \<open>Static mappings\<close>

lemma mmio_map_region_disjoint:
  assumes "mmio_map_region s pa sz = Some (r, s')" and "mmio_map_region s' pa' sz' = Some (r', s'')"
    and "unat sz + 4095 < 2 ^ 32" and "unat (mmio_base s) + unat (ROUNDUP sz PGSIZE) < 2 ^ 32"
  shows "r = mmio_base s" and "unat r + unat sz \<le> unat r'" and "unat r' < unat MMIOLIM"
proof -
  from assms(1) have r: "r = mmio_base s" "mmio_base s' = r + ROUNDUP sz PGSIZE"
      "ROUNDUP sz PGSIZE + mmio_base s < MMIOLIM"
    by (auto simp: mmio_map_region_def Let_def not_le split: if_splits Option.bind_splits)
  from assms(2) have r': "r' = mmio_base s'"
    by (auto simp: mmio_map_region_def Let_def split: if_splits Option.bind_splits)
  have "unat sz \<le> (unat sz + 4095) div 4096 * 4096" by (rule le_ceiling)
  also have "\<dots> = unat (ROUNDUP sz PGSIZE)"
    using assms(3) by (subst unat_ROUNDUP) simp_all
  finally have "unat sz \<le> unat (ROUNDUP sz PGSIZE)" .
  moreover have "unat r' = unat r + unat (ROUNDUP sz PGSIZE)"
    unfolding r' r by (rule unat_add_lem [THEN iffD1]) (use assms(4) in simp)
  ultimately show "unat r + unat sz \<le> unat r'" by simp
  show "unat r' < unat MMIOLIM" using r(3) unfolding r' r(1,2) by (simp add: word_less_nat_alt add.commute)
  show "r = mmio_base s" by (fact r(1))
qed

section \<open>Properties\<close>

text \<open>A machine with one address space (directory 2), page 3 allocated and page 4 free.\<close>

definition one_space :: kstate where
  "one_space = zero_kernel\<lparr>npages := 5, page_free_list := Some 4,
     pages := (\<lambda>_. \<lparr>pp_link = None, pp_ref = 0\<rparr>)(2 := \<lparr>pp_link = None, pp_ref = 1\<rparr>)\<rparr>"

text \<open>The same machine with page table 3 and page 4 mapped at address 0, and no page free.\<close>

definition one_mapped :: kstate where
  "one_mapped = zero_kernel\<lparr>npages := 5, pages := (\<lambda>_. \<lparr>pp_link = None, pp_ref = 1\<rparr>),
     envs := (\<lambda>_. zero_env\<lparr>env_pgdir := Some 2\<rparr>),
     frames := (\<lambda>_ _. 0)(2 := (\<lambda>_. 0)(0 := 0x3007), 3 := (\<lambda>_. 0)(0 := 0x4007))\<rparr>"

lemma one_space_utab: "utab one_space d i = None"
  by (simp add: utab_def one_space_def zero_kernel_def)

lemma one_space_umap: "umap {2} one_space = (\<lambda>_. None)"
  by (auto simp: umap_def one_space_utab)

lemma one_space_inv: "vm_inv {2} one_space [4]"
  by (simp add: vm_inv_def vm_counts_def vm_dirs_def one_space_umap one_space_utab count_def refs_def
      owned_def free_list_def) (simp add: one_space_def zero_kernel_def)

lemma one_space_page: "user_page {2} one_space [4] 3 0"
  by (simp add: user_page_def tables_def one_space_utab) (simp add: one_space_def zero_kernel_def)

lemma one_mapped_ptes: "present 0x3007" "present 0x4007" "pfn 0x3007 = 3" "pfn 0x4007 = 4"
  by (simp_all add: present_def pfn_def PGNUM_def PTE_ADDR_def drop_bit_eq_div)

lemma one_mapped_utab: "utab one_mapped 2 i = (if i = 0 then Some 3 else None)"
  by (simp add: utab_def one_mapped_def zero_kernel_def one_mapped_ptes)

lemma one_mapped_umap: "umap {2} one_mapped = [(2, 0, 0) \<mapsto> 0x4007]"
proof (rule ext, clarify)
  fix d i j
  have "frames one_mapped 3 j = (if j = 0 then 0x4007 else 0)"
    by (simp add: one_mapped_def zero_kernel_def)
  then show "umap {2} one_mapped (d, i, j) = [(2, 0, 0) \<mapsto> 0x4007] (d, i, j)"
    by (cases "d = 2"; cases "i = 0"; cases "j = 0")
      (simp_all add: umap_def one_mapped_utab NUPD_value one_mapped_ptes)
qed

lemma one_mapped_inv: "vm_inv {2} one_mapped []"
proof -
  have "count (umap {2} one_mapped) = (\<lambda>_. 0)(4 := 1)"
    unfolding one_mapped_umap by (rule ext) (simp add: count_def refs_def one_mapped_ptes)
  then show ?thesis
    by (simp add: vm_inv_def vm_counts_def vm_dirs_def one_mapped_utab owned_def free_list_def
        user_page_def tables_def) (simp add: one_mapped_def zero_kernel_def)
qed

text \<open>C2. \<^verbatim>\<open>page_insert\<close> below \<^verbatim>\<open>UTOP\<close> never panics. It returns \<^verbatim>\<open>-E_NO_MEM\<close> and changes nothing exactly
  when a page table is missing and no page is free; otherwise the address maps to the page with
  the permissions asked for, every other mapping of every address space is unchanged, and the
  reference counts again equal the numbers of mappings.\<close>

theorem page_insert_updates_map:
  assumes "vm_inv D s ps" and "d \<in> D" and "va < UTOP" and "perm_bits perm"
    and "user_page D s ps pp (count (umap D s) pp)" and "count (umap D s) pp < 65535"
  shows "utab s d (unat (PDX va)) = None \<and> ps = [] \<and> page_insert s (Some d) pp va perm = Some (- E_NO_MEM, s) \<or>
    (\<exists>s' ps'. page_insert s (Some d) pp va perm = Some (0, s') \<and> vm_inv D s' ps' \<and>
      umap D s' = (umap D s)(slot d va \<mapsto> mk_pte pp perm) \<and> mem_frame s s')"
  using assms by (rule page_insert_refines)

theorem page_insert_updates_map_witness:
  "\<exists>s' ps'. page_insert one_space (Some 2) 3 0x800000 PTE_W = Some (0, s') \<and> vm_inv {2} s' ps' \<and>
      umap {2} s' = [(2, 2, 0) \<mapsto> 0x3003] \<and> mem_frame one_space s'"
  using page_insert_updates_map [OF one_space_inv, of 2 "0x800000" PTE_W 3] one_space_page
  by (simp add: one_space_umap count_def refs_def perm_bits_def layout_values unat_PDX unat_PTX mk_pte_def)

text \<open>C3. \<^verbatim>\<open>page_remove\<close> below \<^verbatim>\<open>UTOP\<close> never panics: the address maps nothing afterwards, every other
  mapping is unchanged, the page goes back to the free list exactly when this was its last
  mapping, and the translation is flushed when the address space is the current one.\<close>

theorem page_remove_updates_map:
  assumes "vm_inv D s ps" and "d \<in> D" and "va < UTOP"
  shows "\<exists>s' ps'. page_remove s (Some d) va = Some s' \<and> vm_inv D s' ps' \<and>
    umap D s' = (umap D s)(slot d va := None) \<and>
    ps' = (case umap D s (slot d va) of None \<Rightarrow> ps
           | Some e \<Rightarrow> if count (umap D s) (pfn e) = 1 then pfn e # ps else ps) \<and>
    (\<forall>e. umap D s (slot d va) = Some e \<longrightarrow>
      (curenv s = None \<or> env_pgdir (envs s (the (curenv s))) = Some d \<longrightarrow> va \<in> set (invlpgs s')))"
  using page_remove_refines [OF assms] by blast

theorem page_remove_updates_map_witness:
  "\<exists>s'. page_remove one_mapped (Some 2) 0 = Some s' \<and> vm_inv {2} s' [4] \<and> umap {2} s' = Map.empty \<and>
    0 \<in> set (invlpgs s')"
proof -
  have "count [(2 :: nat, 0 :: nat, 0 :: nat) \<mapsto> 0x4007] 4 = 1"
    by (simp add: count_def refs_def one_mapped_ptes)
  moreover have "curenv one_mapped = None"
    by (simp add: curenv_def one_mapped_def zero_kernel_def)
  ultimately show ?thesis
    using page_remove_updates_map [OF one_mapped_inv, of 2 0]
    by (simp add: one_mapped_umap layout_values unat_PDX unat_PTX one_mapped_ptes)
qed


lemma one_mapped_access:
  assumes "0x10 \<le> a" and "a < 0x20"
  shows "access_ok one_mapped 2 PTE_U a"
proof -
  have "unat a div 4096 = unat (0 :: u32) div 4096" using assms by (simp add: word_less_nat_alt)
  moreover have "access_ok one_mapped 2 PTE_U 0"
    by (simp add: access_ok_def unat_PDX unat_PTX one_mapped_utab ROUNDDOWN_def)
      (simp add: one_mapped_def zero_kernel_def)
  ultimately show ?thesis using access_ok_same_page by blast
qed


text \<open>At the top of the address space the addition in \<^verbatim>\<open>user_mem_check\<close> wraps: a range that ends
  at 2^32 is accepted for every environment and permission without looking at a single page, the
  kernel's own memory from \<^verbatim>\<open>KERNBASE\<close> upwards included.\<close>

lemma user_mem_check_accepts_wrapped:
  assumes "unat va + unat len = 2 ^ 32"
  shows "user_mem_check s e va len perm = Some (0, s)"
proof -
  have "va + len = 0"
    using assms by (simp add: word_unat_eq_iff unat_word_ariths)
  then have "ROUNDUP (va + len) PGSIZE = 0" by (simp add: ROUNDUP_def ROUNDDOWN_def)
  then show ?thesis
    unfolding user_mem_check_def by (subst user_mem_check_loop.simps) simp
qed

lemma user_mem_check_accepts_wrapped_example:
  "user_mem_check one_mapped 0 KERNBASE 0x10000000 (PTE_U OR PTE_W OR PTE_P) = Some (0, one_mapped)"
  by (rule user_mem_check_accepts_wrapped) simp

end
