(* ===== verification/KernMap.thy ===== *)
theory KernMap
  imports PageTable
begin

text \<open>
  Setting up the kernel's address space: \<^verbatim>\<open>mem_init\<close> of \<^verbatim>\<open>kern/pmap.c\<close> without its self tests of the
  allocator and of the page tables, and the self test \<^verbatim>\<open>check_kern_pgdir\<close> of its result. The
  linker's addresses (\<^verbatim>\<open>end\<close>, \<^verbatim>\<open>bootstack\<close>, \<^verbatim>\<open>percpu_kstacks\<close>) are parameters.

  \<open>kent\<close> is what a page directory says about a page of the address space. Shown is that
  \<^verbatim>\<open>boot_map_region\<close> overwrites exactly its range of this map, that the calls of \<^verbatim>\<open>mem_init\<close>
  succeed and produce the memory map of \<^verbatim>\<open>inc/memlayout.h\<close>, here the function \<open>memlayout\<close>, and
  that \<^verbatim>\<open>check_kern_pgdir\<close> passes on it unless the machine has all 256 MB the kernel can map.
\<close>

unbundle bit_operations_syntax

section \<open>The two halves of mem\_init\<close>

text \<open>
  Up to \<^verbatim>\<open>page_init\<close>: the page directory, the arrays \<^verbatim>\<open>pages\<close> and \<^verbatim>\<open>envs\<close> (of 8 and 124 bytes per
  element) and the free list. The addresses of the two arrays are returned with the state.
\<close>

definition mem_init_boot :: "(nat \<Rightarrow> u8) \<Rightarrow> u32 \<Rightarrow> kstate \<Rightarrow> ((u32 \<times> u32) \<times> kstate) option" where
  "mem_init_boot cmos end_sym s =
     do { let s = i386_detect_memory cmos s;
          (pgdir, s) \<leftarrow> boot_alloc end_sym s PGSIZE;
          let d = unat (PGNUM (pgdir - KERNBASE));
          let s = zero_page d (s\<lparr>kern_pgdir := d\<rparr>);
          pa \<leftarrow> PADDR pgdir;
          let s = set_word d (unat (PDX UVPT)) (pa OR PTE_U OR PTE_P) s;
          (pages_kva, s) \<leftarrow> boot_alloc end_sym s (of_nat (npages s) * 8);
          let s = s\<lparr>pages := (\<lambda>p. if p < npages s then \<lparr>pp_link = None, pp_ref = 0\<rparr> else pages s p)\<rparr>;
          (envs_kva, s) \<leftarrow> boot_alloc end_sym s (124 * of_nat NENV);
          let s = s\<lparr>envs := (\<lambda>e. if e < NENV then zero_env else envs s e)\<rparr>;
          s \<leftarrow> page_init end_sym s;
          Some ((pages_kva, envs_kva), s) }"

text \<open>The mappings, \<^verbatim>\<open>mem_init_mp\<close> included.\<close>

definition mem_init_map :: "u32 \<Rightarrow> u32 \<Rightarrow> u32 \<Rightarrow> (nat \<Rightarrow> u32) \<Rightarrow> kstate \<Rightarrow> kstate option" where
  "mem_init_map pages_kva envs_kva bootstack percpu_kstacks s =
     do { pa \<leftarrow> PADDR pages_kva;
          s \<leftarrow> boot_map_region s (Some (kern_pgdir s)) UPAGES PTSIZE pa PTE_U;
          pa \<leftarrow> PADDR envs_kva;
          s \<leftarrow> boot_map_region s (Some (kern_pgdir s)) UENVS PTSIZE pa PTE_U;
          pa \<leftarrow> PADDR bootstack;
          s \<leftarrow> boot_map_region s (Some (kern_pgdir s)) (KSTACKTOP - KSTKSIZE) KSTKSIZE pa PTE_W;
          s \<leftarrow> boot_map_region s (Some (kern_pgdir s)) KERNBASE (0xffffffff - KERNBASE) 0 PTE_W;
          mem_init_mp percpu_kstacks s }"

section \<open>The self test\<close>

text \<open>
  \<^verbatim>\<open>check_kern_pgdir\<close>, true when every assertion holds. \<open>check_range\<close> is one of its loops, over the
  multiples of the page size below \<open>n\<close>; \<open>check_array\<close> is such a loop with the assertion that the
  pages at \<open>va\<close> are those at the kernel address \<open>kva\<close>.
\<close>

definition check_range :: "u32 \<Rightarrow> (u32 \<Rightarrow> bool) \<Rightarrow> bool" where
  "check_range n ok \<longleftrightarrow> list_all (\<lambda>k. ok (of_nat k * PGSIZE)) [0..<unat (n div PGSIZE)]"

definition check_array :: "kstate \<Rightarrow> u32 \<Rightarrow> u32 \<Rightarrow> u32 \<Rightarrow> bool" where
  "check_array s n va kva \<longleftrightarrow>
     check_range n (\<lambda>i. case PADDR kva of None \<Rightarrow> False
                        | Some pa \<Rightarrow> check_va2pa s (kern_pgdir s) (va + i) = Some (pa + i))"

definition check_stack :: "kstate \<Rightarrow> (nat \<Rightarrow> u32) \<Rightarrow> nat \<Rightarrow> bool" where
  "check_stack s percpu_kstacks n \<longleftrightarrow>
     (let base = KSTACKTOP - (KSTKSIZE + KSTKGAP) * (of_nat n + 1) in
      check_array s KSTKSIZE (base + KSTKGAP) (percpu_kstacks n) \<and>
      check_range KSTKGAP (\<lambda>i. check_va2pa s (kern_pgdir s) (base + i) = Some (NOT 0)))"

definition check_pde :: "kstate \<Rightarrow> nat \<Rightarrow> bool" where
  "check_pde s i \<longleftrightarrow>
     (let e = frames s (kern_pgdir s) i in
      if i \<in> {unat (PDX UVPT), unat (PDX (KSTACKTOP - 1)), unat (PDX UPAGES), unat (PDX UENVS), unat (PDX MMIOBASE)}
      then e AND PTE_P \<noteq> 0
      else if unat (PDX KERNBASE) \<le> i then e AND PTE_P \<noteq> 0 \<and> e AND PTE_W \<noteq> 0
      else e = 0)"

definition check_kern_pgdir :: "u32 \<Rightarrow> u32 \<Rightarrow> (nat \<Rightarrow> u32) \<Rightarrow> kstate \<Rightarrow> bool" where
  "check_kern_pgdir pages_kva envs_kva percpu_kstacks s \<longleftrightarrow>
     check_array s (ROUNDUP (of_nat (npages s) * 8) PGSIZE) UPAGES pages_kva \<and>
     check_array s (ROUNDUP (of_nat NENV * 124) PGSIZE) UENVS envs_kva \<and>
     check_range (of_nat (npages s) * PGSIZE) (\<lambda>i. check_va2pa s (kern_pgdir s) (KERNBASE + i) = Some i) \<and>
     list_all (check_stack s percpu_kstacks) [0..<NCPU] \<and>
     list_all (check_pde s) [0..<NPDENTRIES]"

section \<open>The memory map\<close>

text \<open>The entry that the directory \<open>d\<close> holds for page \<open>n\<close> of the address space.\<close>

definition kent :: "kstate \<Rightarrow> nat \<Rightarrow> nat \<Rightarrow> u32 option" where
  "kent s d n =
     (case utab s d (n div 1024) of
        None \<Rightarrow> None
      | Some t \<Rightarrow> if present (frames s t (n mod 1024)) then Some (frames s t (n mod 1024)) else None)"

text \<open>
  The memory map above \<^verbatim>\<open>UTOP\<close>, by page of the address space: \<open>qp\<close> and \<open>qe\<close> are the physical pages
  at which \<^verbatim>\<open>pages\<close> and \<^verbatim>\<open>envs\<close> begin, \<open>qs i\<close> that of the stack of processor \<open>i\<close>.
\<close>

definition stack_layout :: "(nat \<Rightarrow> nat) \<Rightarrow> nat set \<Rightarrow> (nat \<Rightarrow> u32 option) \<Rightarrow> nat \<Rightarrow> u32 option" where
  "stack_layout qs I m n =
     (let k = 983039 - n in
      if n < 983040 \<and> k div 16 \<in> I \<and> k mod 16 < 8 then Some (mk_pte (qs (k div 16) + (7 - k mod 16)) PTE_W) else m n)"

definition memlayout :: "nat \<Rightarrow> nat \<Rightarrow> (nat \<Rightarrow> nat) \<Rightarrow> nat \<Rightarrow> u32 option" where
  "memlayout qp qe qs n =
     (if 977920 \<le> n \<and> n < 978944 then Some (mk_pte (qe + (n - 977920)) PTE_U)
      else if 978944 \<le> n \<and> n < 979968 then Some (mk_pte (qp + (n - 978944)) PTE_U)
      else if 983040 \<le> n \<and> n < 1048575 then Some (mk_pte (n - 983040) PTE_W)
      else stack_layout qs {..<NCPU} (\<lambda>_. None) n)"

text \<open>
  The tables at the indices in \<open>N\<close> are pages of their own, and there are free pages for those that
  are missing.
\<close>

definition kdir :: "nat set \<Rightarrow> kstate \<Rightarrow> nat \<Rightarrow> nat list \<Rightarrow> bool" where
  "kdir N s d ps \<longleftrightarrow> free_list s ps \<and> d < npages s \<and> d \<notin> set ps \<and> finite N \<and>
     (\<forall>i t. utab s d i = Some t \<longrightarrow> t \<notin> set ps) \<and>
     (\<forall>i \<in> N. \<forall>t. utab s d i = Some t \<longrightarrow> t < npages s \<and> t \<noteq> d \<and> (\<forall>i'. utab s d i' = Some t \<longrightarrow> i' = i)) \<and>
     card {i \<in> N. utab s d i = None} \<le> length ps"

text \<open>Mapping only adds tables to the directory, at indices in \<open>N\<close>.\<close>

definition kdir_grows :: "nat set \<Rightarrow> nat \<Rightarrow> kstate \<Rightarrow> kstate \<Rightarrow> bool" where
  "kdir_grows N d s s' \<longleftrightarrow> mem_frame s s' \<and>
     (\<forall>i. frames s' d i = frames s d i \<or>
        i \<in> N \<and> \<not> present (frames s d i) \<and> (\<exists>np. frames s' d i = mk_pte np (PTE_W OR PTE_U)))"

lemma kdir_grows_refl [simp]: "kdir_grows N d s s"
  by (simp add: kdir_grows_def)

lemma kdir_grows_trans:
  assumes "kdir_grows N d s s'" and "kdir_grows N d s' s''"
  shows "kdir_grows N d s s''"
  unfolding kdir_grows_def
proof (intro conjI allI)
  show "mem_frame s s''" using assms mem_frame_trans by (auto simp: kdir_grows_def)
  fix i
  show "frames s'' d i = frames s d i \<or>
      i \<in> N \<and> \<not> present (frames s d i) \<and> (\<exists>np. frames s'' d i = mk_pte np (PTE_W OR PTE_U))"
    using assms present_mk_pte unfolding kdir_grows_def by metis
qed

text \<open>\<open>maps_to N s d f s'\<close>: the step from \<open>s\<close> to \<open>s'\<close> gives the directory the entries \<open>f\<close> in \<open>N\<close>.\<close>

definition maps_to :: "nat set \<Rightarrow> nat \<Rightarrow> kstate \<Rightarrow> (nat \<Rightarrow> u32 option) \<Rightarrow> kstate \<Rightarrow> bool" where
  "maps_to N d s f s' \<longleftrightarrow> (\<exists>qs. kdir N s' d qs) \<and> kdir_grows N d s s' \<and>
     (\<forall>n. n div 1024 \<in> N \<longrightarrow> kent s' d n = f n)"

lemma kdir_table:
  assumes "kdir N s d ps" and "i \<in> N" and "utab s d i = Some t"
  shows "t < npages s" and "t \<noteq> d" and "\<And>i'. utab s d i' = Some t \<Longrightarrow> i' = i"
  using assms unfolding kdir_def by blast+

lemma kdir_new_table:
  assumes "kdir N s d (np # qs)" and "i \<in> N" and "utab s d i = None"
    and "frames s' = (frames s)(np := (\<lambda>_. 0), d := (frames s d)(i := mk_pte np (PTE_W OR PTE_U)))"
    and "free_list s' qs" and "mem_frame s s'"
  shows "kdir N s' d qs" and "n div 1024 \<in> N \<Longrightarrow> kent s' d n = kent s d n"
proof -
  note k = assms(1) [unfolded kdir_def]
  have np: "np < npages s" "npages s \<le> 65536" "np \<notin> set qs" "d \<noteq> np"
    using k free_list_distinct [of s "np # qs"] by (auto simp: free_list_def)
  have pfn: "pfn (mk_pte np (PTE_W OR PTE_U)) = np" using np by (simp add: pfn_mk_pte perm_bits_def)
  have ut: "utab s' d i' = (if i' = i then Some np else utab s d i')" for i'
    unfolding utab_def assms(4) fun_upd_same using pfn by simp
  have nnp: "utab s d i' \<noteq> Some np" for i' using k by auto
  have "{j \<in> N. utab s' d j = None} = {j \<in> N. utab s d j = None} - {i}" by (auto simp: ut)
  moreover have "card {j \<in> N. utab s d j = None} \<le> Suc (length qs)" using k by simp
  ultimately have "card {j \<in> N. utab s' d j = None} \<le> length qs"
    using assms(2,3) by simp
  moreover have "npages s' = npages s" using assms(6) by (simp add: mem_frame_def)
  ultimately show "kdir N s' d qs"
    using k assms(5) np nnp unfolding kdir_def by (auto simp: ut split: if_splits)
  show "kent s' d n = kent s d n" if "n div 1024 \<in> N"
    using kdir_table [OF assms(1) that] nnp [of "n div 1024"] assms(3,4) np(4)
    by (auto simp: kent_def ut split: option.split)
qed

lemma kdir_walk:
  assumes "kdir N s d ps" and "unat (PDX va) \<in> N"
  obtains s' t qs where "pgdir_walk s (Some d) va True = Some (Some (t, unat (PTX va)), s')"
    "utab s' d (unat (PDX va)) = Some t" "kdir N s' d qs" "maps_to N d s (kent s d) s'"
proof (cases "utab s d (unat (PDX va))")
  case (Some t)
  have "pgdir_walk s (Some d) va True = Some (Some (t, unat (PTX va)), s)"
    by (rule walk_present [OF Some kdir_table(1) [OF assms Some]])
  then show ?thesis using that [of t s ps] Some assms(1) by (auto simp: maps_to_def)
next
  case None
  let ?i = "unat (PDX va)"
  note k = assms(1) [unfolded kdir_def]
  have "?i \<in> {i \<in> N. utab s d i = None}" using None assms(2) by simp
  moreover have "finite {i \<in> N. utab s d i = None}" using k by simp
  ultimately have "0 < length ps" using k card_gt_0_iff by (metis (no_types, lifting) empty_iff leD neq0_conv)
  then obtain np qs where ps: "ps = np # qs" by (cases ps) auto
  have fl: "free_list s (np # qs)" "d \<noteq> np" using k ps by auto
  obtain s' where s': "pgdir_walk s (Some d) va True = Some (Some (np, unat (PTX va)), s')"
      "frames s' = (frames s)(np := (\<lambda>_. 0), d := (frames s d)(?i := mk_pte np (PTE_W OR PTE_U)))"
      "free_list s' qs" "mem_frame s s'"
    by (rule walk_new_table [OF fl None])
  note new = kdir_new_table [OF assms(1) [unfolded ps] assms(2) None s'(2-4)]
  have np: "np < 2 ^ 20" using fl(1) by (auto simp: free_list_def)
  have ut: "utab s' d ?i = Some np"
    unfolding utab_def s'(2) fun_upd_same using np by (simp add: pfn_mk_pte perm_bits_def)
  have "kdir_grows N d s s'"
    using None assms(2) s'(2,4) by (auto simp: kdir_grows_def utab_def split: if_splits)
  with new have "maps_to N d s (kent s d) s'" by (auto simp: maps_to_def)
  with that s'(1) ut new(1) show ?thesis by blast
qed

lemma kdir_write:
  assumes "kdir N s d ps" and "i \<in> N" and "utab s d i = Some t" and "j < 1024" and "present e"
  shows "kdir N (set_word t j e s) d ps"
    and "maps_to N d s ((kent s d)(i * 1024 + j \<mapsto> e)) (set_word t j e s)"
proof -
  let ?s' = "set_word t j e s"
  note t = kdir_table [OF assms(1-3)]
  have ut: "utab ?s' d = utab s d" using t(2) by (auto simp: utab_def)
  show kd: "kdir N ?s' d ps"
    using assms(1) unfolding kdir_def ut by (simp add: free_list_def)
  have "kent ?s' d n = ((kent s d)(i * 1024 + j \<mapsto> e)) n" if "n div 1024 \<in> N" for n
  proof (cases "n div 1024 = i")
    case True
    then have "n = i * 1024 + n mod 1024" using div_mult_mod_eq [of n 1024] by simp
    then have "n = i * 1024 + j \<longleftrightarrow> n mod 1024 = j" by (metis add_left_cancel)
    with True show ?thesis using assms(3,5) by (auto simp: kent_def ut)
  next
    case False
    then have "n \<noteq> i * 1024 + j" using assms(4) by auto
    moreover have "utab s d (n div 1024) \<noteq> Some t" using t(3) False by blast
    ultimately show ?thesis by (auto simp: kent_def ut split: option.split)
  qed
  with kd show "maps_to N d s ((kent s d)(i * 1024 + j \<mapsto> e)) ?s'"
    using t(2) by (auto simp: maps_to_def kdir_grows_def)
qed

lemma maps_to_trans:
  assumes "maps_to N d s f s'" and "maps_to N d s' g s''"
    and "\<And>n. n div 1024 \<in> N \<Longrightarrow> kent s' d n = f n \<Longrightarrow> g n = h n"
  shows "maps_to N d s h s''"
  using assms kdir_grows_trans unfolding maps_to_def by metis

lemma maps_to_kdir:
  assumes "maps_to N d s f s'"
  obtains qs where "kdir N s' d qs"
  using assms by (auto simp: maps_to_def)

lemma maps_to_pgdir: "maps_to N d s f s' \<Longrightarrow> kern_pgdir s' = kern_pgdir s"
  by (simp add: maps_to_def kdir_grows_def mem_frame_def)

lemma maps_to_kent: "maps_to N d s f s' \<Longrightarrow> n div 1024 \<in> N \<Longrightarrow> kent s' d n = f n"
  by (simp add: maps_to_def)

section \<open>Mapping a region\<close>

lemma unat_page_addr: "n < 2 ^ 20 \<Longrightarrow> unat (of_nat n * PGSIZE :: u32) = n * 4096"
  by (simp add: unat_word_ariths unat_of_nat)

lemma page_addr_index:
  assumes "n < 2 ^ 20"
  shows "unat (PDX (of_nat n * PGSIZE)) = n div 1024" and "unat (PTX (of_nat n * PGSIZE)) = n mod 1024"
  using unat_page_addr [OF assms] by (simp_all add: unat_PDX unat_PTX div_mult2_eq [of _ 4096 1024, simplified])

text \<open>\<open>region n k q perm m\<close> is the map \<open>m\<close> with \<open>k\<close> pages from \<open>n\<close> on mapped to those from \<open>q\<close> on.\<close>

definition region :: "nat \<Rightarrow> nat \<Rightarrow> nat \<Rightarrow> u32 \<Rightarrow> (nat \<Rightarrow> u32 option) \<Rightarrow> nat \<Rightarrow> u32 option" where
  "region n k q perm m = (\<lambda>x. if n \<le> x \<and> x < n + k then Some (mk_pte (q + (x - n)) perm) else m x)"

lemma region_cong: "m x = m' x \<Longrightarrow> region n k q perm m x = region n k q perm m' x"
  by (simp add: region_def)

lemma boot_map_region_loop_maps:
  assumes "kdir N s d ps" and "n + k \<le> 2 ^ 20" and "\<forall>i<k. (n + i) div 1024 \<in> N"
  shows "\<exists>s'. boot_map_region_loop k s (Some d) (of_nat n * PGSIZE) (of_nat q * PGSIZE) perm = Some s' \<and>
    maps_to N d s (region n k q perm (kent s d)) s'"
  using assms
proof (induction k arbitrary: s ps n q)
  case 0
  then show ?case by (auto simp: maps_to_def region_def)
next
  case (Suc k)
  let ?va = "of_nat n * PGSIZE :: u32"
  have idx: "unat (PDX ?va) = n div 1024" "unat (PTX ?va) = n mod 1024"
    using Suc.prems(2) by (simp_all add: page_addr_index)
  have inN: "unat (PDX ?va) \<in> N" using Suc.prems(3) idx by auto
  obtain s1 t qs where s1: "pgdir_walk s (Some d) ?va True = Some (Some (t, unat (PTX ?va)), s1)"
      "utab s1 d (unat (PDX ?va)) = Some t" "kdir N s1 d qs" "maps_to N d s (kent s d) s1"
    by (rule kdir_walk [OF Suc.prems(1) inN])
  let ?s2 = "set_word t (unat (PTX ?va)) (mk_pte q perm) s1"
  note w = kdir_write [OF s1(3) inN s1(2) PTX_bound present_mk_pte]
  have next_n: "Suc n + k \<le> 2 ^ 20" "\<forall>i<k. (Suc n + i) div 1024 \<in> N"
    using Suc.prems(2,3) by (auto dest: spec [of _ "Suc _"])
  obtain s' where s': "boot_map_region_loop k ?s2 (Some d) (of_nat (Suc n) * PGSIZE) (of_nat (Suc q) * PGSIZE) perm = Some s'"
      "maps_to N d ?s2 (region (Suc n) k (Suc q) perm (kent ?s2 d)) s'"
    using Suc.IH [OF w(1) next_n] by blast
  have q_shift: "Suc (q + x - Suc n) = q + x - n" if "Suc n \<le> x" for x using that by arith
  have pte: "of_nat q * PGSIZE OR perm OR PTE_P = mk_pte q perm"
    by (simp add: mk_pte_def push_bit_eq_mult mult.commute)
  have "boot_map_region_loop (Suc k) s (Some d) ?va (of_nat q * PGSIZE) perm = Some s'"
    using s1(1) s'(1) pte by (simp add: algebra_simps)
  moreover have "maps_to N d s (region n (Suc k) q perm (kent s d)) s'"
  proof (rule maps_to_trans [OF maps_to_trans [OF s1(4) w(2)] s'(2)])
    show "((kent s1 d)(unat (PDX ?va) * 1024 + unat (PTX ?va) \<mapsto> mk_pte q perm)) x = ((kent s d)(n \<mapsto> mk_pte q perm)) x"
      if "kent s1 d x = kent s d x" for x
      using that by (simp add: idx)
    show "region (Suc n) k (Suc q) perm (kent ?s2 d) x = region n (Suc k) q perm (kent s d) x"
      if "kent ?s2 d x = ((kent s d)(n \<mapsto> mk_pte q perm)) x" for x
      using that by (cases "x = n") (auto simp: region_def q_shift)
  qed
  ultimately show ?case by blast
qed

lemma boot_map_region_maps:
  assumes "maps_to N d s0 m s" and "n + k \<le> 2 ^ 20" and "\<forall>i<k. (n + i) div 1024 \<in> N"
    and "va = of_nat n * PGSIZE" and "pa = of_nat q * PGSIZE" and "unat (sz div PGSIZE) = k"
  obtains s' where "boot_map_region s (Some d) va sz pa perm = Some s'"
    "maps_to N d s0 (region n k q perm m) s'"
proof -
  obtain ps where "kdir N s d ps" by (rule maps_to_kdir [OF assms(1)])
  from boot_map_region_loop_maps [OF this assms(2,3), of q perm] obtain s' where
    s': "boot_map_region_loop k s (Some d) va pa perm = Some s'" "maps_to N d s (region n k q perm (kent s d)) s'"
    using assms(4,5) by auto
  have "maps_to N d s0 (region n k q perm m) s'"
    by (rule maps_to_trans [OF assms(1) s'(2)]) (rule region_cong)
  with that s'(1) assms(6) show ?thesis by (simp add: boot_map_region_def)
qed

section \<open>Building the memory map\<close>

text \<open>\<open>at_page kva q\<close>: \<open>kva\<close> is the kernel address of physical page \<open>q\<close>.\<close>

definition at_page :: "u32 \<Rightarrow> nat \<Rightarrow> bool" where
  "at_page kva q \<longleftrightarrow> q < 65536 \<and> kva = KERNBASE + of_nat q * PGSIZE"

lemma at_page_PADDR: "at_page kva q \<Longrightarrow> PADDR kva = Some (of_nat q * PGSIZE)"
  by (auto simp: at_page_def PADDR_def word_less_nat_alt unat_word_ariths unat_of_nat)

text \<open>The indices of the directory that the mappings of \<^verbatim>\<open>mem_init\<close> need.\<close>

definition kslots :: "nat set" where
  "kslots = {955, 956, 959} \<union> {960..<1024}"

lemma kslots_range: "n div 1024 \<in> kslots \<longleftrightarrow> 977920 \<le> n \<and> n < 979968 \<or> 982016 \<le> n \<and> n < 1048576"
proof -
  have "i \<in> kslots \<longleftrightarrow> 955 \<le> i \<and> i < 957 \<or> 959 \<le> i \<and> i < 1024" for i
    unfolding kslots_def by auto
  then show ?thesis by (simp add: less_eq_div_iff_mult_less_eq div_less_iff_less_mult)
qed

text \<open>One processor's stack: eight pages below the top, which is 16 pages below the previous one.\<close>

lemma block_half: "k div 16 = i \<and> k mod 16 < 8 \<longleftrightarrow> 16 * i \<le> k \<and> k < 16 * i + (8 :: nat)"
proof
  assume "k div 16 = i \<and> k mod 16 < 8"
  then show "16 * i \<le> k \<and> k < 16 * i + 8" using div_mult_mod_eq [of k 16] by linarith
next
  assume h: "16 * i \<le> k \<and> k < 16 * i + 8"
  then have "k div 16 = i" by (intro div_nat_eqI) auto
  with h show "k div 16 = i \<and> k mod 16 < 8" using div_mult_mod_eq [of k 16] by linarith
qed

lemma stack_region:
  assumes "i < NCPU"
  shows "region (983032 - 16 * i) 8 (q i) PTE_W (stack_layout q I m) = stack_layout q (insert i I) m"
proof
  fix n :: nat
  let ?k = "983039 - n"
  have range: "?k div 16 = i \<and> ?k mod 16 < 8 \<longleftrightarrow> 16 * i \<le> ?k \<and> ?k < 16 * i + 8"
    by (rule block_half)
  show "region (983032 - 16 * i) 8 (q i) PTE_W (stack_layout q I m) n = stack_layout q (insert i I) m n"
  proof (cases "n < 983040 \<and> ?k div 16 = i \<and> ?k mod 16 < 8")
    case True
    then have "983032 - 16 * i \<le> n \<and> n < 983032 - 16 * i + 8" using range assms by linarith
    moreover have "16 * i \<le> ?k \<and> ?k < 16 * i + 8" "n < 983040" using True range by blast+
    then have "n - (983032 - 16 * i) = 7 - (?k - 16 * i)" using assms by linarith
    moreover have "?k mod 16 = ?k - 16 * i" using True minus_mult_div_eq_mod [of ?k 16] by simp
    ultimately show ?thesis using True by (simp add: region_def stack_layout_def Let_def)
  next
    case False
    then have "\<not> (983032 - 16 * i \<le> n \<and> n < 983032 - 16 * i + 8)" using range assms by linarith
    then have "region (983032 - 16 * i) 8 (q i) PTE_W (stack_layout q I m) n = stack_layout q I m n"
      by (simp only: region_def if_False)
    with False show ?thesis by (auto simp: stack_layout_def Let_def)
  qed
qed

lemma layout_page_numbers:
  "UPAGES = of_nat 978944 * PGSIZE" "UENVS = of_nat 977920 * PGSIZE"
  "KSTACKTOP - KSTKSIZE = of_nat 983032 * PGSIZE" "KERNBASE = of_nat 983040 * PGSIZE"
  "(0 :: u32) = of_nat 0 * PGSIZE"
  "unat (PTSIZE div PGSIZE) = 1024" "unat (KSTKSIZE div PGSIZE) = 8" "unat ((0xffffffff - KERNBASE) div PGSIZE) = 65535"
  by (simp_all add: layout_values unat_div)

lemma mem_init_mp_loop_maps:
  assumes "maps_to kslots d s0 (stack_layout q I m) s" and "d = kern_pgdir s"
    and "\<forall>i \<in> set is. i < NCPU \<and> at_page (percpu_kstacks i) (q i)"
  shows "\<exists>s'. mem_init_mp_loop percpu_kstacks is s = Some s' \<and>
    maps_to kslots d s0 (stack_layout q (I \<union> set is) m) s'"
  using assms
proof (induction "is" arbitrary: s I)
  case Nil
  then show ?case by simp
next
  case (Cons i "is")
  let ?n = "983032 - 16 * i"
  have i: "i < NCPU" "at_page (percpu_kstacks i) (q i)" using Cons.prems by auto
  have va: "KSTACKTOP - of_nat i * (KSTKGAP + KSTKSIZE) - KSTKSIZE = of_nat ?n * PGSIZE"
    using i(1) by (simp add: of_nat_diff algebra_simps)
  have slots: "\<forall>j<8. (?n + j) div 1024 \<in> kslots" using i(1) by (auto simp: kslots_range)
  obtain s1 where s1: "boot_map_region s (Some d) (of_nat ?n * PGSIZE) KSTKSIZE (of_nat (q i) * PGSIZE) PTE_W = Some s1"
      "maps_to kslots d s0 (region ?n 8 (q i) PTE_W (stack_layout q I m)) s1"
    by (rule boot_map_region_maps [OF Cons.prems(1) _ slots refl refl layout_page_numbers(7)]) (use i(1) in simp_all)
  have d: "d = kern_pgdir s1"
    using maps_to_pgdir [OF s1(2)] maps_to_pgdir [OF Cons.prems(1)] Cons.prems(2) by simp
  obtain s' where s': "mem_init_mp_loop percpu_kstacks is s1 = Some s'"
      "maps_to kslots d s0 (stack_layout q (insert i I \<union> set is) m) s'"
    using Cons.IH [OF s1(2) [unfolded stack_region [OF i(1)]] d] Cons.prems(3) by auto
  have "mem_init_mp_loop percpu_kstacks (i # is) s = Some s'"
    using s1(1) s'(1) Cons.prems(2) at_page_PADDR [OF i(2)] va by (simp add: Let_def)
  with s'(2) show ?case by simp
qed

text \<open>
  The state after \<^verbatim>\<open>page_init\<close>: the directory is empty but for the virtual page table and perhaps a
  table for memory-mapped devices (one remains from the self test of \<^verbatim>\<open>mmio_map_region\<close>), and there
  are enough free pages for the tables to come.
\<close>

definition dir_ready :: "kstate \<Rightarrow> nat list \<Rightarrow> bool" where
  "dir_ready s ps \<longleftrightarrow> free_list s ps \<and> kern_pgdir s < npages s \<and> kern_pgdir s \<notin> set ps \<and> 67 \<le> length ps \<and>
     utab s (kern_pgdir s) 957 = Some (kern_pgdir s) \<and>
     (\<forall>t. utab s (kern_pgdir s) 958 = Some t \<longrightarrow> t \<notin> set ps) \<and>
     (\<forall>i. i \<noteq> 957 \<longrightarrow> i \<noteq> 958 \<longrightarrow> frames s (kern_pgdir s) i = 0)"

lemma dir_ready_maps:
  assumes "dir_ready s ps"
  shows "maps_to kslots (kern_pgdir s) s (\<lambda>_. None) s"
proof -
  note r = assms [unfolded dir_ready_def]
  have none: "utab s (kern_pgdir s) i = None" if "i \<noteq> 957" "i \<noteq> 958" for i
    using r that by (simp add: utab_def)
  have slots: "i \<noteq> 957" "i \<noteq> 958" if "i \<in> kslots" for i using that by (auto simp: kslots_def)
  then have all: "{i \<in> kslots. utab s (kern_pgdir s) i = None} = kslots" using none by auto
  have "t \<notin> set ps" if "utab s (kern_pgdir s) i = Some t" for i t
    using that r none [of i] by (cases "i = 957"; cases "i = 958") auto
  moreover have "card kslots \<le> length ps" using r by (simp add: kslots_def card_Un_disjoint)
  ultimately have "kdir kslots s (kern_pgdir s) ps"
    unfolding kdir_def all using r none slots by (auto simp: kslots_def)
  moreover have "kent s (kern_pgdir s) n = None" if "n div 1024 \<in> kslots" for n
    using none [OF slots [OF that]] by (simp add: kent_def)
  ultimately show ?thesis by (auto simp: maps_to_def)
qed

lemma memlayout_eq:
  "stack_layout q {..<NCPU} (region 983040 65535 0 PTE_W (region 983032 8 qb PTE_W
      (region 977920 1024 qe PTE_U (region 978944 1024 qp PTE_U (\<lambda>_. None))))) = memlayout qp qe q"
proof
  fix n :: nat
  have stacks: "982912 \<le> n" if "n < 983040" "(983039 - n) div 16 < NCPU"
    using that by (simp add: div_less_iff_less_mult)
  have stack0: "(983039 - n) div 16 = 0 \<and> (983039 - n) mod 16 < 8" if "983032 \<le> n" "n < 983040"
    unfolding block_half using that by simp
  let ?S = "(983039 - n) div 16 < NCPU \<and> (983039 - n) mod 16 < 8"
  consider "983040 \<le> n" | "n < 983040" "?S" "982912 \<le> n" | "n < 983040" "\<not> ?S" "n < 983032"
    using stacks stack0 by (metis bot_nat_0.not_eq_extremum not_le zero_less_numeral)
  then show "stack_layout q {..<NCPU} (region 983040 65535 0 PTE_W (region 983032 8 qb PTE_W
      (region 977920 1024 qe PTE_U (region 978944 1024 qp PTE_U (\<lambda>_. None))))) n = memlayout qp qe q n"
    by cases (auto simp: stack_layout_def memlayout_def region_def Let_def)
qed

lemma mem_init_map_maps:
  assumes "dir_ready s ps" and "at_page pages_kva qp" and "at_page envs_kva qe" and "at_page bootstack qb"
    and "\<forall>i < NCPU. at_page (percpu_kstacks i) (q i)"
  obtains s' where "mem_init_map pages_kva envs_kva bootstack percpu_kstacks s = Some s'"
    "maps_to kslots (kern_pgdir s) s (memlayout qp qe q) s'"
proof -
  let ?d = "kern_pgdir s" and ?m1 = "region 978944 1024 qp PTE_U (\<lambda>_. None)"
  let ?m2 = "region 977920 1024 qe PTE_U ?m1"
  let ?m4 = "region 983040 65535 0 PTE_W (region 983032 8 qb PTE_W ?m2)"
  have slots: "\<forall>i<1024. (978944 + i) div 1024 \<in> kslots" "\<forall>i<1024. (977920 + i) div 1024 \<in> kslots"
    "\<forall>i<8. (983032 + i) div 1024 \<in> kslots" "\<forall>i<65535. (983040 + i) div 1024 \<in> kslots"
    by (simp_all add: kslots_range)
  obtain s1 where s1: "boot_map_region s (Some ?d) UPAGES PTSIZE (of_nat qp * PGSIZE) PTE_U = Some s1"
      "maps_to kslots ?d s ?m1 s1"
    by (rule boot_map_region_maps [OF dir_ready_maps [OF assms(1)] _ slots(1) layout_page_numbers(1) refl layout_page_numbers(6)]) simp
  obtain s2 where s2: "boot_map_region s1 (Some ?d) UENVS PTSIZE (of_nat qe * PGSIZE) PTE_U = Some s2"
      "maps_to kslots ?d s ?m2 s2"
    by (rule boot_map_region_maps [OF s1(2) _ slots(2) layout_page_numbers(2) refl layout_page_numbers(6)]) simp
  obtain s3 where s3: "boot_map_region s2 (Some ?d) (KSTACKTOP - KSTKSIZE) KSTKSIZE (of_nat qb * PGSIZE) PTE_W = Some s3"
      "maps_to kslots ?d s (region 983032 8 qb PTE_W ?m2) s3"
    by (rule boot_map_region_maps [OF s2(2) _ slots(3) layout_page_numbers(3) refl layout_page_numbers(7)]) simp
  obtain s4 where s4: "boot_map_region s3 (Some ?d) KERNBASE (0xffffffff - KERNBASE) 0 PTE_W = Some s4"
      "maps_to kslots ?d s ?m4 s4"
    by (rule boot_map_region_maps [OF s3(2) _ slots(4) layout_page_numbers(4,5,8)]) simp
  note pgdir = maps_to_pgdir [OF s1(2)] maps_to_pgdir [OF s2(2)] maps_to_pgdir [OF s3(2)] maps_to_pgdir [OF s4(2)]
  have "stack_layout q {} ?m4 = ?m4" by (simp add: stack_layout_def fun_eq_iff Let_def)
  then have start: "maps_to kslots ?d s (stack_layout q {} ?m4) s4" using s4(2) by simp
  have "{} \<union> set [0..<NCPU] = {..<NCPU}" by (simp add: atLeast0LessThan)
  then obtain s' where s': "mem_init_mp percpu_kstacks s4 = Some s'"
      "maps_to kslots ?d s (memlayout qp qe q) s'"
    using mem_init_mp_loop_maps [OF start pgdir(4) [symmetric], of "[0..<NCPU]" percpu_kstacks] assms(5)
    unfolding mem_init_mp_def memlayout_eq [symmetric, of qp qe q qb] by auto
  have "mem_init_map pages_kva envs_kva bootstack percpu_kstacks s = Some s'"
    using s1(1) s2(1) s3(1) s4(1) s'(1) pgdir assms(2-4)[THEN at_page_PADDR]
    by (simp add: mem_init_map_def)
  with s'(2) that show ?thesis by blast
qed

section \<open>The self test passes\<close>

lemma PTE_ADDR_mk_pte:
  assumes "n < 2 ^ 20" and "perm_bits perm"
  shows "PTE_ADDR (mk_pte n perm) = of_nat n * PGSIZE"
proof -
  have "unat (PTE_ADDR (mk_pte n perm)) = pfn (mk_pte n perm) * 4096"
    by (simp add: pfn_def unat_PGNUM unat_PTE_ADDR minus_mod_eq_div_mult)
  also have "\<dots> = unat (of_nat n * PGSIZE :: u32)" using pfn_mk_pte [OF assms] unat_page_addr [OF assms(1)] by simp
  finally show ?thesis by (simp only: word_unat_eq_iff)
qed

lemma check_va2pa_kent:
  assumes "maps_to N d s0 f s" and "n < 2 ^ 20" and "n div 1024 \<in> N" and "va = of_nat n * PGSIZE"
  shows "check_va2pa s d va = Some (case f n of None \<Rightarrow> NOT 0 | Some e \<Rightarrow> PTE_ADDR e)"
proof -
  note idx = page_addr_index [OF assms(2)]
  obtain ps where kd: "kdir N s d ps" by (rule maps_to_kdir [OF assms(1)])
  show ?thesis
  proof (cases "utab s d (n div 1024)")
    case None
    then show ?thesis
      using maps_to_kent [OF assms(1,3)] by (auto simp: check_va2pa_def assms(4) idx kent_def utab_def split: if_splits)
  next
    case (Some t)
    then have "present (frames s d (n div 1024))" "pfn (frames s d (n div 1024)) = t"
      by (auto simp: utab_def split: if_splits)
    with Some kdir_table(1) [OF kd assms(3) Some] show ?thesis
      unfolding maps_to_kent [OF assms(1,3), symmetric]
      by (auto simp: check_va2pa_def assms(4) idx kent_def kpage_PTE_ADDR split: if_splits)
  qed
qed

lemma check_va2pa_page:
  assumes "maps_to N d s0 f s" and "n < 2 ^ 20" and "n div 1024 \<in> N" and "f n = Some (mk_pte q perm)"
    and "q < 2 ^ 20" and "perm_bits perm" and "va = of_nat n * PGSIZE"
  shows "check_va2pa s d va = Some (of_nat q * PGSIZE)"
  using check_va2pa_kent [OF assms(1-3,7)] PTE_ADDR_mk_pte [OF assms(5,6)] assms(4) by simp

lemma check_array_passes:
  assumes "maps_to kslots d s0 f s" and "d = kern_pgdir s" and "at_page kva q" and "va = of_nat n * PGSIZE"
    and "\<And>i. i < k \<Longrightarrow> f (n + i) = Some (mk_pte (q + i) perm)" and "\<And>i. i < k \<Longrightarrow> (n + i) div 1024 \<in> kslots"
    and "unat (sz div PGSIZE) \<le> k" and "perm_bits perm" and "k \<le> 65536"
  shows "check_array s sz va kva"
proof -
  have "check_va2pa s d (va + of_nat i * PGSIZE) = Some (of_nat q * PGSIZE + of_nat i * PGSIZE)" if "i < k" for i
  proof -
    have "check_va2pa s d (va + of_nat i * PGSIZE) = Some (of_nat (q + i) * PGSIZE)"
    proof (rule check_va2pa_page [OF assms(1) _ assms(6) [OF that] assms(5) [OF that] _ assms(8)])
      show "n + i < 2 ^ 20" using assms(6) [OF that] by (auto simp: kslots_range)
      show "q + i < 2 ^ 20" using assms(3,9) that by (simp add: at_page_def)
      show "va + of_nat i * PGSIZE = of_nat (n + i) * PGSIZE" by (simp add: assms(4) distrib_right)
    qed
    then show ?thesis by (simp add: distrib_right)
  qed
  then show ?thesis
    using at_page_PADDR [OF assms(3)] assms(2,7) by (auto simp: check_array_def check_range_def list_all_iff)
qed

lemma check_stack_passes:
  assumes "maps_to kslots d s0 (memlayout qp qe q) s" and "d = kern_pgdir s" and "i < NCPU"
    and "at_page (percpu_kstacks i) (q i)"
  shows "check_stack s percpu_kstacks i"
proof -
  let ?base = "KSTACKTOP - (KSTKSIZE + KSTKGAP) * (of_nat i + 1) :: u32"
  have base: "?base = of_nat (983024 - 16 * i) * PGSIZE" "?base + KSTKGAP = of_nat (983032 - 16 * i) * PGSIZE"
    using assms(3) by (simp_all add: of_nat_diff algebra_simps)
  have stack: "memlayout qp qe q (983032 - 16 * i + j) = Some (mk_pte (q i + j) PTE_W)" if "j < 8" for j
  proof -
    have "region (983032 - 16 * i) 8 (q i) PTE_W (stack_layout q {..<NCPU} (\<lambda>_. None)) = stack_layout q {..<NCPU} (\<lambda>_. None)"
      using stack_region [OF assms(3)] assms(3) by (simp add: insert_absorb)
    then have "stack_layout q {..<NCPU} (\<lambda>_. None) (983032 - 16 * i + j) = Some (mk_pte (q i + j) PTE_W)"
      using that by (metis (no_types, lifting) region_def add_diff_cancel_left' le_add1 nat_add_left_cancel_less)
    moreover have "982016 \<le> 983032 - 16 * i + j \<and> 983032 - 16 * i + j < 983040" using assms(3) that by arith
    ultimately show ?thesis by (simp add: memlayout_def)
  qed
  have guard: "memlayout qp qe q (983024 - 16 * i + j) = None" if "j < 8" for j
  proof -
    obtain n where n: "n = 983024 - 16 * i + j" by simp
    have "983039 - n = 16 * i + (15 - j)" using n assms(3) that by arith
    then have "(983039 - n) mod 16 = 15 - j" by simp
    moreover have "982016 \<le> n \<and> n < 983040" using n assms(3) that by arith
    moreover have "\<not> 15 - j < 8" using that by arith
    ultimately show ?thesis by (simp add: n [symmetric] memlayout_def stack_layout_def Let_def)
  qed
  have "check_array s KSTKSIZE (?base + KSTKGAP) (percpu_kstacks i)"
    by (rule check_array_passes [OF assms(1,2,4) base(2) stack])
      (use assms(3) in \<open>auto simp: kslots_range perm_bits_def layout_page_numbers(7)\<close>)
  moreover have "check_va2pa s d (?base + of_nat j * PGSIZE) = Some (NOT 0)" if "j < 8" for j
  proof -
    have va: "?base + of_nat j * PGSIZE = of_nat (983024 - 16 * i + j) * PGSIZE"
      unfolding base by (simp add: distrib_right)
    have "(983024 - 16 * i + j) div 1024 \<in> kslots" "983024 - 16 * i + j < 2 ^ 20"
      using assms(3) that by (auto simp: kslots_range)
    then show ?thesis using check_va2pa_kent [OF assms(1) _ _ va] guard [OF that] by simp
  qed
  ultimately show ?thesis
    using assms(2) by (simp add: check_stack_def Let_def check_range_def list_all_iff layout_page_numbers(7))
qed

lemma kslots_used:
  assumes "maps_to kslots d s0 (memlayout qp qe q) s" and "i \<in> kslots"
  shows "present (frames s d i)"
proof -
  have "memlayout qp qe q 983039 \<noteq> None" by (simp add: memlayout_def stack_layout_def)
  have "\<exists>n. n div 1024 = i \<and> memlayout qp qe q n \<noteq> None"
  proof (cases "i = 959")
    case True
    then show ?thesis using \<open>memlayout qp qe q 983039 \<noteq> None\<close> by (intro exI [of _ 983039]) simp
  next
    case False
    then have "i = 955 \<or> i = 956 \<or> 960 \<le> i \<and> i < 1024" using assms(2) by (auto simp: kslots_def)
    then have "memlayout qp qe q (i * 1024) \<noteq> None" by (auto simp: memlayout_def)
    then show ?thesis by (intro exI [of _ "i * 1024"]) simp
  qed
  then obtain n where n: "n div 1024 = i" "memlayout qp qe q n \<noteq> None" by blast
  then have "kent s d n \<noteq> None" using maps_to_kent [OF assms(1)] assms(2) by simp
  with n(1) show ?thesis by (auto simp: kent_def utab_def split: if_splits)
qed

lemma pdes_checked:
  assumes "maps_to kslots (kern_pgdir s) s (memlayout qp qe q) s'" and "dir_ready s ps"
  shows "list_all (check_pde s') [0..<NPDENTRIES] \<longleftrightarrow> utab s (kern_pgdir s) 958 \<noteq> None"
proof -
  let ?d = "kern_pgdir s"
  note r = assms(2) [unfolded dir_ready_def]
  have d: "kern_pgdir s' = ?d" by (rule maps_to_pgdir [OF assms(1)])
  have grows: "\<forall>i. frames s' ?d i = frames s ?d i \<or> i \<in> kslots \<and> (\<exists>np. frames s' ?d i = mk_pte np (PTE_W OR PTE_U))"
    using assms(1) unfolding maps_to_def kdir_grows_def by blast
  have idx: "unat (PDX UVPT) = 957" "unat (PDX (KSTACKTOP - 1)) = 959" "unat (PDX UPAGES) = 956"
    "unat (PDX UENVS) = 955" "unat (PDX MMIOBASE) = 958" "unat (PDX KERNBASE) = 960"
    by (simp_all add: unat_PDX layout_values)
  have kslot: "check_pde s' i" if "i \<in> kslots" for i
  proof -
    have p: "present (frames s' ?d i)" by (rule kslots_used [OF assms(1) that])
    then have "frames s' ?d i \<noteq> frames s ?d i" using r that by (auto simp: kslots_def)
    then obtain np where "frames s' ?d i = mk_pte np (PTE_W OR PTE_U)" using grows by blast
    then have "frames s' ?d i AND PTE_W \<noteq> 0" using mk_pte_flags [of PTE_W np "PTE_W OR PTE_U"] by simp
    with p that show ?thesis unfolding check_pde_def d idx Let_def present_def by (auto simp: kslots_def)
  qed
  have other: "frames s' ?d i = frames s ?d i" if "i \<notin> kslots" for i using grows that by blast
  have uvpt: "check_pde s' 957"
    using r other [of 957] unfolding check_pde_def d idx Let_def
    by (simp add: kslots_def utab_def present_def split: if_splits)
  have mmio: "check_pde s' 958 \<longleftrightarrow> utab s ?d 958 \<noteq> None"
    using other [of 958] unfolding check_pde_def d idx Let_def
    by (simp add: kslots_def utab_def present_def)
  have rest: "check_pde s' i" if "i < 1024" "i \<notin> kslots" "i \<noteq> 957" "i \<noteq> 958" for i
    using that r other [of i] unfolding check_pde_def d idx Let_def by (auto simp: kslots_def)
  have "check_pde s' i" if "check_pde s' 958" "i < 1024" for i
    using that kslot [of i] uvpt rest [of i] by (cases "i = 957 \<or> i = 958 \<or> i \<in> kslots") auto
  then show ?thesis using mmio by (auto simp: list_all_iff)
qed

text \<open>
  The check of physical memory reads \<^verbatim>\<open>npages\<close> pages above \<^verbatim>\<open>KERNBASE\<close>, one more than are mapped when
  the machine has the full 256 MB.
\<close>

lemma phys_mem_checked:
  assumes "maps_to kslots d s0 (memlayout qp qe q) s" and "d = kern_pgdir s" and "npages s \<le> 65536"
  shows "check_range (of_nat (npages s) * PGSIZE) (\<lambda>i. check_va2pa s d (KERNBASE + i) = Some i) \<longleftrightarrow> npages s \<noteq> 65536"
proof -
  have count: "unat (of_nat (npages s) * PGSIZE div PGSIZE :: u32) = npages s"
    using assms(3) by (simp add: unat_div unat_page_addr)
  have va: "KERNBASE + of_nat i * PGSIZE = of_nat (983040 + i) * PGSIZE" for i by (simp add: distrib_right)
  have "check_va2pa s d (KERNBASE + of_nat i * PGSIZE) = Some (of_nat i * PGSIZE)" if "i < 65535" for i
    by (rule check_va2pa_page [OF assms(1) _ _ _ _ _ va, where perm = PTE_W])
      (use that in \<open>simp_all add: kslots_range memlayout_def perm_bits_def\<close>)
  moreover have "check_va2pa s d (KERNBASE + of_nat 65535 * PGSIZE) \<noteq> Some (of_nat 65535 * PGSIZE)"
    using check_va2pa_kent [OF assms(1) _ _ va, of 65535]
    by (simp add: kslots_def memlayout_def stack_layout_def)
  moreover have "65535 \<in> set [0..<npages s]" if "npages s = 65536" using that by simp
  moreover have "i < 65535" if "i \<in> set [0..<npages s]" "npages s \<noteq> 65536" for i
    using that assms(3) by simp
  ultimately show ?thesis unfolding check_range_def count list_all_iff by blast
qed

lemma check_kern_pgdir_iff:
  assumes "maps_to kslots (kern_pgdir s) s (memlayout qp qe q) s'" and "dir_ready s ps"
    and "at_page pages_kva qp" and "at_page envs_kva qe" and "\<forall>i < NCPU. at_page (percpu_kstacks i) (q i)"
  shows "check_kern_pgdir pages_kva envs_kva percpu_kstacks s' \<longleftrightarrow>
    npages s \<noteq> 65536 \<and> utab s (kern_pgdir s) 958 \<noteq> None"
proof -
  have fr: "kern_pgdir s = kern_pgdir s'" "npages s = npages s'"
    using assms(1) by (simp_all add: maps_to_def kdir_grows_def mem_frame_def)
  have np: "npages s' \<le> 65536" using assms(2) fr by (simp add: dir_ready_def free_list_def)
  have "check_array s' (ROUNDUP (of_nat (npages s') * 8) PGSIZE) UPAGES pages_kva"
  proof (rule check_array_passes [OF assms(1) fr(1) assms(3) layout_page_numbers(1), where k = 1024 and perm = PTE_U])
    have "unat (of_nat (npages s') * 8 :: u32) = npages s' * 8"
      using np by (simp add: unat_word_ariths unat_of_nat)
    then show "unat (ROUNDUP (of_nat (npages s') * 8) PGSIZE div PGSIZE) \<le> 1024"
      using np by (simp add: unat_div unat_ROUNDUP)
  qed (auto simp: memlayout_def kslots_range perm_bits_def)
  moreover have "check_array s' (ROUNDUP (of_nat NENV * 124) PGSIZE) UENVS envs_kva"
    by (rule check_array_passes [OF assms(1) fr(1) assms(4) layout_page_numbers(2), where k = 1024 and perm = PTE_U])
      (auto simp: memlayout_def kslots_range perm_bits_def unat_div unat_ROUNDUP)
  moreover have "list_all (check_stack s' percpu_kstacks) [0..<NCPU]"
    using check_stack_passes [OF assms(1) fr(1)] assms(5) by (simp add: list_all_iff)
  ultimately show ?thesis
    unfolding check_kern_pgdir_def pdes_checked [OF assms(1,2)]
    using phys_mem_checked [OF assms(1) fr(1) np] fr by simp
qed

section \<open>The first half\<close>

lemma page_init_loop_frame:
  "frames (page_init_loop s ext is) = frames s \<and> kern_pgdir (page_init_loop s ext is) = kern_pgdir s \<and>
   env_free_list (page_init_loop s ext is) = env_free_list s"
  by (induction s ext "is" rule: page_init_loop.induct) auto

lemma page_init_frame:
  assumes "page_init end_sym s = Some s'"
  shows "frames s' = frames s" and "kern_pgdir s' = kern_pgdir s" and "env_free_list s' = env_free_list s"
  using assms page_init_loop_frame
  by (auto simp: page_init_def boot_alloc_def Let_def split: if_splits Option.bind_splits)

text \<open>A request of \<open>n\<close> bytes takes \<open>pages_of n\<close> pages from the boot allocator.\<close>

definition pages_of :: "nat \<Rightarrow> nat" where
  "pages_of n = (n + 4095) div 4096"

lemma unat_at_page: "at_page kva q \<Longrightarrow> unat kva = 4026531840 + q * 4096"
  by (auto simp: at_page_def unat_word_ariths unat_of_nat)

lemma ROUNDUP_at_page:
  assumes "unat a = 4026531840 + m" and "pages_of m < 65536"
  shows "at_page (ROUNDUP a PGSIZE) (pages_of m)"
proof -
  have m: "m + 4095 < 65536 * 4096" using assms(2) by (simp add: pages_of_def div_less_iff_less_mult)
  have "(m + 4095 + 983040 * 4096) div 4096 = 983040 + pages_of m"
    unfolding pages_of_def by (rule div_mult_self1) simp
  moreover have "4026531840 + m + 4095 = m + 4095 + 983040 * 4096" by simp
  moreover have "unat (ROUNDUP a PGSIZE) = (4026531840 + m + 4095) div 4096 * 4096"
    using m assms(1) by (subst unat_ROUNDUP) simp_all
  ultimately have "unat (ROUNDUP a PGSIZE) = 4026531840 + pages_of m * 4096" by simp
  also have "\<dots> = unat (KERNBASE + of_nat (pages_of m) * PGSIZE :: u32)"
    using assms(2) by (simp add: unat_word_ariths unat_of_nat)
  finally show ?thesis using assms(2) by (simp add: at_page_def word_unat_eq_iff)
qed

lemma boot_alloc_pages:
  assumes "nf = (if nextfree s = 0 then ROUNDUP end_sym PGSIZE else nextfree s)" and "at_page nf q"
    and "q + pages_of (unat n) < npages s" and "npages s \<le> 65536"
  obtains nf' where "boot_alloc end_sym s n = Some (nf, s\<lparr>nextfree := nf'\<rparr>)" "nf' \<noteq> 0"
    "at_page nf' (q + pages_of (unat n))"
proof -
  have p: "pages_of (q * 4096 + unat n) = q + pages_of (unat n)" by (simp add: pages_of_def add.assoc)
  have "unat n \<le> pages_of (unat n) * 4096"
    using div_mult_mod_eq [of "unat n + 4095" 4096] mod_less_divisor [of 4096 "unat n + 4095"]
    unfolding pages_of_def by linarith
  then have "unat nf + unat n < 2 ^ LENGTH(32)" using assms(3,4) unat_at_page [OF assms(2)] by simp
  then have "unat (nf + n) = 4026531840 + (q * 4096 + unat n)"
    using unat_at_page [OF assms(2)] by (simp add: unat_add_lem [THEN iffD1])
  then have at: "at_page (ROUNDUP (nf + n) PGSIZE) (q + pages_of (unat n))"
    using ROUNDUP_at_page [of "nf + n" "q * 4096 + unat n"] assms(3,4) p by simp
  then have "ROUNDUP (nf + n) PGSIZE - KERNBASE = of_nat (q + pages_of (unat n)) * PGSIZE" by (simp add: at_page_def)
  then have "ROUNDUP (nf + n) PGSIZE - KERNBASE \<le> of_nat (npages s) * PGSIZE"
    using assms(3,4) unat_page_addr [of "q + pages_of (unat n)"] unat_page_addr [of "npages s"]
    by (simp add: word_le_nat_alt)
  then have "boot_alloc end_sym s n = Some (nf, s\<lparr>nextfree := ROUNDUP (nf + n) PGSIZE\<rparr>)"
    using boot_alloc_Some assms(1) by blast
  moreover have "ROUNDUP (nf + n) PGSIZE \<noteq> 0" using unat_at_page [OF at] by auto
  ultimately show ?thesis using that at by blast
qed

lemma free_pages_after_init:
  assumes "69 \<le> npages_basemem s" and "69 \<le> npages s"
  shows "67 \<le> length (filter (\<lambda>i. \<not> page_in_use s ext i) [0..<npages s])"
proof -
  have "{1..<69} - {7} \<subseteq> set (filter (\<lambda>i. \<not> page_in_use s ext i) [0..<npages s])"
    using assms by (auto simp: page_in_use_def unat_div)
  then have "card ({1..<69 :: nat} - {7}) \<le> card (set (filter (\<lambda>i. \<not> page_in_use s ext i) [0..<npages s]))"
    by (rule card_mono [rotated]) simp
  moreover have "card (set (filter (\<lambda>i. \<not> page_in_use s ext i) [0..<npages s])) =
      length (filter (\<lambda>i. \<not> page_in_use s ext i) [0..<npages s])"
    by (rule distinct_card) simp
  moreover have "card ({1..<69 :: nat} - {7}) = 67" by simp
  ultimately show ?thesis by linarith
qed

lemma at_page_ROUNDUP:
  assumes "at_page a q"
  shows "ROUNDUP a PGSIZE = a"
proof -
  have "pages_of (q * 4096) = q" by (simp add: pages_of_def)
  then show ?thesis
    using ROUNDUP_at_page [of a "q * 4096"] unat_at_page [OF assms] assms by (simp add: at_page_def)
qed

lemma mem_init_boot_arrays:
  assumes "nextfree s = 0" and "unat end_sym = 4026531840 + m"
    and "i386_detect_memory cmos s = s1" and "npages s1 \<le> 65536"
    and "qp = pages_of m + 1" and "qe = qp + pages_of (npages s1 * 8)" and "qe + 31 < npages s1"
  obtains pages_kva envs_kva s4 where
    "mem_init_boot cmos end_sym s = map_option (\<lambda>s'. ((pages_kva, envs_kva), s')) (page_init end_sym s4)"
    "at_page pages_kva qp" "at_page envs_kva qe" "at_page (nextfree s4) (qe + 31)" "nextfree s4 \<noteq> 0"
    "npages s4 = npages s1" "npages_basemem s4 = npages_basemem s1" "kern_pgdir s4 = pages_of m"
    "frames s4 (pages_of m) = (\<lambda>_. 0)(957 := mk_pte (pages_of m) PTE_U)" "env_free_list s4 = env_free_list s"
proof -
  let ?d = "pages_of m" and ?top = "ROUNDUP end_sym PGSIZE"
  have s1: "nextfree s1 = 0" "env_free_list s1 = env_free_list s"
    using assms(1,3) by (auto simp: i386_detect_memory_def Let_def)
  have end_at: "at_page ?top ?d" by (rule ROUNDUP_at_page) (use assms in simp_all)
  have d: "unat (PGNUM (?top - KERNBASE)) = ?d" "PADDR ?top = Some (of_nat ?d * PGSIZE)"
    using end_at unat_page_addr [of ?d] at_page_PADDR [OF end_at] by (auto simp: at_page_def unat_PGNUM)
  have uvpt: "unat (PDX UVPT) = 957" by (simp add: unat_PDX layout_values)
  have pte: "of_nat ?d * PGSIZE OR PTE_U OR PTE_P = mk_pte ?d PTE_U"
    by (simp add: mk_pte_def push_bit_eq_mult mult.commute)
  have size8: "unat (of_nat (npages s1) * 8 :: u32) = npages s1 * 8"
    using assms(4) by (simp add: unat_word_ariths unat_of_nat)
  obtain nf1 where nf1: "boot_alloc end_sym s1 PGSIZE = Some (?top, s1\<lparr>nextfree := nf1\<rparr>)" "nf1 \<noteq> 0"
      "at_page nf1 (?d + pages_of (unat PGSIZE))"
    by (rule boot_alloc_pages [OF _ end_at, where n = PGSIZE]) (use s1 assms(4-7) in \<open>simp_all add: pages_of_def\<close>)
  have qp: "at_page nf1 qp" using nf1(3) assms(5) by (simp add: pages_of_def)
  define s2 where "s2 = set_word ?d 957 (mk_pte ?d PTE_U) (zero_page ?d (s1\<lparr>nextfree := nf1\<rparr>\<lparr>kern_pgdir := ?d\<rparr>))"
  have np: "nextfree s2 = nf1" "npages s2 = npages s1" "npages (s2\<lparr>nextfree := x\<rparr>) = npages s1" "pages (s2\<lparr>nextfree := x\<rparr>) = pages s2" for x
    by (simp_all add: s2_def)
  obtain nf2 where nf2: "boot_alloc end_sym s2 (of_nat (npages s1) * 8) = Some (nf1, s2\<lparr>nextfree := nf2\<rparr>)" "nf2 \<noteq> 0"
      "at_page nf2 (qp + pages_of (unat (of_nat (npages s1) * 8 :: u32)))"
    by (rule boot_alloc_pages [OF _ qp, where s = s2 and end_sym = end_sym and n = "of_nat (npages s1) * 8"])
      (use nf1(2) np assms(4-7) size8 in simp_all)
  have qe: "at_page nf2 qe" using nf2(3) assms(6) size8 by simp
  define s3 where "s3 = s2\<lparr>nextfree := nf2\<rparr>\<lparr>pages := (\<lambda>p. if p < npages s1 then \<lparr>pp_link = None, pp_ref = 0\<rparr> else pages s2 p)\<rparr>"
  obtain nf3 where nf3: "boot_alloc end_sym s3 (124 * of_nat NENV) = Some (nf2, s3\<lparr>nextfree := nf3\<rparr>)" "nf3 \<noteq> 0"
      "at_page nf3 (qe + pages_of (unat (124 * of_nat NENV :: u32)))"
    by (rule boot_alloc_pages [OF _ qe, where s = s3 and end_sym = end_sym and n = "124 * of_nat NENV"])
      (use nf2(2) np assms(4-7) in \<open>simp_all add: s3_def pages_of_def [of 126976]\<close>)
  show ?thesis
  proof (rule that [of nf1 nf2 "s3\<lparr>nextfree := nf3\<rparr>\<lparr>envs := (\<lambda>e. if e < NENV then zero_env else envs (s3\<lparr>nextfree := nf3\<rparr>) e)\<rparr>"])
    show "mem_init_boot cmos end_sym s = map_option (\<lambda>s'. ((nf1, nf2), s'))
        (page_init end_sym (s3\<lparr>nextfree := nf3\<rparr>\<lparr>envs := (\<lambda>e. if e < NENV then zero_env else envs (s3\<lparr>nextfree := nf3\<rparr>) e)\<rparr>))"
      unfolding mem_init_boot_def Let_def assms(3) nf1(1) bind.bind_lunit prod.case d uvpt pte s2_def [symmetric]
        np nf2(1) s3_def [symmetric] nf3(1)
      by (simp add: map_conv_bind_option comp_def)
    show "at_page nf1 qp" "at_page nf2 qe" by (rule qp, rule qe)
  qed (use nf3(2,3) s1(2) in \<open>simp_all add: s3_def s2_def pages_of_def [of 126976]\<close>)
qed

text \<open>
  With the kernel loaded above 1 MB and enough memory for the tables, the first half of \<^verbatim>\<open>mem_init\<close>
  leaves a directory ready for the second, and no page of the directory or of the two arrays is free.
\<close>

lemma mem_init_boot_ready:
  assumes "nextfree s = 0" and "unat end_sym = 4026531840 + m" and "1048576 \<le> m"
    and "i386_detect_memory cmos s = s1" and "69 \<le> npages_basemem s1" and "npages_basemem s1 \<le> 256"
    and "npages s1 \<le> 65536" and "qp = pages_of m + 1" and "qe = qp + pages_of (npages s1 * 8)" and "qe + 31 < npages s1"
  obtains pages_kva envs_kva s' ps where "mem_init_boot cmos end_sym s = Some ((pages_kva, envs_kva), s')"
    "dir_ready s' ps" "at_page pages_kva qp" "at_page envs_kva qe" "npages s' = npages s1" "env_free_list s' = env_free_list s"
    "\<And>p. p \<in> set ps \<Longrightarrow> p < pages_of m \<or> qe + 31 \<le> p"
proof -
  let ?d = "pages_of m"
  obtain pages_kva envs_kva s4 where s4:
    "mem_init_boot cmos end_sym s = map_option (\<lambda>s'. ((pages_kva, envs_kva), s')) (page_init end_sym s4)"
    "at_page pages_kva qp" "at_page envs_kva qe" "at_page (nextfree s4) (qe + 31)" "nextfree s4 \<noteq> 0"
    "npages s4 = npages s1" "npages_basemem s4 = npages_basemem s1" "kern_pgdir s4 = ?d"
    "frames s4 ?d = (\<lambda>_. 0)(957 := mk_pte ?d PTE_U)" "env_free_list s4 = env_free_list s"
    by (rule mem_init_boot_arrays [OF assms(1,2,4,7-10)])
  let ?ps = "rev (filter (\<lambda>i. \<not> page_in_use s4 (qe + 31) i) [0..<npages s4])"
  have d256: "256 \<le> ?d" using assms(3) by (simp add: pages_of_def less_eq_div_iff_mult_less_eq)
  have off: "nextfree s4 - KERNBASE = of_nat (qe + 31) * PGSIZE" using s4(4) by (simp add: at_page_def)
  have u: "unat (of_nat (qe + 31) * PGSIZE :: u32) = (qe + 31) * 4096" using assms(7,10) by (intro unat_page_addr) simp
  have ext: "unat ((nextfree s4 - KERNBASE) div PGSIZE) = qe + 31" unfolding off unat_div u by simp
  have fits: "ROUNDUP (nextfree s4) PGSIZE - KERNBASE \<le> of_nat (npages s4) * PGSIZE"
    unfolding at_page_ROUNDUP [OF s4(4)] off word_le_nat_alt u
    using unat_page_addr [of "npages s4"] s4(6) assms(7,10) by simp
  obtain s' where s': "page_init end_sym s4 = Some s'" "npages s' = npages s4" "free_list s' ?ps"
    using page_init_free_list [OF _ fits, of end_sym] s4(5,6) assms(7) unfolding ext by auto
  note fr = page_init_frame [OF s'(1)]
  have free: "p < ?d \<or> qe + 31 \<le> p" if "p \<in> set ?ps" for p
    using that d256 assms(6) s4(7) by (auto simp: page_in_use_def)
  have "dir_ready s' ?ps"
    unfolding dir_ready_def fr s4(8)
  proof (intro conjI allI impI)
    show "?d < npages s'" using s'(2) s4(6) assms(8-10) by simp
    have "\<not> (?d < ?d \<or> qe + 31 \<le> ?d)" using assms(8,9) by simp
    then show "?d \<notin> set ?ps" using free by blast
    show "67 \<le> length ?ps"
      using free_pages_after_init [of s4 "qe + 31"] s4(6,7) assms(5,8-10) d256 by simp
    show "utab s' ?d 957 = Some ?d"
      using assms(7-10) by (simp add: utab_def fr s4(9) pfn_mk_pte perm_bits_def)
  qed (use s'(3) in \<open>auto simp: utab_def fr s4(9)\<close>)
  moreover have "mem_init_boot cmos end_sym s = Some ((pages_kva, envs_kva), s')" using s4(1) s'(1) by simp
  moreover have "npages s' = npages s1" "env_free_list s' = env_free_list s" using s'(2) s4(6,10) fr(3) by simp_all
  ultimately show ?thesis using that s4(2,3) free by blast
qed

section \<open>Properties\<close>


text \<open>A machine with 640 KB of base memory and 128 MB in all, and a kernel image of 256 KB.\<close>

definition cmos_128MB :: "nat \<Rightarrow> u8" where
  "cmos_128MB r = (if r = 0x15 then 0x80 else if r = 0x16 then 2 else if r = 0x35 then 7 else 0)"

lemma detect_128MB:
  "npages (i386_detect_memory cmos_128MB zero_kernel) = 32768"
  "npages_basemem (i386_detect_memory cmos_128MB zero_kernel) = 160"
  by (simp_all add: i386_detect_memory_def cmos_128MB_def nvram_read_def Let_def unat_div)


end
