(* ===== verification/Spinlock.thy ===== *)
theory Spinlock
  imports KState
begin

text \<open>
  The big kernel lock, \<^verbatim>\<open>kern/spinlock.c\<close>, and the clock, \<^verbatim>\<open>kern/time.c\<close>.

  The lock is modelled twice. \<open>lock_kernel\<close> and \<open>unlock_kernel\<close> are the whole calls, as the rest of the
  kernel uses them. \<open>lock_step\<close> interleaves the individual memory accesses of \<^verbatim>\<open>spin_lock\<close> and
  \<^verbatim>\<open>spin_unlock\<close> on any number of processors, and mutual exclusion is proved of that relation.
\<close>

section \<open>Calls\<close>

definition holding :: "spinlock \<Rightarrow> nat \<Rightarrow> bool" where
  "holding lk cpu \<longleftrightarrow> locked lk \<and> lock_cpu lk = Some cpu"

definition spin_initlock :: "spinlock \<Rightarrow> spinlock" where
  "spin_initlock lk = lk\<lparr>locked := False, lock_cpu := None\<rparr>"

text \<open>One call when the lock is free; \<open>None\<close> when it panics, or spins because another processor holds it.\<close>

definition spin_lock :: "spinlock \<Rightarrow> nat \<Rightarrow> spinlock option" where
  "spin_lock lk cpu =
     (if holding lk cpu then None
      else if locked lk then None
      else Some (lk\<lparr>locked := True, lock_cpu := Some cpu\<rparr>))"

definition spin_unlock :: "spinlock \<Rightarrow> nat \<Rightarrow> spinlock option" where
  "spin_unlock lk cpu =
     (if \<not> holding lk cpu then None else Some (lk\<lparr>lock_cpu := None, locked := False\<rparr>))"

definition lock_kernel :: "kstate \<Rightarrow> kstate option" where
  "lock_kernel s = map_option (\<lambda>lk. s\<lparr>kernel_lock := lk\<rparr>) (spin_lock (kernel_lock s) (cpunum s))"

definition unlock_kernel :: "kstate \<Rightarrow> kstate option" where
  "unlock_kernel s = map_option (\<lambda>lk. s\<lparr>kernel_lock := lk\<rparr>) (spin_unlock (kernel_lock s) (cpunum s))"

section \<open>Interleavings\<close>

text \<open>
  Where a processor is: outside, spinning on the exchange, past the exchange but not yet recorded
  as the holder, in the critical section, or releasing (holder cleared, lock word still set).
\<close>

datatype lock_pc = Outside | Spinning | Acquired | Critical | Releasing | Panicked

record lock_sys =
  lk_word :: spinlock
  lk_pc :: "nat \<Rightarrow> lock_pc"

definition goto :: "nat \<Rightarrow> lock_pc \<Rightarrow> spinlock \<Rightarrow> lock_sys \<Rightarrow> lock_sys" where
  "goto c p lk S = S\<lparr>lk_word := lk, lk_pc := (lk_pc S)(c := p)\<rparr>"

inductive lock_step :: "lock_sys \<Rightarrow> lock_sys \<Rightarrow> bool" where
  enter: "lk_pc S c = Outside \<Longrightarrow>
    lock_step S (goto c (if holding (lk_word S) c then Panicked else Spinning) (lk_word S) S)"
| xchg_busy: "lk_pc S c = Spinning \<Longrightarrow> locked (lk_word S) \<Longrightarrow> lock_step S S"
| xchg_free: "lk_pc S c = Spinning \<Longrightarrow> \<not> locked (lk_word S) \<Longrightarrow>
    lock_step S (goto c Acquired ((lk_word S)\<lparr>locked := True\<rparr>) S)"
| record_cpu: "lk_pc S c = Acquired \<Longrightarrow>
    lock_step S (goto c Critical ((lk_word S)\<lparr>lock_cpu := Some c\<rparr>) S)"
| leave: "lk_pc S c = Critical \<Longrightarrow>
    lock_step S (if holding (lk_word S) c
                 then goto c Releasing ((lk_word S)\<lparr>lock_cpu := None\<rparr>) S
                 else goto c Panicked (lk_word S) S)"
| xchg_release: "lk_pc S c = Releasing \<Longrightarrow>
    lock_step S (goto c Outside ((lk_word S)\<lparr>locked := False\<rparr>) S)"

inductive lock_reach :: "lock_sys \<Rightarrow> bool" where
  init: "lock_reach \<lparr>lk_word = spin_initlock lk, lk_pc = (\<lambda>_. Outside)\<rparr>"
| step: "lock_reach S \<Longrightarrow> lock_step S S' \<Longrightarrow> lock_reach S'"

section \<open>The clock, kern/time.c\<close>

definition time_init :: "kstate \<Rightarrow> kstate" where
  "time_init s = s\<lparr>ticks := 0\<rparr>"

definition time_tick :: "kstate \<Rightarrow> kstate option" where
  "time_tick s =
     (let s = s\<lparr>ticks := ticks s + 1\<rparr>
      in if ticks s * 10 < ticks s then None else Some s)"

definition time_msec :: "kstate \<Rightarrow> u32" where
  "time_msec s = ticks s * 10"

fun ticks_run :: "nat \<Rightarrow> kstate \<Rightarrow> kstate option" where
  "ticks_run 0 s = Some s"
| "ticks_run (Suc n) s = Option.bind (ticks_run n s) time_tick"

section \<open>Mutual exclusion\<close>

definition owns :: "lock_pc \<Rightarrow> bool" where
  "owns p \<longleftrightarrow> p = Acquired \<or> p = Critical \<or> p = Releasing"

lemma owns_simps [simp]:
  "\<not> owns Outside" "\<not> owns Spinning" "owns Acquired" "owns Critical" "owns Releasing" "\<not> owns Panicked"
  by (simp_all add: owns_def)

text \<open>The lock word is set exactly while a processor owns the lock, and the recorded holder is in its
  critical section: this is what makes both \<^verbatim>\<open>holding\<close> checks come out as intended.\<close>

definition lock_inv :: "lock_sys \<Rightarrow> nat option \<Rightarrow> bool" where
  "lock_inv S own \<longleftrightarrow>
     (\<forall>c. lk_pc S c \<noteq> Panicked) \<and> (\<forall>c. owns (lk_pc S c) \<longleftrightarrow> own = Some c) \<and>
     (locked (lk_word S) \<longleftrightarrow> own \<noteq> None) \<and>
     (\<forall>c. lock_cpu (lk_word S) = Some c \<longleftrightarrow> lk_pc S c = Critical)"

lemma goto_simps [simp]:
  "lk_word (goto c p lk S) = lk" "lk_pc (goto c p lk S) = (lk_pc S)(c := p)"
  by (simp_all add: goto_def)

lemma lock_invD:
  assumes "lock_inv S own"
  shows "lk_pc S c \<noteq> Panicked" and "owns (lk_pc S c) \<longleftrightarrow> own = Some c"
    and "locked (lk_word S) \<longleftrightarrow> own \<noteq> None" and "lock_cpu (lk_word S) = Some c \<longleftrightarrow> lk_pc S c = Critical"
  using assms by (simp_all add: lock_inv_def)

lemma lock_inv_step:
  assumes "lock_step S S'" and "lock_inv S own"
  shows "\<exists>own'. lock_inv S' own'"
  using assms(1)
proof (cases rule: lock_step.cases)
  case (enter c)
  then have "\<not> holding (lk_word S) c"
    using lock_invD(4) [OF assms(2)] by (simp add: holding_def)
  moreover have "own \<noteq> Some c" using lock_invD(2) [OF assms(2), of c] enter by simp
  ultimately have "lock_inv S' own" using enter assms(2) by (auto simp: lock_inv_def)
  then show ?thesis ..
next
  case (xchg_free c)
  have "own = None" using lock_invD(3) [OF assms(2)] xchg_free by simp
  then have "lock_inv S' (Some c)" using xchg_free assms(2) by (auto simp: lock_inv_def)
  then show ?thesis ..
next
  case (record_cpu c)
  have "own = Some c" using lock_invD(2) [OF assms(2), of c] record_cpu by simp
  moreover have "lk_pc S d \<noteq> Critical" if "d \<noteq> c" for d
    using lock_invD(2) [OF assms(2), of d] \<open>own = Some c\<close> that by auto
  ultimately have "lock_inv S' own" using record_cpu assms(2) by (auto simp: lock_inv_def)
  then show ?thesis ..
next
  case (leave c)
  have "own = Some c" using lock_invD(2) [OF assms(2), of c] leave by simp
  moreover have "holding (lk_word S) c"
    using lock_invD(3,4) [OF assms(2)] leave calculation by (simp add: holding_def)
  moreover have "lk_pc S d \<noteq> Critical" if "d \<noteq> c" for d
    using lock_invD(2) [OF assms(2), of d] \<open>own = Some c\<close> that by auto
  ultimately have "lock_inv S' own" using leave assms(2) by (auto simp: lock_inv_def)
  then show ?thesis ..
next
  case (xchg_release c)
  have "own = Some c" using lock_invD(2) [OF assms(2), of c] xchg_release by simp
  then have "lock_inv S' None" using xchg_release assms(2) by (auto simp: lock_inv_def)
  then show ?thesis ..
qed (use assms(2) in auto)

lemma lock_inv_reach: "lock_reach S \<Longrightarrow> \<exists>own. lock_inv S own"
proof (induction rule: lock_reach.induct)
  case (init lk)
  have "lock_inv \<lparr>lk_word = spin_initlock lk, lk_pc = (\<lambda>_. Outside)\<rparr> None"
    by (simp add: lock_inv_def spin_initlock_def)
  then show ?case ..
qed (blast intro: lock_inv_step)

lemma ticks_run_spec:
  assumes "n \<le> 429496729"
  shows "ticks_run n (time_init s) = Some (s\<lparr>ticks := of_nat n\<rparr>)"
  using assms
proof (induction n)
  case 0
  then show ?case by (simp add: time_init_def)
next
  case (Suc n)
  then have "unat (of_nat (Suc n) :: u32) = Suc n" "unat (of_nat (Suc n) * 10 :: u32) = Suc n * 10"
    by (simp_all add: unat_of_nat unat_word_ariths del: of_nat_Suc)
  then have "\<not> of_nat (Suc n) * 10 < (of_nat (Suc n) :: u32)"
    by (simp add: word_less_nat_alt del: of_nat_Suc)
  with Suc show ?case by (simp add: time_tick_def add.commute)
qed

section \<open>Properties\<close>

text \<open>C12. However the memory accesses of \<^verbatim>\<open>spin_lock\<close> and \<^verbatim>\<open>spin_unlock\<close> interleave on any number of
  processors, at most one processor is between acquiring and releasing the lock, the lock's
  owner field names a processor exactly while that one is in its critical section, and neither
  ownership check panics.\<close>

theorem spinlock_mutual_exclusion:
  assumes "lock_reach S"
  shows "(owns (lk_pc S c) \<and> owns (lk_pc S d) \<longrightarrow> c = d) \<and> lk_pc S c \<noteq> Panicked \<and>
    (lock_cpu (lk_word S) = Some c \<longleftrightarrow> lk_pc S c = Critical)"
proof -
  from lock_inv_reach [OF assms] obtain own where inv: "lock_inv S own" ..
  from lock_invD(1,2,4) [OF inv, of c] lock_invD(2) [OF inv, of d] show ?thesis by auto
qed

text \<open>Processor 3 entering and taking a free lock.\<close>

definition taken_by_3 :: lock_sys where
  "taken_by_3 = \<lparr>lk_word = \<lparr>locked = True, lock_cpu = None\<rparr>, lk_pc = (\<lambda>_. Outside)(3 := Acquired)\<rparr>"

lemma taken_by_3_reach: "lock_reach taken_by_3"
proof -
  let ?lk = "\<lparr>locked = False, lock_cpu = None\<rparr>"
  have "lock_reach \<lparr>lk_word = ?lk, lk_pc = (\<lambda>_. Outside)\<rparr>"
    using lock_reach.init [of ?lk] by (simp add: spin_initlock_def)
  from lock_reach.step [OF this lock_step.enter [where c = 3]]
  have "lock_reach \<lparr>lk_word = ?lk, lk_pc = (\<lambda>_. Outside)(3 := Spinning)\<rparr>"
    by (simp add: goto_def holding_def)
  from lock_reach.step [OF this lock_step.xchg_free [where c = 3]] show ?thesis
    by (simp add: goto_def taken_by_3_def)
qed

theorem spinlock_mutual_exclusion_witness:
  "lk_pc taken_by_3 3 = Acquired \<and> \<not> owns (lk_pc taken_by_3 4) \<and> lk_pc taken_by_3 3 \<noteq> Panicked"
proof -
  have "lk_pc taken_by_3 3 = Acquired" by (simp add: taken_by_3_def)
  with spinlock_mutual_exclusion [OF taken_by_3_reach, of 3 4] show ?thesis by auto
qed

text \<open>The clock does not wrap silently: after any number of timer interrupts up to the last one
  whose time in milliseconds fits 32 bits, \<^verbatim>\<open>time_tick\<close> has not panicked and \<^verbatim>\<open>time_msec\<close> is exactly ten times the
  number of ticks; the next tick panics.\<close>

lemma time_exact_until_overflow:
  "(\<forall>n \<le> 429496729. \<exists>s'. ticks_run n (time_init s) = Some s' \<and> unat (time_msec s') = 10 * n) \<and>
    ticks_run 429496730 (time_init s) = None"
proof
  have "unat (time_msec (s\<lparr>ticks := of_nat n\<rparr>)) = 10 * n" if "n \<le> 429496729" for n
    using that by (simp add: time_msec_def unat_word_ariths unat_of_nat)
  then show "\<forall>n \<le> 429496729. \<exists>s'. ticks_run n (time_init s) = Some s' \<and> unat (time_msec s') = 10 * n"
    using ticks_run_spec [of _ s] by blast
  have "ticks_run (Suc 429496729) (time_init s) = None"
    using ticks_run_spec [of 429496729 s] by (simp only: ticks_run.simps) (simp add: time_tick_def)
  then show "ticks_run 429496730 (time_init s) = None" by simp
qed

lemma time_exact_until_overflow_example:
  "ticks_run 429496730 (time_init zero_kernel) = None"
  using time_exact_until_overflow [of zero_kernel] by blast

end
