(* ===== verification/Env.thy ===== *)
theory Env
  imports PageTable Spinlock
begin

text \<open>
  Environments (processes), \<^verbatim>\<open>kern/env.c\<close>: looking up an environment by its identifier, allocating
  and freeing environments with their address spaces, loading a program image, and switching to an
  environment. \<open>env_inv\<close> is the invariant of the environment table and its free list; together with
  \<open>vm_inv\<close> for the page directories of the live environments it is preserved by allocation and by
  freeing.
\<close>

unbundle bit_operations_syntax

abbreviation GD_KT :: u16 where "GD_KT \<equiv> 0x08"
abbreviation GD_KD :: u16 where "GD_KD \<equiv> 0x10"
abbreviation GD_UT :: u16 where "GD_UT \<equiv> 0x18"
abbreviation GD_UD :: u16 where "GD_UD \<equiv> 0x20"
abbreviation FL_IF :: u32 where "FL_IF \<equiv> 0x200"
abbreviation FL_IOPL_MASK :: u32 where "FL_IOPL_MASK \<equiv> 0x3000"
abbreviation FL_IOPL_3 :: u32 where "FL_IOPL_3 \<equiv> 0x3000"
abbreviation ENVGENSHIFT :: nat where "ENVGENSHIFT \<equiv> 12"

section \<open>Looking up and allocating environments\<close>

text \<open>The result and what is stored in \<^verbatim>\<open>*env_store\<close>; \<open>None\<close> when \<^verbatim>\<open>curenv\<close> is dereferenced while null.\<close>

definition envid2env :: "kstate \<Rightarrow> u32 \<Rightarrow> bool \<Rightarrow> (int \<times> nat option) option" where
  "envid2env s envid checkperm =
     (if envid = 0 then Some (0, curenv s)
      else let e = ENVX envid in
        if env_status (envs s e) = ENV_FREE \<or> env_id (envs s e) \<noteq> envid then Some (- E_BAD_ENV, None)
        else if checkperm \<and> Some e \<noteq> curenv s
        then do { cur \<leftarrow> curenv s;
                  if env_parent_id (envs s e) \<noteq> env_id (envs s cur) then Some (- E_BAD_ENV, None)
                  else Some (0, Some e) }
        else Some (0, Some e))"

fun env_init_loop :: "nat \<Rightarrow> kstate \<Rightarrow> kstate" where
  "env_init_loop 0 s = s"
| "env_init_loop (Suc i) s =
     env_init_loop i
       ((upd_env i (\<lambda>e. e\<lparr>env_id := 0, env_status := ENV_FREE, env_link := env_free_list s\<rparr>) s)
          \<lparr>env_free_list := Some i\<rparr>)"

definition env_init :: "kstate \<Rightarrow> kstate" where
  "env_init s = env_init_loop NENV s"

definition env_setup_vm :: "kstate \<Rightarrow> nat \<Rightarrow> (int \<times> kstate) option" where
  "env_setup_vm s e =
     do { (r, s) \<leftarrow> page_alloc s True;
          case r of
            None \<Rightarrow> Some (- E_NO_MEM, s)
          | Some p \<Rightarrow>
              do { pgdir \<leftarrow> page2kva s p;
                   let s = upd_env e (\<lambda>en. en\<lparr>env_pgdir := Some pgdir\<rparr>) s;
                   let s = page_incref s p;
                   let s = fold (\<lambda>i s. set_word pgdir i 0 s) [0..<unat (PDX UTOP)] s;
                   let s = fold (\<lambda>i s. set_word pgdir i (frames s (kern_pgdir s) i) s)
                             [unat (PDX UTOP)..<NPDENTRIES] s;
                   Some (0, set_word pgdir (unat (PDX UVPT)) (page2pa pgdir OR PTE_P OR PTE_U) s) } }"

definition new_env_id :: "u32 \<Rightarrow> nat \<Rightarrow> u32" where
  "new_env_id old e =
     (let generation = (old + push_bit ENVGENSHIFT 1) AND NOT (1024 - 1);
          generation = (if sint generation \<le> 0 then push_bit ENVGENSHIFT 1 else generation)
      in generation OR of_nat e)"

definition init_tf :: Trapframe where
  "init_tf = zero_tf\<lparr>tf_ds := GD_UD OR 3, tf_es := GD_UD OR 3, tf_ss := GD_UD OR 3,
     tf_esp := USTACKTOP, tf_cs := GD_UT OR 3, tf_eflags := tf_eflags zero_tf OR FL_IF\<rparr>"

definition env_alloc :: "kstate \<Rightarrow> u32 \<Rightarrow> ((int \<times> nat option) \<times> kstate) option" where
  "env_alloc s parent_id =
     (case env_free_list s of
        None \<Rightarrow> Some ((- E_NO_FREE_ENV, None), s)
      | Some e \<Rightarrow>
          do { (r, s) \<leftarrow> env_setup_vm s e;
               if r < 0 then Some ((r, None), s)
               else
                 let s = upd_env e (\<lambda>en. en\<lparr>env_id := new_env_id (env_id en) e,
                           env_parent_id := parent_id, env_type := ENV_TYPE_USER,
                           env_status := ENV_RUNNABLE, env_runs := 0, env_tf := init_tf,
                           env_pgfault_upcall := 0, env_ipc_recving := False\<rparr>) s
                 in Some ((0, Some e), s\<lparr>env_free_list := env_link (envs s e)\<rparr>) })"

section \<open>Loading a program\<close>

partial_function (option) region_alloc_loop ::
  "kstate \<Rightarrow> nat \<Rightarrow> u32 \<Rightarrow> u32 \<Rightarrow> kstate option" where
  "region_alloc_loop s e i end_va =
     (if i < end_va then
        do { (r, s) \<leftarrow> page_alloc s False;
             p \<leftarrow> r;
             (r, s) \<leftarrow> page_insert s (env_pgdir (envs s e)) p i (PTE_W OR PTE_U);
             if r \<noteq> 0 then None else region_alloc_loop s e (i + PGSIZE) end_va }
      else Some s)"

definition region_alloc :: "kstate \<Rightarrow> nat \<Rightarrow> u32 \<Rightarrow> u32 \<Rightarrow> kstate option" where
  "region_alloc s e va len = region_alloc_loop s e (ROUNDDOWN va PGSIZE) (ROUNDUP (va + len) PGSIZE)"

text \<open>
  Bytes of memory. Physical memory is little endian; a virtual address is translated through the
  page directory the processor has loaded, and an access the tables do not allow is a fault, which
  in the kernel is fatal (\<open>None\<close>). The kernel honours write protection (\<^verbatim>\<open>CR0_WP\<close>).
\<close>

definition page_byte :: "kstate \<Rightarrow> nat \<Rightarrow> nat \<Rightarrow> u8" where
  "page_byte s p k = ucast (drop_bit (8 * (k mod 4)) (frames s p (k div 4)))"

definition put_page_byte :: "nat \<Rightarrow> nat \<Rightarrow> u8 \<Rightarrow> kstate \<Rightarrow> kstate" where
  "put_page_byte p k b s =
     (let sh = 8 * (k mod 4)
      in set_word p (k div 4) (frames s p (k div 4) AND NOT (push_bit sh 0xFF) OR push_bit sh (ucast b)) s)"

definition translate :: "kstate \<Rightarrow> u32 \<Rightarrow> bool \<Rightarrow> (nat \<times> nat) option" where
  "translate s va write =
     (let pde = frames s (cpu_cr3 (cpus s (cpunum s))) (unat (PDX va)) in
      if \<not> present pde \<or> write \<and> pde AND PTE_W = 0 then None
      else let pte = frames s (pfn pde) (unat (PTX va)) in
        if \<not> present pte \<or> write \<and> pte AND PTE_W = 0 then None
        else Some (pfn pte, unat (PGOFF va)))"

definition store_byte :: "kstate \<Rightarrow> u32 \<Rightarrow> u8 \<Rightarrow> kstate option" where
  "store_byte s va b = do { (p, k) \<leftarrow> translate s va True; Some (put_page_byte p k b s) }"

fun store_bytes :: "kstate \<Rightarrow> u32 \<Rightarrow> u8 list \<Rightarrow> kstate option" where
  "store_bytes s va [] = Some s"
| "store_bytes s va (b # bs) = do { s \<leftarrow> store_byte s va b; store_bytes s (va + 1) bs }"

text \<open>The program image is a sequence of bytes; header fields are read at their offsets.\<close>

definition rd16 :: "(nat \<Rightarrow> u8) \<Rightarrow> nat \<Rightarrow> u16" where
  "rd16 bin k = ucast (bin k) OR push_bit 8 (ucast (bin (k + 1)))"

definition rd32 :: "(nat \<Rightarrow> u8) \<Rightarrow> nat \<Rightarrow> u32" where
  "rd32 bin k = ucast (bin k) OR push_bit 8 (ucast (bin (k + 1)))
     OR push_bit 16 (ucast (bin (k + 2))) OR push_bit 24 (ucast (bin (k + 3)))"

record Elf =
  e_magic :: u32
  e_entry :: u32
  e_phoff :: u32
  e_phnum :: u16

record Proghdr =
  p_type :: u32
  p_offset :: u32
  p_va :: u32
  p_filesz :: u32
  p_memsz :: u32

definition elf_header :: "(nat \<Rightarrow> u8) \<Rightarrow> Elf" where
  "elf_header bin = \<lparr>e_magic = rd32 bin 0, e_entry = rd32 bin 24, e_phoff = rd32 bin 28,
     e_phnum = rd16 bin 44\<rparr>"

definition prog_header :: "(nat \<Rightarrow> u8) \<Rightarrow> nat \<Rightarrow> Proghdr" where
  "prog_header bin off = \<lparr>p_type = rd32 bin off, p_offset = rd32 bin (off + 4),
     p_va = rd32 bin (off + 8), p_filesz = rd32 bin (off + 16), p_memsz = rd32 bin (off + 20)\<rparr>"

abbreviation ELF_MAGIC :: u32 where "ELF_MAGIC \<equiv> 0x464C457F"
abbreviation ELF_PROG_LOAD :: u32 where "ELF_PROG_LOAD \<equiv> 1"

fun load_segments :: "kstate \<Rightarrow> nat \<Rightarrow> (nat \<Rightarrow> u8) \<Rightarrow> Proghdr list \<Rightarrow> kstate option" where
  "load_segments s e bin [] = Some s"
| "load_segments s e bin (ph # phs) =
     (if p_type ph = ELF_PROG_LOAD then
        if p_memsz ph - p_filesz ph < 0 then None
        else do { s \<leftarrow> region_alloc s e (p_va ph) (p_memsz ph);
                  s \<leftarrow> store_bytes s (p_va ph)
                        (map (\<lambda>k. bin (unat (p_offset ph) + k)) [0..<unat (p_filesz ph)]);
                  s \<leftarrow> store_bytes s (p_va ph + p_filesz ph)
                        (replicate (unat (p_memsz ph - p_filesz ph)) 0);
                  load_segments s e bin phs }
      else load_segments s e bin phs)"

definition lcr3 :: "nat option \<Rightarrow> kstate \<Rightarrow> kstate option" where
  "lcr3 pgdir s = map_option (\<lambda>pd. upd_cpu (\<lambda>c. c\<lparr>cpu_cr3 := pd\<rparr>) s) pgdir"

definition load_icode :: "kstate \<Rightarrow> nat \<Rightarrow> (nat \<Rightarrow> u8) \<Rightarrow> kstate option" where
  "load_icode s e bin =
     (let header = elf_header bin in
      if e_magic header \<noteq> ELF_MAGIC then None
      else if e_entry header = 0 then None
      else do { let s = upd_env e (\<lambda>en. en\<lparr>env_tf := (env_tf en)\<lparr>tf_eip := e_entry header\<rparr>\<rparr>) s;
                s \<leftarrow> lcr3 (env_pgdir (envs s e)) s;
                s \<leftarrow> load_segments s e bin
                      (map (\<lambda>k. prog_header bin (unat (e_phoff header) + 32 * k))
                        [0..<unat (e_phnum header)]);
                region_alloc s e (USTACKTOP - PGSIZE) PGSIZE })"

definition env_create :: "kstate \<Rightarrow> (nat \<Rightarrow> u8) \<Rightarrow> EnvType \<Rightarrow> kstate option" where
  "env_create s bin type =
     do { ((rc, r), s) \<leftarrow> env_alloc s 0;
          if rc \<noteq> 0 then None
          else do { e \<leftarrow> r;
                    s \<leftarrow> load_icode s e bin;
                    let s = upd_env e (\<lambda>en. en\<lparr>env_type := type\<rparr>) s;
                    Some (if type = ENV_TYPE_FS
                          then upd_env e (\<lambda>en. en\<lparr>env_tf := (env_tf en)
                                 \<lparr>tf_eflags := tf_eflags (env_tf en) OR FL_IOPL_MASK\<rparr>\<rparr>) s
                          else s) } }"

section \<open>Freeing and running environments\<close>

fun free_ptes :: "kstate \<Rightarrow> nat \<Rightarrow> nat \<Rightarrow> nat \<Rightarrow> nat list \<Rightarrow> kstate option" where
  "free_ptes s pgdir pt pdeno [] = Some s"
| "free_ptes s pgdir pt pdeno (pteno # ns) =
     do { s \<leftarrow> (if present (frames s pt pteno)
               then page_remove s (Some pgdir) (PGADDR (of_nat pdeno) (of_nat pteno) 0)
               else Some s);
          free_ptes s pgdir pt pdeno ns }"

fun free_pdes :: "kstate \<Rightarrow> nat \<Rightarrow> nat list \<Rightarrow> kstate option" where
  "free_pdes s pgdir [] = Some s"
| "free_pdes s pgdir (pdeno # ns) =
     (if \<not> present (frames s pgdir pdeno) then free_pdes s pgdir ns
      else do { let pa = PTE_ADDR (frames s pgdir pdeno);
                pt \<leftarrow> kpage s pa;
                s \<leftarrow> free_ptes s pgdir pt pdeno [0..<NPTENTRIES];
                let s = set_word pgdir pdeno 0 s;
                p \<leftarrow> pa2page s pa;
                s \<leftarrow> page_decref s p;
                free_pdes s pgdir ns })"

definition env_free :: "kstate \<Rightarrow> nat \<Rightarrow> kstate option" where
  "env_free s e =
     do { s \<leftarrow> (if Some e = curenv s then lcr3 (Some (kern_pgdir s)) s else Some s);
          pgdir \<leftarrow> env_pgdir (envs s e);
          s \<leftarrow> free_pdes s pgdir [0..<unat (PDX UTOP)];
          let pa = page2pa pgdir;
          let s = upd_env e (\<lambda>en. en\<lparr>env_pgdir := None\<rparr>) s;
          p \<leftarrow> pa2page s pa;
          s \<leftarrow> page_decref s p;
          let s = upd_env e (\<lambda>en. en\<lparr>env_status := ENV_FREE, env_link := env_free_list s\<rparr>) s;
          Some (s\<lparr>env_free_list := Some e\<rparr>) }"

definition env_pop_tf :: "kstate \<Rightarrow> nat \<Rightarrow> unit outcome" where
  "env_pop_tf s e = Leave (upd_env e (\<lambda>en. en\<lparr>env_cpunum := cpunum s\<rparr>) s)"

definition env_run :: "kstate \<Rightarrow> nat \<Rightarrow> unit outcome" where
  "env_run s e =
     (let s = (case curenv s of
                 None \<Rightarrow> s
               | Some c \<Rightarrow> if env_status (envs s c) = ENV_RUNNING
                           then upd_env c (\<lambda>en. en\<lparr>env_status := ENV_RUNNABLE\<rparr>) s else s);
          s = upd_cpu (\<lambda>c. c\<lparr>cpu_env := Some e\<rparr>) s;
          s = upd_env e (\<lambda>en. en\<lparr>env_status := ENV_RUNNING, env_runs := env_runs en + 1\<rparr>) s
      in case lcr3 (env_pgdir (envs s e)) s of
           None \<Rightarrow> Panic
         | Some s \<Rightarrow> (case unlock_kernel s of None \<Rightarrow> Panic | Some s \<Rightarrow> env_pop_tf s e))"

section \<open>Identifiers\<close>

lemma ENVX_mask: "(1024 - 1 :: u32) = mask 10"
  by (simp add: mask_eq_exp_minus_1)

lemma unat_clear_index: "unat (x AND NOT (1024 - 1 :: u32)) = unat x div 1024 * 1024"
  unfolding ENVX_mask by (simp add: unat_clear_low)

lemma unat_add_index:
  assumes "unat g mod 1024 = 0" and "e < 1024"
  shows "unat (g OR of_nat e :: u32) = unat g + e"
proof -
  have e: "unat (of_nat e :: u32) = e" using assms(2) by (simp add: unat_of_nat)
  have "unat (take_bit 10 g) = 0" using assms(1) by (simp add: take_bit_eq_mod unat_mod)
  then have "take_bit 10 g = 0" by (simp add: unat_eq_zero)
  then have lo: "\<not> bit g k" if "k < 10" for k using that by (metis bit_0_eq bit_take_bit_iff bot_apply bot_bool_def)
  have "g AND of_nat e = 0"
  proof (rule bit_word_eqI)
    fix k :: nat
    show "bit (g AND of_nat e) k \<longleftrightarrow> bit (0 :: u32) k"
      using lo [of k] small_bits [of "of_nat e :: u32" 10 k] e assms(2) by (auto simp: bit_and_iff)
  qed
  then have sum: "g OR of_nat e = g + of_nat e"
    using word_plus_and_or [of g "of_nat e"] by simp
  obtain k where k: "unat g = 1024 * k" using assms(1) by (auto simp: mod_eq_0_iff_dvd elim!: dvdE)
  have "unat g < 1024 * 4194304" using unsigned_less [of g, where 'a = nat] by simp
  then have "k < 4194304" using k by simp
  then have "unat g + unat (of_nat e :: u32) < 2 ^ LENGTH(32)"
    using k e assms(2) by simp
  then show ?thesis unfolding sum using e by (simp add: unat_add_lem [THEN iffD1])
qed

lemma sint_large:
  assumes "2 ^ 31 \<le> unat (x :: u32)"
  shows "sint x < 0"
proof -
  have "unat x div 2 ^ 31 = 1"
    using assms unsigned_less [of x, where 'a = nat] by (intro div_nat_eqI) simp_all
  then have "bit (unat x) 31" by (simp add: bit_iff_odd)
  then have "bit x 31" by (simp add: bit_unsigned_iff)
  then show ?thesis by (simp add: sint_uint bit_uint_iff)
qed

lemma new_env_id_spec:
  assumes "e < NENV" and "0 \<le> sint old"
  shows "ENVX (new_env_id old e) = e" and "0 < sint (new_env_id old e)" and "new_env_id old e \<noteq> old"
proof -
  define g where "g = (old + push_bit ENVGENSHIFT 1) AND NOT (1024 - 1)"
  define g' where "g' = (if sint g \<le> 0 then push_bit ENVGENSHIFT 1 else g)"
  have id: "new_env_id old e = g' OR of_nat e"
    by (simp add: new_env_id_def g_def g'_def Let_def)
  have old: "unat old < 2 ^ 31" using assms(2) sint_large [of old] by (meson leD not_le)
  then have g: "unat g = (unat old + 4096) div 1024 * 1024"
    unfolding g_def by (subst unat_clear_index) (simp add: unat_word_ariths)
  have g': "unat g' mod 1024 = 0" "unat g' < 2 ^ 31 - 1023" "0 < unat g'" "unat g' + e \<noteq> unat old"
  proof -
    have "unat g' = (if unat g < 2 ^ 31 then unat g else 4096)"
    proof (cases "unat g < 2 ^ 31")
      case True
      then show ?thesis using sint_small [of g] g by (simp add: g'_def div_greater_zero_iff)
    next
      case False
      then show ?thesis using sint_large [of g] by (simp add: g'_def)
    qed
    moreover have "unat g + 1024 \<le> 2 ^ 31" if "unat g < 2 ^ 31"
      by (rule multiple_gap [OF _ _ that]) (simp_all add: g)
    moreover have "unat old + 3072 < unat g" "unat g \<le> unat old + 4096"
      using g div_mult_mod_eq [of "unat old + 4096" 1024] mod_less_divisor [of 1024 "unat old + 4096"]
      by linarith+
    ultimately show "unat g' mod 1024 = 0" "unat g' < 2 ^ 31 - 1023" "0 < unat g'" "unat g' + e \<noteq> unat old"
      using assms(1) g by (auto split: if_splits)
  qed
  have new: "unat (new_env_id old e) = unat g' + e"
    unfolding id using g'(1) assms(1) by (rule unat_add_index)
  have "unat (new_env_id old e) mod 1024 = e"
    unfolding new using g'(1) assms(1) by (metis mod_add_left_eq mod_less add_0)
  then show "ENVX (new_env_id old e) = e" by (simp add: unat_ENVX)
  have "unat (new_env_id old e) < 2 ^ 31" "0 < unat (new_env_id old e)"
    using new g' assms(1) by simp_all
  then show "0 < sint (new_env_id old e)" by (metis sint_small of_nat_0_less_iff)
  show "new_env_id old e \<noteq> old" using new g'(4) by auto
qed

section \<open>The environment table\<close>

definition live :: "kstate \<Rightarrow> nat set" where
  "live s = {e. e < NENV \<and> env_status (envs s e) \<noteq> ENV_FREE}"

definition dirs :: "kstate \<Rightarrow> nat set" where
  "dirs s = {d. \<exists>e \<in> live s. env_pgdir (envs s e) = Some d}"

definition id_ok :: "nat \<Rightarrow> u32 \<Rightarrow> bool" where
  "id_ok e i \<longleftrightarrow> 0 \<le> sint i \<and> (i \<noteq> 0 \<longrightarrow> ENVX i = e)"

text \<open>
  The free list \<open>fs\<close> holds exactly the free slots; every live environment has a page directory of
  its own and a positive identifier that encodes its slot.
\<close>

definition env_inv :: "kstate \<Rightarrow> nat list \<Rightarrow> bool" where
  "env_inv s fs \<longleftrightarrow>
     chain (env_next s) (env_free_list s) fs \<and> set fs = {..<NENV} - live s \<and>
     (\<forall>e \<in> live s. \<exists>d. env_pgdir (envs s e) = Some d) \<and>
     (\<forall>e \<in> live s. \<forall>e' \<in> live s. env_pgdir (envs s e) = env_pgdir (envs s e') \<longrightarrow> e = e') \<and>
     (\<forall>e < NENV. id_ok e (env_id (envs s e))) \<and> (\<forall>e \<in> live s. env_id (envs s e) \<noteq> 0)"

definition kernel_inv :: "kstate \<Rightarrow> bool" where
  "kernel_inv s \<longleftrightarrow> (\<exists>fs ps. env_inv s fs \<and> vm_inv (dirs s) s ps)"

lemma live_cong: "envs s' = envs s \<Longrightarrow> live s' = live s"
  by (simp add: live_def)

lemma dirs_cong: "envs s' = envs s \<Longrightarrow> dirs s' = dirs s"
  by (simp add: dirs_def live_def)

lemma env_inv_cong:
  "envs s' = envs s \<Longrightarrow> env_free_list s' = env_free_list s \<Longrightarrow> env_inv s' fs = env_inv s fs"
  by (simp add: env_inv_def live_def)

lemma env_init_loop_spec:
  assumes "chain (env_next s) (env_free_list s) fs" and "set fs \<subseteq> {n..}"
  shows "chain (env_next (env_init_loop n s)) (env_free_list (env_init_loop n s)) ([0..<n] @ fs) \<and>
    (\<forall>e. env_id (envs (env_init_loop n s) e) = (if e < n then 0 else env_id (envs s e))) \<and>
    (\<forall>e. env_status (envs (env_init_loop n s) e) = (if e < n then ENV_FREE else env_status (envs s e)))"
  using assms
proof (induction n arbitrary: s fs)
  case 0
  then show ?case by simp
next
  case (Suc i)
  let ?s = "(upd_env i (\<lambda>e. e\<lparr>env_id := 0, env_status := ENV_FREE, env_link := env_free_list s\<rparr>) s)
      \<lparr>env_free_list := Some i\<rparr>"
  have nxt: "env_next ?s = (env_next s)(i := env_free_list s)" by auto
  have "i \<notin> set fs" using Suc.prems(2) by auto
  then have "chain (env_next ?s) (env_free_list ?s) (i # fs)"
    unfolding nxt using chain_push [OF Suc.prems(1)] by simp
  moreover have "set (i # fs) \<subseteq> {i..}" using Suc.prems(2) by auto
  ultimately show ?case using Suc.IH [of ?s "i # fs"] by auto
qed

lemma env_init_inv:
  assumes "env_free_list s = None"
  shows "env_inv (env_init s) [0..<NENV]" and "dirs (env_init s) = {}" and "live (env_init s) = {}"
proof -
  have "chain (env_next s) (env_free_list s) []" using assms by simp
  note e = env_init_loop_spec [OF this, of NENV]
  then show "live (env_init s) = {}"
    by (simp add: live_def env_init_def)
  with e show "env_inv (env_init s) [0..<NENV]" "dirs (env_init s) = {}"
    by (auto simp: env_inv_def env_init_def id_ok_def dirs_def)
qed

section \<open>Allocating an environment\<close>

lemma fold_zero:
  "fold (\<lambda>i s. set_word p i 0 s) is s =
    s\<lparr>frames := (frames s)(p := (\<lambda>i. if i \<in> set is then 0 else frames s p i))\<rparr>"
  by (induction "is" arbitrary: s) (auto simp: set_word_def fun_eq_iff)

lemma fold_copy:
  "\<exists>row. fold (\<lambda>i s. set_word p i (frames s (kern_pgdir s) i) s) is s = s\<lparr>frames := (frames s)(p := row)\<rparr> \<and>
    (\<forall>i. i \<notin> set is \<longrightarrow> row i = frames s p i) \<and>
    (kern_pgdir s \<noteq> p \<longrightarrow> (\<forall>i \<in> set is. row i = frames s (kern_pgdir s) i))"
proof (induction "is" arbitrary: s)
  case Nil
  show ?case by (intro exI [of _ "frames s p"]) simp
next
  case (Cons k ks)
  let ?s = "set_word p k (frames s (kern_pgdir s) k) s"
  from Cons [of ?s] obtain row where
    row: "fold (\<lambda>i s. set_word p i (frames s (kern_pgdir s) i) s) ks ?s = ?s\<lparr>frames := (frames ?s)(p := row)\<rparr>"
      "\<forall>i. i \<notin> set ks \<longrightarrow> row i = frames ?s p i"
      "kern_pgdir ?s \<noteq> p \<longrightarrow> (\<forall>i \<in> set ks. row i = frames ?s (kern_pgdir ?s) i)"
    by blast
  have "fold (\<lambda>i s. set_word p i (frames s (kern_pgdir s) i) s) (k # ks) s = s\<lparr>frames := (frames s)(p := row)\<rparr>"
    using row(1) by (simp add: set_word_def)
  moreover have "row i = frames s p i" if "i \<notin> set (k # ks)" for i using row(2) that by simp
  moreover have "row i = frames s (kern_pgdir s) i" if "kern_pgdir s \<noteq> p" "i \<in> set (k # ks)" for i
    using row(2,3) that by (cases "i \<in> set ks") auto
  ultimately show ?case by (intro exI [of _ row]) blast
qed

lemma UVPT_index: "unat (PDX UVPT) = 957" "unat (PDX UTOP) = NUPD" "NUPD = 955"
  by (simp_all add: unat_PDX layout_values NUPD_value)

lemma env_setup_vm_spec:
  assumes "vm_inv D s ps"
  shows "ps = [] \<and> env_setup_vm s e = Some (- E_NO_MEM, s) \<or>
    (\<exists>p qs s'. ps = p # qs \<and> env_setup_vm s e = Some (0, s') \<and> p \<notin> D \<and>
      vm_inv (insert p D) s' qs \<and> umap (insert p D) s' = umap D s \<and>
      envs s' = (envs s)(e := (envs s e)\<lparr>env_pgdir := Some p\<rparr>) \<and> env_free_list s' = env_free_list s \<and>
      curenv s' = curenv s \<and> cpus s' = cpus s \<and> cpunum s' = cpunum s \<and> kern_pgdir s' = kern_pgdir s \<and>
      kernel_lock s' = kernel_lock s \<and> frames s' p 957 = mk_pte p PTE_U \<and>
      (kern_pgdir s \<noteq> p \<longrightarrow>
        (\<forall>i. NUPD \<le> i \<and> i < NPDENTRIES \<and> i \<noteq> 957 \<longrightarrow> frames s' p i = frames s (kern_pgdir s) i)) \<and>
      (\<forall>q. q \<noteq> p \<longrightarrow> frames s' q = frames s q) \<and> (\<forall>i < NUPD. utab s' p i = None))"
proof (cases ps)
  case Nil
  then have "page_alloc s True = Some (None, s)"
    using page_alloc_Nil vm_countsD(2) [OF vm_invD(1) [OF assms]] by blast
  then show ?thesis using Nil by (simp add: env_setup_vm_def)
next
  case (Cons p qs)
  have fl: "free_list s (p # qs)" using vm_countsD(2) [OF vm_invD(1) [OF assms]] Cons by simp
  obtain s1 where s1: "page_alloc s True = Some (Some p, s1)"
    using page_alloc_Cons [OF fl, of True] by auto
  note a = free_list_alloc [OF fl s1] page_alloc_frame [OF s1]
  have p: "p < npages s" "npages s \<le> 65536" "p \<notin> set qs"
    using fl free_list_distinct [OF fl] by (auto simp: free_list_def)
  have kva: "page2kva s1 p = Some p"
    using p a by (simp add: page2kva_def kpage_eq PGNUM_page2pa)
  define s2 where "s2 = page_incref (upd_env e (\<lambda>en. en\<lparr>env_pgdir := Some p\<rparr>) s1) p"
  define s3 where "s3 = s2\<lparr>frames := (frames s2)(p := (\<lambda>i. if i < NUPD then 0 else frames s2 p i))\<rparr>"
  obtain row where
    row: "fold (\<lambda>i s. set_word p i (frames s (kern_pgdir s) i) s) [NUPD..<NPDENTRIES] s3 =
        s3\<lparr>frames := (frames s3)(p := row)\<rparr>"
      "\<forall>i. i \<notin> set [NUPD..<NPDENTRIES] \<longrightarrow> row i = frames s3 p i"
      "kern_pgdir s3 \<noteq> p \<longrightarrow> (\<forall>i \<in> set [NUPD..<NPDENTRIES]. row i = frames s3 (kern_pgdir s3) i)"
    using fold_copy by blast
  define s' where "s' = set_word p 957 (mk_pte p PTE_U) (s3\<lparr>frames := (frames s3)(p := row)\<rparr>)"
  have pte: "page2pa p OR PTE_P OR PTE_U = mk_pte p PTE_U"
    by (simp add: page2pa_def mk_pte_def or.assoc)
  have zero: "fold (\<lambda>i s. set_word p i 0 s) [0..<NUPD] s2 = s3"
    by (simp add: fold_zero s3_def)
  have op: "env_setup_vm s e = Some (0, s')"
    unfolding env_setup_vm_def s1 UVPT_index(1,2)
    by (simp add: kva Let_def s2_def [symmetric] zero row(1) s'_def pte [simplified])
  have s'_simps [simp]: "pages s' = pages s2" "npages s' = npages s" "page_free_list s' = page_free_list s1"
    "kern_pgdir s' = kern_pgdir s" "envs s' = (envs s)(e := (envs s e)\<lparr>env_pgdir := Some p\<rparr>)"
    "env_free_list s' = env_free_list s" "cpus s' = cpus s" "cpunum s' = cpunum s"
    "kernel_lock s' = kernel_lock s" "curenv s' = curenv s"
    "frames s' = (frames s1)(p := row(957 := mk_pte p PTE_U))"
    using a by (simp_all add: s'_def s3_def s2_def page_incref_def curenv_def)
  have nxt: "free_next s' = free_next s1" by (auto simp: s2_def page_incref_def)
  have fl': "free_list s' qs"
    unfolding free_list_def nxt using a(2) p(3) page_alloc_frame(1) [OF s1]
    by (simp add: free_list_def s2_def page_incref_def)
  have own: "owned s' qs p"
    using p a by (simp add: owned_def s2_def page_incref_def)
  have low: "\<not> present (frames s' p i)" if "i < NUPD" for i
    using that row(2) by (simp add: UVPT_index s3_def)
  have inv: "vm_inv (insert p D) s' qs" "umap (insert p D) s' = umap D s" "p \<notin> D"
    using new_dir [OF _ _ low _ own fl', of D s] assms Cons a by (auto simp: s2_def page_incref_def)
  have hi: "frames s' p i = frames s (kern_pgdir s) i"
    if "kern_pgdir s \<noteq> p" "NUPD \<le> i \<and> i < NPDENTRIES \<and> i \<noteq> 957" for i
    using that row(3) a by (simp add: s3_def s2_def page_incref_def)
  show ?thesis
    using Cons op inv hi a low by (intro disjI2 exI [of _ p] exI [of _ qs] exI [of _ s']) (simp add: utab_def)
qed

lemma dirs_finite: "finite (live s)"
  by (simp add: live_def)

lemma env_alloc_spec:
  assumes "env_inv s fs" and "vm_inv (dirs s) s ps"
  obtains (no_env) "fs = []" "env_alloc s parent = Some ((- E_NO_FREE_ENV, None), s)"
  | (no_mem) "ps = []" "env_alloc s parent = Some ((- E_NO_MEM, None), s)"
  | (ok) e gs d qs s' where "fs = e # gs" "ps = d # qs" "env_alloc s parent = Some ((0, Some e), s')"
      "env_inv s' gs" "vm_inv (dirs s') s' qs" "live s' = insert e (live s)" "e < NENV"
      "dirs s' = insert d (dirs s)" "umap (dirs s') s' = umap (dirs s) s"
      "env_id (envs s' e) = new_env_id (env_id (envs s e)) e" "env_parent_id (envs s' e) = parent"
      "env_status (envs s' e) = ENV_RUNNABLE" "env_tf (envs s' e) = init_tf"
      "\<And>e'. e' \<noteq> e \<Longrightarrow> envs s' e' = envs s e'" "curenv s' = curenv s" "cpus s' = cpus s"
      "cpunum s' = cpunum s" "env_pgdir (envs s' e) = Some d" "d \<notin> dirs s" "e \<notin> live s"
      "\<And>q. q \<noteq> d \<Longrightarrow> frames s' q = frames s q" "\<And>i. i < NUPD \<Longrightarrow> utab s' d i = None"
      "frames s' d 957 = mk_pte d PTE_U"
proof -
  note inv = assms(1) [unfolded env_inv_def]
  show ?thesis
  proof (cases fs)
    case Nil
    then show ?thesis using inv by (intro no_env) (simp_all add: env_alloc_def)
  next
    case (Cons e gs)
    then have hd: "env_free_list s = Some e" and e: "e < NENV" "e \<notin> live s"
      and ch: "chain (env_next s) (env_next s e) gs" and gs: "e \<notin> set gs"
      using inv chain_distinct [of "env_next s" "env_free_list s" fs] by auto
    from env_setup_vm_spec [OF assms(2), of e] show ?thesis
    proof (elim disjE exE conjE)
      assume "ps = []" "env_setup_vm s e = Some (- E_NO_MEM, s)"
      then show ?thesis using hd by (intro no_mem) (simp_all add: env_alloc_def)
    next
      fix d qs s1
      assume s1: "ps = d # qs" "env_setup_vm s e = Some (0, s1)" "d \<notin> dirs s"
        "vm_inv (insert d (dirs s)) s1 qs" "umap (insert d (dirs s)) s1 = umap (dirs s) s"
        "envs s1 = (envs s)(e := (envs s e)\<lparr>env_pgdir := Some d\<rparr>)" "env_free_list s1 = env_free_list s"
        "curenv s1 = curenv s" "cpus s1 = cpus s" "cpunum s1 = cpunum s" "frames s1 d 957 = mk_pte d PTE_U"
        "\<forall>q. q \<noteq> d \<longrightarrow> frames s1 q = frames s q" "\<forall>i < NUPD. utab s1 d i = None"
      let ?f = "\<lambda>en. en\<lparr>env_id := new_env_id (env_id en) e,
                           env_parent_id := parent, env_type := ENV_TYPE_USER,
                           env_status := ENV_RUNNABLE, env_runs := 0, env_tf := init_tf,
                           env_pgfault_upcall := 0, env_ipc_recving := False\<rparr>"
      let ?s' = "(upd_env e ?f s1)\<lparr>env_free_list := env_link (envs s e)\<rparr>"
      have op: "env_alloc s parent = Some ((0, Some e), ?s')"
        using hd s1 by (simp add: env_alloc_def)
      have envs': "envs ?s' = (envs s)(e := ?f ((envs s e)\<lparr>env_pgdir := Some d\<rparr>))" using s1(6) by simp
      have live': "live ?s' = insert e (live s)" using e(1) envs' by (auto simp: live_def)
      have dirs': "dirs ?s' = insert d (dirs s)" using e(2) envs' by (auto simp: dirs_def live')
      have id: "id_ok e (new_env_id (env_id (envs s e)) e)" "new_env_id (env_id (envs s e)) e \<noteq> 0"
        using new_env_id_spec [OF e(1), of "env_id (envs s e)"] inv e(1) by (auto simp: id_ok_def)
      have "chain (env_next ?s') (env_free_list ?s') gs"
      proof -
        have "env_next ?s' x = env_next s x" for x using envs' by simp
        then show ?thesis using ch by simp
      qed
      moreover have "set gs = {..<NENV} - live ?s'" using inv Cons gs live' by auto
      moreover have "\<forall>x \<in> live ?s'. \<exists>d. env_pgdir (envs ?s' x) = Some d" using inv envs' live' by auto
      moreover have "env_pgdir (envs s x) \<noteq> Some d" if "x \<in> live s" for x
        using s1(3) that by (auto simp: dirs_def)
      then have "\<forall>x \<in> live ?s'. \<forall>y \<in> live ?s'. env_pgdir (envs ?s' x) = env_pgdir (envs ?s' y) \<longrightarrow> x = y"
        using inv e(2) unfolding live' envs' by (auto dest: sym)
      moreover have "\<forall>x < NENV. id_ok x (env_id (envs ?s' x))" using inv id envs' by auto
      moreover have "\<forall>x \<in> live ?s'. env_id (envs ?s' x) \<noteq> 0" using inv id envs' live' by auto
      ultimately have "env_inv ?s' gs" unfolding env_inv_def by blast
      moreover have "vm_inv (dirs ?s') ?s' qs" "umap (dirs ?s') ?s' = umap (dirs s) s"
        unfolding dirs' using s1(4,5) vm_inv_cong [of ?s' s1] frames_cong(3) [of ?s' s1] by simp_all
      ultimately show ?thesis
        using s1 live' dirs' envs' e Cons
        by (intro ok [OF Cons s1(1) op]) (simp_all add: curenv_def frames_cong(1) [of ?s' s1])
    qed
  qed
qed

section \<open>Freeing an environment\<close>

lemma PGADDR_index:
  assumes "i < 1024" and "j < 1024"
  shows "unat (PDX (PGADDR (of_nat i) (of_nat j) 0)) = i" "unat (PTX (PGADDR (of_nat i) (of_nat j) 0)) = j"
proof -
  have "unat (of_nat i :: u32) = i" "unat (of_nat j :: u32) = j"
    using assms by (simp_all add: unat_of_nat)
  then show "unat (PDX (PGADDR (of_nat i) (of_nat j) 0)) = i" "unat (PTX (PGADDR (of_nat i) (of_nat j) 0)) = j"
    using PDX_PGADDR [of "of_nat i" "of_nat j" 0] assms by simp_all
qed

lemma free_ptes_spec:
  assumes "vm_inv D s ps" and "d \<in> D" and "i < NUPD" and "utab s d i = Some pt" and "\<forall>j \<in> set js. j < NPTENTRIES"
  shows "\<exists>s' ps'. free_ptes s d pt i js = Some s' \<and> vm_inv D s' ps' \<and> mem_frame s s' \<and>
    utab s' d = utab s d \<and>
    umap D s' = (\<lambda>(d', i', j). if d' = d \<and> i' = i \<and> j \<in> set js then None else umap D s (d', i', j))"
  using assms(1,4,5)
proof (induction js arbitrary: s ps)
  case Nil
  then show ?case by (auto simp: fun_eq_iff)
next
  case (Cons j js)
  let ?va = "PGADDR (of_nat i) (of_nat j) 0"
  have idx: "slot d ?va = (d, i, j)" "?va < UTOP"
    using PGADDR_index [of i j] assms(3) Cons.prems(3) by (simp_all add: below_UTOP NUPD_value)
  have entry: "umap D s (d, i, j) = (if present (frames s pt j) then Some (frames s pt j) else None)"
    using assms(2,3) Cons.prems(2,3) by (simp add: umap_def)
  obtain s1 qs where s1: "(if present (frames s pt j) then page_remove s (Some d) ?va else Some s) = Some s1"
      "vm_inv D s1 qs" "mem_frame s s1" "utab s1 d = utab s d" "umap D s1 = (umap D s)((d, i, j) := None)"
  proof (cases "present (frames s pt j)")
    case True
    from page_remove_refines [OF Cons.prems(1) assms(2) idx(2)] show ?thesis
      unfolding idx(1) using True that by auto
  next
    case False
    then have "umap D s = (umap D s)((d, i, j) := None)" using entry by (simp add: fun_upd_idem)
    with False Cons.prems(1) that show ?thesis by auto
  qed
  have "utab s1 d i = Some pt" using s1(4) Cons.prems(2) by simp
  from Cons.IH [OF s1(2) this] Cons.prems(3) obtain s' ps' where
    s': "free_ptes s1 d pt i js = Some s'" "vm_inv D s' ps'" "mem_frame s1 s'" "utab s' d = utab s1 d"
      "umap D s' = (\<lambda>(d', i', j). if d' = d \<and> i' = i \<and> j \<in> set js then None else umap D s1 (d', i', j))"
    by auto
  have "umap D s' = (\<lambda>(d', i', k). if d' = d \<and> i' = i \<and> k \<in> set (j # js) then None else umap D s (d', i', k))"
    unfolding s'(5) s1(5) by (auto simp: fun_eq_iff)
  moreover have "free_ptes s d pt i (j # js) = Some s'" using s1(1) s'(1) by simp
  moreover have "mem_frame s s'" using s1(3) s'(3) by (rule mem_frame_trans)
  ultimately show ?case using s'(2,4) s1(4) by auto
qed

lemma free_pdes_spec:
  assumes "vm_inv D s ps" and "d \<in> D" and "\<forall>i \<in> set is. i < NUPD"
  shows "\<exists>s' ps'. free_pdes s d is = Some s' \<and> vm_inv D s' ps' \<and> mem_frame s s' \<and>
    (\<forall>i. utab s' d i = (if i \<in> set is then None else utab s d i)) \<and>
    umap D s' = (\<lambda>(d', i', j). if d' = d \<and> i' \<in> set is then None else umap D s (d', i', j))"
  using assms(1,3)
proof (induction "is" arbitrary: s ps)
  case Nil
  then show ?case by (auto simp: fun_eq_iff)
next
  case (Cons i ks)
  have i: "i < NUPD" using Cons.prems(2) by simp
  obtain s1 qs where s1: "free_pdes s d (i # ks) = free_pdes s1 d ks" "vm_inv D s1 qs" "mem_frame s s1"
      "utab s1 d = (utab s d)(i := None)"
      "umap D s1 = (\<lambda>(d', i', j). if d' = d \<and> i' = i then None else umap D s (d', i', j))"
  proof (cases "utab s d i")
    case None
    then have "\<not> present (frames s d i)" by (simp add: utab_def split: if_splits)
    moreover have "umap D s = (\<lambda>(d', i', j). if d' = d \<and> i' = i then None else umap D s (d', i', j))"
      using None by (auto simp: fun_eq_iff umap_def)
    moreover have "utab s d = (utab s d)(i := None)" using None by (simp add: fun_upd_idem)
    ultimately show ?thesis using that [of s ps] Cons.prems(1) by simp
  next
    case (Some t)
    then have pres: "present (frames s d i)" "pfn (frames s d i) = t" by (auto simp: utab_def split: if_splits)
    note tt = vm_countsT [OF vm_invD(1) [OF Cons.prems(1)] assms(2) i Some]
    obtain s2 rs where s2: "free_ptes s d t i [0..<NPTENTRIES] = Some s2" "vm_inv D s2 rs" "mem_frame s s2"
        "utab s2 d = utab s d"
        "umap D s2 = (\<lambda>(d', i', j). if d' = d \<and> i' = i \<and> j \<in> set [0..<NPTENTRIES] then None
            else umap D s (d', i', j))"
      using free_ptes_spec [OF Cons.prems(1) assms(2) i Some, of "[0..<NPTENTRIES]"] by auto
    have ut2: "utab s2 d i = Some t" using s2(4) Some by simp
    note own = vm_countsT(3) [OF vm_invD(1) [OF s2(2)] assms(2) i ut2]
    let ?s3 = "set_word d i 0 s2"
    obtain s4 where s4: "page_decref ?s3 t = Some s4" "free_list s4 (t # rs)" "frames s4 = frames ?s3"
        "\<forall>q. q \<noteq> t \<longrightarrow> pages s4 q = pages ?s3 q" "mem_frame ?s3 s4"
      using decref_owned [of ?s3 rs t] own vm_countsD(2) [OF vm_invD(1) [OF s2(2)]] by auto
    have fr: "npages s2 = npages s" "npages s4 = npages s" using s2(3) s4(5) by (simp_all add: mem_frame_def)
    have new: "vm_inv D s4 (t # rs)" "umap D s4 = umap D s2" "utab s4 d = (utab s2 d)(i := None)"
      using drop_table [OF s2(2) assms(2) i ut2 _ _ _ s4(2)] s4(3,4) s2(5) fr by simp_all
    have "free_pdes s d (i # ks) = free_pdes s4 d ks"
      using pres tt(1) s2(1) s4(1) fr by (simp add: kpage_PTE_ADDR pa2page_PTE_ADDR)
    moreover have "umap D s4 = (\<lambda>(d', i', j). if d' = d \<and> i' = i then None else umap D s (d', i', j))"
      unfolding new(2) s2(5) by (auto simp: fun_eq_iff umap_def)
    moreover have "mem_frame s s4"
      using s2(3) s4(5) by (meson mem_frame_trans mem_frame_upds(2))
    ultimately show ?thesis using that new s2(4) by simp
  qed
  from Cons.IH [OF s1(2)] Cons.prems(2) obtain s' ps' where
    s': "free_pdes s1 d ks = Some s'" "vm_inv D s' ps'" "mem_frame s1 s'"
      "\<forall>i. utab s' d i = (if i \<in> set ks then None else utab s1 d i)"
      "umap D s' = (\<lambda>(d', i', j). if d' = d \<and> i' \<in> set ks then None else umap D s1 (d', i', j))"
    by auto
  have "umap D s' = (\<lambda>(d', i', j). if d' = d \<and> i' \<in> set (i # ks) then None else umap D s (d', i', j))"
    unfolding s'(5) s1(5) by (auto simp: fun_eq_iff)
  moreover have "mem_frame s s'" using s1(3) s'(3) by (rule mem_frame_trans)
  ultimately show ?case using s'(1,2,4) s1(1,4) by auto
qed

lemma env_free_spec:
  assumes "env_inv s fs" and "vm_inv (dirs s) s ps" and "e \<in> live s"
  shows "\<exists>s' ps' d. env_free s e = Some s' \<and> env_inv s' (e # fs) \<and> vm_inv (dirs s') s' ps' \<and>
    env_pgdir (envs s e) = Some d \<and> live s' = live s - {e} \<and> dirs s' = dirs s - {d} \<and> d \<in> set ps' \<and>
    umap (dirs s') s' = (\<lambda>(d', i, j). if d' = d then None else umap (dirs s) s (d', i, j)) \<and>
    (\<forall>e'. e' \<noteq> e \<longrightarrow> envs s' e' = envs s e') \<and> curenv s' = curenv s \<and> cpunum s' = cpunum s \<and>
    kern_pgdir s' = kern_pgdir s \<and> kernel_lock s' = kernel_lock s \<and> env_id (envs s' e) = env_id (envs s e)"
proof -
  note inv = assms(1) [unfolded env_inv_def]
  from inv assms(3) obtain d where d: "env_pgdir (envs s e) = Some d" by auto
  then have dD: "d \<in> dirs s" using assms(3) by (auto simp: dirs_def)
  define s0 where "s0 = (if Some e = curenv s then upd_cpu (\<lambda>c. c\<lparr>cpu_cr3 := kern_pgdir s\<rparr>) s else s)"
  have s0: "envs s0 = envs s" "frames s0 = frames s" "pages s0 = pages s" "npages s0 = npages s"
      "page_free_list s0 = page_free_list s" "env_free_list s0 = env_free_list s" "curenv s0 = curenv s"
      "cpunum s0 = cpunum s" "kern_pgdir s0 = kern_pgdir s" "kernel_lock s0 = kernel_lock s"
    by (simp_all add: s0_def curenv_def)
  have "vm_inv (dirs s) s0 ps" using assms(2) vm_inv_cong [of s0 s] s0 by simp
  from free_pdes_spec [OF this dD, of "[0..<NUPD]"] obtain s1 qs where
    s1: "free_pdes s0 d [0..<NUPD] = Some s1" "vm_inv (dirs s) s1 qs" "mem_frame s0 s1"
      "\<forall>i. utab s1 d i = (if i \<in> set [0..<NUPD] then None else utab s0 d i)"
      "umap (dirs s) s1 = (\<lambda>(d', i', j). if d' = d \<and> i' \<in> set [0..<NUPD] then None else umap (dirs s) s0 (d', i', j))"
    by auto
  let ?s2 = "upd_env e (\<lambda>en. en\<lparr>env_pgdir := None\<rparr>) s1"
  have own: "owned s1 qs d" using vm_countsD(1) [OF vm_invD(1) [OF s1(2)]] dD by (auto simp: vm_dirs_def)
  have fl: "free_list s1 qs" using vm_countsD(2) [OF vm_invD(1) [OF s1(2)]] .
  obtain s3 where s3: "page_decref ?s2 d = Some s3" "free_list s3 (d # qs)" "frames s3 = frames s1"
      "\<forall>q. q \<noteq> d \<longrightarrow> pages s3 q = pages s1 q" "mem_frame ?s2 s3"
    using decref_owned [of ?s2 qs d] own fl by (auto simp: owned_def free_list_def)
  let ?f = "\<lambda>en. en\<lparr>env_status := ENV_FREE, env_link := env_free_list s\<rparr>"
  define s' where "s' = (upd_env e ?f s3)\<lparr>env_free_list := Some e\<rparr>"
  have fr: "npages s1 = npages s" "npages s3 = npages s" "envs s1 = envs s" "env_free_list s3 = env_free_list s"
      "envs s3 = (envs s)(e := (envs s e)\<lparr>env_pgdir := None\<rparr>)" "curenv s3 = curenv s" "cpunum s3 = cpunum s"
      "kern_pgdir s3 = kern_pgdir s" "kernel_lock s3 = kernel_lock s"
    using s1(3) s3(5) s0 by (simp_all add: mem_frame_def curenv_def)
  have small: "d < npages s" "npages s \<le> 65536"
    using own fl fr by (auto simp: owned_def free_list_def)
  have op: "env_free s e = Some s'"
    using d s1(1) s3(1) fr small s0
    by (simp add: env_free_def lcr3_def s0_def [symmetric] UVPT_index pa2page_def PGNUM_page2pa s'_def
        if_distrib [of Some, symmetric] cong: if_cong)
  have envs': "envs s' = (envs s)(e := ?f ((envs s e)\<lparr>env_pgdir := None\<rparr>))" by (simp add: s'_def fr)
  have live': "live s' = live s - {e}" using envs' by (auto simp: live_def)
  have uniq: "x = e" if "x \<in> live s" "env_pgdir (envs s x) = Some d" for x
    using inv assms(3) d that by auto
  have "dirs s' = {x. \<exists>y \<in> live s - {e}. env_pgdir (envs s y) = Some x}"
    by (auto simp: dirs_def live' envs')
  also have "\<dots> = dirs s - {d}" using d by (auto simp: dirs_def dest: uniq)
  finally have dirs': "dirs s' = dirs s - {d}" .
  have "vm_inv (dirs s - {d}) s3 (d # qs)" "umap (dirs s - {d}) s3 = umap (dirs s) s1"
    using drop_dir [OF s1(2) dD _ s3(3) _ s3(2)] s1(4) s3(4) fr by simp_all
  then have vm: "vm_inv (dirs s') s' (d # qs)" "umap (dirs s') s' = umap (dirs s) s1"
    unfolding dirs' using vm_inv_cong [of s' s3] frames_cong(3) [of s' s3] by (simp_all add: s'_def)
  have m: "umap (dirs s) s1 = (\<lambda>(d', i, j). if d' = d then None else umap (dirs s) s (d', i, j))"
    unfolding s1(5) frames_cong(3) [OF s0(2)] by (auto simp: fun_eq_iff umap_def)
  have "chain (env_next s') (env_free_list s') (e # fs)"
  proof -
    have "env_next s' = (env_next s)(e := env_free_list s)" using envs' by auto
    moreover have "e \<notin> set fs" using inv assms(3) by auto
    ultimately show ?thesis using inv by (simp add: s'_def)
  qed
  moreover have "set (e # fs) = {..<NENV} - live s'"
    using inv assms(3) live' by (auto simp: live_def)
  moreover have "\<forall>x \<in> live s'. \<exists>d. env_pgdir (envs s' x) = Some d"
      "\<forall>x \<in> live s'. \<forall>y \<in> live s'. env_pgdir (envs s' x) = env_pgdir (envs s' y) \<longrightarrow> x = y"
      "\<forall>x < NENV. id_ok x (env_id (envs s' x))" "\<forall>x \<in> live s'. env_id (envs s' x) \<noteq> 0"
    using inv envs' live' by auto
  ultimately have "env_inv s' (e # fs)" unfolding env_inv_def by blast
  then show ?thesis
    using op vm d live' dirs' m envs' fr
    by (intro exI [of _ s'] exI [of _ "d # qs"] exI [of _ d]) (simp add: s'_def curenv_def)
qed

section \<open>Properties\<close>

text \<open>A booted machine with five free pages and no environment, and the same with one environment.\<close>

definition booted :: kstate where
  "booted = env_init (zero_kernel\<lparr>npages := 8, page_free_list := Some 7,
     pages := (\<lambda>p. \<lparr>pp_link = (if 3 < p \<and> p < 8 then Some (p - 1) else None), pp_ref = 0\<rparr>)\<rparr>)"

definition booted1 :: kstate where
  "booted1 = (case env_alloc booted 0 of Some (_, s) \<Rightarrow> s | None \<Rightarrow> booted)"

lemma env_init_memory:
  "frames (env_init_loop n s) = frames s \<and> pages (env_init_loop n s) = pages s \<and>
   npages (env_init_loop n s) = npages s \<and> page_free_list (env_init_loop n s) = page_free_list s"
  by (induction n arbitrary: s) auto

text \<open>The invariant of the kernel holds once the environment table is set up.\<close>

lemma env_init_kernel_inv:
  assumes "free_list s ps" and "env_free_list s = None"
  shows "kernel_inv (env_init s)"
proof -
  have "umap {} s = (\<lambda>_. None)" by (auto simp: umap_def)
  then have "vm_inv {} s ps"
    using assms(1) by (intro vm_invI) (simp_all add: vm_dirs_def)
  then have "vm_inv (dirs (env_init s)) (env_init s) ps"
    using vm_inv_cong [of "env_init s" s] env_init_memory env_init_inv(2) [OF assms(2)] by (simp add: env_init_def)
  with env_init_inv(1) [OF assms(2)] show ?thesis by (auto simp: kernel_inv_def)
qed

lemma booted_inv: "env_inv booted [0..<NENV]" "vm_inv (dirs booted) booted [7, 6, 5, 4, 3]" "live booted = {}"
  "umap (dirs booted) booted = (\<lambda>_. None)"
proof -
  let ?s = "zero_kernel\<lparr>npages := 8, page_free_list := Some 7,
     pages := (\<lambda>p. \<lparr>pp_link = (if 3 < p \<and> p < 8 then Some (p - 1) else None), pp_ref = 0\<rparr>)\<rparr>"
  have none: "env_free_list ?s = None" by (simp add: zero_kernel_def)
  show "env_inv booted [0..<NENV]" "live booted = {}"
    unfolding booted_def by (rule env_init_inv(1,3) [OF none])+
  have "umap {} ?s = (\<lambda>_. None)" by (auto simp: umap_def)
  then have "vm_inv {} ?s [7, 6, 5, 4, 3]"
    by (intro vm_invI) (simp_all add: vm_dirs_def free_list_def zero_kernel_def)
  moreover have "frames booted = frames ?s" "pages booted = pages ?s" "npages booted = npages ?s"
      "page_free_list booted = page_free_list ?s"
    unfolding booted_def env_init_def using env_init_memory by blast+
  ultimately show "vm_inv (dirs booted) booted [7, 6, 5, 4, 3]"
    using vm_inv_cong [of booted ?s] env_init_inv(2) [OF none] unfolding booted_def by simp
  show "umap (dirs booted) booted = (\<lambda>_. None)"
    using env_init_inv(2) [OF none] by (auto simp: booted_def umap_def)
qed

lemma upt_NENV: "[0..<NENV] = 0 # [Suc 0..<NENV]"
  by (rule upt_conv_Cons) simp

lemma booted1_inv: "env_inv booted1 [Suc 0..<NENV]" "vm_inv (dirs booted1) booted1 [6, 5, 4, 3]" "live booted1 = {0}"
  "umap (dirs booted1) booted1 = (\<lambda>_. None)"
proof -
  from booted_inv(1,2) have "env_inv booted1 [Suc 0..<NENV] \<and> vm_inv (dirs booted1) booted1 [6, 5, 4, 3] \<and> live booted1 = {0} \<and>
      umap (dirs booted1) booted1 = (\<lambda>_. None)"
  proof (cases rule: env_alloc_spec [of booted _ _ 0])
    case (ok e gs d qs s')
    then show ?thesis unfolding upt_NENV using booted_inv(3,4) by (simp add: booted1_def)
  qed (simp_all add: upt_NENV)
  then show "env_inv booted1 [Suc 0..<NENV]" "vm_inv (dirs booted1) booted1 [6, 5, 4, 3]" "live booted1 = {0}"
    "umap (dirs booted1) booted1 = (\<lambda>_. None)" by simp_all
qed

text \<open>C9. \<^verbatim>\<open>env_alloc\<close> never panics. It fails exactly when no environment slot or no page is free, and then
  changes nothing. Otherwise the new environment is runnable with a cleared register frame, the
  given parent, an address space of its own with nothing mapped below \<^verbatim>\<open>UTOP\<close>, and a positive
  identifier that encodes its slot and differs from the slot's last one; no other environment and
  no mapping changes, and the invariants of the table and of memory hold again.\<close>

theorem env_alloc_fresh:
  assumes "env_inv s fs" and "vm_inv (dirs s) s ps"
  shows "(fs = [] \<and> env_alloc s parent = Some ((- E_NO_FREE_ENV, None), s)) \<or>
    (ps = [] \<and> env_alloc s parent = Some ((- E_NO_MEM, None), s)) \<or>
    (\<exists>e s'. env_alloc s parent = Some ((0, Some e), s') \<and> kernel_inv s' \<and>
      e \<notin> live s \<and> live s' = insert e (live s) \<and> umap (dirs s') s' = umap (dirs s) s \<and>
      (\<forall>e'. e' \<noteq> e \<longrightarrow> envs s' e' = envs s e') \<and>
      env_status (envs s' e) = ENV_RUNNABLE \<and> env_tf (envs s' e) = init_tf \<and>
      env_parent_id (envs s' e) = parent \<and> 0 < sint (env_id (envs s' e)) \<and>
      ENVX (env_id (envs s' e)) = e \<and> env_id (envs s' e) \<noteq> env_id (envs s e))"
  using assms
proof (cases rule: env_alloc_spec [of s fs ps parent])
  case (ok e gs d qs s')
  have "0 \<le> sint (env_id (envs s e))" "e \<notin> live s"
    using assms(1) ok(1,7) by (auto simp: env_inv_def id_ok_def)
  then show ?thesis
    using ok new_env_id_spec [OF ok(7), of "env_id (envs s e)"] unfolding kernel_inv_def by auto
qed simp_all

theorem env_alloc_fresh_witness:
  "\<exists>e s'. env_alloc booted 7 = Some ((0, Some e), s') \<and> kernel_inv s' \<and> ENVX (env_id (envs s' e)) = e \<and>
     0 < sint (env_id (envs s' e)) \<and> env_parent_id (envs s' e) = 7"
  using env_alloc_fresh [OF booted_inv(1,2), of 7] unfolding upt_NENV by blast

text \<open>C1. \<^verbatim>\<open>env_free\<close> of a live environment never panics. Exactly the mappings of its own address space
  disappear, its page directory is free again, every other environment is unchanged, and the
  invariants of the table and of memory hold again.\<close>

theorem env_free_reclaims:
  assumes "env_inv s fs" and "vm_inv (dirs s) s ps" and "e \<in> live s"
  shows "\<exists>s' ps' d. env_free s e = Some s' \<and> env_inv s' (e # fs) \<and> vm_inv (dirs s') s' ps' \<and>
    env_pgdir (envs s e) = Some d \<and> d \<in> set ps' \<and> live s' = live s - {e} \<and> dirs s' = dirs s - {d} \<and>
    umap (dirs s') s' = (\<lambda>(d', i, j). if d' = d then None else umap (dirs s) s (d', i, j)) \<and>
    (\<forall>e'. e' \<noteq> e \<longrightarrow> envs s' e' = envs s e')"
  using env_free_spec [OF assms] by blast

theorem env_free_reclaims_witness:
  "\<exists>s' ps'. env_free booted1 0 = Some s' \<and> env_inv s' (0 # [Suc 0..<NENV]) \<and> vm_inv (dirs s') s' ps' \<and>
     live s' = live booted1 - {0}"
  using env_free_reclaims [OF booted1_inv(1,2), of 0] booted1_inv(3) by blast

text \<open>C10. The identifier of a destroyed environment stays dead: after \<^verbatim>\<open>env_free\<close> it is rejected by
  \<^verbatim>\<open>envid2env\<close>, and it is still rejected when the slot has been allocated again.\<close>

theorem stale_envid_rejected:
  assumes "env_inv s fs" and "vm_inv (dirs s) s ps" and "e \<in> live s"
  shows "\<exists>s'. env_free s e = Some s' \<and> envid2env s' (env_id (envs s e)) cp = Some (- E_BAD_ENV, None) \<and>
    (\<forall>parent s''. env_alloc s' parent = Some ((0, Some e), s'') \<longrightarrow>
      envid2env s'' (env_id (envs s e)) cp = Some (- E_BAD_ENV, None))"
proof -
  obtain s' ps' where s': "env_free s e = Some s'" "env_inv s' (e # fs)" "vm_inv (dirs s') s' ps'"
      "live s' = live s - {e}" "env_id (envs s' e) = env_id (envs s e)"
    using env_free_spec [OF assms] by blast
  have e: "e < NENV" "env_id (envs s e) \<noteq> 0" "ENVX (env_id (envs s e)) = e" "0 \<le> sint (env_id (envs s e))"
    using assms(1,3) by (auto simp: env_inv_def id_ok_def live_def)
  have "env_status (envs s' e) = ENV_FREE" using s'(4) e(1) by (auto simp: live_def)
  then have dead: "envid2env s' (env_id (envs s e)) cp = Some (- E_BAD_ENV, None)"
    using e by (simp add: envid2env_def Let_def)
  have "envid2env s'' (env_id (envs s e)) cp = Some (- E_BAD_ENV, None)"
    if "env_alloc s' parent = Some ((0, Some e), s'')" for parent s''
    using s'(2,3)
  proof (cases rule: env_alloc_spec [of s' _ _ parent])
    case (ok e' gs d qs t)
    then have "env_id (envs s'' e) \<noteq> env_id (envs s e)"
      using that new_env_id_spec(3) [OF e(1,4)] s'(5) by auto
    then show ?thesis using e by (simp add: envid2env_def Let_def)
  qed (use that in simp_all)
  with s'(1) dead show ?thesis by blast
qed

theorem stale_envid_rejected_witness:
  "\<exists>s'. env_free booted1 0 = Some s' \<and> envid2env s' (env_id (envs booted1 0)) True = Some (- E_BAD_ENV, None)"
  using stale_envid_rejected [OF booted1_inv(1,2), of 0 True] booted1_inv(3) by blast

end
