(* ===== verification/Sched.thy ===== *)
theory Sched
  imports Env
begin

text \<open>
  The scheduler, \<^verbatim>\<open>kern/sched.c\<close>, and the operations of \<^verbatim>\<open>kern/env.c\<close> and \<^verbatim>\<open>kern/pmap.c\<close> that end in it:
  destroying an environment, and destroying one that passed a bad pointer. Shown are which
  environment is chosen, that no environment ever runs on two processors, and that a runnable
  environment is chosen within one turn round the table.
\<close>

section \<open>Choosing an environment\<close>

definition runs_somewhere :: "EnvStatus \<Rightarrow> bool" where
  "runs_somewhere st \<longleftrightarrow> st = ENV_RUNNABLE \<or> st = ENV_RUNNING \<or> st = ENV_DYING"

definition sched_halt :: "kstate \<Rightarrow> unit outcome" where
  "sched_halt s =
     (if find (\<lambda>i. runs_somewhere (env_status (envs s i))) [0..<NENV] = None then Monitor s
      else let s = upd_cpu (\<lambda>c. c\<lparr>cpu_env := None, cpu_cr3 := kern_pgdir s, cpu_status := CPU_HALTED\<rparr>) s
           in case unlock_kernel s of None \<Rightarrow> Panic | Some s \<Rightarrow> Leave s)"

definition sched_order :: "nat \<Rightarrow> nat list" where
  "sched_order start = map (\<lambda>i. (start + i) mod NENV) [0..<NENV]"

definition sched_yield :: "kstate \<Rightarrow> unit outcome" where
  "sched_yield s =
     (let idle = curenv s;
          start = (case idle of None \<Rightarrow> 0 | Some e \<Rightarrow> ENVX (env_id (envs s e)))
      in case find (\<lambda>j. env_status (envs s j) = ENV_RUNNABLE) (sched_order start) of
           Some j \<Rightarrow> env_run s j
         | None \<Rightarrow>
             (case idle of
                Some e \<Rightarrow> if env_status (envs s e) = ENV_RUNNING then env_run s e else sched_halt s
              | None \<Rightarrow> sched_halt s))"

text \<open>
  Environments that do nothing but give up the processor: each round schedules one of them, and
  that one enters the kernel again.
\<close>

definition yield_round :: "kstate \<Rightarrow> kstate option" where
  "yield_round s = (case sched_yield s of Leave s' \<Rightarrow> lock_kernel s' | _ \<Rightarrow> None)"

fun yields :: "nat \<Rightarrow> kstate \<Rightarrow> kstate option" where
  "yields 0 s = Some s"
| "yields (Suc n) s = Option.bind (yield_round s) (yields n)"

section \<open>Destroying an environment\<close>

definition env_destroy :: "kstate \<Rightarrow> nat \<Rightarrow> unit outcome" where
  "env_destroy s e =
     (if env_status (envs s e) = ENV_RUNNING \<and> curenv s \<noteq> Some e
      then Ret () (upd_env e (\<lambda>en. en\<lparr>env_status := ENV_DYING\<rparr>) s)
      else case env_free s e of
             None \<Rightarrow> Panic
           | Some s \<Rightarrow>
               if curenv s = Some e then sched_yield (upd_cpu (\<lambda>c. c\<lparr>cpu_env := None\<rparr>) s)
               else Ret () s)"

definition user_mem_assert :: "kstate \<Rightarrow> nat \<Rightarrow> u32 \<Rightarrow> u32 \<Rightarrow> u32 \<Rightarrow> unit outcome" where
  "user_mem_assert s env va len perm =
     (case user_mem_check s env va len (Bit_Operations.or perm PTE_U) of
        None \<Rightarrow> Panic
      | Some (r, s) \<Rightarrow> if r < 0 then env_destroy s env else Ret () s)"

section \<open>Which environment is chosen\<close>

lemma find_order:
  assumes "find P (sched_order start) = Some j"
  shows "P j" and "j < NENV" and "\<exists>i < NENV. j = (start + i) mod NENV \<and> (\<forall>k < i. \<not> P ((start + k) mod NENV))"
proof -
  from assms obtain i where i: "i < length (sched_order start)" "P (sched_order start ! i)"
      "j = sched_order start ! i" "\<forall>k < i. \<not> P (sched_order start ! k)"
    by (auto simp: find_Some_iff)
  then show "P j" "j < NENV" by (auto simp: sched_order_def)
  show "\<exists>i < NENV. j = (start + i) mod NENV \<and> (\<forall>k < i. \<not> P ((start + k) mod NENV))"
    using i by (intro exI [of _ i]) (auto simp: sched_order_def)
qed

lemma find_order_None:
  assumes "find P (sched_order start) = None" and "j < NENV"
  shows "\<not> P j"
proof -
  from ring_reach [OF assms(2), of start] obtain i where "i < NENV" "(start + i) mod NENV = j" by blast
  then have "j \<in> set (sched_order start)"
    unfolding sched_order_def by (auto intro!: image_eqI [of _ _ i])
  then show ?thesis using assms(1) by (auto simp: find_None_iff)
qed

section \<open>Running on one processor at a time\<close>

text \<open>
  Every environment on a processor is live, none is on two, and those on other processors than
  the one in the kernel are running (or were marked to die while they run).
\<close>

definition running_once :: "kstate \<Rightarrow> bool" where
  "running_once s \<longleftrightarrow>
     (\<forall>c e. cpu_env (cpus s c) = Some e \<longrightarrow> e \<in> live s) \<and>
     (\<forall>c d e. cpu_env (cpus s c) = Some e \<longrightarrow> cpu_env (cpus s d) = Some e \<longrightarrow> c = d) \<and>
     (\<forall>c e. c \<noteq> cpunum s \<longrightarrow> cpu_env (cpus s c) = Some e \<longrightarrow>
        env_status (envs s e) = ENV_RUNNING \<or> env_status (envs s e) = ENV_DYING)"

text \<open>The processor in the kernel holds the lock.\<close>

definition in_kernel :: "kstate \<Rightarrow> bool" where
  "in_kernel s \<longleftrightarrow> holding (kernel_lock s) (cpunum s)"

lemma unlock_kernel_ok:
  "in_kernel s \<Longrightarrow> unlock_kernel s = Some (s\<lparr>kernel_lock := (kernel_lock s)\<lparr>lock_cpu := None, locked := False\<rparr>\<rparr>)"
  by (simp add: in_kernel_def unlock_kernel_def spin_unlock_def)

lemma env_run_spec:
  assumes "in_kernel s" and "env_pgdir (envs s e) = Some d"
  shows "\<exists>s'. env_run s e = Leave s' \<and>
    envs s' = (\<lambda>x. if x = e then (envs s e)\<lparr>env_status := ENV_RUNNING, env_runs := env_runs (envs s e) + 1,
                                    env_cpunum := cpunum s\<rparr>
                   else if curenv s = Some x \<and> env_status (envs s x) = ENV_RUNNING
                   then (envs s x)\<lparr>env_status := ENV_RUNNABLE\<rparr> else envs s x) \<and>
    cpus s' = (cpus s)(cpunum s := (cpus s (cpunum s))\<lparr>cpu_env := Some e, cpu_cr3 := d\<rparr>) \<and>
    cpunum s' = cpunum s \<and> \<not> locked (kernel_lock s') \<and> lock_cpu (kernel_lock s') = None \<and>
    env_free_list s' = env_free_list s \<and> frames s' = frames s \<and> pages s' = pages s \<and>
    npages s' = npages s \<and> page_free_list s' = page_free_list s \<and> kern_pgdir s' = kern_pgdir s"
proof -
  define s1 where "s1 = (case curenv s of None \<Rightarrow> s
               | Some c \<Rightarrow> if env_status (envs s c) = ENV_RUNNING
                           then upd_env c (\<lambda>en. en\<lparr>env_status := ENV_RUNNABLE\<rparr>) s else s)"
  have s1: "envs s1 = (\<lambda>x. if curenv s = Some x \<and> env_status (envs s x) = ENV_RUNNING
                   then (envs s x)\<lparr>env_status := ENV_RUNNABLE\<rparr> else envs s x)"
      "cpus s1 = cpus s" "cpunum s1 = cpunum s" "kernel_lock s1 = kernel_lock s"
      "env_free_list s1 = env_free_list s" "frames s1 = frames s" "pages s1 = pages s"
      "npages s1 = npages s" "page_free_list s1 = page_free_list s" "kern_pgdir s1 = kern_pgdir s"
    by (auto simp: s1_def split: option.split)
  define s2 where "s2 = upd_env e (\<lambda>en. en\<lparr>env_status := ENV_RUNNING, env_runs := env_runs en + 1\<rparr>)
      (upd_cpu (\<lambda>c. c\<lparr>cpu_env := Some e\<rparr>) s1)"
  have pd: "env_pgdir (envs s2 e) = Some d" using assms(2) by (simp add: s2_def s1)
  have run: "env_run s e = (case lcr3 (env_pgdir (envs s2 e)) s2 of None \<Rightarrow> Panic
      | Some s \<Rightarrow> (case unlock_kernel s of None \<Rightarrow> Panic | Some s \<Rightarrow> env_pop_tf s e))"
    by (simp add: env_run_def s1_def s2_def Let_def)
  let ?s3 = "upd_cpu (\<lambda>c. c\<lparr>cpu_cr3 := d\<rparr>) s2"
  have "in_kernel ?s3" using assms(1) by (simp add: in_kernel_def s2_def s1)
  then have "env_run s e = env_pop_tf (?s3\<lparr>kernel_lock := (kernel_lock ?s3)\<lparr>lock_cpu := None, locked := False\<rparr>\<rparr>) e"
    using run pd by (simp add: lcr3_def unlock_kernel_ok)
  then show ?thesis
    by (auto simp: env_pop_tf_def s2_def s1 fun_eq_iff)
qed

lemma kernel_inv_same_envs:
  assumes "env_inv s fs" and "env_free_list s' = env_free_list s"
    and "\<And>x. env_link (envs s' x) = env_link (envs s x) \<and> env_id (envs s' x) = env_id (envs s x) \<and>
      env_pgdir (envs s' x) = env_pgdir (envs s x) \<and>
      (env_status (envs s' x) = ENV_FREE \<longleftrightarrow> env_status (envs s x) = ENV_FREE)"
  shows "env_inv s' fs" and "live s' = live s" and "dirs s' = dirs s"
proof -
  show l: "live s' = live s" using assms(3) by (auto simp: live_def)
  show "dirs s' = dirs s" using assms(3) by (simp add: dirs_def l)
  show "env_inv s' fs" using assms by (simp add: env_inv_def l)
qed

lemma env_run_inv:
  assumes "env_inv s fs" and "vm_inv (dirs s) s ps" and "running_once s" and "in_kernel s" and "e \<in> live s"
    and "env_status (envs s e) = ENV_RUNNABLE \<or> curenv s = Some e"
  shows "\<exists>s'. env_run s e = Leave s' \<and> env_inv s' fs \<and> vm_inv (dirs s') s' ps \<and> running_once s' \<and>
    curenv s' = Some e \<and> env_status (envs s' e) = ENV_RUNNING \<and> \<not> locked (kernel_lock s') \<and>
    live s' = live s \<and> cpunum s' = cpunum s \<and>
    (\<forall>x. x \<noteq> e \<longrightarrow> env_status (envs s' x) = (if curenv s = Some x \<and> env_status (envs s x) = ENV_RUNNING
       then ENV_RUNNABLE else env_status (envs s x))) \<and>
    (\<forall>x. env_id (envs s' x) = env_id (envs s x)) \<and> kernel_lock s' = \<lparr>locked = False, lock_cpu = None\<rparr>"
proof -
  from assms(1,5) obtain d where d: "env_pgdir (envs s e) = Some d" by (auto simp: env_inv_def)
  from env_run_spec [OF assms(4) d] obtain s' where s': "env_run s e = Leave s'"
    "envs s' = (\<lambda>x. if x = e then (envs s e)\<lparr>env_status := ENV_RUNNING, env_runs := env_runs (envs s e) + 1,
                                    env_cpunum := cpunum s\<rparr>
                   else if curenv s = Some x \<and> env_status (envs s x) = ENV_RUNNING
                   then (envs s x)\<lparr>env_status := ENV_RUNNABLE\<rparr> else envs s x)"
    "cpus s' = (cpus s)(cpunum s := (cpus s (cpunum s))\<lparr>cpu_env := Some e, cpu_cr3 := d\<rparr>)"
    "cpunum s' = cpunum s" "\<not> locked (kernel_lock s')" "lock_cpu (kernel_lock s') = None"
    "env_free_list s' = env_free_list s" "frames s' = frames s" "pages s' = pages s"
    "npages s' = npages s" "page_free_list s' = page_free_list s"
    by blast
  have "env_status (envs s e) \<noteq> ENV_FREE" using assms(5) by (simp add: live_def)
  then have "env_link (envs s' x) = env_link (envs s x) \<and> env_id (envs s' x) = env_id (envs s x) \<and>
      env_pgdir (envs s' x) = env_pgdir (envs s x) \<and>
      (env_status (envs s' x) = ENV_FREE \<longleftrightarrow> env_status (envs s x) = ENV_FREE)" for x
    by (simp add: s'(2))
  note inv = kernel_inv_same_envs [OF assms(1) s'(7) this]
  have vm: "vm_inv (dirs s') s' ps" using assms(2) vm_inv_cong [OF s'(8-11)] inv(3) by simp
  have old: "cpu_env (cpus s c) = Some x \<Longrightarrow> x \<in> live s"
      "cpu_env (cpus s c) = Some x \<Longrightarrow> cpu_env (cpus s c') = Some x \<Longrightarrow> c = c'"
      "c \<noteq> cpunum s \<Longrightarrow> cpu_env (cpus s c) = Some x \<Longrightarrow>
         env_status (envs s x) = ENV_RUNNING \<or> env_status (envs s x) = ENV_DYING" for c c' x
    using assms(3) unfolding running_once_def by blast+
  have other: "cpu_env (cpus s c) \<noteq> Some e" if "c \<noteq> cpunum s" for c
    using assms(6) old(2) [of c e "cpunum s"] old(3) [OF that, of e] that by (auto simp: curenv_def)
  have once: "running_once s'"
    unfolding running_once_def
  proof (intro conjI allI impI)
    fix c x assume "cpu_env (cpus s' c) = Some x"
    then show "x \<in> live s'" using old(1) [of c x] assms(5) inv(2) by (auto simp: s'(3) split: if_splits)
  next
    fix c c' x assume "cpu_env (cpus s' c) = Some x" "cpu_env (cpus s' c') = Some x"
    then show "c = c'" using old(2) [of c x c'] other by (auto simp: s'(3) split: if_splits)
  next
    fix c x assume c: "c \<noteq> cpunum s'" "cpu_env (cpus s' c) = Some x"
    then have cs: "c \<noteq> cpunum s" "cpu_env (cpus s c) = Some x" using s'(3,4) by auto
    then have "x \<noteq> e" "curenv s \<noteq> Some x"
      using other old(2) [of c x "cpunum s"] by (auto simp: curenv_def)
    then show "env_status (envs s' x) = ENV_RUNNING \<or> env_status (envs s' x) = ENV_DYING"
      using old(3) [OF cs] by (simp add: s'(2))
  qed
  have lk: "kernel_lock s' = \<lparr>locked = False, lock_cpu = None\<rparr>" using s'(5,6) by (cases "kernel_lock s'") auto
  have cur: "curenv s' = Some e" using s'(3,4) by (simp add: curenv_def)
  show ?thesis
    using s'(1) inv vm once cur lk s'(4)
    by (intro exI [of _ s']) (simp add: s'(2))
qed

lemma env_inv_id:
  assumes "env_inv s fs" and "e \<in> live s"
  shows "ENVX (env_id (envs s e)) = e"
  using assms by (auto simp: env_inv_def live_def id_ok_def)

text \<open>The cases of \<open>sched_yield\<close>.\<close>

lemma sched_yield_spec:
  assumes "env_inv s fs" and "vm_inv (dirs s) s ps" and "running_once s" and "in_kernel s"
  obtains (run) e s' where "sched_yield s = Leave s'" "env_run s e = Leave s'" "e \<in> live s"
      "env_status (envs s e) = ENV_RUNNABLE \<or>
       curenv s = Some e \<and> env_status (envs s e) = ENV_RUNNING \<and> (\<forall>j < NENV. env_status (envs s j) \<noteq> ENV_RUNNABLE)"
      "\<And>c. curenv s = Some c \<Longrightarrow> env_status (envs s e) = ENV_RUNNABLE \<Longrightarrow> \<exists>i < NENV. e = (c + i) mod NENV \<and>
         (\<forall>k < i. env_status (envs s ((c + k) mod NENV)) \<noteq> ENV_RUNNABLE)"
  | (halt) s' where "sched_yield s = Leave s'" "sched_halt s = Leave s'"
      "\<forall>j < NENV. env_status (envs s j) \<noteq> ENV_RUNNABLE"
  | (stop) "sched_yield s = Monitor s" "\<forall>j < NENV. \<not> runs_somewhere (env_status (envs s j))"
proof -
  define start where "start = (case curenv s of None \<Rightarrow> 0 | Some e \<Rightarrow> ENVX (env_id (envs s e)))"
  have start: "start = c" if "curenv s = Some c" for c
    using that assms(3) env_inv_id [OF assms(1)] by (auto simp: start_def running_once_def curenv_def)
  let ?P = "\<lambda>j. env_status (envs s j) = ENV_RUNNABLE"
  show ?thesis
  proof (cases "find ?P (sched_order start)")
    case (Some j)
    note f = find_order [OF Some]
    have "j \<in> live s" using f(1,2) by (simp add: live_def)
    moreover from env_run_inv [OF assms this] f(1) obtain s' where "env_run s j = Leave s'" by blast
    moreover have "sched_yield s = env_run s j" using Some by (simp add: sched_yield_def start_def)
    ultimately show ?thesis
      using f start by (intro run [of s' j]) auto
  next
    case None
    note none = find_order_None [OF None]
    show ?thesis
    proof (cases "\<exists>e. curenv s = Some e \<and> env_status (envs s e) = ENV_RUNNING")
      case True
      then obtain e where e: "curenv s = Some e" "env_status (envs s e) = ENV_RUNNING" by blast
      then have "e \<in> live s" using assms(3) by (auto simp: running_once_def curenv_def)
      moreover from env_run_inv [OF assms this] e(1) obtain s' where "env_run s e = Leave s'" by blast
      ultimately show ?thesis
        using run [of s' e] e none None by (simp add: sched_yield_def start_def)
    next
      case False
      then have y: "sched_yield s = sched_halt s"
        using None by (auto simp: sched_yield_def start_def Let_def split: option.split)
      show ?thesis
      proof (cases "find (\<lambda>i. runs_somewhere (env_status (envs s i))) [0..<NENV] = None")
        case True
        then show ?thesis using stop y by (simp add: sched_halt_def find_None_iff)
      next
        case False
        let ?s = "upd_cpu (\<lambda>c. c\<lparr>cpu_env := None, cpu_cr3 := kern_pgdir s, cpu_status := CPU_HALTED\<rparr>) s"
        have "in_kernel ?s" using assms(4) by (simp add: in_kernel_def)
        with False show ?thesis
          using halt y none by (simp add: sched_halt_def unlock_kernel_ok del: find_None_iff)
      qed
    qed
  qed
qed

lemma sched_halt_inv:
  assumes "env_inv s fs" and "vm_inv (dirs s) s ps" and "running_once s" and "sched_halt s = Leave s'"
  shows "env_inv s' fs" and "vm_inv (dirs s') s' ps" and "running_once s'" and "curenv s' = None"
    and "kernel_lock s' = (kernel_lock s)\<lparr>locked := False, lock_cpu := None\<rparr>" and "envs s' = envs s"
proof -
  let ?s = "upd_cpu (\<lambda>c. c\<lparr>cpu_env := None, cpu_cr3 := kern_pgdir s, cpu_status := CPU_HALTED\<rparr>) s"
  have s': "s' = ?s\<lparr>kernel_lock := (kernel_lock s)\<lparr>locked := False, lock_cpu := None\<rparr>\<rparr>"
    using assms(4) by (auto simp: sched_halt_def unlock_kernel_def spin_unlock_def Let_def
        split: if_splits option.splits)
  then show envs': "envs s' = envs s" and "curenv s' = None"
    and "kernel_lock s' = (kernel_lock s)\<lparr>locked := False, lock_cpu := None\<rparr>"
    by (simp_all add: curenv_def)
  show "env_inv s' fs" using assms(1) s' env_inv_cong [of s' s] by simp
  show "vm_inv (dirs s') s' ps"
    using assms(2) dirs_cong [OF envs'] vm_inv_cong [of s' s] s' by simp
  have "cpu_env (cpus s' c) = (if c = cpunum s then None else cpu_env (cpus s c))" for c using s' by simp
  then show "running_once s'"
    using assms(3) live_cong [OF envs'] s' unfolding running_once_def by (auto split: if_splits)
qed

lemma relock:
  assumes "env_inv s fs" and "vm_inv (dirs s) s ps" and "running_once s"
    and "kernel_lock s = \<lparr>locked = False, lock_cpu = None\<rparr>"
  shows "\<exists>s'. lock_kernel s = Some s' \<and> env_inv s' fs \<and> vm_inv (dirs s') s' ps \<and> running_once s' \<and>
    in_kernel s' \<and> curenv s' = curenv s \<and> envs s' = envs s"
proof -
  let ?s = "s\<lparr>kernel_lock := (kernel_lock s)\<lparr>locked := True, lock_cpu := Some (cpunum s)\<rparr>\<rparr>"
  have "lock_kernel s = Some ?s"
    using assms(4) by (simp add: lock_kernel_def spin_lock_def holding_def)
  moreover have "env_inv ?s fs" "vm_inv (dirs ?s) ?s ps"
    using assms(1,2) env_inv_cong [of ?s s] dirs_cong [of ?s s] vm_inv_cong [of ?s s] by simp_all
  moreover have "running_once ?s" using assms(3) live_cong [of ?s s] by (simp add: running_once_def)
  ultimately show ?thesis by (auto simp: in_kernel_def holding_def curenv_def)
qed

section \<open>Bounded waiting\<close>

lemma yields_reach:
  assumes "env_inv s fs" and "vm_inv (dirs s) s ps" and "running_once s" and "in_kernel s"
    and "curenv s = Some c" and "env_status (envs s c) = ENV_RUNNING"
    and "(c + t) mod NENV = j" and "env_status (envs s j) = ENV_RUNNABLE"
  shows "\<exists>n s'. 0 < n \<and> n \<le> t \<and> yields n s = Some s' \<and> curenv s' = Some j"
  using assms
proof (induction t arbitrary: s c rule: less_induct)
  case (less t)
  note inv = less.prems(1-4)
  have j: "j < NENV" using less.prems(7) by auto
  have c: "c < NENV" using less.prems(3,5) by (auto simp: running_once_def curenv_def live_def)
  from inv show ?case
  proof (cases rule: sched_yield_spec)
    case (run e s1)
    have e: "env_status (envs s e) = ENV_RUNNABLE" using run(4) less.prems(8) j by auto
    from run(5) [OF less.prems(5) e] obtain i where
      i: "e = (c + i) mod NENV" "\<forall>k < i. env_status (envs s ((c + k) mod NENV)) \<noteq> ENV_RUNNABLE" by blast
    have "i \<le> t" using i(2) less.prems(7,8) by (meson not_le)
    have "i \<noteq> 0" using i(1) e less.prems(6) c by (intro notI) simp
    from env_run_inv [OF inv run(3)] e run(2) have
      s1: "env_inv s1 fs" "vm_inv (dirs s1) s1 ps" "running_once s1" "curenv s1 = Some e"
        "env_status (envs s1 e) = ENV_RUNNING" "kernel_lock s1 = \<lparr>locked = False, lock_cpu = None\<rparr>"
        "\<And>x. x \<noteq> e \<Longrightarrow> env_status (envs s1 x) = (if curenv s = Some x \<and> env_status (envs s x) = ENV_RUNNING
           then ENV_RUNNABLE else env_status (envs s x))"
      by auto
    from relock [OF s1(1-3,6)] obtain s2 where
      s2: "lock_kernel s1 = Some s2" "env_inv s2 fs" "vm_inv (dirs s2) s2 ps" "running_once s2"
        "in_kernel s2" "curenv s2 = Some e" "envs s2 = envs s1" using s1(4) by auto
    have round: "yield_round s = Some s2" using run(1) s2(1) by (simp add: yield_round_def)
    show ?thesis
    proof (cases "j = e")
      case True
      then have "yields 1 s = Some s2" "curenv s2 = Some j" using round s2(6) by simp_all
      then show ?thesis using \<open>i \<noteq> 0\<close> \<open>i \<le> t\<close> by (intro exI [of _ 1]) auto
    next
      case False
      have "(e + (t - i)) mod NENV = (c + i + (t - i)) mod NENV" unfolding i(1) by (rule mod_add_left_eq)
      then have next': "(e + (t - i)) mod NENV = j" using \<open>i \<le> t\<close> less.prems(7) by simp
      have st: "env_status (envs s2 j) = ENV_RUNNABLE" "env_status (envs s2 e) = ENV_RUNNING"
        using s1(5,7) False less.prems(8) s2(7) by auto
      have "t - i < t" using \<open>i \<noteq> 0\<close> \<open>i \<le> t\<close> by simp
      from less.IH [OF this s2(2-6) st(2) next' st(1)] obtain n s' where
        "0 < n" "n \<le> t - i" "yields n s2 = Some s'" "curenv s' = Some j" by blast
      then show ?thesis
        using round \<open>i \<noteq> 0\<close> \<open>i \<le> t\<close> by (intro exI [of _ "Suc n"] exI [of _ s']) auto
    qed
  next
    case (halt s')
    then show ?thesis using less.prems(8) j by blast
  next
    case stop
    then show ?thesis using less.prems(8) j by (auto simp: runs_somewhere_def)
  qed
qed

section \<open>Properties\<close>

text \<open>Two environments: 0 running on processor 0, which is in the kernel, and 1 runnable.\<close>

definition booted2 :: kstate where
  "booted2 = (case env_alloc booted1 0 of Some (_, s) \<Rightarrow> s | None \<Rightarrow> booted1)"

definition two_envs :: kstate where
  "two_envs = upd_env 0 (\<lambda>en. en\<lparr>env_status := ENV_RUNNING\<rparr>)
     (booted2\<lparr>cpunum := 0, cpus := (\<lambda>_. \<lparr>cpu_status = CPU_STARTED, cpu_env = None, cpu_cr3 = 0\<rparr>)
        (0 := \<lparr>cpu_status = CPU_STARTED, cpu_env = Some 0, cpu_cr3 = 0\<rparr>),
        kernel_lock := \<lparr>locked = True, lock_cpu = Some 0\<rparr>\<rparr>)"

lemma booted2_inv:
  "env_inv booted2 [Suc (Suc 0)..<NENV]" "vm_inv (dirs booted2) booted2 [5, 4, 3]" "live booted2 = {0, 1}"
  "env_status (envs booted2 1) = ENV_RUNNABLE" "umap (dirs booted2) booted2 = (\<lambda>_. None)"
proof -
  have upt: "[Suc 0..<NENV] = 1 # [Suc (Suc 0)..<NENV]" by (subst upt_conv_Cons) simp_all
  from booted1_inv(1,2) have "env_inv booted2 [Suc (Suc 0)..<NENV] \<and> vm_inv (dirs booted2) booted2 [5, 4, 3] \<and>
      live booted2 = {0, 1} \<and> env_status (envs booted2 1) = ENV_RUNNABLE \<and> umap (dirs booted2) booted2 = (\<lambda>_. None)"
  proof (cases rule: env_alloc_spec [of booted1 _ _ 0])
    case (ok e gs d qs s')
    then show ?thesis unfolding upt using booted1_inv(3,4) by (auto simp: booted2_def)
  qed (simp_all add: upt)
  then show "env_inv booted2 [Suc (Suc 0)..<NENV]" "vm_inv (dirs booted2) booted2 [5, 4, 3]" "live booted2 = {0, 1}"
    "env_status (envs booted2 1) = ENV_RUNNABLE" "umap (dirs booted2) booted2 = (\<lambda>_. None)" by simp_all
qed

lemma two_envs_inv:
  "env_inv two_envs [Suc (Suc 0)..<NENV]" "vm_inv (dirs two_envs) two_envs [5, 4, 3]" "running_once two_envs"
  "in_kernel two_envs" "umap (dirs two_envs) two_envs = (\<lambda>_. None)"
proof -
  have live0: "env_status (envs booted2 0) \<noteq> ENV_FREE" using booted2_inv(3) by (auto simp: live_def)
  have "env_free_list two_envs = env_free_list booted2" by (simp add: two_envs_def)
  note same = kernel_inv_same_envs [OF booted2_inv(1) this]
  have inv: "env_inv two_envs [Suc (Suc 0)..<NENV]" "live two_envs = {0, 1}" "dirs two_envs = dirs booted2"
    using same live0 booted2_inv(3) by (simp_all add: two_envs_def)
  show "env_inv two_envs [Suc (Suc 0)..<NENV]" by (fact inv(1))
  show "vm_inv (dirs two_envs) two_envs [5, 4, 3]"
    using booted2_inv(2) vm_inv_cong [of two_envs booted2] inv(3) by (simp add: two_envs_def)
  have "cpu_env (cpus two_envs c) = (if c = 0 then Some 0 else None)" "cpunum two_envs = 0" for c
    by (simp_all add: two_envs_def)
  then show "running_once two_envs" using inv(2) by (simp add: running_once_def)
  have "frames two_envs = frames booted2" by (simp add: two_envs_def)
  then show "umap (dirs two_envs) two_envs = (\<lambda>_. None)" using booted2_inv(5) frames_cong(3) inv(3) by metis
  show "in_kernel two_envs" by (simp add: in_kernel_def holding_def two_envs_def)
qed

text \<open>C16. \<^verbatim>\<open>sched_yield\<close>, entered with the kernel lock held, never panics. Either it leaves the kernel with the
  lock released and at most one processor per environment, running an environment that was runnable
  (or going on with the current one, or halting the processor, when none is), or no environment can
  run at all and it stays in the monitor.\<close>

theorem sched_yield_sound:
  assumes "env_inv s fs" and "vm_inv (dirs s) s ps" and "running_once s" and "in_kernel s"
  shows "(\<exists>s'. sched_yield s = Leave s' \<and> kernel_inv s' \<and> running_once s' \<and> \<not> locked (kernel_lock s') \<and>
      (case curenv s' of
         None \<Rightarrow> \<forall>j < NENV. env_status (envs s j) \<noteq> ENV_RUNNABLE
       | Some e \<Rightarrow> env_status (envs s' e) = ENV_RUNNING \<and>
           (env_status (envs s e) = ENV_RUNNABLE \<or>
            curenv s = Some e \<and> env_status (envs s e) = ENV_RUNNING \<and>
              (\<forall>j < NENV. env_status (envs s j) \<noteq> ENV_RUNNABLE)))) \<or>
    sched_yield s = Monitor s \<and> (\<forall>j < NENV. \<not> runs_somewhere (env_status (envs s j)))"
  using assms
proof (cases rule: sched_yield_spec)
  case (run e s')
  from env_run_inv [OF assms run(3)] run(2,4) have
    "env_inv s' fs" "vm_inv (dirs s') s' ps" "running_once s'" "curenv s' = Some e"
    "env_status (envs s' e) = ENV_RUNNING" "\<not> locked (kernel_lock s')" by auto
  then show ?thesis using run(1,4) unfolding kernel_inv_def by auto
next
  case (halt s')
  note h = sched_halt_inv [OF assms(1-3) halt(2)]
  show ?thesis using halt h unfolding kernel_inv_def by auto
next
  case stop
  then show ?thesis by blast
qed

theorem sched_yield_sound_witness:
  "\<exists>s'. sched_yield two_envs = Leave s' \<and> kernel_inv s' \<and> running_once s' \<and> \<not> locked (kernel_lock s')"
proof -
  have "env_status (envs two_envs 0) = ENV_RUNNING" by (simp add: two_envs_def)
  moreover have "(0 :: nat) < NENV" by simp
  ultimately show ?thesis
    using sched_yield_sound [OF two_envs_inv(1-4)] unfolding runs_somewhere_def by blast
qed

text \<open>C17. No runnable environment waits for ever: while the environments only give up the processor, a
  runnable environment is running after at most as many rounds as there are slots in the table.\<close>

theorem sched_bounded_waiting:
  assumes "env_inv s fs" and "vm_inv (dirs s) s ps" and "running_once s" and "in_kernel s"
    and "curenv s = Some c" and "env_status (envs s c) = ENV_RUNNING"
    and "j < NENV" and "env_status (envs s j) = ENV_RUNNABLE"
  shows "\<exists>n s'. n < NENV \<and> yields n s = Some s' \<and> curenv s' = Some j"
proof -
  from ring_reach [OF assms(7), of c] obtain t where t: "t < NENV" "(c + t) mod NENV = j" by blast
  from yields_reach [OF assms(1-6) t(2) assms(8)] t(1) show ?thesis by (meson le_less_trans)
qed

theorem sched_bounded_waiting_witness:
  "\<exists>n s'. n < NENV \<and> yields n two_envs = Some s' \<and> curenv s' = Some 1"
proof (rule sched_bounded_waiting [OF two_envs_inv(1-4)])
  show "curenv two_envs = Some 0" "env_status (envs two_envs 0) = ENV_RUNNING"
    by (simp_all add: two_envs_def curenv_def)
  show "env_status (envs two_envs 1) = ENV_RUNNABLE"
    using booted2_inv(4) by (simp add: two_envs_def)
qed simp

end
