(* ===== verification/Syscall.thy ===== *)
theory Syscall
  imports Sched
begin

text \<open>
  The system calls, \<^verbatim>\<open>kern/syscall.c\<close>. A call either returns a value to the trap handler (\<open>Ret\<close>), or leaves
  the kernel by scheduling another environment. User memory is read and written through the page
  directory the processor has loaded; a fault while the kernel does so, a null dereference and a failed
  assertion are \<open>Panic\<close>.

  Shown are the exact effect of the calls that change address spaces, that no call can grant itself
  write access to a page it may only read, who may change whom, and the send and receive handshake.
\<close>

unbundle bit_operations_syntax

section \<open>Sequencing\<close>

definition obind :: "'a outcome \<Rightarrow> ('a \<Rightarrow> kstate \<Rightarrow> 'b outcome) \<Rightarrow> 'b outcome" where
  "obind m f = (case m of Ret a s \<Rightarrow> f a s | Leave s \<Rightarrow> Leave s | Monitor s \<Rightarrow> Monitor s | Panic \<Rightarrow> Panic)"

definition lift :: "('a \<times> kstate) option \<Rightarrow> 'a outcome" where
  "lift m = (case m of None \<Rightarrow> Panic | Some (a, s) \<Rightarrow> Ret a s)"

definition deref :: "nat option \<Rightarrow> (nat \<Rightarrow> 'a outcome) \<Rightarrow> 'a outcome" where
  "deref p f = (case p of None \<Rightarrow> Panic | Some e \<Rightarrow> f e)"

lemma seq_simps [simp]:
  "obind (Ret a s) f = f a s" "obind (Leave s) f = Leave s" "obind (Monitor s) f = Monitor s"
  "obind Panic f = Panic" "lift None = Panic" "lift (Some (a, s)) = Ret a s"
  "deref None g = Panic" "deref (Some e) g = g e"
  by (simp_all add: obind_def lift_def deref_def)

section \<open>User memory\<close>

definition load_byte :: "kstate \<Rightarrow> u32 \<Rightarrow> u8 option" where
  "load_byte s va = map_option (\<lambda>(p, k). page_byte s p k) (translate s va False)"

fun load_bytes :: "kstate \<Rightarrow> u32 \<Rightarrow> nat \<Rightarrow> u8 list option" where
  "load_bytes s va 0 = Some []"
| "load_bytes s va (Suc n) =
     do { b \<leftarrow> load_byte s va; bs \<leftarrow> load_bytes s (va + 1) n; Some (b # bs) }"

definition load_half :: "kstate \<Rightarrow> u32 \<Rightarrow> u16 option" where
  "load_half s va =
     do { a \<leftarrow> load_byte s va; b \<leftarrow> load_byte s (va + 1); Some (ucast a OR push_bit 8 (ucast b)) }"

definition load_word :: "kstate \<Rightarrow> u32 \<Rightarrow> u32 option" where
  "load_word s va =
     do { a \<leftarrow> load_half s va; b \<leftarrow> load_half s (va + 2); Some (ucast a OR push_bit 16 (ucast b)) }"

definition word_bytes :: "u32 \<Rightarrow> u8 list" where
  "word_bytes w = [ucast w, ucast (drop_bit 8 w), ucast (drop_bit 16 w), ucast (drop_bit 24 w)]"

definition store_word :: "kstate \<Rightarrow> u32 \<Rightarrow> u32 \<Rightarrow> kstate option" where
  "store_word s va w = store_bytes s va (word_bytes w)"

definition load_tf :: "kstate \<Rightarrow> u32 \<Rightarrow> Trapframe option" where
  "load_tf s va =
     do { edi \<leftarrow> load_word s va; esi \<leftarrow> load_word s (va + 4); ebp \<leftarrow> load_word s (va + 8);
          oesp \<leftarrow> load_word s (va + 12); ebx \<leftarrow> load_word s (va + 16); edx \<leftarrow> load_word s (va + 20);
          ecx \<leftarrow> load_word s (va + 24); eax \<leftarrow> load_word s (va + 28);
          es \<leftarrow> load_half s (va + 32); ds \<leftarrow> load_half s (va + 36);
          trapno \<leftarrow> load_word s (va + 40); err \<leftarrow> load_word s (va + 44); eip \<leftarrow> load_word s (va + 48);
          cs \<leftarrow> load_half s (va + 52); eflags \<leftarrow> load_word s (va + 56); esp \<leftarrow> load_word s (va + 60);
          ss \<leftarrow> load_half s (va + 64);
          Some \<lparr>tf_regs = \<lparr>reg_edi = edi, reg_esi = esi, reg_ebp = ebp, reg_oesp = oesp, reg_ebx = ebx,
                  reg_edx = edx, reg_ecx = ecx, reg_eax = eax\<rparr>,
                tf_es = es, tf_ds = ds, tf_trapno = trapno, tf_err = err, tf_eip = eip, tf_cs = cs,
                tf_eflags = eflags, tf_esp = esp, tf_ss = ss\<rparr> }"

section \<open>Console, clock and network calls\<close>

text \<open>
  \<^verbatim>\<open>cprintf("%.*s", len, s)\<close> as \<^verbatim>\<open>vprintfmt\<close> executes it: each character is read before the remaining
  precision is tested, and a negative precision is no limit.
\<close>

partial_function (option) print_str :: "kstate \<Rightarrow> u32 \<Rightarrow> int \<Rightarrow> kstate option" where
  "print_str s va precision =
     do { ch \<leftarrow> load_byte s va;
          if ch = 0 then Some s
          else if precision < 0
          then print_str (s\<lparr>console := cons_putc (scast ch) (console s)\<rparr>) (va + 1) precision
          else if precision - 1 \<ge> 0
          then print_str (s\<lparr>console := cons_putc (scast ch) (console s)\<rparr>) (va + 1) (precision - 1)
          else Some s }"

definition null_str :: "u32 list" where
  "null_str = [40, 110, 117, 108, 108, 41]"

definition print_arg :: "kstate \<Rightarrow> u32 \<Rightarrow> int \<Rightarrow> kstate option" where
  "print_arg s va precision =
     (if va = 0
      then Some (s\<lparr>console := fold cons_putc
             (if precision < 0 then null_str else take (nat precision) null_str) (console s)\<rparr>)
      else print_str s va precision)"

definition sys_cputs :: "kstate \<Rightarrow> u32 \<Rightarrow> u32 \<Rightarrow> unit outcome" where
  "sys_cputs s va len =
     deref (curenv s) (\<lambda>e. obind (user_mem_assert s e va len 0) (\<lambda>_ s.
       case print_arg s va (sint len) of None \<Rightarrow> Panic | Some s \<Rightarrow> Ret () s))"

definition sys_cgetc :: "kstate \<Rightarrow> int outcome" where
  "sys_cgetc s =
     (case cons_getc (console s) of None \<Rightarrow> Panic | Some (c, con) \<Rightarrow> Ret c (s\<lparr>console := con\<rparr>))"

definition sys_time_msec :: "kstate \<Rightarrow> int outcome" where
  "sys_time_msec s = Ret (sint (time_msec s)) s"

definition sys_txpacket :: "kstate \<Rightarrow> u32 \<Rightarrow> u32 \<Rightarrow> int outcome" where
  "sys_txpacket s src len =
     deref (curenv s) (\<lambda>e. obind (user_mem_assert s e src len PTE_U) (\<lambda>_ s.
       if tx_status (txqueue (nic s) (unat (E1000REG (nic s) TDT))) AND TXD_STAT_DD = 0 then Ret (- 1) s
       else case load_bytes s src (min (unat len) TXBUFFSIZE) of
              None \<Rightarrow> Panic
            | Some bs \<Rightarrow> (case txpacket (nic s) bs of (r, nic1) \<Rightarrow> Ret r (s\<lparr>nic := nic1\<rparr>))))"

definition sys_rxpacket :: "kstate \<Rightarrow> u32 \<Rightarrow> int outcome" where
  "sys_rxpacket s dst =
     deref (curenv s) (\<lambda>e. obind (user_mem_assert s e dst (of_nat RXBUFFSIZE) PTE_U) (\<lambda>_ s.
       case rxpacket (nic s) of (bs, r, nic1) \<Rightarrow>
         (case store_bytes s dst bs of None \<Rightarrow> Panic | Some s \<Rightarrow> Ret r (s\<lparr>nic := nic1\<rparr>))))"

section \<open>Environment calls\<close>

definition sys_getenvid :: "kstate \<Rightarrow> int outcome" where
  "sys_getenvid s = deref (curenv s) (\<lambda>e. Ret (sint (env_id (envs s e))) s)"

text \<open>\<^verbatim>\<open>envid2env\<close> with the error returned at once and the environment passed on.\<close>

definition with_env :: "kstate \<Rightarrow> u32 \<Rightarrow> bool \<Rightarrow> (int \<Rightarrow> int) \<Rightarrow> (nat \<Rightarrow> int outcome) \<Rightarrow> int outcome" where
  "with_env s envid checkperm err f =
     (case envid2env s envid checkperm of
        None \<Rightarrow> Panic
      | Some (r, e) \<Rightarrow> if r < 0 then Ret (err r) s else deref e f)"

definition sys_env_destroy :: "kstate \<Rightarrow> u32 \<Rightarrow> int outcome" where
  "sys_env_destroy s envid =
     with_env s envid True (\<lambda>r. r) (\<lambda>e. obind (env_destroy s e) (\<lambda>_ s. Ret 0 s))"

definition sys_yield :: "kstate \<Rightarrow> unit outcome" where
  "sys_yield s = sched_yield s"

definition sys_exofork :: "kstate \<Rightarrow> int outcome" where
  "sys_exofork s =
     deref (curenv s) (\<lambda>cur.
       obind (lift (env_alloc s (env_id (envs s cur)))) (\<lambda>(ret, newenv) s.
         if ret < 0 then Ret ret s
         else deref newenv (\<lambda>e.
           let tf = env_tf (envs s cur);
               s = upd_env e (\<lambda>en. en\<lparr>env_status := ENV_NOT_RUNNABLE,
                     env_tf := tf\<lparr>tf_regs := (tf_regs tf)\<lparr>reg_eax := 0\<rparr>\<rparr>\<rparr>) s
           in Ret (sint (env_id (envs s e))) s)))"

definition sys_env_set_status :: "kstate \<Rightarrow> u32 \<Rightarrow> u32 \<Rightarrow> int outcome" where
  "sys_env_set_status s envid status =
     (if status \<noteq> 2 \<and> status \<noteq> 4 then Ret (- E_INVAL) s
      else with_env s envid True (\<lambda>r. r) (\<lambda>e.
        Ret 0 (upd_env e (\<lambda>en. en\<lparr>env_status := (if status = 2 then ENV_RUNNABLE else ENV_NOT_RUNNABLE)\<rparr>) s)))"

definition user_tf :: "Trapframe \<Rightarrow> Trapframe" where
  "user_tf tf = tf\<lparr>tf_cs := tf_cs tf OR 3, tf_eflags := (tf_eflags tf AND NOT FL_IOPL_3) OR FL_IF\<rparr>"

definition sys_env_set_trapframe :: "kstate \<Rightarrow> u32 \<Rightarrow> u32 \<Rightarrow> int outcome" where
  "sys_env_set_trapframe s envid tf =
     with_env s envid True (\<lambda>_. - E_BAD_ENV) (\<lambda>e.
       obind (user_mem_assert s e tf 68 PTE_U) (\<lambda>_ s.
         case load_tf s tf of
           None \<Rightarrow> Panic
         | Some t \<Rightarrow> Ret 0 (upd_env e (\<lambda>en. en\<lparr>env_tf := user_tf t\<rparr>) s)))"

definition sys_env_set_pgfault_upcall :: "kstate \<Rightarrow> u32 \<Rightarrow> u32 \<Rightarrow> int outcome" where
  "sys_env_set_pgfault_upcall s envid func =
     with_env s envid True (\<lambda>_. - E_BAD_ENV) (\<lambda>e.
       Ret 0 (upd_env e (\<lambda>en. en\<lparr>env_pgfault_upcall := func\<rparr>) s))"

section \<open>Address space calls\<close>

definition sys_page_alloc :: "kstate \<Rightarrow> u32 \<Rightarrow> u32 \<Rightarrow> u32 \<Rightarrow> int outcome" where
  "sys_page_alloc s envid va perm =
     (if va \<ge> UTOP then Ret (- E_INVAL) s
      else if perm AND PTE_U = 0 \<or> perm AND PTE_P = 0 then Ret (- E_BAD_ENV) s
      else if perm AND NOT (PTE_U OR PTE_P OR PTE_W OR PTE_AVAIL) \<noteq> 0 then Ret (- E_NO_MEM) s
      else with_env s envid True (\<lambda>_. - E_BAD_ENV) (\<lambda>e.
        obind (lift (page_alloc s False)) (\<lambda>r s.
          case r of
            None \<Rightarrow> Ret (- E_NO_MEM) s
          | Some p \<Rightarrow>
              obind (lift (page_insert s (env_pgdir (envs s e)) p va perm)) (\<lambda>r s.
                if r < 0 then (case page_free s p of None \<Rightarrow> Panic | Some s \<Rightarrow> Ret (- E_NO_MEM) s)
                else (case page2kva s p of None \<Rightarrow> Panic | Some kva \<Rightarrow> Ret 0 (zero_page kva s))))))"

definition sys_page_map :: "kstate \<Rightarrow> u32 \<Rightarrow> u32 \<Rightarrow> u32 \<Rightarrow> u32 \<Rightarrow> u32 \<Rightarrow> int outcome" where
  "sys_page_map s srcenvid srcva dstenvid dstva perm =
     with_env s srcenvid True (\<lambda>_. - E_BAD_ENV) (\<lambda>srcenv.
       with_env s dstenvid True (\<lambda>_. - E_BAD_ENV) (\<lambda>dstenv.
         if srcva \<ge> UTOP \<or> PGOFF srcva \<noteq> 0 \<or> dstva \<ge> UTOP \<or> PGOFF dstva \<noteq> 0 then Ret (- E_INVAL) s
         else if perm AND PTE_U = 0 \<or> perm AND PTE_P = 0 \<or> perm AND NOT PTE_SYSCALL \<noteq> 0
         then Ret (- E_INVAL) s
         else case page_lookup s (env_pgdir (envs s srcenv)) srcva of
                None \<Rightarrow> Panic
              | Some None \<Rightarrow> Ret (- E_INVAL) s
              | Some (Some (p, t, j)) \<Rightarrow>
                  if perm AND PTE_W \<noteq> 0 \<and> frames s t j AND PTE_W = 0 then Ret (- E_INVAL) s
                  else obind (lift (page_insert s (env_pgdir (envs s dstenv)) p dstva perm)) (\<lambda>r s.
                    if r < 0 then Ret (- E_NO_MEM) s else Ret 0 s)))"

definition sys_page_unmap :: "kstate \<Rightarrow> u32 \<Rightarrow> u32 \<Rightarrow> int outcome" where
  "sys_page_unmap s envid va =
     with_env s envid True (\<lambda>_. - E_BAD_ENV) (\<lambda>e.
       if va \<ge> UTOP \<or> PGOFF va \<noteq> 0 then Ret (- E_INVAL) s
       else case page_remove s (env_pgdir (envs s e)) va of None \<Rightarrow> Panic | Some s \<Rightarrow> Ret 0 s)"

section \<open>Message passing\<close>

definition ipc_deliver :: "kstate \<Rightarrow> nat \<Rightarrow> u32 \<Rightarrow> int outcome" where
  "ipc_deliver s env value =
     deref (curenv s) (\<lambda>cur.
       Ret 0 (upd_env env (\<lambda>en. en\<lparr>env_ipc_from := env_id (envs s cur), env_ipc_recving := False,
         env_ipc_value := value, env_status := ENV_RUNNABLE,
         env_tf := (env_tf en)\<lparr>tf_regs := (tf_regs (env_tf en))\<lparr>reg_eax := 0\<rparr>\<rparr>\<rparr>) s))"

definition sys_ipc_try_send :: "kstate \<Rightarrow> u32 \<Rightarrow> u32 \<Rightarrow> u32 \<Rightarrow> u32 \<Rightarrow> int outcome" where
  "sys_ipc_try_send s envid value srcva perm =
     with_env s envid False (\<lambda>_. - E_BAD_ENV) (\<lambda>env.
       if \<not> env_ipc_recving (envs s env) \<or> env_ipc_from (envs s env) \<noteq> 0 then Ret (- E_IPC_NOT_RECV) s
       else if srcva < UTOP \<and> PGOFF srcva \<noteq> 0 then Ret (- E_INVAL) s
       else if srcva < UTOP \<and> (perm AND PTE_P = 0 \<or> perm AND PTE_U = 0) then Ret (- E_INVAL) s
       else if srcva < UTOP \<and> perm AND NOT (PTE_P OR PTE_U OR PTE_W OR PTE_AVAIL) \<noteq> 0
       then Ret (- E_INVAL) s
       else if srcva < UTOP
       then deref (curenv s) (\<lambda>cur.
         case page_lookup s (env_pgdir (envs s cur)) srcva of
           None \<Rightarrow> Panic
         | Some None \<Rightarrow> Ret (- E_INVAL) s
         | Some (Some (pp, t, j)) \<Rightarrow>
             if perm AND PTE_W \<noteq> 0 \<and> frames s t j AND PTE_W = 0 then Ret (- E_INVAL) s
             else if env_ipc_dstva (envs s env) \<noteq> 0
             then obind (lift (page_insert s (env_pgdir (envs s env)) pp (env_ipc_dstva (envs s env)) perm))
               (\<lambda>r s. if r < 0 then Ret (- E_NO_MEM) s
                      else ipc_deliver (upd_env env (\<lambda>en. en\<lparr>env_ipc_perm := perm\<rparr>) s) env value)
             else ipc_deliver s env value)
       else ipc_deliver s env value)"

definition sys_ipc_recv :: "kstate \<Rightarrow> u32 \<Rightarrow> int outcome" where
  "sys_ipc_recv s dstva =
     (if dstva < UTOP \<and> PGOFF dstva \<noteq> 0 then Ret (- E_INVAL) s
      else deref (curenv s) (\<lambda>cur.
        let s = upd_env cur (\<lambda>en. en\<lparr>env_ipc_recving := True, env_ipc_dstva := dstva,
                  env_status := ENV_NOT_RUNNABLE, env_ipc_from := 0\<rparr>) s
        in obind (sched_yield s) (\<lambda>_ s. Ret 0 s)))"

section \<open>Dispatch\<close>

definition syscall :: "kstate \<Rightarrow> u32 \<Rightarrow> u32 \<Rightarrow> u32 \<Rightarrow> u32 \<Rightarrow> u32 \<Rightarrow> u32 \<Rightarrow> int outcome" where
  "syscall s syscallno a1 a2 a3 a4 a5 =
     (if syscallno = 0 then obind (sys_cputs s a1 a2) (\<lambda>_ s. Ret 0 s)
      else if syscallno = 1 then sys_cgetc s
      else if syscallno = 2 then sys_getenvid s
      else if syscallno = 3 then sys_env_destroy s a1
      else if syscallno = 4 then sys_page_alloc s a1 a2 a3
      else if syscallno = 5 then sys_page_map s a1 a2 a3 a4 a5
      else if syscallno = 6 then sys_page_unmap s a1 a2
      else if syscallno = 7 then sys_exofork s
      else if syscallno = 8 then sys_env_set_status s a1 a2
      else if syscallno = 9 then sys_env_set_trapframe s a1 a2
      else if syscallno = 10 then sys_env_set_pgfault_upcall s a1 a2
      else if syscallno = 11 then obind (sys_yield s) (\<lambda>_ s. Ret 0 s)
      else if syscallno = 12 then sys_ipc_try_send s a1 a2 a3 a4
      else if syscallno = 13 then sys_ipc_recv s a1
      else if syscallno = 14 then sys_time_msec s
      else if syscallno = 15 then sys_txpacket s a1 a2
      else if syscallno = 16 then sys_rxpacket s a1
      else Ret (- E_INVAL) s)"

section \<open>Who may change whom\<close>

text \<open>The environment itself and its parent.\<close>

definition authorised :: "kstate \<Rightarrow> nat \<Rightarrow> bool" where
  "authorised s e \<longleftrightarrow> (case curenv s of
     None \<Rightarrow> False
   | Some c \<Rightarrow> e = c \<or> env_parent_id (envs s e) = env_id (envs s c))"

lemma with_env_cases:
  assumes "curenv s = Some c" and "c \<in> live s"
  obtains (bad) "\<And>err f. with_env s envid True err f = Ret (err (- E_BAD_ENV)) s" "envid \<noteq> 0"
  | (ok) e where "\<And>err f. with_env s envid True err f = f e" "e \<in> live s" "authorised s e"
      "envid = 0 \<Longrightarrow> e = c"
proof (cases "envid = 0")
  case True
  then show ?thesis using ok [of c] assms by (simp add: with_env_def envid2env_def authorised_def)
next
  case False
  let ?e = "ENVX envid"
  have small: "?e < NENV" using word_and_le1 [of envid "1024 - 1"] by (simp add: ENVX_def word_le_nat_alt)
  show ?thesis
  proof (cases "env_status (envs s ?e) = ENV_FREE \<or> env_id (envs s ?e) \<noteq> envid \<or> \<not> authorised s ?e")
    case True
    then have "envid2env s envid True = Some (- E_BAD_ENV, None)"
      using False assms by (auto simp: envid2env_def authorised_def Let_def)
    then show ?thesis using bad False by (simp add: with_env_def)
  next
    case f: False
    then have "envid2env s envid True = Some (0, Some ?e)"
      using False assms by (auto simp: envid2env_def authorised_def Let_def)
    then show ?thesis using ok [of ?e] f small False by (simp add: with_env_def live_def)
  qed
qed

section \<open>Pages for user mappings\<close>

text \<open>Writes to a page that is neither a directory nor a table do not change the mappings.\<close>

lemma other_page_umap:
  assumes "\<And>q. q \<noteq> p \<Longrightarrow> frames s' q = frames s q" and "p \<notin> D" and "p \<notin> tables D s"
  shows "d \<in> D \<Longrightarrow> utab s' d = utab s d" and "tables D s' = tables D s" and "umap D s' = umap D s"
proof -
  have ut: "utab s' d i = utab s d i" if "d \<in> D" for d i
  proof -
    have "d \<noteq> p" using that assms(2) by blast
    then show ?thesis using assms(1) by (simp add: utab_def)
  qed
  then show "d \<in> D \<Longrightarrow> utab s' d = utab s d" by blast
  show "tables D s' = tables D s" using ut by (auto simp: tables_def)
  show "umap D s' = umap D s"
  proof (rule ext, clarify)
    fix d i j
    show "umap D s' (d, i, j) = umap D s (d, i, j)"
    proof (cases "d \<in> D \<and> i < NUPD")
      case True
      then have "frames s' t = frames s t" if "utab s d i = Some t" for t
        using that assms(1) [of t] assms(3) by (auto simp: tables_def)
      then show ?thesis using True ut by (auto simp: umap_def split: option.split)
    qed (auto simp: umap_def)
  qed
qed

lemma other_page_inv:
  assumes "vm_inv D s ps" and "p \<notin> D" and "p \<notin> tables D s"
    and "\<And>q. q \<noteq> p \<Longrightarrow> frames s' q = frames s q" and "pages s' = pages s" and "npages s' = npages s"
    and "page_free_list s' = page_free_list s"
  shows "vm_inv D s' ps"
proof -
  note same = other_page_umap [of p s' s D, OF assms(4,2,3)]
  have own: "owned s' ps q = owned s ps q" for q using assms(5,6) by (simp add: owned_def)
  have "vm_dirs D s' ps = vm_dirs D s ps"
    unfolding vm_dirs_def own using assms(5-7) same(1) by (simp add: free_list_def cong: conj_cong ball_cong)
  moreover have "user_page D s' ps q n = user_page D s ps q n" for q n
    using assms(5,6) same(2) by (simp add: user_page_def)
  ultimately show ?thesis using assms(1) same(3) by (simp add: vm_inv_def vm_counts_def)
qed

lemma free_page_unmapped:
  assumes "vm_inv D s ps" and "p \<in> set ps"
  shows "p \<notin> D" and "p \<notin> tables D s" and "count (umap D s) p = 0"
proof -
  note c = vm_invD(1) [OF assms(1)]
  show "p \<notin> D" "p \<notin> tables D s"
    using vm_countsD(1) [OF c] assms(2) unfolding vm_dirs_def tables_def owned_def by blast+
  show "count (umap D s) p = 0"
    using vm_countsD(4) [OF c, of p] assms(2) by (auto simp: user_page_def)
qed

lemma alloc_user_page:
  assumes "vm_inv D s (p # ps)"
  obtains s' where "page_alloc s False = Some (Some p, s')" "vm_inv D s' ps" "umap D s' = umap D s"
    "user_page D s' ps p 0" "mem_frame s s'" "utab s' = utab s"
proof -
  note c = vm_invD(1) [OF assms]
  note free = free_page_unmapped [OF assms list.set_intros(1)]
  have fl: "free_list s (p # ps)" using vm_countsD(2) [OF c] .
  obtain s' where s': "page_alloc s False = Some (Some p, s')" using page_alloc_Cons [OF fl, of False] by blast
  note al = free_list_alloc [OF fl s']
  note fr = page_alloc_frame [OF s']
  have m: "mem_frame s s'" using fr by (simp add: mem_frame_def)
  have frames: "frames s' = frames s" using al(7) by simp
  have "vm_counts D s' ps ((count (umap D s))(p := 0))"
    using al(2,4) frames fr(1) by (intro counts_other_page [OF c free(1,2)]) auto
  then have "vm_inv D s' ps" using free(3) frames_cong(3) [OF frames, of D] by (simp add: vm_inv_def fun_upd_idem)
  moreover have "user_page D s' ps p 0"
    using al(3,5,6) free(1,2) frames_cong(2) [OF frames, of D] al(2) by (simp add: user_page_def fresh_page_def)
  ultimately show ?thesis using that [OF s'] m frames_cong(1,3) [OF frames] by blast
qed

lemma free_user_page:
  assumes "vm_inv D s ps" and "user_page D s ps p 0" and "count (umap D s) p = 0"
  obtains s' where "page_free s p = Some s'" "vm_inv D s' (p # ps)" "umap D s' = umap D s" "mem_frame s s'"
proof -
  note c = vm_invD(1) [OF assms(1)]
  have fl: "free_list s ps" using vm_countsD(2) [OF c] .
  have p: "p \<notin> D" "p \<notin> tables D s" using assms(2) by (simp_all add: user_page_def)
  have "fresh_page s p"
    using assms(2) fl by (auto simp: user_page_def fresh_page_def unat_eq_zero dest: free_list_unique)
  from page_free_fresh [OF fl this] obtain s' where
    s': "page_free s p = Some s'" "free_list s' (p # ps)" "frames s' = frames s"
      "\<forall>q. q \<noteq> p \<longrightarrow> pages s' q = pages s q" by auto
  have "vm_counts D s' (p # ps) ((count (umap D s))(p := 0))"
    using s' page_free_frame(1) [OF s'(1)] by (intro counts_other_page [OF c p]) auto
  then have "vm_inv D s' (p # ps)" using assms(3) frames_cong(3) [OF s'(3), of D] by (simp add: vm_inv_def fun_upd_idem)
  moreover have "mem_frame s s'"
    using s'(1) by (auto simp: page_free_def mem_frame_def upd_page_def split: if_splits)
  ultimately show ?thesis using that [OF s'(1)] frames_cong(3) [OF s'(3)] by blast
qed

section \<open>The address space calls\<close>

lemma mem_frame_envs:
  assumes "mem_frame s s'"
  shows "env_inv s' fs = env_inv s fs" and "dirs s' = dirs s" and "live s' = live s" and "curenv s' = curenv s"
proof -
  have e: "envs s' = envs s" "env_free_list s' = env_free_list s" using assms by (simp_all add: mem_frame_def)
  show "env_inv s' fs = env_inv s fs" using e by (rule env_inv_cong)
  show "dirs s' = dirs s" "live s' = live s" using e(1) by (rule dirs_cong, rule live_cong)
  show "curenv s' = curenv s" using assms by (simp add: mem_frame_def curenv_def)
qed

lemma bits_subset:
  assumes "x AND NOT m = 0" and "m AND NOT n = 0"
  shows "x AND NOT n = (0 :: u32)"
proof (rule bit_word_eqI)
  fix k :: nat
  assume k: "k < LENGTH(32)"
  have "\<not> bit (x AND NOT m) k" "\<not> bit (m AND NOT n) k" using assms by simp_all
  then show "bit (x AND NOT n) k \<longleftrightarrow> bit (0 :: u32) k" using k by (auto simp: bit_simps)
qed

lemma perm_bits_syscall: "perm AND NOT PTE_SYSCALL = 0 \<Longrightarrow> perm_bits perm"
  unfolding perm_bits_def by (erule bits_subset) (simp add: PTE_SYSCALL_def)

lemma PTE_SYSCALL_eq:
  "PTE_U OR PTE_P OR PTE_W OR PTE_AVAIL = PTE_SYSCALL" "PTE_P OR PTE_U OR PTE_W OR PTE_AVAIL = PTE_SYSCALL"
  by (simp_all add: PTE_SYSCALL_def)

lemma live_dir:
  assumes "env_inv s fs" and "e \<in> live s"
  obtains d where "env_pgdir (envs s e) = Some d" "d \<in> dirs s"
  using assms unfolding env_inv_def dirs_def by blast

text \<open>Permissions a user may ask for: user and present, perhaps writable, and the free bits.\<close>

definition user_perm :: "u32 \<Rightarrow> bool" where
  "user_perm perm \<longleftrightarrow> perm AND PTE_U \<noteq> 0 \<and> perm AND PTE_P \<noteq> 0 \<and> perm AND NOT PTE_SYSCALL = 0"

lemma sys_page_alloc_spec:
  assumes "env_inv s fs" and "vm_inv (dirs s) s ps" and "curenv s = Some c" and "c \<in> live s"
  obtains (fail) r s' ps' where "sys_page_alloc s envid va perm = Ret r s'" "r < 0" "mem_frame s s'"
      "vm_inv (dirs s) s' ps'" "umap (dirs s) s' = umap (dirs s) s"
      "\<not> (va < UTOP \<and> user_perm perm \<and> envid = 0 \<and> 2 \<le> length ps)"
  | (ok) e d p s' ps' where "sys_page_alloc s envid va perm = Ret 0 s'" "mem_frame s s'"
      "vm_inv (dirs s) s' ps'" "e \<in> live s" "authorised s e" "env_pgdir (envs s e) = Some d" "va < UTOP"
      "user_perm perm" "p \<in> set ps" "umap (dirs s) s' = (umap (dirs s) s)(slot d va \<mapsto> mk_pte p perm)"
      "frames s' p = (\<lambda>_. 0)" "envid = 0 \<Longrightarrow> e = c"
proof (cases "va < UTOP \<and> user_perm perm")
  case False
  then have "sys_page_alloc s envid va perm = Ret (if \<not> va < UTOP then - E_INVAL
      else if perm AND PTE_U = 0 \<or> perm AND PTE_P = 0 then - E_BAD_ENV else - E_NO_MEM) s"
    unfolding sys_page_alloc_def user_perm_def PTE_SYSCALL_eq by auto
  then show ?thesis using assms(2) fail False by auto
next
  case True
  let ?k = "\<lambda>e. obind (lift (page_alloc s False)) (\<lambda>r s.
          case r of
            None \<Rightarrow> Ret (- E_NO_MEM) s
          | Some p \<Rightarrow>
              obind (lift (page_insert s (env_pgdir (envs s e)) p va perm)) (\<lambda>r s.
                if r < 0 then (case page_free s p of None \<Rightarrow> Panic | Some s \<Rightarrow> Ret (- E_NO_MEM) s)
                else (case page2kva s p of None \<Rightarrow> Panic | Some kva \<Rightarrow> Ret 0 (zero_page kva s))))"
  have op: "sys_page_alloc s envid va perm = with_env s envid True (\<lambda>_. - E_BAD_ENV) ?k"
    using True unfolding sys_page_alloc_def user_perm_def PTE_SYSCALL_eq by auto
  from assms(3,4) show ?thesis
  proof (cases rule: with_env_cases [of s c envid])
    case bad
    then show ?thesis using fail [of "- E_BAD_ENV" s ps] assms(2) op by simp
  next
    case e: (ok e)
    obtain d where d: "env_pgdir (envs s e) = Some d" "d \<in> dirs s" using live_dir [OF assms(1) e(2)] .
    show ?thesis
    proof (cases ps)
      case Nil
      then have "free_list s []" using vm_countsD(2) [OF vm_invD(1) [OF assms(2)]] by simp
      then show ?thesis using fail [of "- E_NO_MEM" s ps] assms(2) op e(1) Nil by (simp add: page_alloc_Nil)
    next
      case (Cons p qs)
      obtain s1 where s1: "page_alloc s False = Some (Some p, s1)" "vm_inv (dirs s) s1 qs"
          "umap (dirs s) s1 = umap (dirs s) s" "user_page (dirs s) s1 qs p 0" "mem_frame s s1"
        using alloc_user_page [OF assms(2) [unfolded Cons]] by metis
      have zero: "count (umap (dirs s) s) p = 0" using free_page_unmapped(3) [OF assms(2)] Cons by simp
      have pd: "env_pgdir (envs s1 e) = Some d" using d(1) s1(5) by (simp add: mem_frame_def)
      have small: "p < npages s1" "npages s1 \<le> 65536"
        using s1(4) vm_countsD(2) [OF vm_invD(1) [OF s1(2)]] by (simp_all add: user_page_def free_list_def)
      have bits: "perm_bits perm" using True perm_bits_syscall by (simp add: user_perm_def)
      from page_insert_refines [OF s1(2) d(2) _ bits, of va p] True s1(3,4) zero
      consider "qs = []" "page_insert s1 (Some d) p va perm = Some (- E_NO_MEM, s1)"
        | s2 rs where "page_insert s1 (Some d) p va perm = Some (0, s2)" "vm_inv (dirs s) s2 rs"
            "umap (dirs s) s2 = (umap (dirs s) s)(slot d va \<mapsto> mk_pte p perm)" "mem_frame s1 s2"
        by auto
      then show ?thesis
      proof cases
        case 1
        obtain s2 where s2: "page_free s1 p = Some s2" "vm_inv (dirs s) s2 (p # qs)"
            "umap (dirs s) s2 = umap (dirs s) s1" "mem_frame s1 s2"
          using free_user_page [OF s1(2,4)] zero s1(3) by metis
        show ?thesis
          using fail [of "- E_NO_MEM" s2 "p # qs"] op e(1) s1 pd 1 Cons s2 mem_frame_trans [OF s1(5) s2(4)] by simp
      next
        case (2 s2 rs)
        let ?s3 = "zero_page p s2"
        have "pfn (mk_pte p perm) = p" using small bits by (simp add: pfn_mk_pte)
        then have p: "p \<notin> dirs s" "p \<notin> tables (dirs s) s2"
          using vm_inv_user [OF 2(2), of "slot d va"] 2(3) by (simp_all add: user_page_def)
        have fr: "\<And>q. q \<noteq> p \<Longrightarrow> frames ?s3 q = frames s2 q" by simp
        have "npages s2 = npages s1" using 2(4) by (simp add: mem_frame_def)
        then have "sys_page_alloc s envid va perm = Ret 0 ?s3"
          using op e(1) s1(1) pd 2(1) small by simp
        moreover have "mem_frame s ?s3" using mem_frame_trans [OF s1(5) mem_frame_trans [OF 2(4)]] by simp
        moreover have "vm_inv (dirs s) ?s3 rs" by (rule other_page_inv [OF 2(2) p fr]) simp_all
        moreover have "umap (dirs s) ?s3 = (umap (dirs s) s)(slot d va \<mapsto> mk_pte p perm)"
          using other_page_umap(3) [OF fr p] 2(3) by simp
        ultimately show ?thesis using ok [of ?s3 rs e d p, OF _ _ _ e(2,3) d(1)] e(4) True Cons by simp
      qed
    qed
  qed
qed

text \<open>No page is mapped so often that its sixteen-bit reference count could wrap.\<close>

definition refs_bounded :: "kstate \<Rightarrow> bool" where
  "refs_bounded s \<longleftrightarrow> (\<forall>p. count (umap (dirs s) s) p < 65535)"

lemma lookup_user:
  assumes "vm_inv D s ps" and "d \<in> D" and "va < UTOP"
  obtains (unmapped) "page_lookup s (Some d) va = Some None" "umap D s (slot d va) = None"
  | (mapped) pte t where "page_lookup s (Some d) va = Some (Some (pfn pte, t, unat (PTX va)))"
      "umap D s (slot d va) = Some pte" "frames s t (unat (PTX va)) = pte"
      "user_page D s ps (pfn pte) (count (umap D s) (pfn pte))"
proof (cases "umap D s (slot d va)")
  case None
  then show ?thesis
    using unmapped page_lookup_umap(1) [OF vm_invD(1) [OF assms(1)] assms(2)] vm_invD(4) [OF assms(1)] assms(3)
    by (simp add: below_UTOP)
next
  case (Some pte)
  have "unat (PDX va) < NUPD" using assms(3) below_UTOP by simp
  from page_lookup_umap(2) [OF vm_invD(1) [OF assms(1)] assms(2) this _ Some] vm_invD(4) [OF assms(1)]
  obtain t where "frames s t (unat (PTX va)) = pte"
      "page_lookup s (Some d) va = Some (Some (pfn pte, t, unat (PTX va)))" by blast
  then show ?thesis using mapped Some vm_inv_user [OF assms(1) Some] by blast
qed

text \<open>The arguments with which an environment may map one of its pages in its own address space.\<close>

definition map_legal :: "kstate \<Rightarrow> nat \<Rightarrow> u32 \<Rightarrow> u32 \<Rightarrow> u32 \<Rightarrow> bool" where
  "map_legal s c srcva dstva perm \<longleftrightarrow>
     srcva < UTOP \<and> PGOFF srcva = 0 \<and> dstva < UTOP \<and> PGOFF dstva = 0 \<and> user_perm perm \<and>
     (case env_pgdir (envs s c) of
        None \<Rightarrow> False
      | Some d \<Rightarrow> (case umap (dirs s) s (slot d srcva) of
                    None \<Rightarrow> False | Some pte \<Rightarrow> perm AND PTE_W = 0 \<or> pte AND PTE_W \<noteq> 0))"

lemma sys_page_map_spec:
  assumes "env_inv s fs" and "vm_inv (dirs s) s ps" and "curenv s = Some c" and "c \<in> live s"
    and "refs_bounded s"
  obtains (fail) r where "sys_page_map s srcid srcva dstid dstva perm = Ret r s" "r < 0"
      "\<not> (srcid = 0 \<and> dstid = 0 \<and> map_legal s c srcva dstva perm \<and> ps \<noteq> [])"
  | (ok) e d e' d' pte s' ps' where "sys_page_map s srcid srcva dstid dstva perm = Ret 0 s'" "mem_frame s s'"
      "vm_inv (dirs s) s' ps'" "e \<in> live s" "authorised s e" "env_pgdir (envs s e) = Some d"
      "e' \<in> live s" "authorised s e'" "env_pgdir (envs s e') = Some d'" "srcva < UTOP" "dstva < UTOP"
      "user_perm perm" "umap (dirs s) s (slot d srcva) = Some pte"
      "perm AND PTE_W \<noteq> 0 \<Longrightarrow> pte AND PTE_W \<noteq> 0"
      "umap (dirs s) s' = (umap (dirs s) s)(slot d' dstva \<mapsto> mk_pte (pfn pte) perm)"
proof -
  from assms(3,4) show ?thesis
  proof (cases rule: with_env_cases [of s c srcid])
    case bad
    then show ?thesis using fail [of "- E_BAD_ENV"] by (simp add: sys_page_map_def)
  next
    case e: (ok e)
    from assms(3,4) show ?thesis
    proof (cases rule: with_env_cases [of s c dstid])
      case bad
      then show ?thesis using fail [of "- E_BAD_ENV"] e(1) by (simp add: sys_page_map_def)
    next
      case e': (ok e')
      show ?thesis
      proof (cases "srcva < UTOP \<and> PGOFF srcva = 0 \<and> dstva < UTOP \<and> PGOFF dstva = 0 \<and> user_perm perm")
        case False
        then have "sys_page_map s srcid srcva dstid dstva perm = Ret (- E_INVAL) s"
          unfolding sys_page_map_def e(1) e'(1) user_perm_def by auto
        then show ?thesis using fail False by (auto simp: map_legal_def)
      next
        case True
        obtain d where d: "env_pgdir (envs s e) = Some d" "d \<in> dirs s" using live_dir [OF assms(1) e(2)] .
        obtain d' where d': "env_pgdir (envs s e') = Some d'" "d' \<in> dirs s" using live_dir [OF assms(1) e'(2)] .
        have op: "sys_page_map s srcid srcva dstid dstva perm =
            (case page_lookup s (Some d) srcva of
                None \<Rightarrow> Panic
              | Some None \<Rightarrow> Ret (- E_INVAL) s
              | Some (Some (p, t, j)) \<Rightarrow>
                  if perm AND PTE_W \<noteq> 0 \<and> frames s t j AND PTE_W = 0 then Ret (- E_INVAL) s
                  else obind (lift (page_insert s (Some d') p dstva perm)) (\<lambda>r s.
                    if r < 0 then Ret (- E_NO_MEM) s else Ret 0 s))"
          using True unfolding sys_page_map_def e(1) e'(1) user_perm_def d(1) d'(1) by auto
        have dc: "env_pgdir (envs s c) = Some d" if "srcid = 0"
          using e(4) [OF that] d(1) by simp
        have va: "srcva < UTOP" using True by blast
        from assms(2) d(2) va show ?thesis
        proof (cases rule: lookup_user)
          case unmapped
          then have "\<not> (srcid = 0 \<and> map_legal s c srcva dstva perm)" using dc by (auto simp: map_legal_def)
          then show ?thesis using fail [of "- E_INVAL"] op unmapped by auto
        next
          case m: (mapped pte t)
          show ?thesis
          proof (cases "perm AND PTE_W \<noteq> 0 \<and> pte AND PTE_W = 0")
            case True
            then have "\<not> (srcid = 0 \<and> map_legal s c srcva dstva perm)" using dc m(2) by (auto simp: map_legal_def)
            then show ?thesis using fail [of "- E_INVAL"] op m True by auto
          next
            case w: False
            have bits: "perm_bits perm" using True perm_bits_syscall by (simp add: user_perm_def)
            have small: "count (umap (dirs s) s) (pfn pte) < 65535" using assms(5) by (simp add: refs_bounded_def)
            have va': "dstva < UTOP" using True by blast
            have op': "sys_page_map s srcid srcva dstid dstva perm =
                obind (lift (page_insert s (Some d') (pfn pte) dstva perm)) (\<lambda>r s.
                    if r < 0 then Ret (- E_NO_MEM) s else Ret 0 s)"
              using op m w by auto
            from page_insert_refines [OF assms(2) d'(2) va' bits m(4) small]
            show ?thesis
            proof (elim disjE exE conjE)
              assume "ps = []" "page_insert s (Some d') (pfn pte) dstva perm = Some (- E_NO_MEM, s)"
              then show ?thesis using fail [of "- E_NO_MEM"] op' by simp
            next
              fix s' ps'
              assume "page_insert s (Some d') (pfn pte) dstva perm = Some (0, s')" "vm_inv (dirs s) s' ps'"
                "umap (dirs s) s' = (umap (dirs s) s)(slot d' dstva \<mapsto> mk_pte (pfn pte) perm)" "mem_frame s s'"
              then show ?thesis
                using ok [of s' ps' e d e' d' pte] op' e(2,3) e'(2,3) d d' m(2) w True by auto
            qed
          qed
        qed
      qed
    qed
  qed
qed

lemma sys_page_unmap_spec:
  assumes "env_inv s fs" and "vm_inv (dirs s) s ps" and "curenv s = Some c" and "c \<in> live s"
  obtains (fail) r where "sys_page_unmap s envid va = Ret r s" "r < 0"
  | (ok) e d s' ps' where "sys_page_unmap s envid va = Ret 0 s'" "mem_frame s s'" "vm_inv (dirs s) s' ps'"
      "e \<in> live s" "authorised s e" "env_pgdir (envs s e) = Some d" "va < UTOP"
      "umap (dirs s) s' = (umap (dirs s) s)(slot d va := None)"
proof -
  from assms(3,4) show ?thesis
  proof (cases rule: with_env_cases [of s c envid])
    case bad
    then show ?thesis using fail [of "- E_BAD_ENV"] by (simp add: sys_page_unmap_def)
  next
    case e: (ok e)
    obtain d where d: "env_pgdir (envs s e) = Some d" "d \<in> dirs s" using live_dir [OF assms(1) e(2)] .
    show ?thesis
    proof (cases "va < UTOP \<and> PGOFF va = 0")
      case False
      then have "sys_page_unmap s envid va = Ret (- E_INVAL) s" unfolding sys_page_unmap_def e(1) by auto
      then show ?thesis using fail by simp
    next
      case True
      then have va: "va < UTOP" by blast
      from page_remove_refines [OF assms(2) d(2) va] obtain s' ps' where
        "page_remove s (Some d) va = Some s'" "vm_inv (dirs s) s' ps'"
        "umap (dirs s) s' = (umap (dirs s) s)(slot d va := None)" "mem_frame s s'" by blast
      moreover from this have "sys_page_unmap s envid va = Ret 0 s'"
        using True unfolding sys_page_unmap_def e(1) d(1) by auto
      ultimately show ?thesis using ok [of s' ps' e d] e d va by blast
    qed
  qed
qed

section \<open>Changing one environment\<close>

lemma upd_env_inv:
  assumes "env_inv s fs" and "vm_inv (dirs s) s ps"
    and "env_link (f (envs s e)) = env_link (envs s e)" and "env_id (f (envs s e)) = env_id (envs s e)"
    and "env_pgdir (f (envs s e)) = env_pgdir (envs s e)"
    and "env_status (f (envs s e)) = ENV_FREE \<longleftrightarrow> env_status (envs s e) = ENV_FREE"
  shows "env_inv (upd_env e f s) fs" and "vm_inv (dirs s) (upd_env e f s) ps"
    and "dirs (upd_env e f s) = dirs s" and "live (upd_env e f s) = live s"
    and "umap (dirs s) (upd_env e f s) = umap (dirs s) s"
proof -
  note same = kernel_inv_same_envs [OF assms(1), of "upd_env e f s"]
  show "env_inv (upd_env e f s) fs" "dirs (upd_env e f s) = dirs s" "live (upd_env e f s) = live s"
    using same assms(3-6) by simp_all
  show "vm_inv (dirs s) (upd_env e f s) ps" using assms(2) vm_inv_cong [of "upd_env e f s" s] by simp
  show "umap (dirs s) (upd_env e f s) = umap (dirs s) s" by (rule frames_cong) simp
qed

lemma with_env_target:
  assumes "env_inv s fs" and "e \<in> live s"
  shows "with_env s (env_id (envs s e)) False err f = f e"
proof -
  have "env_id (envs s e) \<noteq> 0" "ENVX (env_id (envs s e)) = e" "env_status (envs s e) \<noteq> ENV_FREE"
    using assms env_inv_id [OF assms] by (auto simp: env_inv_def live_def)
  then show ?thesis by (simp add: with_env_def envid2env_def Let_def)
qed

section \<open>Messages\<close>

text \<open>What the receiver finds: \<open>t\<close> was woken with the value, by the environment running in \<open>s\<close>.\<close>

definition delivered :: "kstate \<Rightarrow> kstate \<Rightarrow> nat \<Rightarrow> u32 \<Rightarrow> bool" where
  "delivered s s' t value \<longleftrightarrow>
     (\<exists>c. curenv s = Some c \<and> env_ipc_from (envs s' t) = env_id (envs s c)) \<and>
     \<not> env_ipc_recving (envs s' t) \<and> env_ipc_value (envs s' t) = value \<and>
     env_status (envs s' t) = ENV_RUNNABLE \<and> reg_eax (tf_regs (env_tf (envs s' t))) = 0 \<and>
     env_id (envs s' t) = env_id (envs s t) \<and> (\<forall>x. x \<noteq> t \<longrightarrow> envs s' x = envs s x)"

lemma ipc_deliver_spec:
  assumes "env_inv s fs" and "vm_inv (dirs s) s ps" and "curenv s = Some c" and "t \<in> live s"
  obtains s' where "ipc_deliver s t value = Ret 0 s'" "env_inv s' fs" "vm_inv (dirs s) s' ps"
    "dirs s' = dirs s" "live s' = live s" "umap (dirs s) s' = umap (dirs s) s" "delivered s s' t value"
    "env_ipc_perm (envs s' t) = env_ipc_perm (envs s t)"
proof -
  let ?f = "\<lambda>en. en\<lparr>env_ipc_from := env_id (envs s c), env_ipc_recving := False,
         env_ipc_value := value, env_status := ENV_RUNNABLE,
         env_tf := (env_tf en)\<lparr>tf_regs := (tf_regs (env_tf en))\<lparr>reg_eax := 0\<rparr>\<rparr>\<rparr>"
  let ?s = "upd_env t ?f s"
  have st: "env_status (?f (envs s t)) = ENV_FREE \<longleftrightarrow> env_status (envs s t) = ENV_FREE"
    using assms(4) by (simp add: live_def)
  have "ipc_deliver s t value = Ret 0 ?s" using assms(3) by (simp add: ipc_deliver_def)
  moreover have "delivered s ?s t value" using assms(3) by (simp add: delivered_def)
  ultimately show ?thesis using that upd_env_inv [OF assms(1,2), of ?f t] st by simp
qed

text \<open>A blocked receiver turns away nobody but is closed again after one message.\<close>

lemma send_not_recv:
  assumes "env_inv s fs" and "t \<in> live s" and "\<not> env_ipc_recving (envs s t)"
  shows "sys_ipc_try_send s (env_id (envs s t)) value srcva perm = Ret (- E_IPC_NOT_RECV) s"
  unfolding sys_ipc_try_send_def with_env_target [OF assms(1,2)] using assms(3) by simp

lemma sys_ipc_try_send_spec:
  assumes "env_inv s fs" and "vm_inv (dirs s) s ps" and "curenv s = Some c" and "c \<in> live s"
    and "refs_bounded s" and "t \<in> live s" and "env_ipc_recving (envs s t)" and "env_ipc_from (envs s t) = 0"
    and "env_ipc_dstva (envs s t) < UTOP"
  obtains (fail) r where "sys_ipc_try_send s (env_id (envs s t)) v srcva perm = Ret r s" "r < 0" "srcva < UTOP"
  | (ok) s' ps' where "sys_ipc_try_send s (env_id (envs s t)) v srcva perm = Ret 0 s'"
      "env_inv s' fs" "vm_inv (dirs s) s' ps'" "dirs s' = dirs s" "live s' = live s" "delivered s s' t v"
      "umap (dirs s) s' = umap (dirs s) s \<or>
       (\<exists>d d' pte. env_pgdir (envs s c) = Some d \<and> env_pgdir (envs s t) = Some d' \<and> srcva < UTOP \<and>
          user_perm perm \<and> umap (dirs s) s (slot d srcva) = Some pte \<and>
          (pte AND PTE_W = 0 \<longrightarrow> perm AND PTE_W = 0) \<and> env_ipc_perm (envs s' t) = perm \<and>
          umap (dirs s) s' = (umap (dirs s) s)(slot d' (env_ipc_dstva (envs s t)) \<mapsto> mk_pte (pfn pte) perm))"
proof (cases "srcva < UTOP")
  case False
  obtain s' where s': "ipc_deliver s t v = Ret 0 s'" "env_inv s' fs" "vm_inv (dirs s) s' ps"
    "dirs s' = dirs s" "live s' = live s" "umap (dirs s) s' = umap (dirs s) s" "delivered s s' t v"
    "env_ipc_perm (envs s' t) = env_ipc_perm (envs s t)" by (rule ipc_deliver_spec [OF assms(1,2,3,6)])
  have "sys_ipc_try_send s (env_id (envs s t)) v srcva perm = ipc_deliver s t v"
    unfolding sys_ipc_try_send_def with_env_target [OF assms(1,6)] using False assms(7,8) by simp
  then show ?thesis using ok [of s' ps] s' by simp
next
  case True
  obtain d where d: "env_pgdir (envs s c) = Some d" "d \<in> dirs s" using live_dir [OF assms(1,4)] .
  obtain d' where d': "env_pgdir (envs s t) = Some d'" "d' \<in> dirs s" using live_dir [OF assms(1,6)] .
  show ?thesis
  proof (cases "PGOFF srcva = 0 \<and> user_perm perm")
    case False
    then have "sys_ipc_try_send s (env_id (envs s t)) v srcva perm = Ret (- E_INVAL) s"
      unfolding sys_ipc_try_send_def with_env_target [OF assms(1,6)] user_perm_def PTE_SYSCALL_eq
      using assms(7,8) True by auto
    then show ?thesis using fail True by simp
  next
    case args: True
    let ?dst = "env_ipc_dstva (envs s t)"
    have op: "sys_ipc_try_send s (env_id (envs s t)) v srcva perm =
        (case page_lookup s (Some d) srcva of
           None \<Rightarrow> Panic
         | Some None \<Rightarrow> Ret (- E_INVAL) s
         | Some (Some (pp, t', j)) \<Rightarrow>
             if perm AND PTE_W \<noteq> 0 \<and> frames s t' j AND PTE_W = 0 then Ret (- E_INVAL) s
             else if ?dst \<noteq> 0
             then obind (lift (page_insert s (Some d') pp ?dst perm))
               (\<lambda>r s. if r < 0 then Ret (- E_NO_MEM) s
                      else ipc_deliver (upd_env t (\<lambda>en. en\<lparr>env_ipc_perm := perm\<rparr>) s) t v)
             else ipc_deliver s t v)"
      unfolding sys_ipc_try_send_def with_env_target [OF assms(1,6)] PTE_SYSCALL_eq d'(1)
      using assms(3,7,8) True args d(1) by (auto simp: user_perm_def)
    from assms(2) d(2) True show ?thesis
    proof (cases rule: lookup_user)
      case unmapped
      then show ?thesis using fail op True by simp
    next
      case m: (mapped pte t')
      show ?thesis
      proof (cases "perm AND PTE_W \<noteq> 0 \<and> pte AND PTE_W = 0")
        case w: True
        then show ?thesis using fail [of "- E_INVAL"] op m True by simp
      next
        case w: False
        show ?thesis
        proof (cases "?dst = 0")
          case z: True
          obtain s' where s': "ipc_deliver s t v = Ret 0 s'" "env_inv s' fs" "vm_inv (dirs s) s' ps"
            "dirs s' = dirs s" "live s' = live s" "umap (dirs s) s' = umap (dirs s) s" "delivered s s' t v"
            "env_ipc_perm (envs s' t) = env_ipc_perm (envs s t)" by (rule ipc_deliver_spec [OF assms(1,2,3,6)])
          have "sys_ipc_try_send s (env_id (envs s t)) v srcva perm = ipc_deliver s t v"
            using op m w z by auto
          then show ?thesis using ok [of s' ps] s' by simp
        next
          case nz: False
          have op': "sys_ipc_try_send s (env_id (envs s t)) v srcva perm =
              obind (lift (page_insert s (Some d') (pfn pte) ?dst perm))
               (\<lambda>r s. if r < 0 then Ret (- E_NO_MEM) s
                      else ipc_deliver (upd_env t (\<lambda>en. en\<lparr>env_ipc_perm := perm\<rparr>) s) t v)"
            using op m w nz by auto
          have bits: "perm_bits perm" using args perm_bits_syscall by (simp add: user_perm_def)
          have small: "count (umap (dirs s) s) (pfn pte) < 65535" using assms(5) by (simp add: refs_bounded_def)
          from page_insert_refines [OF assms(2) d'(2) assms(9) bits m(4) small] show ?thesis
          proof (elim disjE exE conjE)
            assume "page_insert s (Some d') (pfn pte) ?dst perm = Some (- E_NO_MEM, s)"
            then show ?thesis using fail [of "- E_NO_MEM"] op' True by simp
          next
            fix s1 ps1
            assume s1: "page_insert s (Some d') (pfn pte) ?dst perm = Some (0, s1)" "vm_inv (dirs s) s1 ps1"
              "umap (dirs s) s1 = (umap (dirs s) s)(slot d' ?dst \<mapsto> mk_pte (pfn pte) perm)" "mem_frame s s1"
            let ?s2 = "upd_env t (\<lambda>en. en\<lparr>env_ipc_perm := perm\<rparr>) s1"
            note fr = mem_frame_envs [OF s1(4)]
            have "env_inv s1 fs" "vm_inv (dirs s1) s1 ps1" using fr(1,2) assms(1) s1(2) by simp_all
            note i2 = upd_env_inv [OF this, of "\<lambda>en. en\<lparr>env_ipc_perm := perm\<rparr>" t, simplified]
            have i2': "vm_inv (dirs ?s2) ?s2 ps1" "curenv ?s2 = Some c" "t \<in> live ?s2" "dirs ?s2 = dirs s"
                "live ?s2 = live s"
              using i2 fr(2-4) assms(3,6) by (simp_all add: curenv_def)
            obtain s' where s': "ipc_deliver ?s2 t v = Ret 0 s'" "env_inv s' fs" "vm_inv (dirs ?s2) s' ps1"
              "dirs s' = dirs ?s2" "live s' = live ?s2" "umap (dirs ?s2) s' = umap (dirs ?s2) ?s2"
              "delivered ?s2 s' t v" "env_ipc_perm (envs s' t) = env_ipc_perm (envs ?s2 t)"
              by (rule ipc_deliver_spec [OF i2(1) i2'(1-3)])
            have "delivered s s' t v"
              using s'(7) i2'(2) assms(3) s1(4) by (auto simp: delivered_def mem_frame_def)
            moreover have "umap (dirs s) s' = (umap (dirs s) s)(slot d' ?dst \<mapsto> mk_pte (pfn pte) perm)"
              using s'(6) i2(5) s1(3) fr(2) i2'(4) by simp
            ultimately show ?thesis
              using ok [of s' ps1] op' s1(1) s' i2'(4,5) d(1) d'(1) True args m(2) w by auto
          qed
        qed
      qed
    qed
  qed
qed

text \<open>The calls that change address spaces, through the dispatcher.\<close>

lemma page_syscalls_spec:
  assumes "env_inv s fs" and "vm_inv (dirs s) s ps" and "curenv s = Some c" and "c \<in> live s"
    and "refs_bounded s" and "no = 4 \<or> no = 5 \<or> no = 6"
  shows "\<exists>r s' ps'. syscall s no a1 a2 a3 a4 a5 = Ret r s' \<and> r \<le> 0 \<and> mem_frame s s' \<and> vm_inv (dirs s) s' ps' \<and>
    (\<forall>d i j. umap (dirs s) s' (d, i, j) = umap (dirs s) s (d, i, j) \<or>
       (\<exists>e \<in> live s. authorised s e \<and> env_pgdir (envs s e) = Some d))"
proof -
  let ?D = "dirs s"
  have conf: ?thesis if "syscall s no a1 a2 a3 a4 a5 = Ret r s'" "r \<le> 0" "mem_frame s s'" "vm_inv ?D s' ps'"
      "umap ?D s' = umap ?D s \<or> (\<exists>e d va v. e \<in> live s \<and> authorised s e \<and> env_pgdir (envs s e) = Some d \<and>
         umap ?D s' = (umap ?D s)(slot d va := v))" for r s' ps'
    using that by (intro exI [of _ r] exI [of _ s'] exI [of _ ps']) auto
  from assms(6) show ?thesis
  proof (elim disjE)
    assume no: "no = 4"
    from assms(1-4) show ?thesis
    proof (cases rule: sys_page_alloc_spec [where envid = a1 and va = a2 and perm = a3])
      case (fail r s' ps')
      then show ?thesis using conf [of r s' ps'] no by (simp add: syscall_def)
    next
      case (ok e d p s' ps')
      then have "syscall s no a1 a2 a3 a4 a5 = Ret 0 s'" using no by (simp add: syscall_def)
      then show ?thesis by (rule conf [OF _ _ ok(2,3)]) (simp, use ok in blast)
    qed
  next
    assume no: "no = 5"
    from assms(1-5) show ?thesis
    proof (cases rule: sys_page_map_spec [where srcid = a1 and srcva = a2 and dstid = a3 and dstva = a4 and perm = a5])
      case (fail r)
      then show ?thesis using conf [of r s ps] no assms(2) by (simp add: syscall_def)
    next
      case (ok e d e' d' pte s' ps')
      then have "syscall s no a1 a2 a3 a4 a5 = Ret 0 s'" using no by (simp add: syscall_def)
      then show ?thesis by (rule conf [OF _ _ ok(2,3)]) (simp, use ok in blast)
    qed
  next
    assume no: "no = 6"
    from assms(1-4) show ?thesis
    proof (cases rule: sys_page_unmap_spec [where envid = a1 and va = a2])
      case (fail r)
      then show ?thesis using conf [of r s ps] no assms(2) by (simp add: syscall_def)
    next
      case (ok e d s' ps')
      then have "syscall s no a1 a2 a3 a4 a5 = Ret 0 s'" using no by (simp add: syscall_def)
      then show ?thesis by (rule conf [OF _ _ ok(2,3)]) (simp, use ok in blast)
    qed
  qed
qed

section \<open>Properties\<close>

text \<open>\<^verbatim>\<open>sys_page_alloc\<close> of a running environment never panics. On error no mapping of any address space
  changes. On success a page that was free, now filled with zeros, is mapped at the address with the
  permission asked for, in the address space of the caller or of one of its children, and no other
  mapping changes. The caller's own call succeeds when the address and the permission are legal and
  two pages are free.\<close>

lemma sys_page_alloc_maps_zero_page:
  assumes "env_inv s fs" and "vm_inv (dirs s) s ps" and "curenv s = Some c" and "c \<in> live s"
  shows "\<exists>r s'. sys_page_alloc s envid va perm = Ret r s' \<and> kernel_inv s' \<and> envs s' = envs s \<and>
    (if r = 0
     then \<exists>e d p. e \<in> live s \<and> authorised s e \<and> env_pgdir (envs s e) = Some d \<and> va < UTOP \<and> user_perm perm \<and>
       p \<in> set ps \<and> umap (dirs s) s' = (umap (dirs s) s)(slot d va \<mapsto> mk_pte p perm) \<and> frames s' p = (\<lambda>_. 0)
     else r < 0 \<and> umap (dirs s) s' = umap (dirs s) s \<and>
       \<not> (va < UTOP \<and> user_perm perm \<and> envid = 0 \<and> 2 \<le> length ps))"
  using assms
proof (cases rule: sys_page_alloc_spec [where envid = envid and va = va and perm = perm])
  case (fail r s' ps')
  have "kernel_inv s'" "envs s' = envs s"
    using mem_frame_envs [OF fail(3)] fail(3,4) assms(1) unfolding kernel_inv_def by (auto simp: mem_frame_def)
  then show ?thesis using fail by (intro exI [of _ r] exI [of _ s']) simp
next
  case (ok e d p s' ps')
  have "kernel_inv s'" "envs s' = envs s"
    using mem_frame_envs [OF ok(2)] ok(2,3) assms(1) unfolding kernel_inv_def by (auto simp: mem_frame_def)
  then show ?thesis using ok by (intro exI [of _ 0] exI [of _ s']) auto
qed

lemma two_envs_cur: "curenv two_envs = Some 0" "0 \<in> live two_envs"
  by (simp_all add: two_envs_def curenv_def live_def)

lemma user_perm_7: "user_perm 7"
  by (simp add: user_perm_def PTE_SYSCALL_def)

lemma sys_page_alloc_maps_zero_page_example:
  "\<exists>s' p. sys_page_alloc two_envs 0 0x800000 7 = Ret 0 s' \<and> kernel_inv s' \<and> p \<in> {3, 4, 5} \<and>
     frames s' p = (\<lambda>_. 0)"
proof -
  have va: "(0x800000 :: u32) < UTOP" by (simp add: layout_values)
  from sys_page_alloc_maps_zero_page [OF two_envs_inv(1,2) two_envs_cur, of 0 "0x800000" 7] obtain r s' where
    r: "sys_page_alloc two_envs 0 0x800000 7 = Ret r s'" "kernel_inv s'"
    "if r = 0 then \<exists>p \<in> {3, 4, 5}. frames s' p = (\<lambda>_. 0) else False"
    using va user_perm_7 by (auto split: if_splits)
  then show ?thesis by (auto split: if_splits)
qed

text \<open>C13. The calls that change address spaces (\<^verbatim>\<open>sys_page_alloc\<close>, \<^verbatim>\<open>sys_page_map\<close>, \<^verbatim>\<open>sys_page_unmap\<close>, numbers 4,
  5 and 6 of the dispatcher) never panic, keep the invariants of the environment table and of memory,
  and change mappings only of the caller and of its children.\<close>

theorem page_syscalls_confined:
  assumes "env_inv s fs" and "vm_inv (dirs s) s ps" and "curenv s = Some c" and "c \<in> live s"
    and "refs_bounded s" and "no = 4 \<or> no = 5 \<or> no = 6"
  shows "\<exists>r s'. syscall s no a1 a2 a3 a4 a5 = Ret r s' \<and> r \<le> 0 \<and> kernel_inv s' \<and> envs s' = envs s \<and>
    (\<forall>d i j. umap (dirs s) s' (d, i, j) = umap (dirs s) s (d, i, j) \<or>
       (\<exists>e \<in> live s. authorised s e \<and> env_pgdir (envs s e) = Some d))"
proof -
  from page_syscalls_spec [OF assms, of a1 a2 a3 a4 a5] obtain r s' ps' where
    s': "syscall s no a1 a2 a3 a4 a5 = Ret r s'" "r \<le> 0" "mem_frame s s'" "vm_inv (dirs s) s' ps'"
      "\<forall>d i j. umap (dirs s) s' (d, i, j) = umap (dirs s) s (d, i, j) \<or>
         (\<exists>e \<in> live s. authorised s e \<and> env_pgdir (envs s e) = Some d)" by blast
  have "kernel_inv s'" "envs s' = envs s"
    using mem_frame_envs [OF s'(3)] s'(3,4) assms(1) unfolding kernel_inv_def by (auto simp: mem_frame_def)
  then show ?thesis using s' by blast
qed

lemma two_envs_refs: "refs_bounded two_envs"
  using two_envs_inv(5) by (simp add: refs_bounded_def count_def refs_def)

theorem page_syscalls_confined_witness:
  "\<exists>r s'. syscall two_envs 4 0 0x800000 7 0 0 = Ret r s' \<and> r \<le> 0 \<and> kernel_inv s' \<and> envs s' = envs two_envs"
  using page_syscalls_confined [OF two_envs_inv(1,2) two_envs_cur two_envs_refs, of 4 0 "0x800000" 7 0 0] by auto

text \<open>C14. \<^verbatim>\<open>sys_page_map\<close> never panics and grants no access its caller does not have. On error nothing
  changes. On success source and destination belong to the caller or its children, and exactly one
  mapping changes: the destination maps the page of the source with the permission asked for, and
  is writable only when the source is. Inside one address space the call succeeds whenever the
  arguments are legal and a page is free for a page table.\<close>

theorem sys_page_map_no_escalation:
  assumes "env_inv s fs" and "vm_inv (dirs s) s ps" and "curenv s = Some c" and "c \<in> live s"
    and "refs_bounded s"
  shows "(\<exists>r. sys_page_map s srcid srcva dstid dstva perm = Ret r s \<and> r < 0 \<and>
      \<not> (srcid = 0 \<and> dstid = 0 \<and> map_legal s c srcva dstva perm \<and> ps \<noteq> [])) \<or>
    (\<exists>s' e d e' d' pte. sys_page_map s srcid srcva dstid dstva perm = Ret 0 s' \<and> kernel_inv s' \<and>
      envs s' = envs s \<and> e \<in> live s \<and> authorised s e \<and> env_pgdir (envs s e) = Some d \<and>
      e' \<in> live s \<and> authorised s e' \<and> env_pgdir (envs s e') = Some d' \<and> srcva < UTOP \<and> dstva < UTOP \<and>
      umap (dirs s) s (slot d srcva) = Some pte \<and> (perm AND PTE_W \<noteq> 0 \<longrightarrow> pte AND PTE_W \<noteq> 0) \<and>
      umap (dirs s) s' = (umap (dirs s) s)(slot d' dstva \<mapsto> mk_pte (pfn pte) perm))"
  using assms
proof (cases rule: sys_page_map_spec [where srcid = srcid and srcva = srcva and dstid = dstid and dstva = dstva
      and perm = perm])
  case (fail r)
  then show ?thesis by blast
next
  case (ok e d e' d' pte s' ps')
  have "kernel_inv s'" "envs s' = envs s"
    using mem_frame_envs [OF ok(2)] ok(2,3) assms(1) unfolding kernel_inv_def by (auto simp: mem_frame_def)
  then show ?thesis using ok by blast
qed

lemma two_envs_alloc:
  assumes "va < UTOP" and "user_perm perm"
  obtains s' ps d p where "sys_page_alloc two_envs 0 va perm = Ret 0 s'" "mem_frame two_envs s'"
    "env_inv s' [Suc (Suc 0)..<NENV]" "vm_inv (dirs s') s' ps" "env_pgdir (envs s' 0) = Some d" "d \<in> dirs s'"
    "umap (dirs s') s' = [slot d va \<mapsto> mk_pte p perm]"
proof -
  from two_envs_inv(1,2) two_envs_cur show ?thesis
  proof (cases rule: sys_page_alloc_spec [where envid = 0 and va = va and perm = perm])
    case (fail r s' ps')
    then show ?thesis using assms by simp
  next
    case (ok e d p s' ps')
    note fr = mem_frame_envs [OF ok(2)]
    have e: "e = 0" using ok(12) by simp
    then have "env_pgdir (envs s' 0) = Some d" using ok(2,6) by (simp add: mem_frame_def)
    moreover have "d \<in> dirs s'" using ok(4,6) fr(2) by (auto simp: dirs_def)
    ultimately show ?thesis
      using that [of s' ps' d p] ok(1-3,10) fr two_envs_inv(1,5) by simp
  qed
qed

lemma refs_one:
  assumes "umap (dirs s) s = [x \<mapsto> e]"
  shows "refs_bounded s"
  unfolding refs_bounded_def assms count_def refs_def
proof
  fix q
  have "card {y. \<exists>f. [x \<mapsto> e] y = Some f \<and> pfn f = q} \<le> card {x}"
    by (rule card_mono) (auto split: if_splits)
  then show "card {y. \<exists>f. [x \<mapsto> e] y = Some f \<and> pfn f = q} < 65535" by simp
qed

text \<open>The first environment after it allocated a read-only page at \<^verbatim>\<open>0x800000\<close>.\<close>

definition one_page :: kstate where
  "one_page = (case sys_page_alloc two_envs 0 0x800000 5 of Ret r s \<Rightarrow> s | _ \<Rightarrow> two_envs)"

theorem sys_page_map_no_escalation_witness:
  "\<exists>r. sys_page_map one_page 0 0x800000 0 0x900000 7 = Ret r one_page \<and> r < 0"
proof -
  have perm: "(0x800000 :: u32) < UTOP" "user_perm 5" by (simp_all add: layout_values user_perm_def PTE_SYSCALL_def)
  obtain s' ps d p where s': "sys_page_alloc two_envs 0 0x800000 5 = Ret 0 s'" "mem_frame two_envs s'"
      "env_inv s' [Suc (Suc 0)..<NENV]" "vm_inv (dirs s') s' ps" "umap (dirs s') s' = [slot d 0x800000 \<mapsto> mk_pte p 5]"
    using two_envs_alloc [OF perm] by metis
  have one: "one_page = s'" using s'(1) by (simp add: one_page_def)
  note m = s'(5) [folded one]
  have inv: "env_inv one_page [Suc (Suc 0)..<NENV]" "vm_inv (dirs one_page) one_page ps"
    "curenv one_page = Some 0" "0 \<in> live one_page" "refs_bounded one_page"
    using s' mem_frame_envs [OF s'(2)] two_envs_cur refs_one one by simp_all
  have "mk_pte p 5 AND PTE_W = 0" by (simp add: mk_pte_flags)
  then show ?thesis
    using sys_page_map_no_escalation [OF inv, of 0 "0x800000" 0 "0x900000" 7] unfolding m
    by (auto split: if_splits)
qed

text \<open>C15. Sending to an environment that waits in \<^verbatim>\<open>sys_ipc_recv\<close> for a page below \<^verbatim>\<open>UTOP\<close>: either the call
  fails, which only a message with a page can, and nothing changes, or the receiver is runnable
  with the value, the sender's identifier and result 0, no other environment changes, and at most
  one mapping of the receiver does, to a page of the sender and writable only when it is for the
  sender. The receiver then turns away every further message.\<close>

theorem ipc_send_delivers_once:
  assumes "env_inv s fs" and "vm_inv (dirs s) s ps" and "curenv s = Some c" and "c \<in> live s"
    and "refs_bounded s" and "t \<in> live s" and "env_ipc_recving (envs s t)" and "env_ipc_from (envs s t) = 0"
    and "env_ipc_dstva (envs s t) < UTOP"
  shows "(\<exists>r. sys_ipc_try_send s (env_id (envs s t)) value srcva perm = Ret r s \<and> r < 0 \<and> srcva < UTOP) \<or>
    (\<exists>s'. sys_ipc_try_send s (env_id (envs s t)) value srcva perm = Ret 0 s' \<and> kernel_inv s' \<and>
       delivered s s' t value \<and>
       (umap (dirs s) s' = umap (dirs s) s \<or>
        (\<exists>d d' pte. env_pgdir (envs s c) = Some d \<and> env_pgdir (envs s t) = Some d' \<and>
          umap (dirs s) s (slot d srcva) = Some pte \<and> (pte AND PTE_W = 0 \<longrightarrow> perm AND PTE_W = 0) \<and>
          umap (dirs s) s' = (umap (dirs s) s)(slot d' (env_ipc_dstva (envs s t)) \<mapsto> mk_pte (pfn pte) perm))) \<and>
       (\<forall>value' srcva' perm'. sys_ipc_try_send s' (env_id (envs s t)) value' srcva' perm' =
          Ret (- E_IPC_NOT_RECV) s'))"
  using assms
proof (cases rule: sys_ipc_try_send_spec [where srcva = srcva and perm = perm and v = "value"])
  case (fail r)
  then show ?thesis by blast
next
  case (ok s' ps')
  have d: "\<not> env_ipc_recving (envs s' t)" "env_id (envs s' t) = env_id (envs s t)"
    using ok(6) by (simp_all add: delivered_def)
  have "t \<in> live s'" using assms(6) ok(5) by simp
  then have "sys_ipc_try_send s' (env_id (envs s t)) value' srcva' perm' = Ret (- E_IPC_NOT_RECV) s'"
    for value' srcva' perm'
    using send_not_recv [OF ok(2) _ d(1)] d(2) by simp
  moreover have "kernel_inv s'" using ok(2-4) unfolding kernel_inv_def by auto
  ultimately show ?thesis using ok(1,6,7) by blast
qed

definition receiving :: kstate where
  "receiving = upd_env 1 (\<lambda>en. en\<lparr>env_ipc_recving := True, env_ipc_from := 0, env_ipc_dstva := 0x800000,
     env_status := ENV_NOT_RUNNABLE\<rparr>) two_envs"

lemma two_envs_1: "env_status (envs two_envs 1) = ENV_RUNNABLE"
  using booted2_inv(4) by (simp add: two_envs_def)

theorem ipc_send_delivers_once_witness:
  "\<exists>s'. sys_ipc_try_send receiving (env_id (envs receiving 1)) 42 UTOP 0 = Ret 0 s' \<and> delivered receiving s' 1 42 \<and>
     sys_ipc_try_send s' (env_id (envs receiving 1)) 43 UTOP 0 = Ret (- E_IPC_NOT_RECV) s'"
proof -
  note u = upd_env_inv [OF two_envs_inv(1,2), of "\<lambda>en. en\<lparr>env_ipc_recving := True, env_ipc_from := 0,
     env_ipc_dstva := 0x800000, env_status := ENV_NOT_RUNNABLE\<rparr>" 1, folded receiving_def]
  have inv: "env_inv receiving [Suc (Suc 0)..<NENV]" "vm_inv (dirs receiving) receiving [5, 4, 3]"
    "live receiving = live two_envs" "umap (dirs receiving) receiving = (\<lambda>_. None)"
    using u two_envs_1 two_envs_inv(5) by simp_all
  have "curenv receiving = Some 0" "0 \<in> live receiving" "1 \<in> live receiving"
    using two_envs_cur two_envs_1 inv(3) by (simp_all add: receiving_def live_def)
  moreover have "refs_bounded receiving" using inv(4) by (simp add: refs_bounded_def count_def refs_def)
  moreover have "env_ipc_recving (envs receiving 1)" "env_ipc_from (envs receiving 1) = 0"
    "env_ipc_dstva (envs receiving 1) < UTOP" by (simp_all add: receiving_def layout_values)
  ultimately show ?thesis using ipc_send_delivers_once [OF inv(1,2), of 0 1 42 UTOP 0] by auto
qed

text \<open>An environment that waits for a message without a page, for which \<^verbatim>\<open>ipc_recv\<close> passes \<^verbatim>\<open>UTOP\<close>, still gets
  the page of a sender that sends one: it is mapped at \<^verbatim>\<open>UTOP\<close>, in the page table of the kernel's
  read-only copy of the environment table, which every address space shares.\<close>

lemma ipc_send_overwrites_kernel_mapping:
  assumes "envid2env s envid False = Some (0, Some t)" and "env_ipc_dstva (envs s t) = UTOP"
    and "env_pgdir (envs s t) = Some d" and "utab s d (unat (PDX UTOP)) = Some tab" and "srcva < UTOP"
    and "curenv s = Some c" and "page_lookup s (env_pgdir (envs s c)) srcva = Some (Some (pp, t', j))"
    and "sys_ipc_try_send s envid value srcva perm = Ret 0 s'"
  shows "frames s' tab (unat (PTX UTOP)) = mk_pte pp perm"
proof -
  have nz: "UTOP \<noteq> 0" by (simp add: layout_values)
  obtain r s1 where s1: "page_insert s (Some d) pp UTOP perm = Some (r, s1)"
      "frames s' = frames s1" "0 \<le> r"
    using assms(1-3,5-8) nz
    by (auto 0 3 simp: sys_ipc_try_send_def with_env_def obind_def lift_def ipc_deliver_def deref_def
        split: if_splits option.splits outcome.splits)
  from assms(4) have p: "present (frames s d (unat (PDX UTOP)))" "pfn (frames s d (unat (PDX UTOP))) = tab"
    by (auto simp: utab_def split: if_splits)
  show ?thesis
    using s1 p by (auto simp: page_insert_def pgdir_walk_def walk_entry_def kpage_PTE_ADDR Let_def mk_pte_def
        page2pa_def split: if_splits option.splits Option.bind_splits)
qed

text \<open>
  Environment 0 runs and has page 5 at address 0; environment 1 waits for a message without a page.
  Page 6 is the page table of the region at \<^verbatim>\<open>UTOP\<close>.
\<close>

definition no_page_wanted :: kstate where
  "no_page_wanted = zero_kernel\<lparr>npages := 8, pages := (\<lambda>_. \<lparr>pp_link = None, pp_ref = 1\<rparr>),
     envs := (\<lambda>_. zero_env)
       (0 := zero_env\<lparr>env_status := ENV_RUNNING, env_id := 0x1000, env_pgdir := Some 2\<rparr>,
        1 := zero_env\<lparr>env_status := ENV_NOT_RUNNABLE, env_id := 0x1001, env_pgdir := Some 3,
               env_ipc_recving := True, env_ipc_from := 0, env_ipc_dstva := UTOP\<rparr>),
     frames := (\<lambda>_ _. 0)(2 := (\<lambda>_. 0)(0 := 0x4007), 4 := (\<lambda>_. 0)(0 := 0x5007), 3 := (\<lambda>_. 0)(955 := 0x6005)),
     cpus := (\<lambda>_. \<lparr>cpu_status = CPU_STARTED, cpu_env = Some 0, cpu_cr3 = 2\<rparr>), cpunum := 0\<rparr>"

lemma no_page_wanted_ptes:
  "present 0x4007" "present 0x5007" "present 0x6005" "pfn 0x4007 = 4" "pfn 0x5007 = 5" "pfn 0x6005 = 6"
  by (simp_all add: present_def pfn_def PGNUM_def PTE_ADDR_def drop_bit_eq_div)

lemma no_page_wanted_facts:
  "envid2env no_page_wanted 0x1001 False = Some (0, Some 1)" "env_ipc_dstva (envs no_page_wanted 1) = UTOP"
  "env_pgdir (envs no_page_wanted 1) = Some 3" "utab no_page_wanted 3 (unat (PDX UTOP)) = Some 6"
  "curenv no_page_wanted = Some 0"
  "page_lookup no_page_wanted (env_pgdir (envs no_page_wanted 0)) 0 = Some (Some (5, 4, 0))"
  "env_ipc_recving (envs no_page_wanted 1)" "env_ipc_from (envs no_page_wanted 1) = 0"
  "frames no_page_wanted 4 0 = 0x5007" "frames no_page_wanted 3 (unat (PDX UTOP)) = 0x6005"
  "frames no_page_wanted 6 = (\<lambda>_. 0)" "npages no_page_wanted = 8"
  by (simp_all add: no_page_wanted_def zero_kernel_def envid2env_def ENVX_def utab_def unat_PDX unat_PTX
      layout_values no_page_wanted_ptes curenv_def page_lookup_def pgdir_walk_def walk_entry_def
      kpage_PTE_ADDR pa2page_PTE_ADDR)

lemma ipc_send_overwrites_kernel_mapping_example:
  "\<exists>s'. sys_ipc_try_send no_page_wanted 0x1001 7 0 7 = Ret 0 s' \<and> frames s' 6 0 = 0x5007"
proof -
  have utop: "(0 :: u32) < UTOP" "UTOP \<noteq> 0" "unat (PTX UTOP) = 0" "PGOFF 0 = 0"
    by (simp_all add: layout_values unat_PTX PGOFF_def)
  have "\<exists>s'. sys_ipc_try_send no_page_wanted 0x1001 7 0 7 = Ret 0 s'"
    using no_page_wanted_facts utop
    by (simp add: sys_ipc_try_send_def with_env_def page_insert_def pgdir_walk_def walk_entry_def kpage_PTE_ADDR
        no_page_wanted_ptes ipc_deliver_def page_incref_def curenv_def Let_def)
  then obtain s' where s': "sys_ipc_try_send no_page_wanted 0x1001 7 0 7 = Ret 0 s'" by blast
  have "mk_pte 5 7 = 0x5007" by (simp add: mk_pte_def)
  then show ?thesis
    using s' ipc_send_overwrites_kernel_mapping [OF no_page_wanted_facts(1-4) utop(1) no_page_wanted_facts(5,6) s']
    unfolding utop(3) by auto
qed

text \<open>\<^verbatim>\<open>sys_env_set_status\<close> does not look at the old status: a parent can mark a child runnable that is
  running on another processor. The scheduler may then run it a second time.\<close>

lemma set_status_breaks_running_once:
  assumes "env_inv s fs" and "running_once s" and "k \<noteq> cpunum s" and "cpu_env (cpus s k) = Some e"
    and "authorised s e"
  shows "\<exists>s'. sys_env_set_status s (env_id (envs s e)) 2 = Ret 0 s' \<and> cpu_env (cpus s' k) = Some e \<and>
    env_status (envs s' e) = ENV_RUNNABLE \<and> \<not> running_once s'"
proof -
  let ?s = "upd_env e (\<lambda>en. en\<lparr>env_status := ENV_RUNNABLE\<rparr>) s"
  have e: "e \<in> live s" using assms(2,4) unfolding running_once_def by blast
  have "env_id (envs s e) \<noteq> 0" "ENVX (env_id (envs s e)) = e" "env_status (envs s e) \<noteq> ENV_FREE"
    using assms(1) e env_inv_id [OF assms(1) e] by (auto simp: env_inv_def live_def)
  then have "envid2env s (env_id (envs s e)) True = Some (0, Some e)"
    using assms(5) by (auto simp: envid2env_def Let_def authorised_def split: option.splits)
  then have "sys_env_set_status s (env_id (envs s e)) 2 = Ret 0 ?s"
    by (simp add: sys_env_set_status_def with_env_def)
  moreover have "\<not> running_once ?s"
  proof
    assume "running_once ?s"
    moreover have "cpu_env (cpus ?s k) = Some e" "k \<noteq> cpunum ?s" using assms(3,4) by simp_all
    ultimately have "env_status (envs ?s e) = ENV_RUNNING \<or> env_status (envs ?s e) = ENV_DYING"
      unfolding running_once_def by blast
    then show False by simp
  qed
  ultimately show ?thesis using assms(4) by simp
qed

text \<open>Both environments run, and 0 is the parent of 1.\<close>

definition both_run :: kstate where
  "both_run = upd_env 1 (\<lambda>en. en\<lparr>env_status := ENV_RUNNING, env_parent_id := env_id (envs two_envs 0)\<rparr>)
     (two_envs\<lparr>cpus := (cpus two_envs)(1 := \<lparr>cpu_status = CPU_STARTED, cpu_env = Some 1, cpu_cr3 = 0\<rparr>)\<rparr>)"

lemma set_status_breaks_running_once_example:
  "\<exists>s'. sys_env_set_status both_run (env_id (envs both_run 1)) 2 = Ret 0 s' \<and> cpu_env (cpus s' 1) = Some 1 \<and>
     env_status (envs s' 1) = ENV_RUNNABLE"
proof -
  have same: "env_inv both_run [Suc (Suc 0)..<NENV]" "live both_run = live two_envs"
    using kernel_inv_same_envs [OF two_envs_inv(1), of both_run] two_envs_1 by (simp_all add: both_run_def)
  have "live two_envs = insert 0 (live booted2)" by (auto simp: two_envs_def live_def)
  then have live: "live two_envs = {0, 1}" using booted2_inv(3) by simp
  have cpu: "cpu_env (cpus both_run k) = (if k = 0 then Some 0 else if k = 1 then Some 1 else None)" "cpunum both_run = 0" for k
    by (simp_all add: both_run_def two_envs_def)
  then have "running_once both_run" using same(2) live by (simp add: running_once_def both_run_def)
  moreover have "authorised both_run 1"
    using cpu by (simp add: authorised_def curenv_def) (simp add: both_run_def)
  ultimately show ?thesis
    using set_status_breaks_running_once [OF same(1), of 1 1] cpu by auto
qed


lemma no_page_wanted_load:
  assumes "unat va + 4 < 4096"
  shows "load_byte no_page_wanted va = Some 0" "load_half no_page_wanted va = Some 0" "load_word no_page_wanted va = Some 0"
proof -
  have byte: "load_byte no_page_wanted v = Some 0" if "unat v < 4096" for v
  proof -
    have "unat (PDX v) = 0" "unat (PTX v) = 0" using that by (simp_all add: unat_PDX unat_PTX)
    then show ?thesis
      by (simp add: load_byte_def translate_def no_page_wanted_def zero_kernel_def no_page_wanted_ptes page_byte_def)
  qed
  have near: "unat (va + 1) < 4096" "unat (va + 2) < 4096" "unat (va + 2 + 1) < 4096"
    using assms by (simp_all add: unat_word_ariths add.assoc)
  show b: "load_byte no_page_wanted va = Some 0" using byte assms by simp
  show h: "load_half no_page_wanted va = Some 0" using byte near b by (simp add: load_half_def)
  have "load_half no_page_wanted (va + 2) = Some 0" using byte near by (simp add: load_half_def)
  then show "load_word no_page_wanted va = Some 0" using h by (simp add: load_word_def)
qed

lemma no_page_wanted_tf: "\<exists>s'. sys_env_set_trapframe no_page_wanted 0 0 = Ret 0 s'"
proof -
  have "env_pgdir (envs no_page_wanted 0) = Some 2" "frames no_page_wanted 2 0 = 0x4007"
    by (simp_all add: no_page_wanted_def)
  then have walk: "pgdir_walk no_page_wanted (env_pgdir (envs no_page_wanted 0)) 0 False = Some (Some (4, 0), no_page_wanted)"
    using no_page_wanted_facts(12)
    by (simp add: pgdir_walk_def walk_entry_def unat_PDX unat_PTX no_page_wanted_ptes kpage_PTE_ADDR)
  have "ROUNDDOWN 0 PGSIZE = 0" "ROUNDUP (0 + 68) PGSIZE = 4096" by (simp_all add: ROUNDDOWN_def ROUNDUP_def)
  then have "user_mem_check no_page_wanted 0 0 68 PTE_U = Some (0, no_page_wanted)"
    using walk no_page_wanted_facts(9)
    by (simp add: user_mem_check_def user_mem_check_loop.simps layout_values)
  then have "user_mem_assert no_page_wanted 0 0 68 PTE_U = Ret () no_page_wanted"
    by (simp add: user_mem_assert_def)
  moreover have "\<exists>t. load_tf no_page_wanted 0 = Some t"
    by (simp add: load_tf_def no_page_wanted_load)
  ultimately show ?thesis
    using no_page_wanted_facts(5) by (auto simp: sys_env_set_trapframe_def with_env_def envid2env_def)
qed


end
