(* ===== verification/UserMem.thy ===== *)
theory UserMem
  imports Syscall
begin

text \<open>
  Reading back what was written. Bytes stored through the loaded page directory into one writable
  page are found there by later loads: the page's contents, as a function from offsets to bytes,
  are overwritten exactly where the bytes went.
\<close>

unbundle bit_operations_syntax

section \<open>Bytes of a word\<close>

lemma page_byte_put:
  "page_byte (put_page_byte p k b s) p = (page_byte s p)(k := b)"
proof
  fix i
  show "page_byte (put_page_byte p k b s) p i = ((page_byte s p)(k := b)) i"
  proof (cases "i div 4 = k div 4")
    case True
    then have "i = k \<longleftrightarrow> i mod 4 = k mod 4" by (metis div_mult_mod_eq)
    then show ?thesis
      using True byte_lane [of "i mod 4" "k mod 4" "frames s p (k div 4)" b]
      by (simp add: page_byte_def put_page_byte_def Let_def)
  next
    case False
    then have "i \<noteq> k" by auto
    with False show ?thesis by (simp add: page_byte_def put_page_byte_def Let_def)
  qed
qed

lemma bytes_word:
  "ucast (ucast (ucast w :: u8) OR push_bit 8 (ucast (ucast (drop_bit 8 w) :: u8)) :: u16) OR
     push_bit 16 (ucast (ucast (ucast (drop_bit 16 w) :: u8) OR push_bit 8 (ucast (ucast (drop_bit 24 w) :: u8)) :: u16)) = (w :: u32)"
proof (rule bit_word_eqI)
  fix n :: nat
  assume "n < LENGTH(32)"
  then consider "n < 8" | "8 \<le> n" "n < 16" | "16 \<le> n" "n < 24" | "24 \<le> n" "n < 32" by fastforce
  then show "bit (ucast (ucast (ucast w :: u8) OR push_bit 8 (ucast (ucast (drop_bit 8 w) :: u8)) :: u16) OR
     push_bit 16 (ucast (ucast (ucast (drop_bit 16 w) :: u8) OR push_bit 8 (ucast (ucast (drop_bit 24 w) :: u8)) :: u16)) :: u32) n \<longleftrightarrow> bit w n"
    by cases (auto simp: bit_simps)
qed

lemma word_at_over:
  "word_at (over k (word_bytes w) f) k = w"
  "j + 4 \<le> k \<or> k + 4 \<le> j \<Longrightarrow> word_at (over k (word_bytes w) f) j = word_at f j"
proof -
  show "word_at (over k (word_bytes w) f) k = w"
    using bytes_word [of w] by (simp add: word_at_def over_def word_bytes_def)
  assume "j + 4 \<le> k \<or> k + 4 \<le> j"
  then show "word_at (over k (word_bytes w) f) j = word_at f j"
    by (auto simp: word_at_def over_def word_bytes_def)
qed

section \<open>One writable page\<close>

text \<open>
  \<open>base\<close> is the address of a page that the loaded directory maps writable to page \<open>p\<close>, which holds
  neither the directory nor the table used to find it.
\<close>

definition rw_page :: "kstate \<Rightarrow> u32 \<Rightarrow> nat \<Rightarrow> bool" where
  "rw_page s base p \<longleftrightarrow>
     (let d = cpu_cr3 (cpus s (cpunum s)); pde = frames s d (unat (PDX base)); t = pfn pde;
          pte = frames s t (unat (PTX base))
      in PGOFF base = 0 \<and> present pde \<and> pde AND PTE_W \<noteq> 0 \<and> present pte \<and> pte AND PTE_W \<noteq> 0 \<and>
         pfn pte = p \<and> p \<noteq> d \<and> p \<noteq> t)"

lemma page_addr:
  assumes "PGOFF base = 0" and "k < 4096"
  shows "PDX (base + of_nat k) = PDX base" and "PTX (base + of_nat k) = PTX base"
    and "unat (PGOFF (base + of_nat k)) = k"
proof -
  obtain q where q: "unat base = q * 4096"
    using assms(1) unat_PGOFF [of base] by (metis unat_0 mod_eq_0_iff_dvd dvd_def mult.commute)
  then have "q < 1048576" using unsigned_less [of base, where 'a = nat] by simp
  then have sum: "unat (base + of_nat k) = q * 4096 + k"
    using q assms(2) by (simp add: unat_word_ariths unat_of_nat)
  show "unat (PGOFF (base + of_nat k)) = k" using assms(2) by (simp add: unat_PGOFF sum)
  have div: "(q * 4096 + k) div 4096 = q" using assms(2) by simp
  have "unat (PTX (base + of_nat k)) = unat (PTX base)" by (simp add: unat_PTX sum q div)
  then show "PTX (base + of_nat k) = PTX base" by (simp only: word_unat_eq_iff)
  have "(q * 4096 + k) div 4194304 = (q * 4096 + k) div 4096 div 1024" by (simp add: div_mult2_eq [symmetric])
  moreover have "q * 4096 div 4194304 = q * 4096 div 4096 div 1024" by (simp add: div_mult2_eq [symmetric])
  ultimately have "unat (PDX (base + of_nat k)) = unat (PDX base)" unfolding unat_PDX sum q div by simp
  then show "PDX (base + of_nat k) = PDX base" by (simp only: word_unat_eq_iff)
qed

lemma rw_page_translate:
  assumes "rw_page s base p" and "k < 4096"
  shows "translate s (base + of_nat k) write = Some (p, k)"
  using assms page_addr [of base k] by (simp add: rw_page_def translate_def Let_def)

text \<open>The state after page \<open>p\<close> was given new contents.\<close>

abbreviation set_frame :: "nat \<Rightarrow> (nat \<Rightarrow> u32) \<Rightarrow> kstate \<Rightarrow> kstate" where
  "set_frame p f s \<equiv> s\<lparr>frames := (frames s)(p := f)\<rparr>"

lemma rw_page_set_frame: "rw_page s base p \<Longrightarrow> rw_page (set_frame p f s) base p"
  by (simp add: rw_page_def Let_def)

lemma store_bytes_page:
  assumes "rw_page s base p" and "k + length bs \<le> 4096"
  shows "\<exists>f. store_bytes s (base + of_nat k) bs = Some (set_frame p f s) \<and>
    page_byte (set_frame p f s) p = over k bs (page_byte s p)"
  using assms
proof (induction bs arbitrary: s k)
  case Nil
  then show ?case by (intro exI [of _ "frames s p"]) simp
next
  case (Cons b bs)
  have "put_page_byte p k b s = set_frame p ((frames s p)(k div 4 := frames s p (k div 4) AND
      NOT (push_bit (8 * (k mod 4)) 0xFF) OR push_bit (8 * (k mod 4)) (ucast b))) s"
    by (simp add: put_page_byte_def set_word_def Let_def)
  then obtain g where g: "put_page_byte p k b s = set_frame p g s" by blast
  have st: "store_byte s (base + of_nat k) b = Some (set_frame p g s)"
    using rw_page_translate [OF Cons.prems(1), of k True] Cons.prems(2) g by (simp add: store_byte_def)
  have pb: "page_byte (set_frame p g s) p = (page_byte s p)(k := b)"
    using page_byte_put [of p k b s] g by simp
  have twice: "set_frame p f (set_frame p g s) = set_frame p f s" for f by simp
  have "Suc k + length bs \<le> 4096" using Cons.prems(2) by simp
  from Cons.IH [OF rw_page_set_frame [OF Cons.prems(1), of g] this] obtain f where
    f: "store_bytes (set_frame p g s) (base + of_nat (Suc k)) bs = Some (set_frame p f s)"
      "page_byte (set_frame p f s) p = over (Suc k) bs (page_byte (set_frame p g s) p)"
    unfolding twice by blast
  have next': "base + of_nat k + 1 = base + of_nat (Suc k)" by simp
  have "store_bytes s (base + of_nat k) (b # bs) = Some (set_frame p f s)"
    unfolding store_bytes.simps st next' using f(1) by (simp only: bind.bind_lunit)
  then show ?case using f(2) unfolding over_Cons pb by blast
qed

lemma store_word_page:
  assumes "rw_page s base p" and "k + 4 \<le> 4096"
  obtains f where "store_word s (base + of_nat k) w = Some (set_frame p f s)"
    "page_byte (set_frame p f s) p = over k (word_bytes w) (page_byte s p)"
    "rw_page (set_frame p f s) base p"
  using store_bytes_page [OF assms(1), of k "word_bytes w"] assms rw_page_set_frame
  by (force simp: store_word_def word_bytes_def)

lemma load_word_page:
  assumes "rw_page s base p" and "k + 4 \<le> 4096"
  shows "load_word s (base + of_nat k) = Some (word_at (page_byte s p) k)"
proof -
  have byte: "load_byte s (base + of_nat i) = Some (page_byte s p i)" if "i < 4096" for i
    using rw_page_translate [OF assms(1) that, of False] by (simp add: load_byte_def)
  have k: "k < 4096" "k + 1 < 4096" "k + 2 < 4096" "k + 3 < 4096" using assms(2) by simp_all
  have off: "base + of_nat k + 1 = base + of_nat (k + 1)" "base + of_nat k + 2 = base + of_nat (k + 2)"
    "base + of_nat (k + 2) + 1 = base + of_nat (k + 3)" by simp_all
  show ?thesis
    unfolding load_word_def load_half_def off k [THEN byte]
    by (simp add: word_at_def)
qed

end
