(* ===== verification/Trap.thy ===== *)
theory Trap
  imports UserMem
begin

text \<open>
  Traps, \<^verbatim>\<open>kern/trap.c\<close>: the entry \<^verbatim>\<open>trap\<close>, the dispatcher \<^verbatim>\<open>trap_dispatch\<close> and the page fault handler.

  The C code passes a pointer to the trap frame, which for a trap from user mode is the one saved in
  the current environment and for a trap from the kernel is on the stack; \<open>frame\<close> says which. The
  faulting address in \<^verbatim>\<open>cr2\<close> is an argument. Printing, acknowledging the interrupt controller and the
  tests of the processor's flags and of another processor's panic are left out; \<^verbatim>\<open>monitor\<close>, none of whose
  commands ends it, is the outcome \<open>Monitor\<close>. The test for a fault in the kernel is \<^verbatim>\<open>tf->tf_cs && 0x01 == 0\<close>,
  which is false for every frame, so it has no branch here.

  Shown are what a system call and a page fault look like from user mode: the whole way through
  the trap handler, the call and back, and the frame a user-level page fault handler finds on its
  exception stack.
\<close>

unbundle bit_operations_syntax

abbreviation T_BRKPT :: u32 where "T_BRKPT \<equiv> 3"
abbreviation T_PGFLT :: u32 where "T_PGFLT \<equiv> 14"
abbreviation T_SYSCALL :: u32 where "T_SYSCALL \<equiv> 48"
abbreviation IRQ_OFFSET :: u32 where "IRQ_OFFSET \<equiv> 32"
abbreviation GD_KT :: u16 where "GD_KT \<equiv> 8"

section \<open>Trap frames\<close>

datatype frame = In_env nat | On_stack Trapframe

definition get_tf :: "frame \<Rightarrow> kstate \<Rightarrow> Trapframe" where
  "get_tf fr s = (case fr of In_env e \<Rightarrow> env_tf (envs s e) | On_stack tf \<Rightarrow> tf)"

definition set_tf :: "frame \<Rightarrow> Trapframe \<Rightarrow> kstate \<Rightarrow> kstate" where
  "set_tf fr tf s = (case fr of In_env e \<Rightarrow> upd_env e (\<lambda>en. en\<lparr>env_tf := tf\<rparr>) s | On_stack _ \<Rightarrow> s)"

section \<open>Page faults\<close>

record UTrapframe =
  utf_fault_va :: u32
  utf_err :: u32
  utf_regs :: PushRegs
  utf_eip :: u32
  utf_eflags :: u32
  utf_esp :: u32

abbreviation UTF_SIZE :: u32 where "UTF_SIZE \<equiv> 52"

definition regs_words :: "PushRegs \<Rightarrow> u32 list" where
  "regs_words r = [reg_edi r, reg_esi r, reg_ebp r, reg_oesp r, reg_ebx r, reg_edx r, reg_ecx r, reg_eax r]"

fun store_words :: "kstate \<Rightarrow> u32 \<Rightarrow> u32 list \<Rightarrow> kstate option" where
  "store_words s va [] = Some s"
| "store_words s va (w # ws) = do { s \<leftarrow> store_word s va w; store_words s (va + 4) ws }"

text \<open>The assignments to the members of \<^verbatim>\<open>*utf\<close>, in the order of the code.\<close>

definition store_utf :: "kstate \<Rightarrow> u32 \<Rightarrow> UTrapframe \<Rightarrow> kstate option" where
  "store_utf s utf u =
     do { s \<leftarrow> store_word s utf (utf_fault_va u);
          s \<leftarrow> store_word s (utf + 4) (utf_err u);
          s \<leftarrow> store_word s (utf + 40) (utf_eip u);
          s \<leftarrow> store_word s (utf + 44) (utf_eflags u);
          s \<leftarrow> store_word s (utf + 48) (utf_esp u);
          store_words s (utf + 8) (regs_words (utf_regs u)) }"

definition utf_address :: "u32 \<Rightarrow> u32" where
  "utf_address esp =
     (if UXSTACKTOP - PGSIZE \<le> esp \<and> esp \<le> UXSTACKTOP - 1 then esp - UTF_SIZE - 4 else UXSTACKTOP - UTF_SIZE)"

definition page_fault_handler :: "kstate \<Rightarrow> frame \<Rightarrow> u32 \<Rightarrow> unit outcome" where
  "page_fault_handler s fr fault_va =
     deref (curenv s) (\<lambda>cur.
       if env_pgfault_upcall (envs s cur) \<noteq> 0
       then
         let utf = utf_address (tf_esp (get_tf fr s))
         in obind (user_mem_assert s cur utf UTF_SIZE (PTE_U OR PTE_W)) (\<lambda>_ s.
              let tf = get_tf fr s in
              case store_utf s utf
                \<lparr>utf_fault_va = fault_va, utf_err = tf_trapno tf, utf_regs = tf_regs tf, utf_eip = tf_eip tf,
                 utf_eflags = tf_eflags tf, utf_esp = tf_esp tf\<rparr> of
                None \<Rightarrow> Panic
              | Some s \<Rightarrow>
                  deref (curenv s) (\<lambda>cur.
                    env_run (set_tf fr (tf\<lparr>tf_eip := env_pgfault_upcall (envs s cur), tf_esp := utf\<rparr>) s) cur))
       else env_destroy s cur)"

section \<open>Dispatch\<close>

definition trap_dispatch :: "kstate \<Rightarrow> frame \<Rightarrow> u32 \<Rightarrow> unit outcome" where
  "trap_dispatch s fr cr2 =
     (let tf = get_tf fr s; trapno = tf_trapno tf
      in if trapno = IRQ_OFFSET + 7 then Ret () s
         else if trapno = IRQ_OFFSET + 0
         then case time_tick s of None \<Rightarrow> Panic | Some s \<Rightarrow> sched_yield s
         else if trapno = IRQ_OFFSET + 1
         then case kbd_intr (console s) of None \<Rightarrow> Panic | Some con \<Rightarrow> Ret () (s\<lparr>console := con\<rparr>)
         else if trapno = IRQ_OFFSET + 4
         then case serial_intr (console s) of None \<Rightarrow> Panic | Some con \<Rightarrow> Ret () (s\<lparr>console := con\<rparr>)
         else if trapno = T_PGFLT then page_fault_handler s fr cr2
         else if trapno = T_BRKPT then Monitor s
         else if trapno = T_SYSCALL
         then obind (syscall s (reg_eax (tf_regs tf)) (reg_edx (tf_regs tf)) (reg_ecx (tf_regs tf))
                (reg_ebx (tf_regs tf)) (reg_edi (tf_regs tf)) (reg_esi (tf_regs tf)))
                (\<lambda>ret_code s.
                   let tf = get_tf fr s
                   in Ret () (set_tf fr (tf\<lparr>tf_regs := (tf_regs tf)\<lparr>reg_eax := word_of_int ret_code\<rparr>\<rparr>) s))
         else if tf_cs tf = GD_KT then Panic
         else deref (curenv s) (env_destroy s))"

text \<open>The end of \<^verbatim>\<open>trap\<close>: back to the current environment if it may still run.\<close>

definition trap_return :: "kstate \<Rightarrow> unit outcome" where
  "trap_return s =
     (case curenv s of
        Some cur \<Rightarrow> if env_status (envs s cur) = ENV_RUNNING then env_run s cur else sched_yield s
      | None \<Rightarrow> sched_yield s)"

definition trap :: "kstate \<Rightarrow> Trapframe \<Rightarrow> u32 \<Rightarrow> unit outcome" where
  "trap s tf cr2 =
     (let was = cpu_status (cpus s (cpunum s));
          s = upd_cpu (\<lambda>c. c\<lparr>cpu_status := CPU_STARTED\<rparr>) s
      in case (if was = CPU_HALTED then lock_kernel s else Some s) of
           None \<Rightarrow> Panic
         | Some s \<Rightarrow>
             if tf_cs tf AND 3 = 3
             then case lock_kernel s of
                    None \<Rightarrow> Panic
                  | Some s \<Rightarrow>
                      deref (curenv s) (\<lambda>cur.
                        if env_status (envs s cur) = ENV_DYING
                        then case env_free s cur of
                               None \<Rightarrow> Panic
                             | Some s \<Rightarrow> sched_yield (upd_cpu (\<lambda>c. c\<lparr>cpu_env := None\<rparr>) s)
                        else
                          let s = upd_env cur (\<lambda>en. en\<lparr>env_tf := tf\<rparr>) s
                          in obind (trap_dispatch s (In_env cur) cr2) (\<lambda>_ s. trap_return s))
             else obind (trap_dispatch s (On_stack tf) cr2) (\<lambda>_ s. trap_return s))"

section \<open>Entering and leaving the kernel\<close>

lemma running_once_cong:
  assumes "running_once s" and "\<And>k. cpu_env (cpus s' k) = cpu_env (cpus s k)" and "cpunum s' = cpunum s"
    and "live s' = live s" and "\<And>x. env_status (envs s' x) = env_status (envs s x)"
  shows "running_once s'"
  using assms unfolding running_once_def by simp

text \<open>Entry from user mode: the lock is taken and the frame saved.\<close>

definition entered :: "kstate \<Rightarrow> Trapframe \<Rightarrow> nat \<Rightarrow> kstate" where
  "entered s tf c = upd_env c (\<lambda>en. en\<lparr>env_tf := tf\<rparr>)
     ((upd_cpu (\<lambda>c. c\<lparr>cpu_status := CPU_STARTED\<rparr>) s)\<lparr>kernel_lock := \<lparr>locked = True, lock_cpu = Some (cpunum s)\<rparr>\<rparr>)"

lemma trap_user:
  assumes "kernel_lock s = \<lparr>locked = False, lock_cpu = None\<rparr>" and "curenv s = Some c"
    and "env_status (envs s c) = ENV_RUNNING" and "cpu_status (cpus s (cpunum s)) = CPU_STARTED"
    and "tf_cs tf AND 3 = 3"
  shows "trap s tf cr2 = obind (trap_dispatch (entered s tf c) (In_env c) cr2) (\<lambda>_ s. trap_return s)"
  using assms
  by (simp add: trap_def lock_kernel_def spin_lock_def holding_def entered_def curenv_def Let_def)

lemma entered_inv:
  assumes "env_inv s fs" and "vm_inv (dirs s) s ps" and "running_once s" and "curenv s = Some c"
  shows "env_inv (entered s tf c) fs" and "vm_inv (dirs s) (entered s tf c) ps" and "dirs (entered s tf c) = dirs s"
    and "live (entered s tf c) = live s" and "running_once (entered s tf c)" and "in_kernel (entered s tf c)"
    and "curenv (entered s tf c) = Some c" and "umap D (entered s tf c) = umap D s"
    and "env_tf (envs (entered s tf c) c) = tf" and "\<And>x. env_status (envs (entered s tf c) x) = env_status (envs s x)"
    and "\<And>x. env_pgdir (envs (entered s tf c) x) = env_pgdir (envs s x)" and "frames (entered s tf c) = frames s"
proof -
  let ?s = "entered s tf c"
  have fields: "frames ?s = frames s" "pages ?s = pages s" "npages ?s = npages s" "page_free_list ?s = page_free_list s"
      "env_free_list ?s = env_free_list s" "cpunum ?s = cpunum s"
    by (simp_all add: entered_def)
  have env: "env_link (envs ?s x) = env_link (envs s x) \<and> env_id (envs ?s x) = env_id (envs s x) \<and>
      env_pgdir (envs ?s x) = env_pgdir (envs s x) \<and>
      (env_status (envs ?s x) = ENV_FREE \<longleftrightarrow> env_status (envs s x) = ENV_FREE)" for x
    by (simp add: entered_def)
  note same = kernel_inv_same_envs [OF assms(1) fields(5) env]
  show "env_inv ?s fs" "dirs ?s = dirs s" and live: "live ?s = live s" by (fact same)+
  show "vm_inv (dirs s) ?s ps" using assms(2) vm_inv_cong [OF fields(1-4)] by simp
  show "umap D ?s = umap D s" by (rule frames_cong(3) [OF fields(1)])
  show "frames ?s = frames s" by (fact fields(1))
  show st: "env_status (envs ?s x) = env_status (envs s x)" for x by (simp add: entered_def)
  show "env_pgdir (envs ?s x) = env_pgdir (envs s x)" for x by (simp add: entered_def)
  show "env_tf (envs ?s c) = tf" by (simp add: entered_def)
  show "curenv ?s = Some c" using assms(4) by (simp add: entered_def curenv_def)
  show "in_kernel ?s" by (simp add: in_kernel_def holding_def entered_def)
  show "running_once ?s" using assms(3) _ fields(6) live st by (rule running_once_cong) (simp add: entered_def)
qed

text \<open>Resuming the current environment.\<close>

lemma run_current:
  assumes "env_inv s fs" and "vm_inv (dirs s) s ps" and "running_once s" and "in_kernel s"
    and "curenv s = Some c" and "env_pgdir (envs s c) = Some d"
  obtains s' where "env_run s c = Leave s'" "env_inv s' fs" "vm_inv (dirs s) s' ps" "dirs s' = dirs s"
    "running_once s'" "curenv s' = Some c" "\<not> locked (kernel_lock s')" "env_status (envs s' c) = ENV_RUNNING"
    "\<And>x. env_tf (envs s' x) = env_tf (envs s x)" "frames s' = frames s" "cpu_cr3 (cpus s' (cpunum s')) = d"
    "live s' = live s"
proof -
  have c: "c \<in> live s" using assms(3,5) by (auto simp: running_once_def curenv_def)
  from env_run_inv [OF assms(1-4) c] assms(5) obtain s' where
    s': "env_run s c = Leave s'" "env_inv s' fs" "vm_inv (dirs s') s' ps" "running_once s'" "curenv s' = Some c"
      "env_status (envs s' c) = ENV_RUNNING" "\<not> locked (kernel_lock s')" "live s' = live s" by blast
  from env_run_spec [OF assms(4,6)] s'(1) have
    spec: "\<And>x. env_tf (envs s' x) = env_tf (envs s x)" "\<And>x. env_pgdir (envs s' x) = env_pgdir (envs s x)"
      "frames s' = frames s" "cpu_cr3 (cpus s' (cpunum s')) = d"
    by auto
  have "dirs s' = dirs s" using spec(2) s'(8) by (simp add: dirs_def)
  then show ?thesis using that [OF s'(1)] s' spec by simp
qed

section \<open>System calls from user mode\<close>

lemma trap_page_syscall_spec:
  assumes "env_inv s fs" and "vm_inv (dirs s) s ps" and "running_once s" and "refs_bounded s"
    and "kernel_lock s = \<lparr>locked = False, lock_cpu = None\<rparr>" and "curenv s = Some c"
    and "env_status (envs s c) = ENV_RUNNING" and "cpu_status (cpus s (cpunum s)) = CPU_STARTED"
    and "tf_cs tf AND 3 = 3" and "tf_trapno tf = T_SYSCALL"
    and "reg_eax (tf_regs tf) = 4 \<or> reg_eax (tf_regs tf) = 5 \<or> reg_eax (tf_regs tf) = 6"
  shows "\<exists>r s'. trap s tf cr2 = Leave s' \<and> r \<le> 0 \<and> kernel_inv s' \<and> running_once s' \<and>
    \<not> locked (kernel_lock s') \<and> curenv s' = Some c \<and> env_status (envs s' c) = ENV_RUNNING \<and>
    env_tf (envs s' c) = tf\<lparr>tf_regs := (tf_regs tf)\<lparr>reg_eax := word_of_int r\<rparr>\<rparr> \<and>
    (\<forall>x. x \<noteq> c \<longrightarrow> env_tf (envs s' x) = env_tf (envs s x)) \<and>
    (\<forall>d i j. umap (dirs s) s' (d, i, j) = umap (dirs s) s (d, i, j) \<or>
       (\<exists>e \<in> live s. authorised s e \<and> env_pgdir (envs s e) = Some d))"
proof -
  let ?s0 = "entered s tf c" and ?r = "tf_regs tf"
  have c: "c \<in> live s" using assms(3,6) by (auto simp: running_once_def curenv_def)
  note in0 = entered_inv [OF assms(1-3,6), where tf = tf]
  have vm0: "vm_inv (dirs ?s0) ?s0 ps" "refs_bounded ?s0" "c \<in> live ?s0"
    using in0(2,3,4,8) assms(4) c by (simp_all add: refs_bounded_def)
  from page_syscalls_spec [OF in0(1) vm0(1) in0(7) vm0(3,2) assms(11),
      of "reg_edx ?r" "reg_ecx ?r" "reg_ebx ?r" "reg_edi ?r" "reg_esi ?r"]
  obtain r s1 qs where s1: "syscall ?s0 (reg_eax ?r) (reg_edx ?r) (reg_ecx ?r) (reg_ebx ?r) (reg_edi ?r) (reg_esi ?r) = Ret r s1"
      "r \<le> 0" "mem_frame ?s0 s1" "vm_inv (dirs ?s0) s1 qs"
      "\<forall>d i j. umap (dirs ?s0) s1 (d, i, j) = umap (dirs ?s0) ?s0 (d, i, j) \<or>
         (\<exists>e \<in> live ?s0. authorised ?s0 e \<and> env_pgdir (envs ?s0 e) = Some d)" by blast
  note fr = mem_frame_envs [OF s1(3)]
  have envs1: "envs s1 = envs ?s0" "cpus s1 = cpus ?s0" "cpunum s1 = cpunum ?s0" "kernel_lock s1 = kernel_lock ?s0"
    using s1(3) by (simp_all add: mem_frame_def)
  let ?f = "\<lambda>en. en\<lparr>env_tf := tf\<lparr>tf_regs := ?r\<lparr>reg_eax := word_of_int r\<rparr>\<rparr>\<rparr>"
  let ?s2 = "upd_env c ?f s1"
  have "env_inv s1 fs" "vm_inv (dirs s1) s1 qs" using fr(1,2) in0(1) s1(4) by simp_all
  note in2 = upd_env_inv [OF this, of ?f c, simplified]
  have r2: "running_once ?s2" "in_kernel ?s2" "curenv ?s2 = Some c" "vm_inv (dirs ?s2) ?s2 qs"
    using running_once_cong [OF in0(5), of ?s2] in0(6,7) in2 fr envs1
    by (simp_all add: in_kernel_def curenv_def)
  obtain d where d: "env_pgdir (envs ?s2 c) = Some d"
    using live_dir [OF assms(1) c] in0(11) envs1 by auto
  obtain s' where s': "env_run ?s2 c = Leave s'" "env_inv s' fs" "vm_inv (dirs ?s2) s' qs" "dirs s' = dirs ?s2"
      "running_once s'" "curenv s' = Some c" "\<not> locked (kernel_lock s')" "env_status (envs s' c) = ENV_RUNNING"
      "\<And>x. env_tf (envs s' x) = env_tf (envs ?s2 x)" "frames s' = frames ?s2"
    using run_current [OF in2(1) r2(4,1,2,3) d] by metis
  have "trap_dispatch ?s0 (In_env c) cr2 = Ret () ?s2"
    using s1(1) assms(10) in0(9) envs1
    by (simp add: trap_dispatch_def get_tf_def set_tf_def Let_def)
  moreover have "env_status (envs ?s2 c) = ENV_RUNNING" using envs1 in0(10) assms(7) by simp
  ultimately have "trap s tf cr2 = Leave s'"
    using trap_user [OF assms(5-9), of cr2] r2(3) s'(1) by (simp add: trap_return_def)
  moreover have "kernel_inv s'" using s'(2-4) unfolding kernel_inv_def by auto
  moreover have "env_tf (envs s' x) = env_tf (envs s x)" if "x \<noteq> c" for x
    using that s'(9) envs1 by (simp add: entered_def)
  moreover have "umap (dirs s) s' = umap (dirs s) s1"
    by (rule frames_cong(3)) (simp add: s'(10))
  moreover have "authorised ?s0 e = authorised s e" for e
    using in0(7) assms(6) by (simp add: authorised_def) (simp add: entered_def)
  ultimately show ?thesis
    using s1(2,5) s'(5-9) in0(3,4,8,11) by (intro exI [of _ r] exI [of _ s']) simp
qed

section \<open>The page fault frame\<close>

text \<open>What the user-level handler reads at the address of its frame.\<close>

definition load_utf :: "kstate \<Rightarrow> u32 \<Rightarrow> UTrapframe option" where
  "load_utf s utf =
     do { fault_va \<leftarrow> load_word s utf; err \<leftarrow> load_word s (utf + 4);
          edi \<leftarrow> load_word s (utf + 8); esi \<leftarrow> load_word s (utf + 12); ebp \<leftarrow> load_word s (utf + 16);
          oesp \<leftarrow> load_word s (utf + 20); ebx \<leftarrow> load_word s (utf + 24); edx \<leftarrow> load_word s (utf + 28);
          ecx \<leftarrow> load_word s (utf + 32); eax \<leftarrow> load_word s (utf + 36);
          eip \<leftarrow> load_word s (utf + 40); eflags \<leftarrow> load_word s (utf + 44); esp \<leftarrow> load_word s (utf + 48);
          Some \<lparr>utf_fault_va = fault_va, utf_err = err,
                utf_regs = \<lparr>reg_edi = edi, reg_esi = esi, reg_ebp = ebp, reg_oesp = oesp, reg_ebx = ebx,
                  reg_edx = edx, reg_ecx = ecx, reg_eax = eax\<rparr>,
                utf_eip = eip, utf_eflags = eflags, utf_esp = esp\<rparr> }"

lemma load_utf_cong:
  assumes "frames s' = frames s" and "cpu_cr3 (cpus s' (cpunum s')) = cpu_cr3 (cpus s (cpunum s))"
  shows "load_utf s' utf = load_utf s utf"
proof -
  have "load_byte s' = load_byte s"
    using assms by (simp add: fun_eq_iff load_byte_def translate_def page_byte_def Let_def)
  then show ?thesis by (simp add: load_utf_def load_word_def load_half_def)
qed

lemma store_words_page:
  assumes "rw_page s base p" and "k + 4 * length ws \<le> 4096"
  shows "\<exists>f. store_words s (base + of_nat k) ws = Some (set_frame p f s) \<and>
    (\<forall>i < length ws. word_at (page_byte (set_frame p f s) p) (k + 4 * i) = ws ! i) \<and>
    (\<forall>j. j + 4 \<le> k \<or> k + 4 * length ws \<le> j \<longrightarrow>
       word_at (page_byte (set_frame p f s) p) j = word_at (page_byte s p) j)"
  using assms
proof (induction ws arbitrary: s k)
  case Nil
  then show ?case by (intro exI [of _ "frames s p"]) simp
next
  case (Cons w ws)
  obtain g where g: "store_word s (base + of_nat k) w = Some (set_frame p g s)"
      "page_byte (set_frame p g s) p = over k (word_bytes w) (page_byte s p)" "rw_page (set_frame p g s) base p"
    using store_word_page [OF Cons.prems(1), of k w] Cons.prems(2) by auto
  have twice: "set_frame p f (set_frame p g s) = set_frame p f s" for f by simp
  have "(k + 4) + 4 * length ws \<le> 4096" using Cons.prems(2) by simp
  from Cons.IH [OF g(3) this] obtain f where
    f: "store_words (set_frame p g s) (base + of_nat (k + 4)) ws = Some (set_frame p f s)"
      "\<forall>i < length ws. word_at (page_byte (set_frame p f s) p) (k + 4 + 4 * i) = ws ! i"
      "\<forall>j. j + 4 \<le> k + 4 \<or> k + 4 + 4 * length ws \<le> j \<longrightarrow>
         word_at (page_byte (set_frame p f s) p) j = word_at (over k (word_bytes w) (page_byte s p)) j"
    unfolding twice g(2) by blast
  have next': "base + of_nat k + 4 = base + of_nat (k + 4)" by simp
  have "store_words s (base + of_nat k) (w # ws) = Some (set_frame p f s)"
    unfolding store_words.simps g(1) next' using f(1) by (simp only: bind.bind_lunit)
  moreover have "word_at (page_byte (set_frame p f s) p) (k + 4 * i) = (w # ws) ! i" if "i < length (w # ws)" for i
  proof (cases i)
    case 0
    then show ?thesis using f(3) word_at_over(1) by simp
  next
    case (Suc m)
    then show ?thesis using f(2) that by (simp add: add.assoc)
  qed
  moreover have "word_at (page_byte (set_frame p f s) p) j = word_at (page_byte s p) j"
    if "j + 4 \<le> k \<or> k + 4 * length (w # ws) \<le> j" for j
    using f(3) word_at_over(2) [of j k w] that by auto
  ultimately show ?case by blast
qed

lemma base_offset: "base + of_nat k + numeral n = base + of_nat (k + numeral n)" for base :: u32
  by simp

lemma utf_roundtrip:
  assumes "rw_page s base p" and "k + 52 \<le> 4096"
  shows "\<exists>f. store_utf s (base + of_nat k) u = Some (set_frame p f s) \<and>
    load_utf (set_frame p f s) (base + of_nat k) = Some u"
proof -
  have k: "k + 4 \<le> 4096" "k + 4 + 4 \<le> 4096" "k + 40 + 4 \<le> 4096" "k + 44 + 4 \<le> 4096" "k + 48 + 4 \<le> 4096"
    using assms(2) by simp_all
  obtain f0 where f0: "store_word s (base + of_nat k) (utf_fault_va u) = Some (set_frame p f0 s)"
      "page_byte (set_frame p f0 s) p = over k (word_bytes (utf_fault_va u)) (page_byte s p)"
      "rw_page (set_frame p f0 s) base p"
    by (rule store_word_page [OF assms(1) k(1)])
  obtain f1 where f1: "store_word (set_frame p f0 s) (base + of_nat (k + 4)) (utf_err u) = Some (set_frame p f1 (set_frame p f0 s))"
      "page_byte (set_frame p f1 (set_frame p f0 s)) p = over (k + 4) (word_bytes (utf_err u)) (page_byte (set_frame p f0 s) p)"
      "rw_page (set_frame p f1 (set_frame p f0 s)) base p"
    by (rule store_word_page [OF f0(3) k(2)])
  have twice: "set_frame p g (set_frame p f s) = set_frame p g s" for f g by simp
  note f1 = f1 [unfolded twice]
  obtain f2 where f2: "store_word (set_frame p f1 s) (base + of_nat (k + 40)) (utf_eip u) = Some (set_frame p f2 (set_frame p f1 s))"
      "page_byte (set_frame p f2 (set_frame p f1 s)) p = over (k + 40) (word_bytes (utf_eip u)) (page_byte (set_frame p f1 s) p)"
      "rw_page (set_frame p f2 (set_frame p f1 s)) base p"
    by (rule store_word_page [OF f1(3) k(3)])
  note f2 = f2 [unfolded twice]
  obtain f3 where f3: "store_word (set_frame p f2 s) (base + of_nat (k + 44)) (utf_eflags u) = Some (set_frame p f3 (set_frame p f2 s))"
      "page_byte (set_frame p f3 (set_frame p f2 s)) p = over (k + 44) (word_bytes (utf_eflags u)) (page_byte (set_frame p f2 s) p)"
      "rw_page (set_frame p f3 (set_frame p f2 s)) base p"
    by (rule store_word_page [OF f2(3) k(4)])
  note f3 = f3 [unfolded twice]
  obtain f4 where f4: "store_word (set_frame p f3 s) (base + of_nat (k + 48)) (utf_esp u) = Some (set_frame p f4 (set_frame p f3 s))"
      "page_byte (set_frame p f4 (set_frame p f3 s)) p = over (k + 48) (word_bytes (utf_esp u)) (page_byte (set_frame p f3 s) p)"
      "rw_page (set_frame p f4 (set_frame p f3 s)) base p"
    by (rule store_word_page [OF f3(3) k(5)])
  note f4 = f4 [unfolded twice]
  let ?ws = "regs_words (utf_regs u)"
  have len: "k + 8 + 4 * length ?ws \<le> 4096" using assms(2) by (simp add: regs_words_def)
  from store_words_page [OF f4(3) len] obtain f where
    f: "store_words (set_frame p f4 s) (base + of_nat (k + 8)) ?ws = Some (set_frame p f s)"
      "\<forall>i < length ?ws. word_at (page_byte (set_frame p f s) p) (k + 8 + 4 * i) = ?ws ! i"
      "\<forall>j. j + 4 \<le> k + 8 \<or> k + 8 + 4 * length ?ws \<le> j \<longrightarrow>
         word_at (page_byte (set_frame p f s) p) j = word_at (page_byte (set_frame p f4 s) p) j"
    unfolding twice by blast
  let ?m = "word_at (page_byte (set_frame p f s) p)"
  have outer: "?m k = utf_fault_va u" "?m (k + 4) = utf_err u" "?m (k + 40) = utf_eip u" "?m (k + 44) = utf_eflags u"
      "?m (k + 48) = utf_esp u"
    using f(3) f0(2) f1(2) f2(2) f3(2) f4(2) by (simp_all add: regs_words_def word_at_over)
  have regs: "?m (k + 8) = reg_edi (utf_regs u)" "?m (k + 12) = reg_esi (utf_regs u)" "?m (k + 16) = reg_ebp (utf_regs u)"
      "?m (k + 20) = reg_oesp (utf_regs u)" "?m (k + 24) = reg_ebx (utf_regs u)" "?m (k + 28) = reg_edx (utf_regs u)"
      "?m (k + 32) = reg_ecx (utf_regs u)" "?m (k + 36) = reg_eax (utf_regs u)"
    using f(2) [rule_format, of 0] f(2) [rule_format, of 1] f(2) [rule_format, of 2] f(2) [rule_format, of 3]
      f(2) [rule_format, of 4] f(2) [rule_format, of 5] f(2) [rule_format, of 6] f(2) [rule_format, of 7]
    by (simp_all add: regs_words_def ac_simps)
  have rw: "rw_page (set_frame p f s) base p" using rw_page_set_frame [OF assms(1)] .
  have ld: "load_word (set_frame p f s) (base + of_nat j) = Some (?m j)" if "j + 4 \<le> 4096" for j
    using load_word_page [OF rw that] .
  have "store_utf s (base + of_nat k) u = Some (set_frame p f s)"
    unfolding store_utf_def base_offset using f0(1) f1(1) f2(1) f3(1) f4(1) f(1) by (simp del: of_nat_add fun_upd_apply)
  moreover have "load_utf (set_frame p f s) (base + of_nat k) = Some u"
    unfolding load_utf_def base_offset using assms(2) by (simp add: ld outer regs del: of_nat_add fun_upd_apply)
  ultimately show ?thesis by blast
qed

text \<open>The frame address inside the exception stack page.\<close>

lemma above_base: "b \<le> a \<Longrightarrow> a = b + of_nat (unat a - unat b)" for a b :: u32
  by (simp add: unat_sub [symmetric])

lemma utf_offset:
  assumes "UXSTACKTOP - PGSIZE \<le> utf_address esp"
  obtains k where "utf_address esp = (UXSTACKTOP - PGSIZE) + of_nat k" "k + 52 \<le> 4096"
proof -
  let ?b = "UXSTACKTOP - PGSIZE" and ?u = "utf_address esp"
  have b: "unat ?b = 0xEEBFF000" by (simp add: layout_values)
  have "unat ?u + 52 \<le> 0xEEC00000"
  proof (cases "?b \<le> esp \<and> esp \<le> UXSTACKTOP - 1")
    case True
    then have "0xEEBFF000 \<le> unat esp" "unat esp \<le> 0xEEBFFFFF" by (simp_all add: layout_values word_le_nat_alt)
    moreover from this have "unat (esp - 56) = unat esp - 56" by (simp add: unat_sub word_le_nat_alt)
    ultimately show ?thesis using True by (simp add: utf_address_def)
  next
    case False
    then have "?u = UXSTACKTOP - UTF_SIZE" unfolding utf_address_def by (rule if_not_P)
    then show ?thesis by (simp add: layout_values)
  qed
  moreover have "0xEEBFF000 \<le> unat ?u" using assms b by (simp add: word_le_nat_alt)
  ultimately have "unat ?u - unat ?b + 52 \<le> 4096" using b by simp
  then show ?thesis using that above_base [OF assms] by blast
qed

text \<open>The exception stack is mapped for the user and writable, in the directory that is loaded.\<close>

definition exception_stack :: "kstate \<Rightarrow> nat \<Rightarrow> bool" where
  "exception_stack s d \<longleftrightarrow>
     (let base = UXSTACKTOP - PGSIZE in
      (case umap (dirs s) s (slot d base) of None \<Rightarrow> False | Some pte \<Rightarrow> pte AND 6 = 6) \<and>
      frames s d (unat (PDX base)) AND PTE_W \<noteq> 0 \<and> cpu_cr3 (cpus s (cpunum s)) = d)"

lemma exception_stack_page:
  assumes "vm_inv (dirs s) s ps" and "exception_stack s d" and "d \<in> dirs s"
  obtains p where "rw_page s (UXSTACKTOP - PGSIZE) p" "p \<notin> dirs s" "p \<notin> tables (dirs s) s"
    "\<And>e k. k + 52 \<le> 4096 \<Longrightarrow> env_pgdir (envs s e) = Some d \<Longrightarrow>
       user_mem_check s e ((UXSTACKTOP - PGSIZE) + of_nat k) 52 6 = Some (0, s)"
proof -
  let ?b = "UXSTACKTOP - PGSIZE" and ?D = "dirs s"
  from assms(2) obtain pte where pte: "umap ?D s (slot d ?b) = Some pte" "pte AND 6 = 6"
      "frames s d (unat (PDX ?b)) AND PTE_W \<noteq> 0" "cpu_cr3 (cpus s (cpunum s)) = d"
    by (auto simp: exception_stack_def Let_def split: option.splits)
  then obtain t where t: "utab s d (unat (PDX ?b)) = Some t" "frames s t (unat (PTX ?b)) = pte" "present pte"
      "unat (PDX ?b) < NUPD"
    by (auto simp: umap_def split: if_splits option.splits)
  have p: "pfn pte \<notin> ?D" "pfn pte \<notin> tables ?D s" using vm_inv_user [OF assms(1) pte(1)] by (simp_all add: user_page_def)
  have tab: "t \<in> tables ?D s" using t assms(3) by (auto simp: tables_def)
  have "pte AND 2 = (pte AND 6) AND 2" unfolding and.assoc by simp
  then have w: "pte AND PTE_W \<noteq> 0" unfolding pte(2) by simp
  have off: "PGOFF ?b = 0" by (simp add: layout_values PGOFF_def)
  have "rw_page s ?b (pfn pte)"
    using t p tab pte off w assms(3) by (auto simp: rw_page_def Let_def utab_def split: if_splits)
  moreover have "user_mem_check s e (?b + of_nat k) 52 6 = Some (0, s)"
    if k: "k + 52 \<le> 4096" and e: "env_pgdir (envs s e) = Some d" for e k
  proof -
    define utf where "utf = ?b + of_nat k"
    have b: "unat ?b = 977919 * 4096" by (simp add: layout_values)
    have "unat (of_nat k :: u32) = k" using k by (simp add: unat_of_nat)
    then have utf: "unat utf = 977919 * 4096 + k" unfolding utf_def using k b by (simp add: unat_word_ariths)
    then have top: "unat (utf + 52) = 977919 * 4096 + k + 52" using k by (simp add: unat_word_ariths)
    have "unat (ROUNDDOWN utf PGSIZE) = 977919 * 4096"
    proof -
      have "(977919 * 4096 + k) mod 4096 = k" unfolding mod_mult_self3 using k by simp
      moreover have "unat PGSIZE = 4096" by simp
      ultimately show ?thesis by (simp only: unat_ROUNDDOWN utf)
    qed
    then have lo: "ROUNDDOWN utf PGSIZE = ?b" using b by (simp only: word_unat_eq_iff)
    have "(977919 * 4096 + k + 52 + 4095) div 4096 = 977920" using k by simp
    then have "unat (ROUNDUP (utf + 52) PGSIZE) = 977920 * 4096"
      using unat_ROUNDUP [of "utf + 52" PGSIZE] top k by simp
    moreover have "unat UXSTACKTOP = 977920 * 4096" by (simp add: layout_values)
    ultimately have hi: "ROUNDUP (utf + 52) PGSIZE = UXSTACKTOP" by (simp only: word_unat_eq_iff)
    have "t < npages s" using vm_countsT(1) [OF vm_invD(1) [OF assms(1)] assms(3) t(4,1)] .
    then have "pgdir_walk s (Some d) ?b False = Some (Some (t, unat (PTX ?b)), s)"
      using walk_present [OF t(1)] by simp
    moreover have "?b < UXSTACKTOP" "\<not> ?b > ULIM" "?b + PGSIZE = UXSTACKTOP" by (simp_all add: layout_values)
    ultimately show ?thesis
      unfolding user_mem_check_def utf_def [symmetric] lo hi e
      using t(2) pte(2) by (subst user_mem_check_loop.simps) (simp add: user_mem_check_loop.simps)
  qed
  ultimately show ?thesis using that p by blast
qed

lemma page_fault_spec:
  assumes "env_inv s fs" and "vm_inv (dirs s) s ps" and "running_once s" and "in_kernel s" and "curenv s = Some c"
    and "env_pgfault_upcall (envs s c) \<noteq> 0" and "env_pgdir (envs s c) = Some d"
    and "exception_stack s d" and "env_tf (envs s c) = tf" and "utf = utf_address (tf_esp tf)"
    and "UXSTACKTOP - PGSIZE \<le> utf"
  obtains s' ps' where "page_fault_handler s (In_env c) va = Leave s'" "env_inv s' fs" "vm_inv (dirs s) s' ps'"
    "dirs s' = dirs s" "running_once s'" "curenv s' = Some c" "\<not> locked (kernel_lock s')"
    "umap (dirs s) s' = umap (dirs s) s"
    "env_tf (envs s' c) = tf\<lparr>tf_eip := env_pgfault_upcall (envs s c), tf_esp := utf\<rparr>"
    "\<And>x. x \<noteq> c \<Longrightarrow> env_tf (envs s' x) = env_tf (envs s x)"
    "load_utf s' utf = Some \<lparr>utf_fault_va = va, utf_err = tf_trapno tf, utf_regs = tf_regs tf, utf_eip = tf_eip tf,
       utf_eflags = tf_eflags tf, utf_esp = tf_esp tf\<rparr>"
proof -
  let ?b = "UXSTACKTOP - PGSIZE" and ?D = "dirs s"
  let ?u = "\<lparr>utf_fault_va = va, utf_err = tf_trapno tf, utf_regs = tf_regs tf, utf_eip = tf_eip tf,
       utf_eflags = tf_eflags tf, utf_esp = tf_esp tf\<rparr>"
  have c: "c \<in> live s" using assms(3,5) by (auto simp: running_once_def curenv_def)
  have d: "d \<in> dirs s" using c assms(7) by (auto simp: dirs_def)
  obtain p where p: "rw_page s ?b p" "p \<notin> ?D" "p \<notin> tables ?D s" "\<And>e k. k + 52 \<le> 4096 \<Longrightarrow> env_pgdir (envs s e) = Some d \<Longrightarrow>
       user_mem_check s e (?b + of_nat k) 52 6 = Some (0, s)"
    using exception_stack_page [OF assms(2,8) d] by metis
  obtain k where k: "utf = ?b + of_nat k" "k + 52 \<le> 4096" using utf_offset assms(10,11) by metis
  have "user_mem_check s c utf 52 6 = Some (0, s)" unfolding k(1) by (rule p(4) [OF k(2) assms(7)])
  then have ok: "user_mem_assert s c utf UTF_SIZE (PTE_U OR PTE_W) = Ret () s" by (simp add: user_mem_assert_def)
  from utf_roundtrip [OF p(1) k(2), of ?u, folded k(1)] obtain f where
    f: "store_utf s utf ?u = Some (set_frame p f s)" "load_utf (set_frame p f s) utf = Some ?u" by blast
  let ?s1 = "set_frame p f s" and ?g = "\<lambda>en. en\<lparr>env_tf := tf\<lparr>tf_eip := env_pgfault_upcall (envs s c), tf_esp := utf\<rparr>\<rparr>"
  let ?s2 = "upd_env c ?g ?s1"
  have s1: "env_inv ?s1 fs" "vm_inv (dirs ?s1) ?s1 ps" "dirs ?s1 = ?D" "umap ?D ?s1 = umap ?D s"
    using assms(1) env_inv_cong [of ?s1 s] dirs_cong [of ?s1 s] other_page_umap(3) [of p ?s1 s ?D]
      other_page_inv [OF assms(2) p(2,3), of ?s1] p by simp_all
  note in2 = upd_env_inv [OF s1(1,2), of ?g c, simplified]
  have "live ?s1 = live s" by (rule live_cong) simp
  then have r2: "running_once ?s2" "in_kernel ?s2" "curenv ?s2 = Some c" "vm_inv (dirs ?s2) ?s2 ps"
      "env_pgdir (envs ?s2 c) = Some d"
    using running_once_cong [OF assms(3), of ?s2] assms(4,5,7) in2 by (simp_all add: in_kernel_def curenv_def)
  obtain s' where s': "env_run ?s2 c = Leave s'" "env_inv s' fs" "vm_inv (dirs ?s2) s' ps" "dirs s' = dirs ?s2"
      "running_once s'" "curenv s' = Some c" "\<not> locked (kernel_lock s')"
      "\<And>x. env_tf (envs s' x) = env_tf (envs ?s2 x)" "frames s' = frames ?s2" "cpu_cr3 (cpus s' (cpunum s')) = d"
    using run_current [OF in2(1) r2(4,1,2,3,5)] by metis
  have "page_fault_handler s (In_env c) va = Leave s'"
    using assms(5,6,9,10) ok f(1) s'(1)
    by (simp add: page_fault_handler_def get_tf_def set_tf_def curenv_def Let_def)
  moreover have "load_utf s' utf = Some ?u"
    using load_utf_cong [of s' ?s1] f(2) s'(9,10) assms(8) by (simp add: exception_stack_def Let_def)
  moreover have "umap ?D s' = umap ?D ?s1" by (rule frames_cong(3)) (simp add: s'(9))
  then have "umap ?D s' = umap ?D s" using s1(4) by simp
  ultimately show ?thesis
    using that [of s' ps] s' in2(3) s1(3) by simp
qed

section \<open>Properties\<close>

text \<open>C21. A system call that changes address spaces, all the way from user mode and back: the trap takes the
  kernel lock, saves the registers, runs the call and resumes the caller with the lock released and
  the result in \<^verbatim>\<open>eax\<close>, every other register as it was. The kernel's invariants hold again, and no address
  space but those of the caller and its children changed.\<close>

theorem trap_page_syscall:
  assumes "env_inv s fs" and "vm_inv (dirs s) s ps" and "running_once s" and "refs_bounded s"
    and "kernel_lock s = \<lparr>locked = False, lock_cpu = None\<rparr>" and "curenv s = Some c"
    and "env_status (envs s c) = ENV_RUNNING" and "cpu_status (cpus s (cpunum s)) = CPU_STARTED"
    and "tf_cs tf AND 3 = 3" and "tf_trapno tf = T_SYSCALL"
    and "reg_eax (tf_regs tf) = 4 \<or> reg_eax (tf_regs tf) = 5 \<or> reg_eax (tf_regs tf) = 6"
  shows "\<exists>r s'. trap s tf cr2 = Leave s' \<and> r \<le> 0 \<and> kernel_inv s' \<and> running_once s' \<and>
    \<not> locked (kernel_lock s') \<and> curenv s' = Some c \<and> env_status (envs s' c) = ENV_RUNNING \<and>
    env_tf (envs s' c) = tf\<lparr>tf_regs := (tf_regs tf)\<lparr>reg_eax := word_of_int r\<rparr>\<rparr> \<and>
    (\<forall>x. x \<noteq> c \<longrightarrow> env_tf (envs s' x) = env_tf (envs s x)) \<and>
    (\<forall>d i j. umap (dirs s) s' (d, i, j) = umap (dirs s) s (d, i, j) \<or>
       (\<exists>e \<in> live s. authorised s e \<and> env_pgdir (envs s e) = Some d))"
  using assms by (rule trap_page_syscall_spec)

definition user_mode :: kstate where
  "user_mode = two_envs\<lparr>kernel_lock := \<lparr>locked = False, lock_cpu = None\<rparr>\<rparr>"

definition alloc_frame :: Trapframe where
  "alloc_frame = init_tf\<lparr>tf_trapno := T_SYSCALL, tf_regs := zero_regs\<lparr>reg_eax := 4, reg_ecx := 0x800000, reg_ebx := 7\<rparr>\<rparr>"

lemma user_mode_inv:
  "env_inv user_mode [Suc (Suc 0)..<NENV]" "vm_inv (dirs user_mode) user_mode [5, 4, 3]" "running_once user_mode"
  "refs_bounded user_mode" "kernel_lock user_mode = \<lparr>locked = False, lock_cpu = None\<rparr>" "curenv user_mode = Some 0"
  "env_status (envs user_mode 0) = ENV_RUNNING" "cpu_status (cpus user_mode (cpunum user_mode)) = CPU_STARTED"
proof -
  have same: "envs user_mode = envs two_envs" "env_free_list user_mode = env_free_list two_envs"
      "frames user_mode = frames two_envs" "pages user_mode = pages two_envs" "npages user_mode = npages two_envs"
      "page_free_list user_mode = page_free_list two_envs" "cpus user_mode = cpus two_envs" "cpunum user_mode = cpunum two_envs"
    by (simp_all add: user_mode_def)
  note D = dirs_cong [OF same(1)]
  show "env_inv user_mode [Suc (Suc 0)..<NENV]" using two_envs_inv(1) env_inv_cong [OF same(1,2)] by simp
  show "vm_inv (dirs user_mode) user_mode [5, 4, 3]" using two_envs_inv(2) vm_inv_cong [OF same(3-6)] D by simp
  show "running_once user_mode"
    using two_envs_inv(3) live_cong [OF same(1)] unfolding running_once_def same by simp
  have "umap (dirs user_mode) user_mode = umap (dirs two_envs) two_envs"
    unfolding D by (rule frames_cong(3) [OF same(3)])
  then show "refs_bounded user_mode" using two_envs_refs by (simp add: refs_bounded_def)
  show "kernel_lock user_mode = \<lparr>locked = False, lock_cpu = None\<rparr>" by (simp add: user_mode_def)
  show "curenv user_mode = Some 0" "env_status (envs user_mode 0) = ENV_RUNNING"
    "cpu_status (cpus user_mode (cpunum user_mode)) = CPU_STARTED"
    unfolding curenv_def same by (simp_all add: two_envs_def)
qed

theorem trap_page_syscall_witness:
  "\<exists>r s'. trap user_mode alloc_frame 0 = Leave s' \<and> kernel_inv s' \<and> running_once s' \<and> curenv s' = Some 0 \<and>
     env_tf (envs s' 0) = alloc_frame\<lparr>tf_regs := (tf_regs alloc_frame)\<lparr>reg_eax := word_of_int r\<rparr>\<rparr>"
proof -
  have "tf_cs alloc_frame AND 3 = 3" "tf_trapno alloc_frame = T_SYSCALL" "reg_eax (tf_regs alloc_frame) = 4"
    by (simp_all add: alloc_frame_def init_tf_def zero_tf_def)
  then show ?thesis using trap_page_syscall [OF user_mode_inv, of alloc_frame 0] by blast
qed


text \<open>Setting flags of a directory entry changes no mapping.\<close>

lemma pde_flags:
  assumes "vm_inv D s ps" and "d \<in> D" and "present v = present (frames s d i)" and "pfn v = pfn (frames s d i)"
  shows "vm_inv D (set_word d i v s) ps" and "umap D (set_word d i v s) = umap D s"
proof -
  let ?s = "set_word d i v s"
  have ut: "utab ?s d' i' = utab s d' i'" for d' i' using assms(3,4) by (simp add: utab_def)
  have tabs: "tables D ?s = tables D s" by (simp add: tables_def ut)
  have own: "owned ?s ps q = owned s ps q" "free_list ?s ps = free_list s ps" for q by simp_all
  have dirs: "vm_dirs D ?s ps = vm_dirs D s ps" unfolding vm_dirs_def own ut by (rule refl)
  have dt: "d \<noteq> t" if "d' \<in> D" "i' < NUPD" "utab s d' i' = Some t" for d' i' t
    using vm_countsT(2) [OF vm_invD(1) [OF assms(1)] that] assms(2) by blast
  show m: "umap D ?s = umap D s"
  proof (rule ext, clarify)
    fix d' i' j
    show "umap D ?s (d', i', j) = umap D s (d', i', j)"
    proof (cases "d' \<in> D \<and> i' < NUPD")
      case True
      then have "frames ?s t = frames s t" if "utab s d' i' = Some t" for t using dt that by auto
      then show ?thesis by (auto simp: umap_def ut split: option.split)
    qed (auto simp: umap_def)
  qed
  have "user_page D ?s ps q n = user_page D s ps q n" for q n by (simp add: user_page_def tabs)
  then show "vm_inv D ?s ps" using assms(1) by (simp add: vm_inv_def vm_counts_def dirs m)
qed

lemma flag_W: "present (x OR PTE_W) = present x" "pfn (x OR PTE_W) = pfn x" "(x OR PTE_W) AND PTE_W \<noteq> 0"
proof -
  show "present (x OR PTE_W) = present x" by (simp add: present_def bit.conj_disj_distrib2)
  show "pfn (x OR PTE_W) = pfn x" by (simp add: pfn_def PTE_ADDR_def bit.conj_disj_distrib2)
  show "(x OR PTE_W) AND PTE_W \<noteq> 0" by (simp add: bit.conj_disj_distrib2 or_eq_0_iff)
qed

text \<open>The first environment with an exception stack and a fault handler at \<^verbatim>\<open>0x800020\<close>, in user mode.\<close>

definition with_stack :: kstate where
  "with_stack = (case sys_page_alloc two_envs 0 0xEEBFF000 7 of
     Ret r s \<Rightarrow> (case env_pgdir (envs s 0) of
       None \<Rightarrow> s
     | Some d \<Rightarrow> upd_env 0 (\<lambda>en. en\<lparr>env_pgfault_upcall := 0x800020\<rparr>)
         (set_word d 954 (frames s d 954 OR PTE_W)
           (s\<lparr>kernel_lock := \<lparr>locked = False, lock_cpu = None\<rparr>, cpus := (cpus s)(0 := (cpus s 0)\<lparr>cpu_cr3 := d\<rparr>)\<rparr>)))
   | _ \<Rightarrow> two_envs)"

definition fault_frame :: Trapframe where
  "fault_frame = init_tf\<lparr>tf_trapno := T_PGFLT, tf_eip := 0x800100\<rparr>"

lemma with_stack_inv:
  obtains ps d where "env_inv with_stack [Suc (Suc 0)..<NENV]" "vm_inv (dirs with_stack) with_stack ps"
    "running_once with_stack" "kernel_lock with_stack = \<lparr>locked = False, lock_cpu = None\<rparr>"
    "curenv with_stack = Some 0" "env_status (envs with_stack 0) = ENV_RUNNING"
    "cpu_status (cpus with_stack (cpunum with_stack)) = CPU_STARTED"
    "env_pgfault_upcall (envs with_stack 0) = 0x800020" "env_pgdir (envs with_stack 0) = Some d"
    "exception_stack with_stack d"
proof -
  have perm: "(0xEEBFF000 :: u32) < UTOP" "user_perm 7" by (simp_all add: layout_values user_perm_7)
  obtain s ps d p where s: "sys_page_alloc two_envs 0 0xEEBFF000 7 = Ret 0 s" "mem_frame two_envs s"
      "env_inv s [Suc (Suc 0)..<NENV]" "vm_inv (dirs s) s ps" "env_pgdir (envs s 0) = Some d" "d \<in> dirs s"
      "umap (dirs s) s = [slot d 0xEEBFF000 \<mapsto> mk_pte p 7]"
    by (rule two_envs_alloc [OF perm])
  define s1 where "s1 = s\<lparr>kernel_lock := \<lparr>locked = False, lock_cpu = None\<rparr>, cpus := (cpus s)(0 := (cpus s 0)\<lparr>cpu_cr3 := d\<rparr>)\<rparr>"
  define s2 where "s2 = set_word d 954 (frames s1 d 954 OR PTE_W) s1"
  have ws: "with_stack = upd_env 0 (\<lambda>en. en\<lparr>env_pgfault_upcall := 0x800020\<rparr>) s2"
    using s(1,5) by (simp add: with_stack_def s2_def s1_def)
  have fields: "envs s = envs two_envs" "cpus s = cpus two_envs" "cpunum s = 0"
    using s(2) by (simp_all add: mem_frame_def two_envs_def)
  have e1: "envs s2 = envs s" "env_free_list s2 = env_free_list s" by (simp_all add: s2_def s1_def)
  have D: "dirs s2 = dirs s" "live s2 = live s" using dirs_cong [OF e1(1)] live_cong [OF e1(1)] .
  have f1: "frames s1 = frames s" by (simp add: s1_def)
  have "vm_inv (dirs s) s1 ps" using s(4) vm_inv_cong [of s1 s] by (simp add: s1_def)
  note v2 = pde_flags [OF this s(6), of "frames s1 d 954 OR PTE_W" 954, OF flag_W(1,2), folded s2_def]
  have inv2: "env_inv s2 [Suc (Suc 0)..<NENV]" "vm_inv (dirs s2) s2 ps"
    using s(3) env_inv_cong [OF e1] v2(1) D by simp_all
  note u = upd_env_inv [OF inv2, of "\<lambda>en. en\<lparr>env_pgfault_upcall := 0x800020\<rparr>" 0, simplified, folded ws]
  have m: "umap (dirs with_stack) with_stack = [slot d 0xEEBFF000 \<mapsto> mk_pte p 7]"
    using u(3,5) v2(2) D(1) s(7) frames_cong(3) [OF f1, of "dirs s"] by simp
  have cpu: "cpu_env (cpus with_stack k) = cpu_env (cpus two_envs k)" "cpunum with_stack = cpunum two_envs" for k
    using fields by (simp_all add: ws s2_def s1_def two_envs_def)
  have st: "env_status (envs with_stack x) = env_status (envs two_envs x)" for x
    using fields(1) e1(1) by (simp add: ws)
  have "live with_stack = live two_envs" using u(4) D(2) mem_frame_envs(3) [OF s(2)] by simp
  then have once: "running_once with_stack" using running_once_cong [OF two_envs_inv(3) cpu] st by simp
  have "PDX 0xEEBFF000 = 954" by (simp add: word_unat_eq_iff unat_PDX)
  then have "exception_stack with_stack d"
    unfolding exception_stack_def using m fields
    by (simp add: layout_values mk_pte_flags flag_W(3)) (simp add: ws s2_def s1_def flag_W(3))
  moreover have "curenv with_stack = Some 0" "env_status (envs with_stack 0) = ENV_RUNNING"
      "cpu_status (cpus with_stack (cpunum with_stack)) = CPU_STARTED"
    using cpu st fields by (simp_all add: curenv_def two_envs_def ws s2_def s1_def)
  moreover have "kernel_lock with_stack = \<lparr>locked = False, lock_cpu = None\<rparr>"
      "env_pgfault_upcall (envs with_stack 0) = 0x800020" "env_pgdir (envs with_stack 0) = Some d"
    using s(5) e1(1) by (simp_all add: ws s2_def s1_def)
  moreover have "vm_inv (dirs with_stack) with_stack ps" using u(2,3) by simp
  ultimately show ?thesis using that u(1) once by blast
qed


end
