(* ===== verification/Kdebug.thy ===== *)
theory Kdebug
  imports UserMem
begin

text \<open>
  The debugging information of \<^verbatim>\<open>kern/kdebug.c\<close>: finding the function, file and line of an address in the stabs of the kernel or
  of the current environment. The tables are read through the loaded page directory, and \<open>None\<close> is a page fault of
  the kernel. Where the linker put the tables of the kernel is a parameter.

  Shown is what \<^verbatim>\<open>stab_binsearch\<close> finds in a table whose entries of the type searched for are in increasing order of address: the
  last entry at or below the address and the position of its successor.
\<close>

unbundle bit_operations_syntax

section \<open>Entries\<close>

record Stab =
  n_strx :: u32
  n_type :: u8
  n_other :: u8
  n_desc :: u16
  n_value :: u32

abbreviation N_FUN :: u8 where "N_FUN \<equiv> 0x24"
abbreviation N_SLINE :: u8 where "N_SLINE \<equiv> 0x44"
abbreviation N_SO :: u8 where "N_SO \<equiv> 0x64"
abbreviation N_SOL :: u8 where "N_SOL \<equiv> 0x84"
abbreviation N_PSYM :: u8 where "N_PSYM \<equiv> 0xa0"
abbreviation USTABDATA :: u32 where "USTABDATA \<equiv> 0x200000"

definition stab_at :: "kstate \<Rightarrow> u32 \<Rightarrow> int \<Rightarrow> Stab option" where
  "stab_at s stabs i =
     (let a = stabs + 12 * of_int i in
      do { strx \<leftarrow> load_word s a; type \<leftarrow> load_byte s (a + 4); other \<leftarrow> load_byte s (a + 5);
           desc \<leftarrow> load_half s (a + 6); val \<leftarrow> load_word s (a + 8);
           Some \<lparr>n_strx = strx, n_type = type, n_other = other, n_desc = desc, n_value = val\<rparr> })"

section \<open>Binary search\<close>

text \<open>Division by two rounds towards zero.\<close>

definition half :: "int \<Rightarrow> int" where
  "half x = (if x < 0 then - ((- x) div 2) else x div 2)"

text \<open>The scan down to the next entry of the type; it stops below \<open>l\<close>.\<close>

partial_function (option) stab_scan :: "(int \<Rightarrow> Stab option) \<Rightarrow> int \<Rightarrow> int \<Rightarrow> u8 \<Rightarrow> int option" where
  "stab_scan stabs l m type =
     (if m \<ge> l then do { st \<leftarrow> stabs m; if n_type st \<noteq> type then stab_scan stabs l (m - 1) type else Some m } else Some m)"

partial_function (option) binsearch_loop ::
  "(int \<Rightarrow> Stab option) \<Rightarrow> u8 \<Rightarrow> int \<Rightarrow> int \<Rightarrow> u32 \<Rightarrow> int \<Rightarrow> int \<Rightarrow> bool \<Rightarrow> (int \<times> int \<times> bool) option" where
  "binsearch_loop stabs type l r addr region_left region_right any_matches =
     (if l \<le> r
      then let true_m = half (l + r) in
        do { m \<leftarrow> stab_scan stabs l true_m type;
             if m < l then binsearch_loop stabs type (true_m + 1) r addr region_left region_right any_matches
             else
               do { st \<leftarrow> stabs m;
                    if n_value st < addr then binsearch_loop stabs type (true_m + 1) r addr m region_right True
                    else if n_value st > addr then binsearch_loop stabs type l (m - 1) addr region_left (m - 1) True
                    else binsearch_loop stabs type m r (addr + 1) m region_right True } }
      else Some (region_left, region_right, any_matches))"

definition stab_binsearch :: "(int \<Rightarrow> Stab option) \<Rightarrow> int \<Rightarrow> int \<Rightarrow> u8 \<Rightarrow> u32 \<Rightarrow> (int \<times> int) option" where
  "stab_binsearch stabs region_left region_right type addr =
     do { (left, right, any_matches) \<leftarrow>
            binsearch_loop stabs type region_left region_right addr region_left region_right False;
          if \<not> any_matches then Some (left, left - 1)
          else do { l \<leftarrow> stab_scan stabs (left + 1) right type; Some (l, right) } }"

section \<open>The information on an address\<close>

text \<open>\<open>None\<close> is the string \<^verbatim>\<open><unknown>\<close>.\<close>

record Eipdebuginfo =
  eip_file :: "u32 option"
  eip_line :: int
  eip_fn_name :: "u32 option"
  eip_fn_namelen :: int
  eip_fn_addr :: u32
  eip_fn_narg :: nat

record UserStabData =
  usd_stabs :: u32
  usd_stab_end :: u32
  usd_stabstr :: u32
  usd_stabstr_end :: u32

text \<open>The number of entries between two pointers.\<close>

definition stab_count :: "UserStabData \<Rightarrow> int" where
  "stab_count t = (let d = sint (usd_stab_end t - usd_stabs t) in if d < 0 then - ((- d) div 12) else d div 12)"

definition user_stabs :: "kstate \<Rightarrow> ((UserStabData option) \<times> kstate) option" where
  "user_stabs s =
     do { e \<leftarrow> curenv s;
          (r, s) \<leftarrow> user_mem_check s e USTABDATA 16 PTE_U;
          if r < 0 then Some (None, s)
          else
            do { a \<leftarrow> load_word s USTABDATA; b \<leftarrow> load_word s (USTABDATA + 4);
                 c \<leftarrow> load_word s (USTABDATA + 8); d \<leftarrow> load_word s (USTABDATA + 12);
                 let t = \<lparr>usd_stabs = a, usd_stab_end = b, usd_stabstr = c, usd_stabstr_end = d\<rparr>;
                 (r, s) \<leftarrow> user_mem_check s e (usd_stabs t) (of_int (stab_count t)) PTE_U;
                 if r < 0 then Some (None, s)
                 else
                   do { (r, s) \<leftarrow> user_mem_check s e (usd_stabstr t) (usd_stabstr_end t - usd_stabstr t) PTE_U;
                        Some (if r < 0 then None else Some t, s) } } }"

text \<open>\<^verbatim>\<open>strfind\<close> of the colon, as a distance.\<close>

partial_function (option) name_length :: "kstate \<Rightarrow> u32 \<Rightarrow> int \<Rightarrow> int option" where
  "name_length s a n =
     do { c \<leftarrow> load_byte s a; if c = 0 \<or> c = 58 then Some n else name_length s (a + 1) (n + 1) }"

partial_function (option) file_of_line :: "(int \<Rightarrow> Stab option) \<Rightarrow> int \<Rightarrow> int \<Rightarrow> int option" where
  "file_of_line stabs lfile lline =
     (if lline \<ge> lfile
      then do { st \<leftarrow> stabs lline;
                if n_type st \<noteq> N_SOL \<and> (n_type st \<noteq> N_SO \<or> n_value st = 0) then file_of_line stabs lfile (lline - 1)
                else Some lline }
      else Some lline)"

partial_function (option) count_args :: "(int \<Rightarrow> Stab option) \<Rightarrow> int \<Rightarrow> int \<Rightarrow> nat \<Rightarrow> nat option" where
  "count_args stabs rfun lline n =
     (if lline < rfun
      then do { st \<leftarrow> stabs lline; if n_type st = N_PSYM then count_args stabs rfun (lline + 1) (n + 1) else Some n }
      else Some n)"

text \<open>The search proper, in tables with \<open>n\<close> entries and strings from \<open>stabstr\<close>, of length \<open>len\<close>.\<close>

definition find_function ::
  "(int \<Rightarrow> Stab option) \<Rightarrow> u32 \<Rightarrow> u32 \<Rightarrow> u32 \<Rightarrow> int \<Rightarrow> int \<Rightarrow> int \<Rightarrow> int \<Rightarrow> Eipdebuginfo \<Rightarrow> ((u32 \<times> int \<times> int) \<times> Eipdebuginfo) option" where
  "find_function stabs stabstr len addr lfile rfile lfun rfun info =
     (if lfun \<le> rfun
      then do { st \<leftarrow> stabs lfun;
                let info = (if n_strx st < len then info\<lparr>eip_fn_name := Some (stabstr + n_strx st)\<rparr> else info);
                Some ((addr - n_value st, lfun, rfun), info\<lparr>eip_fn_addr := n_value st\<rparr>) }
      else Some ((addr, lfile, rfile), info\<lparr>eip_fn_addr := addr\<rparr>))"

definition find_line ::
  "(int \<Rightarrow> Stab option) \<Rightarrow> u32 \<Rightarrow> u32 \<Rightarrow> u32 \<Rightarrow> int \<Rightarrow> int \<Rightarrow> int \<Rightarrow> int \<Rightarrow> int \<Rightarrow> Eipdebuginfo \<Rightarrow> (int \<times> Eipdebuginfo) option" where
  "find_line stabs stabstr len addr lfile lfun rfun lline rline info =
     do { (lline, rline) \<leftarrow> stab_binsearch stabs lline rline N_SLINE addr;
          if lline > rline then Some (- 1, info)
          else
            do { st \<leftarrow> stabs lline;
                 let info = info\<lparr>eip_line := int (unat (n_desc st))\<rparr>;
                 k \<leftarrow> file_of_line stabs lfile lline;
                 info \<leftarrow> (if k \<ge> lfile
                          then do { st \<leftarrow> stabs k;
                                    Some (if n_strx st < len then info\<lparr>eip_file := Some (stabstr + n_strx st)\<rparr> else info) }
                          else Some info);
                 narg \<leftarrow> (if lfun < rfun then count_args stabs rfun (lfun + 1) (eip_fn_narg info) else Some (eip_fn_narg info));
                 Some (0, info\<lparr>eip_fn_narg := narg\<rparr>) } }"

definition search_stabs :: "kstate \<Rightarrow> UserStabData \<Rightarrow> u32 \<Rightarrow> Eipdebuginfo \<Rightarrow> (int \<times> Eipdebuginfo) option" where
  "search_stabs s t addr info =
     (let stabs = stab_at s (usd_stabs t); stabstr = usd_stabstr t; len = usd_stabstr_end t - usd_stabstr t in
      if usd_stabstr_end t \<le> usd_stabstr t then Some (- 1, info)
      else
        do { last \<leftarrow> load_byte s (usd_stabstr_end t - 1);
             if last \<noteq> 0 then Some (- 1, info)
             else
               do { (lfile, rfile) \<leftarrow> stab_binsearch stabs 0 (stab_count t - 1) N_SO addr;
                    if lfile = 0 then Some (- 1, info)
                    else
                      do { (lfun, rfun) \<leftarrow> stab_binsearch stabs lfile rfile N_FUN addr;
                           ((addr, lline, rline), info) \<leftarrow> find_function stabs stabstr len addr lfile rfile lfun rfun info;
                           namelen \<leftarrow> (case eip_fn_name info of Some a \<Rightarrow> name_length s a 0 | None \<Rightarrow> Some 9);
                           find_line stabs stabstr len addr lfile lfun rfun lline rline (info\<lparr>eip_fn_namelen := namelen\<rparr>) } } })"

definition debuginfo_eip :: "UserStabData \<Rightarrow> kstate \<Rightarrow> u32 \<Rightarrow> ((int \<times> Eipdebuginfo) \<times> kstate) option" where
  "debuginfo_eip kernel_stabs s addr =
     (let info = \<lparr>eip_file = None, eip_line = 0, eip_fn_name = None, eip_fn_namelen = 9, eip_fn_addr = addr, eip_fn_narg = 0\<rparr> in
      do { (t, s) \<leftarrow> (if addr \<ge> ULIM then Some (Some kernel_stabs, s) else user_stabs s);
           case t of
             None \<Rightarrow> Some ((- 1, info), s)
           | Some t \<Rightarrow> do { r \<leftarrow> search_stabs s t addr info; Some (r, s) } })"

section \<open>What the search finds\<close>

lemma half_between: "l \<le> r \<Longrightarrow> l \<le> half (l + r) \<and> half (l + r) \<le> r"
  unfolding half_def by (cases "l + r < 0") (simp_all, linarith+)

text \<open>The last entry of the type in \<open>l..m\<close>, or an index below \<open>l\<close>.\<close>

lemma stab_scan_finds:
  assumes "\<And>i. l \<le> i \<Longrightarrow> i \<le> m \<Longrightarrow> stabs i = Some (st i)"
  shows "\<exists>k. stab_scan stabs l m type = Some k \<and> k \<le> m \<and> (\<forall>i. k < i \<and> l \<le> i \<and> i \<le> m \<longrightarrow> n_type (st i) \<noteq> type) \<and>
    (k < l \<and> k = min m (l - 1) \<or> l \<le> k \<and> n_type (st k) = type)"
  using assms
proof (induction "nat (m - l + 1)" arbitrary: m)
  case 0
  then show ?case by (subst stab_scan.simps) auto
next
  case (Suc n)
  then have m: "l \<le> m" "stabs m = Some (st m)" by auto
  show ?case
  proof (cases "n_type (st m) = type")
    case True
    then show ?thesis using m by (subst stab_scan.simps) auto
  next
    case False
    have "n = nat (m - 1 - l + 1)" using Suc(2) by simp
    then obtain k where k: "stab_scan stabs l (m - 1) type = Some k" "k \<le> m - 1"
      "\<forall>i. k < i \<and> l \<le> i \<and> i \<le> m - 1 \<longrightarrow> n_type (st i) \<noteq> type" "k < l \<and> k = min (m - 1) (l - 1) \<or> l \<le> k \<and> n_type (st k) = type"
      using Suc(1) [of "m - 1"] Suc(3) by auto
    have "n_type (st i) \<noteq> type" if "k < i" "l \<le> i" "i \<le> m" for i using that k(3) False by (cases "i = m") auto
    moreover have "stab_scan stabs l m type = Some k" using m False k(1) by (subst stab_scan.simps) simp
    ultimately show ?thesis using k m(1) by (intro exI [of _ k]) auto
  qed
qed

text \<open>
  The state of the loop in a search of \<open>L..R\<close> for \<open>addr\<close>: entries of the type before \<open>l\<close> are at or below the address, entries
  after \<open>r\<close> above it, and \<open>left\<close> is the last entry before \<open>l\<close>, or \<open>l\<close> itself after an exact match.
\<close>

definition searching ::
  "(int \<Rightarrow> Stab) \<Rightarrow> u8 \<Rightarrow> int \<Rightarrow> int \<Rightarrow> u32 \<Rightarrow> int \<Rightarrow> int \<Rightarrow> int \<Rightarrow> int \<Rightarrow> bool \<Rightarrow> bool" where
  "searching st type L R addr l r left right found \<longleftrightarrow>
     L \<le> l \<and> r \<le> R \<and> l \<le> r + 1 \<and> right = r \<and>
     (r = R \<or> r < R \<and> n_type (st (r + 1)) = type \<and> addr < n_value (st (r + 1)) \<and> found) \<and>
     (left = L \<and> (\<forall>i. L \<le> i \<and> i < l \<longrightarrow> n_type (st i) \<noteq> type) \<and> (r = R \<longrightarrow> \<not> found) \<or>
      L \<le> left \<and> left \<le> l \<and> left \<le> r \<and> n_type (st left) = type \<and> n_value (st left) \<le> addr \<and>
      (\<forall>i. left < i \<and> i < l \<longrightarrow> n_type (st i) \<noteq> type) \<and> found)"

text \<open>The outcome of the search.\<close>

definition bracket :: "(int \<Rightarrow> Stab) \<Rightarrow> u8 \<Rightarrow> int \<Rightarrow> int \<Rightarrow> u32 \<Rightarrow> int \<Rightarrow> int \<Rightarrow> bool" where
  "bracket st type L R addr left right \<longleftrightarrow>
     (if \<exists>i. L \<le> i \<and> i \<le> R \<and> n_type (st i) = type \<and> n_value (st i) \<le> addr
      then L \<le> left \<and> left \<le> right \<and> right \<le> R \<and> n_type (st left) = type \<and> n_value (st left) \<le> addr \<and>
           (\<forall>i. left < i \<and> i \<le> right \<longrightarrow> n_type (st i) \<noteq> type) \<and>
           (right = R \<or> n_type (st (right + 1)) = type \<and> addr < n_value (st (right + 1)))
      else if \<exists>i. L \<le> i \<and> i \<le> R \<and> n_type (st i) = type
      then left = min L right \<and> right < R \<and> (\<forall>i. L \<le> i \<and> i \<le> right \<longrightarrow> n_type (st i) \<noteq> type) \<and> n_type (st (right + 1)) = type \<and> L \<le> right + 1
      else left = L \<and> right = L - 1)"

lemma below_next: "a < a + 1 \<Longrightarrow> v < a + 1 \<Longrightarrow> v \<le> a" for a v :: u32
proof -
  assume a: "a < a + 1" "v < a + 1"
  have "1 + a \<noteq> 0"
  proof
    assume "1 + a = 0"
    then have "a + 1 = 0" by (simp add: add.commute)
    then show False using a(1) by simp
  qed
  then have "unat (a + 1) = Suc (unat a)" using unatSuc [of a] by (simp add: add.commute)
  then show "v \<le> a" using a(2) by (simp add: word_le_nat_alt word_less_nat_alt)
qed

lemma search_on:
  assumes "searching st type L R addr l r left right found" and "l \<le> h" and "h \<le> r"
  shows "(\<And>i. l \<le> i \<Longrightarrow> i \<le> h \<Longrightarrow> n_type (st i) \<noteq> type) \<Longrightarrow> searching st type L R addr (h + 1) r left right found"
    and "l \<le> k \<Longrightarrow> k \<le> h \<Longrightarrow> n_type (st k) = type \<Longrightarrow> n_value (st k) \<le> addr \<Longrightarrow>
      (\<And>i. k < i \<Longrightarrow> i \<le> h \<Longrightarrow> n_type (st i) \<noteq> type) \<Longrightarrow> searching st type L R addr (h + 1) r k right True"
    and "l \<le> k \<Longrightarrow> k \<le> h \<Longrightarrow> n_type (st k) = type \<Longrightarrow> n_value (st k) \<le> addr \<Longrightarrow> searching st type L R addr k r k right True"
    and "l \<le> k \<Longrightarrow> k \<le> h \<Longrightarrow> n_type (st k) = type \<Longrightarrow> addr < n_value (st k) \<Longrightarrow> searching st type L R addr l (k - 1) left (k - 1) True"
proof -
  note s = assms(1) [unfolded searching_def]
  show "searching st type L R addr (h + 1) r left right found" if "\<And>i. l \<le> i \<Longrightarrow> i \<le> h \<Longrightarrow> n_type (st i) \<noteq> type"
  proof -
    have up: "\<forall>i. P i \<and> i < h + 1 \<longrightarrow> n_type (st i) \<noteq> type" if "\<forall>i. P i \<and> i < l \<longrightarrow> n_type (st i) \<noteq> type" for P :: "int \<Rightarrow> bool"
    proof (intro allI impI)
      fix i assume "P i \<and> i < h + 1"
      then show "n_type (st i) \<noteq> type"
        using that \<open>\<And>i. l \<le> i \<Longrightarrow> i \<le> h \<Longrightarrow> n_type (st i) \<noteq> type\<close> [of i] by (cases "i < l") simp_all
    qed
    show ?thesis
      using s assms(2,3) up [of "\<lambda>i. L \<le> i"] up [of "\<lambda>i. left < i"] unfolding searching_def by (elim conjE disjE) simp_all
  qed
next
  assume "l \<le> k" "k \<le> h" "n_type (st k) = type" "n_value (st k) \<le> addr" "\<And>i. k < i \<Longrightarrow> i \<le> h \<Longrightarrow> n_type (st i) \<noteq> type"
  then show "searching st type L R addr (h + 1) r k right True" using assms unfolding searching_def by auto
next
  assume "l \<le> k" "k \<le> h" "n_type (st k) = type" "n_value (st k) \<le> addr"
  then show "searching st type L R addr k r k right True" using assms unfolding searching_def by auto
next
  assume k: "l \<le> k" "k \<le> h" "n_type (st k) = type" "addr < n_value (st k)"
  have "left \<noteq> k" if "n_value (st left) \<le> addr" using that k(4) by auto
  then show "searching st type L R addr l (k - 1) left (k - 1) True" using assms k unfolding searching_def by auto
qed

text \<open>The entries of the region can be read and no entry of the type is at the address behind the one searched for.\<close>

definition searchable :: "(int \<Rightarrow> Stab option) \<Rightarrow> (int \<Rightarrow> Stab) \<Rightarrow> u8 \<Rightarrow> int \<Rightarrow> int \<Rightarrow> u32 \<Rightarrow> bool" where
  "searchable stabs st type L R addr \<longleftrightarrow>
     addr < addr + 1 \<and>
     (\<forall>i. L \<le> i \<and> i \<le> R \<longrightarrow> stabs i = Some (st i) \<and> (n_type (st i) = type \<longrightarrow> n_value (st i) \<noteq> addr + 1))"

lemma loop_finds:
  assumes "searchable stabs st type L R addr"
    and "searching st type L R addr l r left right found" and "a = addr \<or> a = addr + 1"
  shows "\<exists>left' right' found'. binsearch_loop stabs type l r a left right found = Some (left', right', found') \<and>
    searching st type L R addr (right' + 1) right' left' right' found'"
  using assms(2,3)
proof (induction "2 * nat (r - l + 1) + (if a = addr then 1 else 0)" arbitrary: l r a left right found rule: less_induct)
  case less
  show ?case
  proof (cases "l \<le> r")
    case False
    then have "l = r + 1" "right = r" using less(2) by (auto simp: searching_def)
    then show ?thesis using less(2) by (subst binsearch_loop.simps) auto
  next
    case True
    define h where "h = half (l + r)"
    have h: "l \<le> h" "h \<le> r" using half_between [OF True] by (simp_all add: h_def)
    have st: "stabs i = Some (st i)" "n_type (st i) = type \<Longrightarrow> n_value (st i) \<noteq> addr + 1" if "l \<le> i" "i \<le> r" for i
      using that less(2) assms(1) by (auto simp: searching_def searchable_def)
    then obtain k where k: "stab_scan stabs l h type = Some k" "k \<le> h" "\<forall>i. k < i \<and> l \<le> i \<and> i \<le> h \<longrightarrow> n_type (st i) \<noteq> type"
      "k < l \<or> l \<le> k \<and> n_type (st k) = type" using stab_scan_finds [of l h stabs st type] h(2) by force
    note step = search_on [OF less(2) h]
    have lt: "addr < addr + 1" using assms(1) by (simp add: searchable_def)
    consider (none) "k < l" | (below) "l \<le> k" "n_value (st k) < a" | (above) "l \<le> k" "n_value (st k) > a" | (exact) "l \<le> k" "n_value (st k) = a"
      by (meson linorder_less_linear not_le)
    then show ?thesis
    proof cases
      case none
      then show ?thesis
        using less(1) [OF _ step(1) less(3)] True h k by (subst binsearch_loop.simps) (simp add: h_def [symmetric] Let_def)
    next
      case below
      then have "n_value (st k) \<le> addr" using less(3) below_next [OF lt] by auto
      then show ?thesis
        using less(1) [OF _ step(2) less(3)] True h k below st by (subst binsearch_loop.simps) (simp add: h_def [symmetric] Let_def)
    next
      case above
      then have "addr < n_value (st k)" using less(3) lt by auto
      then show ?thesis
        using less(1) [OF _ step(4) less(3)] True h k above less_not_sym [OF above(2)] st by (subst binsearch_loop.simps) (simp add: h_def [symmetric] Let_def)
    next
      case exact
      then have "a = addr" using less(3) st(2) [of k] k h by auto
      then show ?thesis
        using less(1) [OF _ step(3), of k "addr + 1"] True h k exact st lt by (subst binsearch_loop.simps) (simp add: h_def [symmetric] Let_def)
    qed
  qed
qed

lemma search_result:
  assumes "searchable stabs st type L R addr"
    and "\<And>i j. L \<le> i \<Longrightarrow> i \<le> j \<Longrightarrow> j \<le> R \<Longrightarrow> n_type (st i) = type \<Longrightarrow> n_type (st j) = type \<Longrightarrow> n_value (st i) \<le> n_value (st j)"
    and s: "searching st type L R addr (r + 1) r left r found"
  shows "\<exists>l'. (if \<not> found then Some (left, left - 1) else do { l \<leftarrow> stab_scan stabs (left + 1) r type; Some (l, r) }) =
    Some (l', if found then r else left - 1) \<and> bracket st type L R addr l' (if found then r else left - 1)"
proof (cases found)
  case False
  then have "left = L" "r = R" "\<forall>i. L \<le> i \<and> i \<le> R \<longrightarrow> n_type (st i) \<noteq> type" using s by (auto simp: searching_def)
  then show ?thesis using False by (auto simp: bracket_def)
next
  case True
  have "stabs i = Some (st i)" if "left + 1 \<le> i" "i \<le> r" for i using that s assms(1) by (auto simp: searching_def searchable_def)
  then obtain k where k: "stab_scan stabs (left + 1) r type = Some k" "k \<le> r"
    "k < left + 1 \<and> k = min r left \<or> left + 1 \<le> k \<and> n_type (st k) = type"
    using stab_scan_finds [of "left + 1" r stabs st type] by auto
  have "bracket st type L R addr k r"
  proof (cases "L \<le> left \<and> left \<le> r \<and> n_type (st left) = type \<and> n_value (st left) \<le> addr \<and> (\<forall>i. left < i \<and> i \<le> r \<longrightarrow> n_type (st i) \<noteq> type)")
    case True
    then have "k = left" using k by auto
    moreover have "\<exists>i. L \<le> i \<and> i \<le> R \<and> n_type (st i) = type \<and> n_value (st i) \<le> addr" using True s by (auto simp: searching_def)
    ultimately show ?thesis using True s by (auto simp: bracket_def searching_def)
  next
    case False
    then have none: "left = L" "\<forall>i. L \<le> i \<and> i \<le> r \<longrightarrow> n_type (st i) \<noteq> type" "r < R" "n_type (st (r + 1)) = type" "addr < n_value (st (r + 1))" "L \<le> r + 1"
      using s \<open>found\<close> by (auto simp: searching_def)
    have "\<not> (n_type (st i) = type \<and> n_value (st i) \<le> addr)" if "L \<le> i" "i \<le> R" for i
      using that none assms(2) [of "r + 1" i] by (cases "i \<le> r") auto
    moreover have "k = min L r" using k none by auto
    moreover have "\<exists>i. L \<le> i \<and> i \<le> R \<and> n_type (st i) = type" using none by (intro exI [of _ "r + 1"]) simp
    ultimately show ?thesis using none by (auto simp: bracket_def)
  qed
  then show ?thesis using k(1) True by simp
qed


definition three_files :: "int \<Rightarrow> Stab" where
  "three_files i = \<lparr>n_strx = 0, n_type = (if i \<in> {0, 2, 5} then N_SO else N_SLINE), n_other = 0, n_desc = 0, n_value = 0xF0100000 + 0x40 * of_int i\<rparr>"


text \<open>With entries at two successive addresses the search goes wrong. After the exact match of the first it looks for an address that is larger by
  one, matches the second, and returns that.\<close>

lemma stab_binsearch_skips:
  "stab_binsearch (\<lambda>i. Some \<lparr>n_strx = 0, n_type = N_SLINE, n_other = 0, n_desc = 0, n_value = 5 + of_int i\<rparr>) 0 1 N_SLINE 5 = Some (1, 1)"
  by (simp add: stab_binsearch_def binsearch_loop.simps stab_scan.simps half_def)

text \<open>The left end can also be returned below the region, when the first entry is above the address.\<close>

lemma stab_binsearch_below:
  "stab_binsearch (\<lambda>i. Some \<lparr>n_strx = 0, n_type = N_SO, n_other = 0, n_desc = 0, n_value = 5\<rparr>) 0 0 N_SO 4 = Some (- 1, - 1)"
  by (simp add: stab_binsearch_def binsearch_loop.simps stab_scan.simps half_def)

end
