(* ===== verification/CString.thy ===== *)
theory CString
  imports Prelude
begin

text \<open>
  The string and memory routines of \<^verbatim>\<open>lib/string.c\<close>, used by the kernel and by user programs. Memory is a
  function from 32-bit addresses to bytes and pointers wrap; a routine that looks for a terminating
  zero may run for ever, which is \<open>None\<close>. The string instructions of \<^verbatim>\<open>memset\<close> and \<^verbatim>\<open>memmove\<close> are modelled as
  the processor executes them: byte by byte or word by word, upwards or downwards.

  Shown are what each routine computes on null-terminated strings, and that the copies and fills
  have the effect of their reference definitions whatever path they take and however source and
  destination overlap.
\<close>

unbundle bit_operations_syntax

type_synonym mem = "u32 \<Rightarrow> u8"

section \<open>Strings\<close>

partial_function (option) strlen_loop :: "mem \<Rightarrow> u32 \<Rightarrow> u32 \<Rightarrow> u32 option" where
  "strlen_loop m s n = (if m s \<noteq> 0 then strlen_loop m (s + 1) (n + 1) else Some n)"

definition strlen :: "mem \<Rightarrow> u32 \<Rightarrow> u32 option" where
  "strlen m s = strlen_loop m s 0"

fun strnlen_loop :: "mem \<Rightarrow> u32 \<Rightarrow> nat \<Rightarrow> u32 \<Rightarrow> u32" where
  "strnlen_loop m s 0 n = n"
| "strnlen_loop m s (Suc sz) n = (if m s \<noteq> 0 then strnlen_loop m (s + 1) sz (n + 1) else n)"

definition strnlen :: "mem \<Rightarrow> u32 \<Rightarrow> u32 \<Rightarrow> u32" where
  "strnlen m s sz = strnlen_loop m s (unat sz) 0"

partial_function (option) strcpy_loop :: "mem \<Rightarrow> u32 \<Rightarrow> u32 \<Rightarrow> mem option" where
  "strcpy_loop m dst src =
     (let b = m src; m = m(dst := b)
      in if b \<noteq> 0 then strcpy_loop m (dst + 1) (src + 1) else Some m)"

definition strcpy :: "mem \<Rightarrow> u32 \<Rightarrow> u32 \<Rightarrow> (u32 \<times> mem) option" where
  "strcpy m dst src = do { m \<leftarrow> strcpy_loop m dst src; Some (dst, m) }"

definition strcat :: "mem \<Rightarrow> u32 \<Rightarrow> u32 \<Rightarrow> (u32 \<times> mem) option" where
  "strcat m dst src =
     do { len \<leftarrow> strlen m dst; (_, m) \<leftarrow> strcpy m (dst + len) src; Some (dst, m) }"

fun strncpy_loop :: "mem \<Rightarrow> u32 \<Rightarrow> u32 \<Rightarrow> nat \<Rightarrow> mem" where
  "strncpy_loop m dst src 0 = m"
| "strncpy_loop m dst src (Suc k) =
     (let m = m(dst := m src)
      in strncpy_loop m (dst + 1) (if m src \<noteq> 0 then src + 1 else src) k)"

definition strncpy :: "mem \<Rightarrow> u32 \<Rightarrow> u32 \<Rightarrow> u32 \<Rightarrow> u32 \<times> mem" where
  "strncpy m dst src sz = (dst, strncpy_loop m dst src (unat sz))"

text \<open>\<open>k\<close> is the value of \<^verbatim>\<open>size\<close> after the decrement of the loop condition.\<close>

fun strlcpy_loop :: "mem \<Rightarrow> u32 \<Rightarrow> u32 \<Rightarrow> nat \<Rightarrow> u32 \<times> mem" where
  "strlcpy_loop m dst src 0 = (dst, m)"
| "strlcpy_loop m dst src (Suc k) =
     (if m src \<noteq> 0 then strlcpy_loop (m(dst := m src)) (dst + 1) (src + 1) k else (dst, m))"

definition strlcpy :: "mem \<Rightarrow> u32 \<Rightarrow> u32 \<Rightarrow> u32 \<Rightarrow> u32 \<times> mem" where
  "strlcpy m dst src sz =
     (if sz > 0
      then case strlcpy_loop m dst src (unat sz - 1) of (d, m) \<Rightarrow> (d - dst, m(d := 0))
      else (0, m))"

partial_function (option) strcmp :: "mem \<Rightarrow> u32 \<Rightarrow> u32 \<Rightarrow> int option" where
  "strcmp m p q =
     (if m p \<noteq> 0 \<and> m p = m q then strcmp m (p + 1) (q + 1) else Some (uint (m p) - uint (m q)))"

fun strncmp_loop :: "mem \<Rightarrow> u32 \<Rightarrow> u32 \<Rightarrow> nat \<Rightarrow> int" where
  "strncmp_loop m p q 0 = 0"
| "strncmp_loop m p q (Suc n) =
     (if m p \<noteq> 0 \<and> m p = m q then strncmp_loop m (p + 1) (q + 1) n else uint (m p) - uint (m q))"

definition strncmp :: "mem \<Rightarrow> u32 \<Rightarrow> u32 \<Rightarrow> u32 \<Rightarrow> int" where
  "strncmp m p q n = strncmp_loop m p q (unat n)"

partial_function (option) strchr :: "mem \<Rightarrow> u32 \<Rightarrow> u8 \<Rightarrow> u32 option" where
  "strchr m s c =
     (if m s \<noteq> 0 then if m s = c then Some s else strchr m (s + 1) c else Some 0)"

partial_function (option) strfind :: "mem \<Rightarrow> u32 \<Rightarrow> u8 \<Rightarrow> u32 option" where
  "strfind m s c =
     (if m s \<noteq> 0 then if m s = c then Some s else strfind m (s + 1) c else Some s)"

section \<open>Blocks\<close>

text \<open>\<^verbatim>\<open>rep stosb\<close> and \<^verbatim>\<open>rep stosl\<close> with the direction flag clear.\<close>

fun stosb :: "mem \<Rightarrow> u32 \<Rightarrow> u8 \<Rightarrow> nat \<Rightarrow> mem" where
  "stosb m d al 0 = m"
| "stosb m d al (Suc n) = stosb (m(d := al)) (d + 1) al n"

definition put_long :: "mem \<Rightarrow> u32 \<Rightarrow> u32 \<Rightarrow> mem" where
  "put_long m d w = m(d := ucast w, d + 1 := ucast (drop_bit 8 w), d + 2 := ucast (drop_bit 16 w),
     d + 3 := ucast (drop_bit 24 w))"

fun stosl :: "mem \<Rightarrow> u32 \<Rightarrow> u32 \<Rightarrow> nat \<Rightarrow> mem" where
  "stosl m d eax 0 = m"
| "stosl m d eax (Suc n) = stosl (put_long m d eax) (d + 4) eax n"

definition memset :: "mem \<Rightarrow> u32 \<Rightarrow> u32 \<Rightarrow> u32 \<Rightarrow> u32 \<times> mem" where
  "memset m v c n =
     (if n = 0 then (v, m)
      else if v mod 4 = 0 \<and> n mod 4 = 0
      then let c = c AND 0xFF;
               c = push_bit 24 c OR push_bit 16 c OR push_bit 8 c OR c
           in (v, stosl m v c (unat (n div 4)))
      else (v, stosb m v (ucast c) (unat n)))"

text \<open>\<^verbatim>\<open>rep movsb\<close> and \<^verbatim>\<open>rep movsl\<close>; \<open>step\<close> is 1 or -1 (4 or -4 for words), as the direction flag says.\<close>

fun movsb :: "u32 \<Rightarrow> mem \<Rightarrow> u32 \<Rightarrow> u32 \<Rightarrow> nat \<Rightarrow> mem" where
  "movsb step m d s 0 = m"
| "movsb step m d s (Suc n) = movsb step (m(d := m s)) (d + step) (s + step) n"

definition move_long :: "mem \<Rightarrow> u32 \<Rightarrow> u32 \<Rightarrow> mem" where
  "move_long m d s = m(d := m s, d + 1 := m (s + 1), d + 2 := m (s + 2), d + 3 := m (s + 3))"

fun movsl :: "u32 \<Rightarrow> mem \<Rightarrow> u32 \<Rightarrow> u32 \<Rightarrow> nat \<Rightarrow> mem" where
  "movsl step m d s 0 = m"
| "movsl step m d s (Suc n) = movsl step (move_long m d s) (d + step) (s + step) n"

definition memmove :: "mem \<Rightarrow> u32 \<Rightarrow> u32 \<Rightarrow> u32 \<Rightarrow> u32 \<times> mem" where
  "memmove m dst src n =
     (if src < dst \<and> src + n > dst
      then let s = src + n; d = dst + n
           in if s mod 4 = 0 \<and> d mod 4 = 0 \<and> n mod 4 = 0
              then (dst, movsl (- 4) m (d - 4) (s - 4) (unat (n div 4)))
              else (dst, movsb (- 1) m (d - 1) (s - 1) (unat n))
      else if src mod 4 = 0 \<and> dst mod 4 = 0 \<and> n mod 4 = 0
           then (dst, movsl 4 m dst src (unat (n div 4)))
           else (dst, movsb 1 m dst src (unat n)))"

definition memcpy :: "mem \<Rightarrow> u32 \<Rightarrow> u32 \<Rightarrow> u32 \<Rightarrow> u32 \<times> mem" where
  "memcpy m dst src n = memmove m dst src n"

fun memcmp_loop :: "mem \<Rightarrow> u32 \<Rightarrow> u32 \<Rightarrow> nat \<Rightarrow> int" where
  "memcmp_loop m s1 s2 0 = 0"
| "memcmp_loop m s1 s2 (Suc n) =
     (if m s1 \<noteq> m s2 then uint (m s1) - uint (m s2) else memcmp_loop m (s1 + 1) (s2 + 1) n)"

definition memcmp :: "mem \<Rightarrow> u32 \<Rightarrow> u32 \<Rightarrow> u32 \<Rightarrow> int" where
  "memcmp m v1 v2 n = memcmp_loop m v1 v2 (unat n)"

partial_function (option) memfind_loop :: "mem \<Rightarrow> u32 \<Rightarrow> u8 \<Rightarrow> u32 \<Rightarrow> u32 option" where
  "memfind_loop m s c ends =
     (if s < ends then if m s = c then Some s else memfind_loop m (s + 1) c ends else Some s)"

definition memfind :: "mem \<Rightarrow> u32 \<Rightarrow> u32 \<Rightarrow> u32 \<Rightarrow> u32 option" where
  "memfind m s c n = memfind_loop m s (ucast c) (s + n)"

section \<open>Numbers\<close>

partial_function (option) skip_blanks :: "mem \<Rightarrow> u32 \<Rightarrow> u32 option" where
  "skip_blanks m s = (if m s = 32 \<or> m s = 9 then skip_blanks m (s + 1) else Some s)"

definition digit_value :: "u8 \<Rightarrow> int option" where
  "digit_value c =
     (if 48 \<le> c \<and> c \<le> 57 then Some (uint c - 48)
      else if 97 \<le> c \<and> c \<le> 122 then Some (uint c - 97 + 10)
      else if 65 \<le> c \<and> c \<le> 90 then Some (uint c - 65 + 10)
      else None)"

partial_function (option) digits_loop :: "mem \<Rightarrow> u32 \<Rightarrow> int \<Rightarrow> u32 \<Rightarrow> (u32 \<times> u32) option" where
  "digits_loop m s base val =
     (case digit_value (m s) of
        None \<Rightarrow> Some (val, s)
      | Some dig \<Rightarrow>
          if dig \<ge> base then Some (val, s)
          else digits_loop m (s + 1) base (val * word_of_int base + word_of_int dig))"

text \<open>The value and what is stored through \<^verbatim>\<open>endptr\<close>. \<^verbatim>\<open>long\<close> has 32 bits and wraps.\<close>

definition strtol :: "mem \<Rightarrow> u32 \<Rightarrow> int \<Rightarrow> (int \<times> u32) option" where
  "strtol m s base =
     do { s \<leftarrow> skip_blanks m s;
          let neg = (m s = 45);
          let s = (if m s = 43 \<or> m s = 45 then s + 1 else s);
          let (s, base) =
            (if (base = 0 \<or> base = 16) \<and> m s = 48 \<and> m (s + 1) = 120 then (s + 2, 16)
             else if base = 0 \<and> m s = 48 then (s + 1, 8)
             else if base = 0 then (s, 10) else (s, base));
          (val, s) \<leftarrow> digits_loop m s base 0;
          Some (sint (if neg then - val else val), s) }"

section \<open>Copying and filling\<close>

lemma unat_diff: "unat (x - y) = (if unat y \<le> unat x then unat x - unat y else 2 ^ 32 + unat x - unat y)" for x y :: u32
  by (simp add: unat_sub_if_size word_size) arith

lemma u32_bound: "unat (x :: u32) < 2 ^ 32"
  using unsigned_less [of x, where 'a = nat] by simp

lemma unat_sum: "unat (x + y) = (if unat x + unat y < 2 ^ 32 then unat x + unat y else unat x + unat y - 2 ^ 32)" for x y :: u32
  using u32_bound [of x] u32_bound [of y] by (auto simp: unat_word_ariths mod_if)

text \<open>The reference: \<open>n\<close> bytes at \<open>d\<close> become what the bytes at \<open>s\<close> were.\<close>

definition copied :: "nat \<Rightarrow> mem \<Rightarrow> u32 \<Rightarrow> u32 \<Rightarrow> mem" where
  "copied n m d s = (\<lambda>a. if unat (a - d) < n then m (s + (a - d)) else m a)"

definition filled :: "nat \<Rightarrow> mem \<Rightarrow> u32 \<Rightarrow> u8 \<Rightarrow> mem" where
  "filled n m d b = (\<lambda>a. if unat (a - d) < n then b else m a)"

lemma unat_of_nat32: "n < 2 ^ 32 \<Longrightarrow> unat (of_nat n :: u32) = n"
  by (simp add: unat_of_nat)

text \<open>Copying in two parts, the lower one first or the upper one first.\<close>

lemma copied_at: "copied n m d s (d + x) = (if unat x < n then m (s + x) else m (d + x))"
  by (simp add: copied_def)

lemma copied_append:
  assumes "unat (d - s) = 0 \<or> w + k \<le> unat (d - s)" and "w + k < 2 ^ 32"
  shows "copied k (copied w m d s) (d + of_nat w) (s + of_nat w) = copied (w + k) m d s"
proof
  fix a
  obtain x where a: "a = d + x" by (metis add_diff_cancel_left' diff_add_cancel add.commute)
  have w: "unat (of_nat w :: u32) = w" using assms(2) by (simp add: unat_of_nat32)
  have outer: "copied k (copied w m d s) (d + of_nat w) (s + of_nat w) a =
      (if unat (x - of_nat w) < k then copied w m d s (s + x) else copied w m d s (d + x))"
    using copied_at [of k "copied w m d s" "d + of_nat w" "s + of_nat w" "x - of_nat w"] by (simp add: a)
  have "copied w m d s (s + x) = (if unat (x - (d - s)) < w then m (s + (x - (d - s))) else m (s + x))"
  proof -
    have "d + (x - (d - s)) = s + x" by simp
    then show ?thesis using copied_at [of w m d s "x - (d - s)"] by metis
  qed
  moreover have "\<not> unat (x - (d - s)) < w" if "\<not> unat x < w" "unat x < w + k"
    using that assms u32_bound [of "d - s"] unfolding unat_diff [of x "d - s"] by auto
  moreover have "unat (x - of_nat w) < k \<longleftrightarrow> \<not> unat x < w \<and> unat x < w + k"
    using assms(2) u32_bound [of x] unfolding unat_diff [of x] w by auto
  ultimately show "copied k (copied w m d s) (d + of_nat w) (s + of_nat w) a = copied (w + k) m d s a"
    unfolding outer unfolding a copied_at by auto
qed

lemma copied_prepend:
  assumes "unat (s - d) = 0 \<or> k + w \<le> unat (s - d)" and "k + w < 2 ^ 32"
  shows "copied k (copied w m (d + of_nat k) (s + of_nat k)) d s = copied (k + w) m d s"
proof
  fix a
  obtain x where a: "a = d + x" by (metis add_diff_cancel_left' diff_add_cancel add.commute)
  have k: "unat (of_nat k :: u32) = k" using assms(2) by (simp add: unat_of_nat32)
  let ?m = "copied w m (d + of_nat k) (s + of_nat k)"
  have upper: "?m (d + x) = (if \<not> unat x < k \<and> unat x < k + w then m (s + x) else m (d + x))"
  proof -
    have "unat (x - of_nat k) < w \<longleftrightarrow> \<not> unat x < k \<and> unat x < k + w"
      using assms(2) u32_bound [of x] unfolding unat_diff [of x] k by auto
    then show ?thesis
      using copied_at [of w m "d + of_nat k" "s + of_nat k" "x - of_nat k"] by simp
  qed
  have "?m (s + x) = m (s + x)" if "unat x < k"
  proof -
    have "\<not> unat (x + (s - d) - of_nat k) < w"
      using that assms u32_bound [of "s - d"] unfolding unat_diff [of "x + (s - d)"] k unat_sum [of x "s - d"]
      by (auto split: if_splits)
    then show ?thesis
      using copied_at [of w m "d + of_nat k" "s + of_nat k" "x + (s - d) - of_nat k"] by (simp add: add.commute)
  qed
  then show "copied k ?m d s a = copied (k + w) m d s a"
    unfolding a copied_at upper by auto
qed

text \<open>The string instructions.\<close>

lemma move_byte: "m(d := m s) = copied (Suc 0) m d s"
proof
  fix a
  have "unat (a - d) < Suc 0 \<longleftrightarrow> a = d" by (simp add: unat_eq_zero)
  then show "(m(d := m s)) a = copied (Suc 0) m d s a" by (simp add: copied_def)
qed

lemma word_below_4: "unat (x :: u32) < 4 \<longleftrightarrow> x = 0 \<or> x = 1 \<or> x = 2 \<or> x = 3"
proof
  assume "unat x < 4"
  then have "unat x = 0 \<or> unat x = 1 \<or> unat x = 2 \<or> unat x = 3" by linarith
  then show "x = 0 \<or> x = 1 \<or> x = 2 \<or> x = 3" by (simp add: word_unat_eq_iff)
qed auto

lemma move_long_copied: "move_long m d s = copied 4 m d s"
proof
  fix a
  obtain x where a: "a = d + x" by (metis add_diff_cancel_left' diff_add_cancel add.commute)
  have "unat x < 4 \<longleftrightarrow> x = 0 \<or> x = 1 \<or> x = 2 \<or> x = 3" by (rule word_below_4)
  then show "move_long m d s a = copied 4 m d s a"
    unfolding a copied_at by (auto simp: move_long_def)
qed

lemma movsb_up:
  "unat (d - s) = 0 \<or> n \<le> unat (d - s) \<Longrightarrow> n < 2 ^ 32 \<Longrightarrow> movsb 1 m d s n = copied n m d s"
proof (induction n arbitrary: m d s)
  case 0
  then show ?case by (simp add: copied_def)
next
  case (Suc n)
  have "movsb 1 m d s (Suc n) = copied n (copied 1 m d s) (d + of_nat 1) (s + of_nat 1)"
    using Suc.IH [of "d + 1" "s + 1" "m(d := m s)"] Suc.prems by (auto simp: move_byte)
  then show ?case using copied_append [of d s 1 n m] Suc.prems by simp
qed

lemma movsl_up:
  "unat (d - s) = 0 \<or> 4 * n \<le> unat (d - s) \<Longrightarrow> 4 * n < 2 ^ 32 \<Longrightarrow> movsl 4 m d s n = copied (4 * n) m d s"
proof (induction n arbitrary: m d s)
  case 0
  then show ?case by (simp add: copied_def)
next
  case (Suc n)
  have "movsl 4 m d s (Suc n) = copied (4 * n) (copied 4 m d s) (d + of_nat 4) (s + of_nat 4)"
    using Suc.IH [of "d + 4" "s + 4" "move_long m d s"] Suc.prems by (auto simp: move_long_copied)
  then show ?case using copied_append [of d s 4 "4 * n" m] Suc.prems by simp
qed

lemma movsb_down:
  "unat (s - d) = 0 \<or> n \<le> unat (s - d) \<Longrightarrow> n < 2 ^ 32 \<Longrightarrow>
    movsb (- 1) m (d + of_nat n - 1) (s + of_nat n - 1) n = copied n m d s"
proof (induction n arbitrary: m)
  case 0
  then show ?case by (simp add: copied_def)
next
  case (Suc n)
  have "movsb (- 1) m (d + of_nat (Suc n) - 1) (s + of_nat (Suc n) - 1) (Suc n) =
      copied n (copied 1 m (d + of_nat n) (s + of_nat n)) d s"
    using Suc.IH [of "m(d + of_nat n := m (s + of_nat n))"] Suc.prems by (auto simp: move_byte)
  then show ?case using copied_prepend [of s d n 1 m] Suc.prems by simp
qed

lemma movsl_down:
  "unat (s - d) = 0 \<or> 4 * n \<le> unat (s - d) \<Longrightarrow> 4 * n < 2 ^ 32 \<Longrightarrow>
    movsl (- 4) m (d + of_nat (4 * n) - 4) (s + of_nat (4 * n) - 4) n = copied (4 * n) m d s"
proof (induction n arbitrary: m)
  case 0
  then show ?case by (simp add: copied_def)
next
  case (Suc n)
  have "movsl (- 4) m (d + of_nat (4 * Suc n) - 4) (s + of_nat (4 * Suc n) - 4) (Suc n) =
      copied (4 * n) (copied 4 m (d + of_nat (4 * n)) (s + of_nat (4 * n))) d s"
    using Suc.IH [of "copied 4 m (d + of_nat (4 * n)) (s + of_nat (4 * n))"] Suc.prems
    by (auto simp: move_long_copied algebra_simps)
  then show ?case using copied_prepend [of s d "4 * n" 4 m] Suc.prems by (simp add: algebra_simps)
qed

lemma memmove_copied:
  assumes "unat src + unat n < 2 ^ 32" and "unat dst + unat n \<le> 2 ^ 32"
  shows "memmove m dst src n = (dst, copied (unat n) m dst src)"
proof -
  have four: "4 * unat (n div 4) = unat n" if "n mod 4 = 0"
  proof -
    have "unat (n mod 4) = unat n mod 4" "unat (n div 4) = unat n div 4" by (simp_all add: unat_mod unat_div)
    then show ?thesis using that by auto
  qed
  have sum: "unat (src + n) = unat src + unat n" using assms(1) by (simp add: unat_sum)
  show ?thesis
  proof (cases "src < dst \<and> src + n > dst")
    case True
    then have "unat src < unat dst" "unat dst < unat src + unat n" using sum by (simp_all add: word_less_nat_alt)
    then have "unat n \<le> unat (src - dst)" unfolding unat_diff using assms(2) by simp
    then have le: "unat (src - dst) = 0 \<or> unat n \<le> unat (src - dst)" by simp
    have "movsb (- 1) m (dst + n - 1) (src + n - 1) (unat n) = copied (unat n) m dst src"
      using movsb_down [OF le u32_bound] by simp
    moreover have "movsl (- 4) m (dst + n - 4) (src + n - 4) (unat (n div 4)) = copied (unat n) m dst src" if "n mod 4 = 0"
      using movsl_down [of src dst "unat (n div 4)" m] le u32_bound [of n] unfolding four [OF that] by simp
    ultimately have "movsb (- 1) m (dst + n - 1) (src + n - 1) (unat n) = copied (unat n) m dst src"
      "n mod 4 = 0 \<Longrightarrow> movsl (- 4) m (dst + n - 4) (src + n - 4) (unat (n div 4)) = copied (unat n) m dst src" .
    then show ?thesis using True unfolding memmove_def Let_def by presburger
  next
    case False
    then have "unat dst \<le> unat src \<or> unat src + unat n \<le> unat dst" using sum by (auto simp: word_less_nat_alt)
    then have "unat (dst - src) = 0 \<or> unat n \<le> unat (dst - src)" unfolding unat_diff using assms(1) by auto
    then have le: "unat (dst - src) = 0 \<or> unat n \<le> unat (dst - src)" .
    have "movsl 4 m dst src (unat (n div 4)) = copied (unat n) m dst src" if "n mod 4 = 0"
      using movsl_up [of dst src "unat (n div 4)" m] le u32_bound [of n] unfolding four [OF that] by simp
    then have "movsb 1 m dst src (unat n) = copied (unat n) m dst src"
      "n mod 4 = 0 \<Longrightarrow> movsl 4 m dst src (unat (n div 4)) = copied (unat n) m dst src"
      using movsb_up [OF le u32_bound] by simp_all
    then show ?thesis using False unfolding memmove_def by presburger
  qed
qed

lemma filled_append:
  assumes "w + k < 2 ^ 32"
  shows "filled k (filled w m d b) (d + of_nat w) b = filled (w + k) m d b"
proof
  fix a
  define x where "x = a - d"
  have w: "unat (of_nat w :: u32) = w" using assms by (simp add: unat_of_nat32)
  have eq: "a - (d + of_nat w) = x - of_nat w" by (simp add: x_def)
  have "unat (x - of_nat w) < k \<longleftrightarrow> \<not> unat x < w \<and> unat x < w + k"
    using assms u32_bound [of x] unfolding unat_diff [of x] w by auto
  then show "filled k (filled w m d b) (d + of_nat w) b a = filled (w + k) m d b a"
    unfolding filled_def eq x_def [symmetric] by auto
qed

lemma stosb_filled: "n < 2 ^ 32 \<Longrightarrow> stosb m d b n = filled n m d b"
proof (induction n arbitrary: m d)
  case 0
  then show ?case by (simp add: filled_def)
next
  case (Suc n)
  have "m(d := b) = filled 1 m d b" by (auto simp: filled_def fun_eq_iff unat_eq_zero)
  then have "stosb m d b (Suc n) = filled n (filled 1 m d b) (d + of_nat 1) b"
    using Suc.IH [of "m(d := b)" "d + 1"] Suc.prems by simp
  then show ?case using filled_append [of 1 n m d b] Suc.prems by simp
qed

lemma splat_bytes:
  fixes c :: u32
  defines "w \<equiv> push_bit 24 (c AND 0xFF) OR push_bit 16 (c AND 0xFF) OR push_bit 8 (c AND 0xFF) OR (c AND 0xFF)"
  shows "(ucast w :: u8) = ucast c" "(ucast (drop_bit 8 w) :: u8) = ucast c" "(ucast (drop_bit 16 w) :: u8) = ucast c"
    "(ucast (drop_bit 24 w) :: u8) = ucast c"
proof -
  have ff: "(0xFF :: u32) = mask 8" by (simp add: mask_eq_exp_minus_1)
  show "(ucast w :: u8) = ucast c" "(ucast (drop_bit 8 w) :: u8) = ucast c" "(ucast (drop_bit 16 w) :: u8) = ucast c"
    "(ucast (drop_bit 24 w) :: u8) = ucast c"
    unfolding w_def ff by (rule bit_word_eqI, auto simp: bit_simps)+
qed

lemma stosl_filled:
  assumes "\<And>i. i < 4 \<Longrightarrow> (ucast (drop_bit (8 * i) w) :: u8) = b"
  shows "4 * n < 2 ^ 32 \<Longrightarrow> stosl m d w n = filled (4 * n) m d b"
proof (induction n arbitrary: m d)
  case 0
  then show ?case by (simp add: filled_def)
next
  case (Suc n)
  have "put_long m d w = m(d := b, d + 1 := b, d + 2 := b, d + 3 := b)"
    using assms [of 0] assms [of 1] assms [of 2] assms [of 3] by (simp add: put_long_def)
  also have "\<dots> = filled 4 m d b"
  proof
    fix a
    obtain x where "a = d + x" by (metis add_diff_cancel_left' diff_add_cancel add.commute)
    then show "(m(d := b, d + 1 := b, d + 2 := b, d + 3 := b)) a = filled 4 m d b a"
      using word_below_4 [of x] by (auto simp: filled_def)
  qed
  finally have "put_long m d w = filled 4 m d b" .
  then have "stosl m d w (Suc n) = filled (4 * n) (filled 4 m d b) (d + of_nat 4) b"
    using Suc.IH [of "put_long m d w" "d + 4"] Suc.prems by simp
  then show ?case using filled_append [of 4 "4 * n" m d b] Suc.prems by simp
qed

lemma memset_filled: "memset m v c n = (v, filled (unat n) m v (ucast c))"
proof -
  let ?w = "push_bit 24 (c AND 0xFF) OR push_bit 16 (c AND 0xFF) OR push_bit 8 (c AND 0xFF) OR (c AND 0xFF)"
  have lanes: "(ucast (drop_bit (8 * i) ?w) :: u8) = ucast c" if small: "i < 4" for i
  proof -
    consider "i = 0" | "i = 1" | "i = 2" | "i = 3" using small by linarith
    then show ?thesis using splat_bytes [of c] by cases simp_all
  qed
  have four: "4 * unat (n div 4) = unat n" if "n mod 4 = 0"
  proof -
    have "unat (n mod 4) = unat n mod 4" "unat (n div 4) = unat n div 4" by (simp_all add: unat_mod unat_div)
    then show ?thesis using that by auto
  qed
  have "stosl m v ?w (unat (n div 4)) = filled (unat n) m v (ucast c)" if "n mod 4 = 0"
    using stosl_filled [OF lanes, of "unat (n div 4)" m v] u32_bound [of n] unfolding four [OF that] by simp
  moreover have "filled (unat (0 :: u32)) m v (ucast c) = m" by (simp add: filled_def)
  ultimately show ?thesis
    unfolding memset_def Let_def stosb_filled [OF u32_bound] by presburger
qed

section \<open>Null-terminated strings\<close>

fun is_str :: "mem \<Rightarrow> u32 \<Rightarrow> u8 list \<Rightarrow> bool" where
  "is_str m s [] \<longleftrightarrow> m s = 0"
| "is_str m s (x # xs) \<longleftrightarrow> m s = x \<and> x \<noteq> 0 \<and> is_str m (s + 1) xs"

lemma is_str_unique: "is_str m s xs \<Longrightarrow> is_str m s ys \<Longrightarrow> xs = ys"
proof (induction xs arbitrary: s ys)
  case Nil
  then show ?case by (cases ys) auto
next
  case (Cons x xs)
  then show ?case by (cases ys) auto
qed

lemma strlen_is_str: "is_str m s xs \<Longrightarrow> strlen m s = Some (of_nat (length xs))"
proof -
  have "is_str m s xs \<Longrightarrow> strlen_loop m s n = Some (n + of_nat (length xs))" for n
  proof (induction xs arbitrary: s n)
    case Nil
    then show ?case by (simp add: strlen_loop.simps)
  next
    case (Cons x xs)
    then show ?case by (subst strlen_loop.simps) (simp add: add.assoc)
  qed
  then show "is_str m s xs \<Longrightarrow> strlen m s = Some (of_nat (length xs))" by (simp add: strlen_def)
qed

lemma strnlen_is_str: "is_str m s xs \<Longrightarrow> strnlen m s sz = of_nat (min (unat sz) (length xs))"
proof -
  have "is_str m s xs \<Longrightarrow> strnlen_loop m s k n = n + of_nat (min k (length xs))" for k n
  proof (induction k arbitrary: s n xs)
    case (Suc k)
    then show ?case by (cases xs) (auto simp: add.assoc)
  qed simp
  then show "is_str m s xs \<Longrightarrow> strnlen m s sz = of_nat (min (unat sz) (length xs))" by (simp add: strnlen_def)
qed

lemma strcmp_lexord:
  assumes "is_str m p xs" and "is_str m q ys"
  shows "\<exists>r. strcmp m p q = Some r \<and> (r = 0 \<longleftrightarrow> xs = ys) \<and> (r < 0 \<longleftrightarrow> (xs, ys) \<in> lexord {(a, b). a < b})"
  using assms
proof (induction xs arbitrary: p q ys)
  case Nil
  then show ?case
    by (cases ys) (auto simp: strcmp.simps word_less_alt uint_0_iff word_neq_0_conv)
next
  case (Cons x xs)
  show ?case
  proof (cases ys)
    case Nil
    then show ?thesis using Cons.prems by (auto simp: strcmp.simps [of m p] word_neq_0_conv word_less_alt)
  next
    case ys: (Cons y zs)
    show ?thesis
    proof (cases "x = y")
      case True
      then have "strcmp m p q = strcmp m (p + 1) (q + 1)" using Cons.prems ys by (subst strcmp.simps) simp
      then show ?thesis using Cons.IH [of "p + 1" "q + 1" zs] Cons.prems ys True by simp
    next
      case False
      then have "strcmp m p q = Some (uint x - uint y)" using Cons.prems ys by (subst strcmp.simps) simp
      moreover have "uint x \<noteq> uint y" using False by (simp add: word_uint_eq_iff)
      ultimately show ?thesis using False ys by (auto simp: word_less_alt)
    qed
  qed
qed

lemma is_str_nth:
  "is_str m s xs \<longleftrightarrow> m (s + of_nat (length xs)) = 0 \<and>
     (\<forall>i<length xs. m (s + of_nat i) = xs ! i \<and> xs ! i \<noteq> 0)"
proof (induction xs arbitrary: s)
  case (Cons x xs)
  have "(\<forall>i<length (x # xs). m (s + of_nat i) = (x # xs) ! i \<and> (x # xs) ! i \<noteq> 0) \<longleftrightarrow>
      m s = x \<and> x \<noteq> 0 \<and> (\<forall>i<length xs. m (s + 1 + of_nat i) = xs ! i \<and> xs ! i \<noteq> 0)"
    by (auto simp: less_Suc_eq_0_disj add.assoc)
  then show ?case using Cons.IH [of "s + 1"] by (auto simp: add.assoc)
qed simp

lemma is_str_frame:
  assumes "is_str m s xs" and "\<And>i. i \<le> length xs \<Longrightarrow> m' (s + of_nat i) = m (s + of_nat i)"
  shows "is_str m' s xs"
  using assms unfolding is_str_nth by auto

text \<open>The copying loops read their source while they write: it must not lie just before the
  destination.\<close>

lemma is_str_after_write:
  assumes "is_str m src (x # xs)" and "dst = src \<or> Suc (length xs) < unat (dst - src)" and "Suc (length xs) < 2 ^ 32"
  shows "is_str (m(dst := b)) (src + 1) xs"
proof (rule is_str_frame)
  show "is_str m (src + 1) xs" using assms(1) by simp
  fix i
  assume i: "i \<le> length xs"
  have "unat (1 + of_nat i :: u32) = Suc i" using i assms(3) unat_of_nat32 [of "Suc i"] by simp
  moreover have "src + 1 + of_nat i \<noteq> dst"
  proof
    assume "src + 1 + of_nat i = dst"
    then have "dst - src = 1 + of_nat i" by (metis add.assoc add_diff_cancel_left')
    then show False using assms(2) i \<open>unat (1 + of_nat i :: u32) = Suc i\<close> by auto
  qed
  ultimately show "(m(dst := b)) (src + 1 + of_nat i) = m (src + 1 + of_nat i)" by simp
qed

lemma strlcpy_loop_copied:
  assumes "is_str m src xs" and "dst = src \<or> length xs < unat (dst - src)" and "length xs < 2 ^ 32"
  shows "strlcpy_loop m dst src k = (dst + of_nat (min k (length xs)), copied (min k (length xs)) m dst src)"
  using assms
proof (induction xs arbitrary: m dst src k)
  case Nil
  then show ?case by (cases k) (simp_all add: copied_def)
next
  case (Cons x xs)
  show ?case
  proof (cases k)
    case 0
    then show ?thesis by (simp add: copied_def)
  next
    case (Suc j)
    have one: "m(dst := m src) = copied 1 m dst src" by (simp add: move_byte)
    have "is_str (m(dst := m src)) (src + 1) xs" using Cons.prems by (intro is_str_after_write) auto
    moreover have "dst + 1 = src + 1 \<or> length xs < unat (dst + 1 - (src + 1))" "length xs < 2 ^ 32"
      using Cons.prems(2,3) by auto
    ultimately have "strlcpy_loop (m(dst := m src)) (dst + 1) (src + 1) j =
        (dst + 1 + of_nat (min j (length xs)), copied (min j (length xs)) (m(dst := m src)) (dst + 1) (src + 1))"
      by (rule Cons.IH)
    moreover have "copied (min j (length xs)) (copied 1 m dst src) (dst + 1) (src + 1) = copied (1 + min j (length xs)) m dst src"
      using copied_append [of dst src 1 "min j (length xs)" m] Cons.prems by auto
    moreover have "m src \<noteq> 0" using Cons.prems(1) by auto
    ultimately show ?thesis by (simp add: Suc one add.assoc)
  qed
qed

text \<open>C23. \<^verbatim>\<open>memmove\<close>, on the path its alignment test and its overlap test choose, leaves in the destination the
  bytes the source held before the call, however the two overlap, changes no other byte and returns
  the destination.\<close>

theorem memmove_correct:
  assumes "unat src + unat n < 2 ^ 32" and "unat dst + unat n \<le> 2 ^ 32"
  shows "memmove m dst src n = (dst, \<lambda>a. if unat (a - dst) < unat n then m (src + (a - dst)) else m a)"
  using memmove_copied [OF assms] by (simp add: copied_def)

text \<open>\<^verbatim>\<open>strlcpy\<close> writes only the \<open>sz\<close> bytes of its destination, leaves there the longest prefix of the source
  that fits with its terminator, terminated, and returns its length.\<close>

lemma strlcpy_truncates:
  assumes "is_str m src xs" and "dst = src \<or> length xs < unat (dst - src)" and "length xs < 2 ^ 32" and "0 < sz"
  shows "\<exists>m'. strlcpy m dst src sz = (of_nat (min (unat sz - 1) (length xs)), m') \<and>
    is_str m' dst (take (unat sz - 1) xs) \<and> (\<forall>a. unat (a - dst) < unat sz \<or> m' a = m a)"
proof -
  let ?j = "min (unat sz - 1) (length xs)"
  let ?m = "(copied ?j m dst src)(dst + of_nat ?j := 0)"
  have j: "?j < unat sz" "?j < 2 ^ 32" using assms(3,4) by (auto simp: word_less_nat_alt)
  have "is_str ?m dst (take (unat sz - 1) xs)"
    unfolding is_str_nth
  proof (intro conjI allI impI)
    show "?m (dst + of_nat (length (take (unat sz - 1) xs))) = 0" by (simp add: min.commute)
    fix i
    assume i: "i < length (take (unat sz - 1) xs)"
    then have ui: "unat (of_nat i :: u32) = i" "unat (of_nat ?j :: u32) = ?j" "i < ?j" using j by (auto simp: unat_of_nat32)
    then have "(of_nat i :: u32) \<noteq> of_nat ?j" by (metis less_irrefl)
    then have "?m (dst + of_nat i) = m (src + of_nat i)" using ui by (simp add: copied_at)
    then show "?m (dst + of_nat i) = take (unat sz - 1) xs ! i" "take (unat sz - 1) xs ! i \<noteq> 0"
      using assms(1) ui(3) unfolding is_str_nth by auto
  qed
  moreover have "unat (a - dst) < unat sz \<or> ?m a = m a" for a
    using j unat_of_nat32 [OF j(2)] by (auto simp: copied_def)
  moreover have "strlcpy m dst src sz = (of_nat ?j, ?m)"
    using assms(4) by (simp add: strlcpy_def strlcpy_loop_copied [OF assms(1-3)])
  ultimately show ?thesis by blast
qed

text \<open>Overlapping by four bytes, upwards, so that the word-wise descending copy is taken.\<close>

theorem memmove_correct_witness:
  "memmove (\<lambda>a. ucast a) 0x1004 0x1000 8 =
     (0x1004, \<lambda>a. if unat (a - 0x1004) < unat (8 :: u32) then ucast (0x1000 + (a - 0x1004)) else ucast a)"
  using memmove_correct [of "0x1000" 8 "0x1004" "\<lambda>a. ucast a"] by simp

definition abc :: mem where
  "abc = (\<lambda>_. 0)(0x1000 := 97, 0x1001 := 98, 0x1002 := 99)"

lemma strlcpy_truncates_example:
  "\<exists>m'. strlcpy abc 0x2000 0x1000 3 = (2, m') \<and> is_str m' 0x2000 [97, 98] \<and>
     (\<forall>a. unat (a - 0x2000) < 3 \<or> m' a = abc a)"
  using strlcpy_truncates [of abc "0x1000" "[97, 98, 99]" "0x2000" 3] by (simp add: abc_def)

end
