(* ===== verification/Printf.thy ===== *)
theory Printf
  imports CString Console
begin

text \<open>
  Formatted output: \<^verbatim>\<open>lib/printfmt.c\<close>, with the consumers of its characters, \<^verbatim>\<open>kern/printf.c\<close> (the console),
  \<^verbatim>\<open>lib/printf.c\<close> (a buffer flushed by a system call) and \<^verbatim>\<open>snprintf\<close> (memory).

  The function \<open>putch\<close> that \<^verbatim>\<open>vprintfmt\<close> calls is a parameter. It acts on the memory, from which the format, the
  arguments and the strings are read, and on the object \<^verbatim>\<open>putdat\<close> points to. A \<^verbatim>\<open>va_list\<close> is the address of the
  next argument on the stack, as on the i386. \<^verbatim>\<open>int\<close> is a 32-bit word read by \<open>sint\<close>; signed overflow wraps.

  Shown are that formatting ends and keeps every invariant its \<open>putch\<close> keeps (an interface, with the three
  consumers as instances), that \<^verbatim>\<open>vsnprintf\<close> stays in its buffer, and that \<^verbatim>\<open>strtol\<close> reads back what \<^verbatim>\<open>%d\<close> prints.
\<close>

unbundle bit_operations_syntax

section \<open>Numbers\<close>

type_synonym 'd putch = "u32 \<Rightarrow> mem \<times> 'd \<Rightarrow> mem \<times> 'd"

text \<open>A loop that puts a padding character while a counter is positive.\<close>

fun pad :: "'d putch \<Rightarrow> u32 \<Rightarrow> nat \<Rightarrow> mem \<times> 'd \<Rightarrow> mem \<times> 'd" where
  "pad putch c 0 st = st"
| "pad putch c (Suc k) st = pad putch c k (putch c st)"

definition digit_char :: "u64 \<Rightarrow> u32" where
  "digit_char k = ucast (if k < 10 then 48 + k else 87 + k)"

partial_function (option) printnum :: "'d putch \<Rightarrow> u64 \<Rightarrow> u64 \<Rightarrow> u32 \<Rightarrow> u32 \<Rightarrow> mem \<times> 'd \<Rightarrow> (mem \<times> 'd) option" where
  "printnum putch num base width padc st =
     do { st \<leftarrow> (if num \<ge> base then printnum putch (num div base) base (width - 1) padc st
               else Some (pad putch padc (nat (sint (width - 1))) st));
          Some (putch (digit_char (num mod base)) st) }"

definition get_long :: "mem \<Rightarrow> u32 \<Rightarrow> u32" where
  "get_long m a = ucast (m a) OR push_bit 8 (ucast (m (a + 1))) OR push_bit 16 (ucast (m (a + 2))) OR
     push_bit 24 (ucast (m (a + 3)))"

definition get_quad :: "mem \<Rightarrow> u32 \<Rightarrow> u64" where
  "get_quad m a = ucast (get_long m a) OR push_bit 32 (ucast (get_long m (a + 4)))"

text \<open>The value and the advanced argument pointer.\<close>

definition getuint :: "mem \<Rightarrow> u32 \<Rightarrow> u32 \<Rightarrow> u64 \<times> u32" where
  "getuint m ap lflag =
     (if sint lflag \<ge> 2 then (get_quad m ap, ap + 8) else (ucast (get_long m ap), ap + 4))"

definition getint :: "mem \<Rightarrow> u32 \<Rightarrow> u32 \<Rightarrow> u64 \<times> u32" where
  "getint m ap lflag =
     (if sint lflag \<ge> 2 then (get_quad m ap, ap + 8) else (scast (get_long m ap), ap + 4))"

section \<open>Strings\<close>

text \<open>A string is in memory or a constant of the program.\<close>

datatype str = At u32 | Lit "u8 list"

fun fetch :: "mem \<Rightarrow> str \<Rightarrow> u8" where
  "fetch m (At p) = m p"
| "fetch m (Lit []) = 0"
| "fetch m (Lit (b # bs)) = b"

fun advance :: "str \<Rightarrow> str" where
  "advance (At p) = At (p + 1)"
| "advance (Lit bs) = Lit (tl bs)"

fun str_nlen :: "mem \<Rightarrow> str \<Rightarrow> u32 \<Rightarrow> u32" where
  "str_nlen m (At p) sz = strnlen m p sz"
| "str_nlen m (Lit bs) sz = of_nat (min (unat sz) (length bs))"

partial_function (option) print_chars ::
  "'d putch \<Rightarrow> bool \<Rightarrow> str \<Rightarrow> u32 \<Rightarrow> u32 \<Rightarrow> mem \<times> 'd \<Rightarrow> (u32 \<times> mem \<times> 'd) option" where
  "print_chars putch altflag p precision width st =
     (let ch = fetch (fst st) p;
          put = (if altflag \<and> (sint ch < 32 \<or> sint ch > 126) then putch 63 else putch (scast ch))
      in if ch = 0 then Some (width, st)
         else if sint precision < 0
         then print_chars putch altflag (advance p) precision (width - 1) (put st)
         else if sint (precision - 1) \<ge> 0
         then print_chars putch altflag (advance p) (precision - 1) (width - 1) (put st)
         else Some (width, st))"

definition print_string ::
  "'d putch \<Rightarrow> u32 \<Rightarrow> u32 \<Rightarrow> u32 \<Rightarrow> bool \<Rightarrow> str \<Rightarrow> mem \<times> 'd \<Rightarrow> (mem \<times> 'd) option" where
  "print_string putch padc width precision altflag p st =
     (let (width, st) =
        (if sint width > 0 \<and> padc \<noteq> 45
         then let width = width - str_nlen (fst st) p precision
              in if sint width > 0 then (0, pad putch padc (nat (sint width)) st) else (width, st)
         else (width, st))
      in do { (width, st) \<leftarrow> print_chars putch altflag p precision width st;
              Some (pad putch 32 (nat (sint width)) st) })"

definition null_string :: "u8 list" where
  "null_string = [40, 110, 117, 108, 108, 41]"

definition bytes :: "string \<Rightarrow> u8 list" where
  "bytes s = map of_char s"

definition error_string :: "u8 list option list" where
  "error_string = None # map (Some \<circ> bytes)
     [''unspecified error'', ''bad environment'', ''invalid parameter'', ''out of memory'', ''out of environments'',
      ''segmentation fault'', ''env is not recving'', ''unexpected end of file'', ''no free space on disk'',
      ''too many files are open'', ''file or block not found'', ''invalid path'', ''file already exists'',
      ''file is not a valid executable'', ''operation not supported'']"

section \<open>Formats\<close>

record spec =
  padc :: u32
  width :: u32
  precision :: u32
  lflag :: u32
  altflag :: bool

definition no_flags :: spec where
  "no_flags = \<lparr>padc = 32, width = - 1, precision = - 1, lflag = 0, altflag = False\<rparr>"

partial_function (option) width_field :: "mem \<Rightarrow> u32 \<Rightarrow> u8 \<Rightarrow> u32 \<Rightarrow> (u32 \<times> u32) option" where
  "width_field m fmt ch prec =
     (let prec = prec * 10 + ucast ch - 48; ch = m fmt
      in if ch < 48 \<or> ch > 57 then Some (prec, fmt) else width_field m (fmt + 1) ch prec)"

definition process_precision :: "u32 \<Rightarrow> spec \<Rightarrow> spec" where
  "process_precision prec sp =
     (if sint (width sp) < 0 then sp\<lparr>width := prec, precision := - 1\<rparr> else sp\<lparr>precision := prec\<rparr>)"

text \<open>The flags between \<^verbatim>\<open>%\<close> and the conversion character: the cases of the switch that jump back to
  \<^verbatim>\<open>reswitch\<close>. None of them prints. The result is the character of the other cases.\<close>

partial_function (option) reswitch :: "mem \<Rightarrow> u32 \<Rightarrow> u32 \<Rightarrow> spec \<Rightarrow> (u8 \<times> u32 \<times> u32 \<times> spec) option" where
  "reswitch m fmt ap sp =
     (let ch = m fmt; fmt = fmt + 1
      in if ch = 45 then reswitch m fmt ap (sp\<lparr>padc := 45\<rparr>)
         else if ch = 48 then reswitch m fmt ap (sp\<lparr>padc := 48\<rparr>)
         else if 49 \<le> ch \<and> ch \<le> 57
         then do { (prec, fmt) \<leftarrow> width_field m fmt ch 0;
                   reswitch m fmt ap (process_precision prec sp) }
         else if ch = 42 then reswitch m fmt (ap + 4) (process_precision (get_long m ap) sp)
         else if ch = 46 then reswitch m fmt ap (if sint (width sp) < 0 then sp\<lparr>width := 0\<rparr> else sp)
         else if ch = 35 then reswitch m fmt ap (sp\<lparr>altflag := True\<rparr>)
         else if ch = 108 then reswitch m fmt ap (sp\<lparr>lflag := lflag sp + 1\<rparr>)
         else Some (ch, fmt, ap, sp))"

definition print_signed :: "'d putch \<Rightarrow> spec \<Rightarrow> u64 \<Rightarrow> mem \<times> 'd \<Rightarrow> (mem \<times> 'd) option" where
  "print_signed putch sp num st =
     (let (num, st) = (if sint num < 0 then (- num, putch 45 st) else (num, st))
      in printnum putch num 10 (width sp) (padc sp) st)"

text \<open>\<^verbatim>\<open>printfmt(putch, putdat, "error %d", err)\<close> and \<^verbatim>\<open>printfmt(putch, putdat, "%s", p)\<close> are written out. The index
  into the table is scaled by 4 in 32 bits, so that the one negative index, \<^verbatim>\<open>INT_MIN\<close>, reads entry 0.\<close>

definition print_error :: "'d putch \<Rightarrow> u32 \<Rightarrow> mem \<times> 'd \<Rightarrow> (mem \<times> 'd) option" where
  "print_error putch err st =
     (let err = (if sint err < 0 then - err else err);
          p = error_string ! (unat (4 * err) div 4)
      in if sint err \<ge> 16 \<or> p = None
         then print_signed putch no_flags (scast err) (fold putch [101, 114, 114, 111, 114, 32] st)
         else print_string putch 32 (- 1) (- 1) False (Lit (the p)) st)"

partial_function (option) back_to_percent :: "mem \<Rightarrow> u32 \<Rightarrow> u32 option" where
  "back_to_percent m fmt = (if m (fmt - 1) \<noteq> 37 then back_to_percent m (fmt - 1) else Some fmt)"

text \<open>The cases of the switch that end an escape sequence: the new format pointer, argument pointer and
  state.\<close>

definition conversion ::
  "'d putch \<Rightarrow> u8 \<Rightarrow> u32 \<Rightarrow> u32 \<Rightarrow> spec \<Rightarrow> mem \<times> 'd \<Rightarrow> (u32 \<times> u32 \<times> mem \<times> 'd) option" where
  "conversion putch ch fmt ap sp st =
     (let arg = get_long (fst st) ap;
          number = (\<lambda>(num, ap) base st.
            do { st \<leftarrow> printnum putch num base (width sp) (padc sp) st; Some (fmt, ap, st) })
      in if ch = 99 then Some (fmt, ap + 4, putch arg st)
         else if ch = 101 then do { st \<leftarrow> print_error putch arg st; Some (fmt, ap + 4, st) }
         else if ch = 115
         then do { st \<leftarrow> print_string putch (padc sp) (width sp) (precision sp) (altflag sp)
                            (if arg = 0 then Lit null_string else At arg) st;
                   Some (fmt, ap + 4, st) }
         else if ch = 100
         then (let (num, ap) = getint (fst st) ap (lflag sp)
               in do { st \<leftarrow> print_signed putch sp num st; Some (fmt, ap, st) })
         else if ch = 117 then number (getuint (fst st) ap (lflag sp)) 10 st
         else if ch = 111 then number (getuint (fst st) ap (lflag sp)) 8 st
         else if ch = 112
         then let st = putch 120 (putch 48 st)
              in number (ucast (get_long (fst st) ap), ap + 4) 16 st
         else if ch = 120 then number (getuint (fst st) ap (lflag sp)) 16 st
         else if ch = 37 then Some (fmt, ap, putch 37 st)
         else let st = putch 37 st
              in do { fmt \<leftarrow> back_to_percent (fst st) (fmt - 1); Some (fmt, ap, st) })"

partial_function (option) vprintfmt :: "'d putch \<Rightarrow> u32 \<Rightarrow> u32 \<Rightarrow> mem \<times> 'd \<Rightarrow> (mem \<times> 'd) option" where
  "vprintfmt putch fmt ap st =
     (let ch = fst st fmt; fmt = fmt + 1
      in if ch = 37
         then do { (ch, fmt, ap, sp) \<leftarrow> reswitch (fst st) fmt ap no_flags;
                   (fmt, ap, st) \<leftarrow> conversion putch ch fmt ap sp st;
                   vprintfmt putch fmt ap st }
         else if ch = 0 then Some st
         else vprintfmt putch fmt ap (putch (ucast ch) st))"

section \<open>Consumers\<close>

text \<open>\<^verbatim>\<open>snprintf\<close>.\<close>

record sprintbuf =
  sbuf :: u32
  ebuf :: u32
  scnt :: u32

definition sprintputch :: "sprintbuf putch" where
  "sprintputch ch = (\<lambda>(m, b).
     let b = b\<lparr>scnt := scnt b + 1\<rparr>
     in if sbuf b < ebuf b then (m(sbuf b := ucast ch), b\<lparr>sbuf := sbuf b + 1\<rparr>) else (m, b))"

definition vsnprintf :: "mem \<Rightarrow> u32 \<Rightarrow> u32 \<Rightarrow> u32 \<Rightarrow> u32 \<Rightarrow> (int \<times> mem) option" where
  "vsnprintf m buf n fmt ap =
     (let b = \<lparr>sbuf = buf, ebuf = buf + n - 1, scnt = 0\<rparr>
      in if buf = 0 \<or> sint n < 1 then Some (- 3, m)
         else do { (m, b) \<leftarrow> vprintfmt sprintputch fmt ap (m, b);
                   Some (sint (scnt b), m(sbuf b := 0)) })"

text \<open>The kernel's \<^verbatim>\<open>cprintf\<close>. \<^verbatim>\<open>*cnt++\<close> increments the pointer, not the count.\<close>

definition kern_putch :: "Console putch" where
  "kern_putch ch = (\<lambda>(m, con). (m, cons_putc ch con))"

definition kern_vcprintf :: "mem \<Rightarrow> u32 \<Rightarrow> u32 \<Rightarrow> Console \<Rightarrow> (int \<times> Console) option" where
  "kern_vcprintf m fmt ap con = do { (_, con) \<leftarrow> vprintfmt kern_putch fmt ap (m, con); Some (0, con) }"

text \<open>The user-level \<^verbatim>\<open>cprintf\<close>. The system calls \<^verbatim>\<open>sys_cputs\<close> it makes are recorded with their arguments. An
  index outside of the buffer is a failure.\<close>

record printbuf =
  pidx :: nat
  pcnt :: nat
  pbuf :: "u8 list"
  cputs :: "u8 list list"
  overrun :: bool

definition user_putch :: "printbuf putch" where
  "user_putch ch = (\<lambda>(m, b).
     let b = (if pidx b < length (pbuf b) then b\<lparr>pbuf := (pbuf b)[pidx b := ucast ch]\<rparr> else b\<lparr>overrun := True\<rparr>);
         b = b\<lparr>pidx := pidx b + 1\<rparr>;
         b = (if pidx b = 256 - 1 then b\<lparr>cputs := cputs b @ [take (pidx b) (pbuf b)], pidx := 0\<rparr> else b)
     in (m, b\<lparr>pcnt := pcnt b + 1\<rparr>))"

definition user_vcprintf :: "mem \<Rightarrow> u8 list \<Rightarrow> u32 \<Rightarrow> u32 \<Rightarrow> (nat \<times> printbuf) option" where
  "user_vcprintf m stack fmt ap =
     do { (_, b) \<leftarrow> vprintfmt user_putch fmt ap
            (m, \<lparr>pidx = 0, pcnt = 0, pbuf = stack, cputs = [], overrun = False\<rparr>);
          Some (pcnt b, b\<lparr>cputs := cputs b @ [take (pidx b) (pbuf b)]\<rparr>) }"

section \<open>Reading the format\<close>

lemma is_str_drop: "is_str m p ys \<Longrightarrow> j \<le> length ys \<Longrightarrow> is_str m (p + of_nat j) (drop j ys)"
proof (induction j arbitrary: p ys)
  case (Suc j)
  then obtain y zs where ys: "ys = y # zs" by (cases ys) auto
  then show ?case using Suc.IH [of "p + 1" zs] Suc.prems by (simp add: add.assoc)
qed simp

text \<open>A parser of the flags stops at some character of the format or at its end, having seen no \<^verbatim>\<open>%\<close>.\<close>

definition stops :: "mem \<Rightarrow> u32 \<Rightarrow> u8 list \<Rightarrow> (u8 \<times> u32 \<times> u32 \<times> spec) option \<Rightarrow> bool" where
  "stops m fmt ys r \<longleftrightarrow> (\<exists>k ap sp. k \<le> length ys \<and> (\<forall>i<k. m (fmt + of_nat i) \<noteq> 37) \<and>
     r = Some (m (fmt + of_nat k), fmt + of_nat k + 1, ap, sp))"

lemma stops_later:
  assumes "stops m (fmt + of_nat j) (drop j ys) r" and "j \<le> length ys" and "\<forall>i<j. m (fmt + of_nat i) \<noteq> 37"
  shows "stops m fmt ys r"
proof -
  from assms(1) obtain k ap sp where k: "k \<le> length ys - j" "\<forall>i<k. m (fmt + of_nat (j + i)) \<noteq> 37"
    "r = Some (m (fmt + of_nat (j + k)), fmt + of_nat (j + k) + 1, ap, sp)"
    by (auto simp: stops_def add.assoc)
  have "m (fmt + of_nat i) \<noteq> 37" if "i < j + k" for i
  proof (cases "i < j")
    case True
    then show ?thesis using assms(3) by simp
  next
    case False
    then show ?thesis using k(2) that by (metis add_diff_inverse_nat nat_add_left_cancel_less)
  qed
  moreover have "j + k \<le> length ys" using k(1) assms(2) by simp
  ultimately show ?thesis unfolding stops_def using k(3) by blast
qed

lemma width_field_returns:
  "is_str m fmt ys \<Longrightarrow>
     \<exists>prec k. width_field m fmt ch p = Some (prec, fmt + of_nat k) \<and> k \<le> length ys \<and> (\<forall>i<k. m (fmt + of_nat i) \<noteq> 37)"
proof (induction ys arbitrary: fmt ch p)
  case Nil
  then show ?case by (subst width_field.simps) simp
next
  case (Cons y ys)
  show ?case
  proof (cases "y < 48 \<or> y > 57")
    case True
    then have "width_field m fmt ch p = Some (p * 10 + ucast ch - 48, fmt + of_nat 0)"
      using Cons.prems by (subst width_field.simps) simp
    then show ?thesis by blast
  next
    case False
    then have step: "width_field m fmt ch p = width_field m (fmt + 1) y (p * 10 + ucast ch - 48)"
      using Cons.prems by (subst width_field.simps) (simp add: Let_def)
    obtain prec k where k: "width_field m fmt ch p = Some (prec, fmt + 1 + of_nat k)" "k \<le> length ys"
      "\<forall>i<k. m (fmt + 1 + of_nat i) \<noteq> 37"
      using Cons.IH [of "fmt + 1" y "p * 10 + ucast ch - 48"] Cons.prems unfolding step by auto
    have "m fmt \<noteq> 37" using False Cons.prems by auto
    then have "\<forall>i<Suc k. m (fmt + of_nat i) \<noteq> 37" using k(3) by (auto simp: less_Suc_eq_0_disj add.assoc)
    moreover have "width_field m fmt ch p = Some (prec, fmt + of_nat (Suc k))" using k(1) by (simp add: add.assoc)
    ultimately show ?thesis using k(2) by (metis Suc_le_mono length_Cons)
  qed
qed

lemma reswitch_stops: "is_str m fmt ys \<Longrightarrow> stops m fmt ys (reswitch m fmt ap sp)"
proof (induction "length ys" arbitrary: fmt ys ap sp rule: less_induct)
  case less
  show ?case
  proof (cases "m fmt \<in> {45, 48, 42, 46, 35, 108} \<or> 49 \<le> m fmt \<and> m fmt \<le> 57")
    case False
    then have "reswitch m fmt ap sp = Some (m (fmt + of_nat 0), fmt + of_nat 0 + 1, ap, sp)"
      by (subst reswitch.simps) (auto simp: Let_def)
    then show ?thesis unfolding stops_def by blast
  next
    case True
    then have "m fmt \<noteq> 0" "m fmt \<noteq> 37" by auto
    then obtain zs where ys: "ys = m fmt # zs" using less.prems by (cases ys) auto
    have one: "is_str m (fmt + of_nat 1) (drop 1 ys)" using less.prems ys by auto
    have later: "stops m fmt ys (reswitch m (fmt + 1 + of_nat k) ap' sp')"
      if "k \<le> length zs" "\<forall>i<k. m (fmt + 1 + of_nat i) \<noteq> 37" for k ap' sp'
    proof (rule stops_later [of _ _ "Suc k"])
      show "Suc k \<le> length ys" using that ys by simp
      show "\<forall>i<Suc k. m (fmt + of_nat i) \<noteq> 37"
        using that(2) \<open>m fmt \<noteq> 37\<close> by (auto simp: less_Suc_eq_0_disj add.assoc)
      have "is_str m (fmt + of_nat (Suc k)) (drop (Suc k) ys)"
        by (rule is_str_drop) (use less.prems \<open>Suc k \<le> length ys\<close> in auto)
      then show "stops m (fmt + of_nat (Suc k)) (drop (Suc k) ys) (reswitch m (fmt + 1 + of_nat k) ap' sp')"
        using less.hyps [of "drop (Suc k) ys" "fmt + of_nat (Suc k)"] ys by (simp add: add.assoc)
    qed
    have next_char: "stops m fmt ys (reswitch m (fmt + 1) ap' sp')" for ap' sp' using later [of 0] by simp
    obtain prec k where "width_field m (fmt + 1) (m fmt) 0 = Some (prec, fmt + 1 + of_nat k)" "k \<le> length zs"
      "\<forall>i<k. m (fmt + 1 + of_nat i) \<noteq> 37"
      using width_field_returns [of m "fmt + 1" zs] one ys by fastforce
    then show ?thesis using next_char later True by (subst reswitch.simps) (auto simp: Let_def)
  qed
qed

lemma back_to_percent_returns:
  "m (fmt - 1) = 37 \<Longrightarrow> (\<And>i. i < k \<Longrightarrow> m (fmt + of_nat i) \<noteq> 37) \<Longrightarrow> back_to_percent m (fmt + of_nat k) = Some fmt"
proof (induction k)
  case 0
  then show ?case by (subst back_to_percent.simps) simp
next
  case (Suc k)
  have "m (fmt + of_nat k) \<noteq> 37" using Suc.prems(2) by simp
  then have "back_to_percent m (fmt + of_nat (Suc k)) = back_to_percent m (fmt + of_nat k)"
    by (subst back_to_percent.simps) simp
  then show ?case using Suc by simp
qed

section \<open>Formatting ends and keeps the invariant of its consumer\<close>

text \<open>The interface of a consumer of characters: \<open>putch\<close> keeps the invariant, and under the invariant the bytes at the
  addresses \<open>kept\<close> are those of \<open>m0\<close>.\<close>

locale sink =
  fixes putch :: "'d putch" and inv :: "mem \<times> 'd \<Rightarrow> bool" and m0 :: mem and kept :: "u32 set"
  assumes put_inv: "inv st \<Longrightarrow> inv (putch c st)"
    and kept: "inv st \<Longrightarrow> a \<in> kept \<Longrightarrow> fst st a = m0 a"
begin

declare split_paired_All [simp del] split_paired_Ex [simp del]

definition ends :: "(mem \<times> 'd) option \<Rightarrow> bool" where
  "ends r \<longleftrightarrow> (\<exists>st. r = Some st \<and> inv st)"

lemma endsI: "r = Some st \<Longrightarrow> inv st \<Longrightarrow> ends r"
  by (simp add: ends_def)

lemma pad_inv: "inv st \<Longrightarrow> inv (pad putch c k st)"
  by (induction k arbitrary: st) (simp_all add: put_inv)

lemma fold_inv: "inv st \<Longrightarrow> inv (fold putch cs st)"
  by (induction cs arbitrary: st) (simp_all add: put_inv)

lemma printnum_ends: "1 < base \<Longrightarrow> inv st \<Longrightarrow> ends (printnum putch num base w c st)"
proof (induction "unat num" arbitrary: num w rule: less_induct)
  case less
  show ?case
  proof (cases "num \<ge> base")
    case True
    have "unat (num div base) < unat num"
      using True less.prems(1) by (simp add: unat_div word_less_nat_alt word_le_nat_alt)
    then have "ends (printnum putch (num div base) base (w - 1) c st)"
      using less.hyps less.prems by blast
    then show ?thesis using True by (subst printnum.simps) (auto simp: ends_def intro: put_inv)
  next
    case False
    then show ?thesis using less.prems by (subst printnum.simps) (auto simp: ends_def intro: put_inv pad_inv)
  qed
qed

lemma print_signed_ends: "inv st \<Longrightarrow> ends (print_signed putch sp num st)"
  unfolding print_signed_def Let_def by (auto intro!: printnum_ends put_inv)

lemma print_chars_step:
  assumes "\<And>prec wd st. inv st \<Longrightarrow> \<exists>w st'. print_chars putch alt (advance p) prec wd st = Some (w, st') \<and> inv st'"
    and "inv st"
  shows "\<exists>w st'. print_chars putch alt p prec wd st = Some (w, st') \<and> inv st'"
  using assms by (subst print_chars.simps) (simp add: Let_def put_inv)

text \<open>A string in memory ends at the latest at a zero that stays there.\<close>

lemma print_chars_at:
  assumes zero: "z \<in> kept" "m0 z = 0"
  shows "inv st \<Longrightarrow> \<exists>w st'. print_chars putch alt (At p) prec wd st = Some (w, st') \<and> inv st'"
proof (induction "unat (z - p)" arbitrary: p prec wd st)
  case 0
  then have "p = z" by (simp add: unat_eq_zero)
  then have "fst st p = 0" using kept zero 0 by metis
  then show ?case using 0 by (subst print_chars.simps) simp
next
  case (Suc d)
  then have "z - p \<noteq> 0" by auto
  then have "unat (z - p - 1) = unat (z - p) - 1" by (rule unat_minus_one)
  then have "d = unat (z - (p + 1))" using Suc.hyps(2) by (simp add: diff_diff_eq)
  then have "\<exists>w st'. print_chars putch alt (advance (At p)) prec wd st = Some (w, st') \<and> inv st'" if "inv st" for prec wd st
    unfolding advance.simps using Suc.hyps(1) that by blast
  then show ?case using Suc.prems by (rule print_chars_step)
qed

lemma print_chars_lit:
  "inv st \<Longrightarrow> \<exists>w st'. print_chars putch alt (Lit bs) prec wd st = Some (w, st') \<and> inv st'"
proof (induction bs arbitrary: prec wd st)
  case Nil
  then show ?case by (subst print_chars.simps) simp
next
  case (Cons b bs)
  then have "\<exists>w st'. print_chars putch alt (advance (Lit (b # bs))) prec wd st = Some (w, st') \<and> inv st'" if "inv st" for prec wd st
    unfolding advance.simps list.sel using that by blast
  then show ?case using Cons.prems by (rule print_chars_step)
qed

lemma print_string_ends:
  assumes zero: "z \<in> kept" "m0 z = 0"
  shows "inv st \<Longrightarrow> ends (print_string putch c w prec alt p st)"
proof -
  have all: "\<exists>w st'. print_chars putch alt p prec wd st = Some (w, st') \<and> inv st'" if "inv st" for wd st
    using that by (cases p) (simp_all add: print_chars_at [OF zero] print_chars_lit)
  have "ends (do { (wd, st) \<leftarrow> print_chars putch alt p prec wd st; Some (pad putch 32 (nat (sint wd)) st) })"
    if "inv st" for wd st
    using all [OF that, of wd] by (auto simp: ends_def intro: pad_inv)
  then show "inv st \<Longrightarrow> ends (print_string putch c w prec alt p st)"
    unfolding print_string_def Let_def by (simp add: pad_inv)
qed

lemma print_error_ends:
  assumes "z \<in> kept" and "m0 z = 0"
  shows "inv st \<Longrightarrow> ends (print_error putch err st)"
  unfolding print_error_def Let_def by (simp add: print_string_ends [OF assms] print_signed_ends put_inv)

text \<open>A conversion ends with the format behind its character, or just behind the \<^verbatim>\<open>%\<close> when there is no such
  conversion.\<close>

lemma conversion_ends:
  assumes "inv st" and zero: "z \<in> kept" "m0 z = 0" and "fmt - 1 \<in> kept" and "m0 (fmt - 1) = 37"
    and "\<And>i. i < k \<Longrightarrow> fmt + of_nat i \<in> kept \<and> m0 (fmt + of_nat i) \<noteq> 37"
  shows "\<exists>fmt' ap' st'. conversion putch ch (fmt + of_nat k + 1) ap sp st = Some (fmt', ap', st') \<and> inv st' \<and>
    (fmt' = fmt \<or> ch \<noteq> 0 \<and> fmt' = fmt + of_nat k + 1)"
proof -
  define Q :: "(u32 \<times> u32 \<times> mem \<times> 'd) option \<Rightarrow> bool" where "Q r \<longleftrightarrow> (\<exists>fmt' ap' st'. r = Some (fmt', ap', st') \<and> inv st' \<and> (fmt' = fmt \<or> ch \<noteq> 0 \<and> fmt' = fmt + of_nat k + 1))" for r
  have after: "Q (do { st \<leftarrow> r; Some (fmt + of_nat k + 1, ap', st) })" if "ends r" "ch \<noteq> 0" for r ap'
    using that by (auto simp: Q_def ends_def)
  have put: "Q (Some (fmt + of_nat k + 1, ap', putch c st))" if "ch \<noteq> 0" for ap' c
    using that put_inv [OF assms(1)] by (simp add: Q_def)
  have "back_to_percent (fst (putch 37 st)) (fmt + of_nat k) = Some fmt"
    using assms kept [OF put_inv [OF assms(1)]] by (intro back_to_percent_returns) auto
  then have unknown: "Q (do { fmt \<leftarrow> back_to_percent (fst (putch 37 st)) (fmt + of_nat k + 1 - 1); Some (fmt, ap, putch 37 st) })"
    using put_inv [OF assms(1)] by (simp add: Q_def)
  have cases: "Q (if c then a else b)" if "c \<Longrightarrow> Q a" "\<not> c \<Longrightarrow> Q b" for c a b using that by simp
  have "Q (conversion putch ch (fmt + of_nat k + 1) ap sp st)"
    unfolding conversion_def Let_def case_prod_beta
    by (intro cases after put unknown print_error_ends [OF zero] print_string_ends [OF zero] print_signed_ends printnum_ends put_inv assms(1)) auto
  then show ?thesis unfolding Q_def .
qed

lemma is_str_kept:
  assumes "is_str m0 fmt xs" and "\<And>i. i \<le> length xs \<Longrightarrow> fmt + of_nat i \<in> kept" and "inv st"
  shows "is_str (fst st) fmt xs"
  using assms(1) by (rule is_str_frame) (simp add: kept assms)

lemma vprintfmt_ends:
  "is_str m0 fmt xs \<Longrightarrow> (\<And>i. i \<le> length xs \<Longrightarrow> fmt + of_nat i \<in> kept) \<Longrightarrow> inv st \<Longrightarrow> ends (vprintfmt putch fmt ap st)"
proof (induction "length xs" arbitrary: xs fmt ap st rule: less_induct)
  case less
  note str = is_str_kept [OF less.prems]
  show ?case
  proof (cases xs)
    case Nil
    then show ?thesis using str less.prems(3) by (subst vprintfmt.simps) (simp add: endsI)
  next
    case (Cons x ys)
    have IH: "ends (vprintfmt putch (fmt + of_nat j) ap' st')" if "0 < j" "j \<le> length xs" "inv st'" for j ap' st'
    proof (rule less.hyps)
      show "length (drop j xs) < length xs" using that by simp
      show "is_str m0 (fmt + of_nat j) (drop j xs)" using less.prems(1) that(2) by (rule is_str_drop)
      show "fmt + of_nat j + of_nat i \<in> kept" if "i \<le> length (drop j xs)" for i
        using less.prems(2) [of "j + i"] that \<open>j \<le> length xs\<close> by (simp add: add.assoc)
    qed (use that in simp)
    show ?thesis
    proof (cases "x = 37")
      case False
      have "vprintfmt putch fmt ap st = vprintfmt putch (fmt + of_nat 1) ap (putch (ucast x) st)"
        using str Cons False by (subst vprintfmt.simps) simp
      then show ?thesis using IH [of 1 "putch (ucast x) st" ap] put_inv [OF less.prems(3)] Cons by simp
    next
      case True
      have at: "fmt + 1 + of_nat i \<in> kept" if "i \<le> length ys" for i
        using less.prems(2) [of "Suc i"] that Cons by (simp add: add.assoc)
      obtain k ap' sp where k: "k \<le> length ys" "\<forall>i<k. fst st (fmt + 1 + of_nat i) \<noteq> 37"
        "reswitch (fst st) (fmt + 1) ap no_flags = Some (fst st (fmt + 1 + of_nat k), fmt + 1 + of_nat k + 1, ap', sp)"
        using reswitch_stops [of "fst st" "fmt + 1" ys ap no_flags] str Cons by (auto simp: stops_def)
      let ?ch = "fst st (fmt + 1 + of_nat k)"
      have last: "fmt + 1 + of_nat (length ys) \<in> kept" "m0 (fmt + 1 + of_nat (length ys)) = 0"
        using at [of "length ys"] less.prems(1) Cons by (simp_all add: is_str_nth add.assoc)
      have "fmt + 1 - 1 \<in> kept" "m0 (fmt + 1 - 1) = 37" using less.prems(1) less.prems(2) [of 0] Cons True by simp_all
      moreover have "fmt + 1 + of_nat i \<in> kept \<and> m0 (fmt + 1 + of_nat i) \<noteq> 37" if "i < k" for i
        using k(1,2) that at [of i] kept [OF less.prems(3), of "fmt + 1 + of_nat i"] by auto
      ultimately obtain fmt' ap'' st' where c: "conversion putch ?ch (fmt + 1 + of_nat k + 1) ap' sp st = Some (fmt', ap'', st')"
        "inv st'" "fmt' = fmt + 1 \<or> ?ch \<noteq> 0 \<and> fmt' = fmt + 1 + of_nat k + 1"
        using conversion_ends [OF less.prems(3) last] by blast
      have "k < length ys" if "?ch \<noteq> 0"
        using that k(1) last kept [OF less.prems(3) last(1)] by (cases "k = length ys") auto
      then have "ends (vprintfmt putch fmt' ap'' st')"
        using c(2,3) IH [of 1 st' ap''] IH [of "Suc (Suc k)" st' ap''] Cons by (auto simp: add.assoc)
      moreover have "vprintfmt putch fmt ap st = vprintfmt putch fmt' ap'' st'"
        using str Cons True k(3) c(1) by (subst vprintfmt.simps) (simp add: Let_def)
      ultimately show ?thesis by simp
    qed
  qed
qed

end

section \<open>The three consumers\<close>

definition outside :: "u32 \<Rightarrow> u32 \<Rightarrow> u32 set" where
  "outside buf n = {a. unat n \<le> unat (a - buf)}"

text \<open>\<^verbatim>\<open>sprintputch\<close>: the write position is in the buffer, and no byte behind its last was written.\<close>

definition sprint_inv :: "mem \<Rightarrow> u32 \<Rightarrow> u32 \<Rightarrow> mem \<times> sprintbuf \<Rightarrow> bool" where
  "sprint_inv m0 buf n = (\<lambda>(m, b). 0 < n \<and> unat buf + unat n \<le> 2 ^ 32 \<and> ebuf b = buf + n - 1 \<and> buf \<le> sbuf b \<and>
     sbuf b \<le> buf + n - 1 \<and> (\<forall>a \<in> outside buf n. m a = m0 a))"

lemma last_byte:
  fixes buf n :: u32
  assumes "0 < n" and "unat buf + unat n \<le> 2 ^ 32"
  shows "unat (buf + n - 1) = unat buf + unat n - 1"
proof -
  have n: "unat (n - 1) = unat n - 1" using assms(1) by (intro unat_minus_one) auto
  have "0 < unat n" using assms(1) by (simp add: word_less_nat_alt)
  then have "unat (buf + (n - 1)) = unat buf + unat n - 1" using unat_sum [of buf "n - 1"] assms(2) unfolding n by auto
  then show ?thesis by (simp add: add_diff_eq)
qed

lemma in_buffer:
  fixes buf n a :: u32
  assumes "0 < n" and "unat buf + unat n \<le> 2 ^ 32" and "buf \<le> a" and "a \<le> buf + n - 1"
  shows "unat (a - buf) < unat n"
proof -
  have "0 < unat n" "unat buf \<le> unat a" "unat a \<le> unat buf + unat n - 1"
    using assms last_byte [OF assms(1,2)] by (simp_all add: word_le_nat_alt word_less_nat_alt)
  then show ?thesis using unat_diff [of a buf] by auto
qed

interpretation sprint: sink sprintputch "sprint_inv m0 buf n" m0 "outside buf n" for m0 buf n
proof
  show "fst st a = m0 a" if "sprint_inv m0 buf n st" "a \<in> outside buf n" for st a
    using that by (auto simp: sprint_inv_def)
  show "sprint_inv m0 buf n (sprintputch c st)" if inv: "sprint_inv m0 buf n st" for c st
  proof -
    obtain m b where st: "st = (m, b)" by fastforce
    have "buf \<le> sbuf b + 1 \<and> sbuf b + 1 \<le> buf + n - 1 \<and> sbuf b \<notin> outside buf n" if "sbuf b < buf + n - 1"
    proof -
      have "unat (sbuf b - buf) < unat n" using inv that by (intro in_buffer) (auto simp: st sprint_inv_def)
      moreover have "unat (sbuf b + 1) = unat (sbuf b) + 1"
        using that unat_sum [of "sbuf b" 1] u32_bound [of "buf + n - 1"] by (simp add: word_less_nat_alt)
      ultimately show ?thesis using inv that
        by (auto simp: st sprint_inv_def outside_def word_le_nat_alt word_less_nat_alt)
    qed
    then show ?thesis using inv by (auto simp: st sprint_inv_def sprintputch_def Let_def)
  qed
qed

text \<open>The kernel's consumer keeps the cursor on the screen.\<close>

definition console_inv :: "mem \<Rightarrow> mem \<times> Console \<Rightarrow> bool" where
  "console_inv m0 = (\<lambda>(m, con). m = m0 \<and> crt_pos con < CRT_SIZE)"

interpretation kern: sink kern_putch "console_inv m0" m0 UNIV for m0
  using cons_putc_on by unfold_locales (auto simp: console_inv_def kern_putch_def on_screen_def)

text \<open>The user-level consumer fills its buffer up to its last byte but one, and every character counted is in
  the buffer or was passed to \<^verbatim>\<open>sys_cputs\<close>.\<close>

definition printbuf_inv :: "mem \<Rightarrow> mem \<times> printbuf \<Rightarrow> bool" where
  "printbuf_inv m0 = (\<lambda>(m, b). m = m0 \<and> length (pbuf b) = 256 \<and> pidx b < 255 \<and> \<not> overrun b \<and>
     (\<forall>c \<in> set (cputs b). length c = 255) \<and> pcnt b = length (concat (cputs b)) + pidx b)"

interpretation user: sink user_putch "printbuf_inv m0" m0 UNIV for m0
proof
  show "printbuf_inv m0 (user_putch c st)" if "printbuf_inv m0 st" for c st
  proof (cases "pidx (snd st) = 254")
    case True
    then show ?thesis using that by (auto simp: printbuf_inv_def user_putch_def Let_def)
  next
    case False
    then show ?thesis using that by (simp add: printbuf_inv_def user_putch_def Let_def case_prod_beta)
  qed
qed (simp add: printbuf_inv_def case_prod_beta)

text \<open>C25. \<^verbatim>\<open>vsnprintf\<close>, for every format outside of its buffer and all arguments, returns and has written only bytes of the
  buffer, one of which is now a terminating zero.\<close>

theorem vsnprintf_in_bounds:
  assumes "is_str m fmt xs" and "\<And>i. i \<le> length xs \<Longrightarrow> fmt + of_nat i \<in> outside buf n"
    and "buf \<noteq> 0" and "1 \<le> sint n" and "unat buf + unat n \<le> 2 ^ 32"
  shows "\<exists>cnt m' k. vsnprintf m buf n fmt ap = Some (cnt, m') \<and> (\<forall>a \<in> outside buf n. m' a = m a) \<and>
    unat k < unat n \<and> m' (buf + k) = 0"
proof -
  let ?b = "\<lparr>sbuf = buf, ebuf = buf + n - 1, scnt = 0\<rparr>"
  have n: "0 < n" using assms(4) by (metis not_one_le_zero signed_0 word_neq_0_conv)
  have "unat buf \<le> unat buf + unat n - 1" using n by (simp add: word_less_nat_alt)
  then have "buf \<le> buf + n - 1" using last_byte [OF n assms(5)] by (simp add: word_le_nat_alt)
  then have "sprint_inv m buf n (m, ?b)" using n assms(5) by (simp add: sprint_inv_def)
  then obtain st where st: "vprintfmt sprintputch fmt ap (m, ?b) = Some st" "sprint_inv m buf n st"
    using sprint.vprintfmt_ends [OF assms(1,2), of "(m, ?b)" ap] unfolding sprint.ends_def by blast
  obtain m' b where b: "st = (m', b)" by fastforce
  have k: "unat (sbuf b - buf) < unat n" using st(2) by (intro in_buffer) (auto simp: b sprint_inv_def)
  then have "\<forall>a \<in> outside buf n. (m'(sbuf b := 0)) a = m a" using st(2) by (auto simp: b sprint_inv_def outside_def)
  moreover have "vsnprintf m buf n fmt ap = Some (sint (scnt b), m'(sbuf b := 0))"
    using st(1) assms(3,4) by (simp add: vsnprintf_def b)
  moreover have "(m'(sbuf b := 0)) (buf + (sbuf b - buf)) = 0" by simp
  ultimately show ?thesis using k by blast
qed

text \<open>No format makes the user-level \<^verbatim>\<open>cprintf\<close> write outside of its buffer, and it returns the number of
  characters it passed on.\<close>

lemma user_vcprintf_counts:
  assumes "is_str m fmt xs" and "length stack = 256"
  shows "\<exists>cnt b. user_vcprintf m stack fmt ap = Some (cnt, b) \<and> \<not> overrun b \<and> cnt = length (concat (cputs b))"
proof -
  let ?b = "\<lparr>pidx = 0, pcnt = 0, pbuf = stack, cputs = [], overrun = False\<rparr>"
  have "printbuf_inv m (m, ?b)" using assms(2) by (simp add: printbuf_inv_def)
  then obtain st where st: "vprintfmt user_putch fmt ap (m, ?b) = Some st" "printbuf_inv m st"
    using user.vprintfmt_ends [OF assms(1), of "(m, ?b)" ap] unfolding user.ends_def by blast
  obtain m' b where b: "st = (m', b)" by fastforce
  show ?thesis using st by (auto simp: b user_vcprintf_def printbuf_inv_def)
qed

lemma kern_vcprintf_returns:
  assumes "is_str m fmt xs" and "crt_pos con < CRT_SIZE"
  shows "\<exists>con'. kern_vcprintf m fmt ap con = Some (0, con') \<and> crt_pos con' < CRT_SIZE"
proof -
  have "console_inv m (m, con)" using assms(2) by (simp add: console_inv_def)
  then obtain st where st: "vprintfmt kern_putch fmt ap (m, con) = Some st" "console_inv m st"
    using kern.vprintfmt_ends [OF assms(1), of "(m, con)" ap] unfolding kern.ends_def by blast
  obtain m' b where b: "st = (m', b)" by fastforce
  show ?thesis using st by (auto simp: b kern_vcprintf_def console_inv_def)
qed

section \<open>What numbers look like\<close>

fun digs :: "nat \<Rightarrow> nat \<Rightarrow> nat list" where
  "digs base n = (if n < base \<or> base < 2 then [n] else digs base (n div base) @ [n mod base])"

declare digs.simps [simp del]

lemma digs_length: "n < base ^ k \<Longrightarrow> 0 < k \<Longrightarrow> length (digs base n) \<le> k"
proof (induction base n arbitrary: k rule: digs.induct)
  case (1 base n)
  show ?case
  proof (cases "n < base \<or> base < 2")
    case True
    then show ?thesis using 1 by (subst digs.simps) auto
  next
    case False
    obtain j where j: "k = Suc j" using 1(3) by (cases k) auto
    have "0 < j" using 1(2) False j by (cases j) auto
    moreover have "n div base < base ^ j" using 1(2) j False by (simp add: less_mult_imp_div_less mult.commute)
    ultimately show ?thesis using 1(1) [OF False, of j] False j by (subst digs.simps) simp
  qed
qed

lemma digs_bound: "1 < base \<Longrightarrow> d \<in> set (digs base n) \<Longrightarrow> d < base"
proof (induction base n rule: digs.induct)
  case (1 base n)
  then show ?case by (subst (asm) (2) digs.simps) (auto split: if_splits)
qed

lemma digs_nonempty [simp]: "digs base n \<noteq> []"
  by (subst digs.simps) simp

lemma foldl_digs: "1 < base \<Longrightarrow> foldl (\<lambda>v d. v * base + d) 0 (digs base n) = n"
proof (induction base n rule: digs.induct)
  case (1 base n)
  then show ?case by (subst digs.simps) (simp add: not_less)
qed

lemma pad_fold: "pad putch c k = fold putch (replicate k c)"
  by (induction k) (auto simp: fun_eq_iff)

lemma sint_minus_one: "- (2 ^ 31) < sint (w :: u32) \<Longrightarrow> sint (w - 1) = sint w - 1"
proof -
  assume "- (2 ^ 31) < sint w"
  moreover have "sint w < 2 ^ 31" using sint_lt [of w] by simp
  ultimately show ?thesis unfolding sint_word_diff by (simp add: signed_take_bit_int_eq_self)
qed

text \<open>\<^verbatim>\<open>printnum\<close> prints the digits, right-adjusted in the field.\<close>

lemma printnum_digs:
  "1 < base \<Longrightarrow> int (length (digs (unat base) (unat num))) < 2 ^ 31 + sint w \<Longrightarrow>
     printnum putch num base w c st = Some (fold putch
       (replicate (nat (sint w) - length (digs (unat base) (unat num))) c @
        map (\<lambda>d. digit_char (of_nat d)) (digs (unat base) (unat num))) st)"
proof (induction "unat num" arbitrary: num w st rule: less_induct)
  case less
  have base: "\<not> unat base < 2" using less.prems(1) by (simp add: word_less_nat_alt)
  show ?case
  proof (cases "num \<ge> base")
    case True
    then have ge: "\<not> unat num < unat base" by (simp add: word_le_nat_alt)
    have digs: "digs (unat base) (unat num) = digs (unat base) (unat (num div base)) @ [unat (num mod base)]"
      using ge base by (subst digs.simps) (simp add: unat_div unat_mod)
    have w: "sint (w - 1) = sint w - 1" using less.prems(2) digs by (intro sint_minus_one) simp
    have "unat (num div base) < unat num" using ge base by (simp add: unat_div)
    then have "printnum putch (num div base) base (w - 1) c st = Some (fold putch
        (replicate (nat (sint (w - 1)) - length (digs (unat base) (unat (num div base)))) c @
         map (\<lambda>d. digit_char (of_nat d)) (digs (unat base) (unat (num div base)))) st)"
      using less.prems w digs by (intro less.hyps) simp_all
    moreover have "nat (sint (w - 1)) - length (digs (unat base) (unat (num div base))) = nat (sint w) - length (digs (unat base) (unat num))"
      unfolding w digs by simp
    ultimately show ?thesis using True by (subst printnum.simps) (simp add: digs)
  next
    case False
    then have "digs (unat base) (unat num) = [unat num]" by (subst digs.simps) (simp add: word_le_nat_alt)
    moreover have "num mod base = num" using False by (simp add: word_unat_eq_iff unat_mod word_le_nat_alt)
    moreover have "sint (w - 1) = sint w - 1" using less.prems(2) calculation(1) by (intro sint_minus_one) simp
    moreover have "nat (sint w - 1) = nat (sint w) - Suc 0" by arith
    ultimately show ?thesis using False by (subst printnum.simps) (simp add: pad_fold)
  qed
qed

fun put_bytes :: "mem \<Rightarrow> u32 \<Rightarrow> u8 list \<Rightarrow> mem" where
  "put_bytes m a [] = m"
| "put_bytes m a (b # bs) = put_bytes (m(a := b)) (a + 1) bs"

lemma put_bytes_at:
  "length bs < 2 ^ 32 \<Longrightarrow> put_bytes m a bs (a + x) = (if unat x < length bs then bs ! unat x else m (a + x))"
proof (induction bs arbitrary: m a x)
  case (Cons b bs)
  show ?case
  proof (cases "x = 0")
    case True
    then have "\<not> unat (x - 1) < length bs" using Cons.prems unat_diff [of 0 1] by simp
    then show ?thesis using Cons.IH [of "m(a := b)" "a + 1" "x - 1"] Cons.prems True by (simp add: fun_upd_def)
  next
    case False
    then have "unat (x - 1) = unat x - 1" "0 < unat x" by (simp_all add: unat_minus_one unat_gt_0)
    moreover have "unat x - 1 < length bs \<longleftrightarrow> unat x < length (b # bs)" using \<open>0 < unat x\<close> by auto
    ultimately show ?thesis using Cons.IH [of "m(a := b)" "a + 1" "x - 1"] Cons.prems False by (simp add: fun_upd_def)
  qed
qed simp

lemma fold_sprintputch:
  "unat (sbuf b) + length cs \<le> unat (ebuf b) \<Longrightarrow>
     fold sprintputch cs (m, b) = (put_bytes m (sbuf b) (map ucast cs),
       b\<lparr>sbuf := sbuf b + of_nat (length cs), scnt := scnt b + of_nat (length cs)\<rparr>)"
proof (induction cs arbitrary: m b)
  case (Cons c cs)
  have "unat (sbuf b + 1) = unat (sbuf b) + 1" using Cons.prems u32_bound [of "ebuf b"] by (subst unat_sum) simp
  moreover have "sprintputch c (m, b) = (m(sbuf b := ucast c), b\<lparr>scnt := scnt b + 1, sbuf := sbuf b + 1\<rparr>)"
    using Cons.prems by (simp add: sprintputch_def Let_def word_less_nat_alt)
  ultimately show ?case
    using Cons.prems Cons.IH [of "b\<lparr>scnt := scnt b + 1, sbuf := sbuf b + 1\<rparr>" "m(sbuf b := ucast c)"]
    by (simp add: add.assoc fun_upd_def)
qed simp

lemma digit_byte: "d < 10 \<Longrightarrow> unat (48 + of_nat d :: u8) = 48 + d"
  by (simp add: unat_word_ariths unat_of_nat)

lemma digits_loop_reads:
  "is_str m s (map (\<lambda>d. 48 + of_nat d) ds) \<Longrightarrow> (\<And>d. d \<in> set ds \<Longrightarrow> d < 10) \<Longrightarrow>
     digits_loop m s 10 v = Some (foldl (\<lambda>v d. v * 10 + of_nat d) v ds, s + of_nat (length ds))"
proof (induction ds arbitrary: s v)
  case Nil
  then show ?case by (subst digits_loop.simps) (simp add: digit_value_def)
next
  case (Cons d ds)
  have d: "d < 10" using Cons.prems(2) by simp
  then have "digit_value (48 + of_nat d) = Some (int d)"
    using digit_byte [OF d] by (simp add: digit_value_def word_le_nat_alt uint_nat)
  moreover have "m s = 48 + of_nat d" using Cons.prems(1) by simp
  ultimately have "digits_loop m s 10 v = digits_loop m (s + 1) 10 (v * 10 + of_nat d)"
    using d by (subst digits_loop.simps) simp
  then show ?case using Cons.IH [of "s + 1" "v * 10 + of_nat d"] Cons.prems by (simp add: add.assoc)
qed

lemma foldl_of_nat: "foldl (\<lambda>v d. v * 10 + of_nat d) (of_nat a :: u32) ds = of_nat (foldl (\<lambda>v d. v * 10 + d) a ds)"
proof (induction ds arbitrary: a)
  case (Cons d ds)
  then show ?case using Cons.IH [of "a * 10 + d"] by simp
qed simp

text \<open>\<^verbatim>\<open>strtol\<close> of a decimal numeral with an optional minus sign.\<close>

definition numeral_bytes :: "bool \<Rightarrow> nat \<Rightarrow> u8 list" where
  "numeral_bytes neg n = (if neg then [45] else []) @ map (\<lambda>d. 48 + of_nat d) (digs 10 n)"

lemma strtol_reads:
  assumes "is_str m s (numeral_bytes neg n)"
  shows "strtol m s 10 = Some (sint (if neg then - of_nat n else of_nat n :: u32), s + of_nat (length (numeral_bytes neg n)))"
proof -
  let ?ds = "map (\<lambda>d. 48 + of_nat d) (digs 10 n) :: u8 list" and ?p = "if neg then s + 1 else s"
  have str: "is_str m ?p ?ds" using assms by (cases neg) (simp_all add: numeral_bytes_def)
  have read: "digits_loop m ?p 10 0 = Some (of_nat n, ?p + of_nat (length (digs 10 n)))"
    using digits_loop_reads [OF str, of 0] digs_bound [of 10 _ n] foldl_of_nat [of 0 "digs 10 n"] foldl_digs [of 10 n] by simp
  obtain d ds where ds: "digs 10 n = d # ds" by (cases "digs 10 n") simp_all
  then have "d < 10" using digs_bound [of 10 d n] by simp
  then have "48 + of_nat d \<notin> {32, 9, 43, 45 :: u8}" using digit_byte [of d] by (auto simp: word_unat_eq_iff)
  then have ch: "m ?p \<notin> {32, 9, 43, 45}" using str ds by simp
  have "m s \<noteq> 32 \<and> m s \<noteq> 9" "m s = 45 \<longleftrightarrow> neg" "m s \<noteq> 43"
    using ch assms by (cases neg; simp add: numeral_bytes_def)+
  moreover from this have "skip_blanks m s = Some s" by (subst skip_blanks.simps) simp
  ultimately show ?thesis using read
    by (cases neg) (simp_all add: strtol_def numeral_bytes_def add.assoc)
qed

lemma print_signed_decimal:
  "print_signed putch no_flags (scast x) st = Some (fold putch
     ((if sint x < 0 then [45] else []) @ map (\<lambda>d. digit_char (of_nat d)) (digs 10 (nat \<bar>sint x\<bar>))) st)" for x :: u32
proof -
  let ?num = "if sint x < 0 then - scast x else scast x :: u64"
  have r: "- (2 ^ 31) \<le> sint x" "sint x < 2 ^ 31" using sint_ge [of x] sint_lt [of x] by simp_all
  have s: "sint (scast x :: u64) = sint x" using r by (simp add: signed_scast_eq signed_take_bit_int_eq_self)
  have num: "unat ?num = nat \<bar>sint x\<bar>"
  proof -
    have "?num = word_of_int \<bar>sint x\<bar>" by (cases "sint x < 0") simp_all
    then have "uint ?num = \<bar>sint x\<bar> mod 2 ^ 64" using uint_word_of_int [of "\<bar>sint x\<bar>", where 'a = 64] by simp
    also have "\<dots> = \<bar>sint x\<bar>" using r by (intro mod_pos_pos_trivial) simp_all
    finally show ?thesis by (metis nat_uint_eq)
  qed
  have "nat \<bar>sint x\<bar> < 10 ^ 10" using r by simp
  then have "length (digs 10 (nat \<bar>sint x\<bar>)) \<le> 10" by (intro digs_length) simp_all
  then have prn: "printnum putch ?num 10 (- 1) 32 st =
      Some (fold putch (map (\<lambda>d. digit_char (of_nat d)) (digs 10 (nat \<bar>sint x\<bar>))) st)" for st
    using printnum_digs [of 10 ?num "- 1" putch 32 st] unfolding num by simp
  show ?thesis
    using prn [of "putch 45 st"] prn [of st] by (cases "sint x < 0") (simp_all add: print_signed_def no_flags_def s)
qed

lemma sint_nonneg: "0 \<le> sint n \<Longrightarrow> unat n = nat (sint n)" for n :: u32
proof -
  assume "0 \<le> sint n"
  moreover have "uint n = sint n mod 2 ^ 32" using uint_word_of_int [of "sint n", where 'a = 32] by simp
  moreover have "sint n < 2 ^ 31" using sint_lt [of n] by simp
  ultimately have "uint n = sint n" by simp
  then show "unat n = nat (sint n)" by (metis nat_uint_eq)
qed

lemma numeral_chars:
  "map ucast ((if neg then [45] else []) @ map (\<lambda>d. digit_char (of_nat d)) (digs 10 n)) = numeral_bytes neg n"
proof -
  have "(ucast (digit_char (of_nat d)) :: u8) = 48 + of_nat d" if "d < 10" for d
  proof -
    have "(of_nat d :: u64) < 10" using that by (simp add: word_less_nat_alt unat_of_nat)
    then have "digit_char (of_nat d) = ucast (of_nat (48 + d) :: u64)" by (simp add: digit_char_def)
    also have "(ucast \<dots> :: u8) = of_nat (48 + d)" using that by (simp only: unsigned_of_nat) (simp add: take_bit_nat_eq_self)
    finally show ?thesis by simp
  qed
  then show ?thesis using digs_bound [of 10 _ n] by (auto simp: numeral_bytes_def)
qed

lemma numeral_bytes_nonzero: "b \<in> set (numeral_bytes neg n) \<Longrightarrow> b \<noteq> 0"
  using digs_bound [of 10 _ n] digit_byte by (fastforce simp: numeral_bytes_def split: if_splits)

lemma signed_magnitude: "(if sint x < 0 then - of_nat (nat \<bar>sint x\<bar>) else of_nat (nat \<bar>sint x\<bar>)) = x" for x :: u32
proof -
  have "(of_nat (nat \<bar>sint x\<bar>) :: u32) = word_of_int \<bar>sint x\<bar>" by simp
  then show ?thesis by simp
qed

lemma vprintfmt_decimal:
  assumes "is_str m fmt [37, 100]" and "is_str (fst st') fmt [37, 100]"
    and "print_signed putch no_flags (scast (get_long m ap)) (m, d) = Some st'"
  shows "vprintfmt putch fmt ap (m, d) = Some st'"
proof -
  have "reswitch m (fmt + 1) ap no_flags = Some (100, fmt + 1 + 1, ap, no_flags)"
    using assms(1) by (subst reswitch.simps) simp
  moreover have "conversion putch 100 (fmt + 1 + 1) ap no_flags (m, d) = Some (fmt + 1 + 1, ap + 4, st')"
    using assms(3) by (simp add: conversion_def getint_def no_flags_def)
  moreover have "vprintfmt putch (fmt + 1 + 1) (ap + 4) st' = Some st'"
    using assms(2) by (subst vprintfmt.simps) simp
  ultimately show ?thesis using assms(1) by (subst vprintfmt.simps) simp
qed

lemma vsnprintf_decimal:
  assumes "is_str m fmt [37, 100]" and "get_long m ap = x"
    and "fmt \<in> outside buf n" and "fmt + 1 \<in> outside buf n" and "fmt + 2 \<in> outside buf n"
    and "buf \<noteq> 0" and "12 \<le> sint n" and "unat buf + unat n \<le> 2 ^ 32"
  shows "\<exists>m'. vsnprintf m buf n fmt ap = Some (int (length (numeral_bytes (sint x < 0) (nat \<bar>sint x\<bar>))), m') \<and>
    is_str m' buf (numeral_bytes (sint x < 0) (nat \<bar>sint x\<bar>))"
proof -
  define b where "b = \<lparr>sbuf = buf, ebuf = buf + n - 1, scnt = 0\<rparr>"
  define cs where "cs = (if sint x < 0 then [45] else []) @ map (\<lambda>d. digit_char (of_nat d)) (digs 10 (nat \<bar>sint x\<bar>))"
  define bs where "bs = numeral_bytes (sint x < 0) (nat \<bar>sint x\<bar>)"
  define m1 where "m1 = put_bytes m buf bs"
  define b1 where "b1 = b\<lparr>sbuf := buf + of_nat (length cs), scnt := of_nat (length cs)\<rparr>"
  have "nat \<bar>sint x\<bar> < 10 ^ 10" using sint_ge [of x] sint_lt [of x] by simp
  then have "length (digs 10 (nat \<bar>sint x\<bar>)) \<le> 10" by (rule digs_length) simp
  then have len: "length cs \<le> 11" "length bs = length cs" by (auto simp: cs_def bs_def numeral_bytes_def)
  have n: "12 \<le> unat n" using sint_nonneg [of n] assms(7) by simp
  then have "0 < n" by (simp add: word_less_nat_alt)
  then have last: "unat (buf + n - 1) = unat buf + unat n - 1" using assms(8) by (rule last_byte)
  have at: "m1 (buf + y) = (if unat y < length bs then bs ! unat y else m (buf + y))" for y
    unfolding m1_def using len by (intro put_bytes_at) simp
  have kept: "m1 a = m a" if "a \<in> outside buf n" for a
    using at [of "a - buf"] that len n by (simp add: outside_def)
  have "fold sprintputch cs (m, b) = (put_bytes m buf (map ucast cs), b1)"
    using fold_sprintputch [of b cs m] last len(1) n by (simp add: b_def b1_def)
  moreover have "map ucast cs = bs" unfolding cs_def bs_def by (rule numeral_chars)
  ultimately have "print_signed sprintputch no_flags (scast x) (m, b) = Some (m1, b1)"
    unfolding print_signed_decimal cs_def [symmetric] m1_def by simp
  moreover have "is_str m1 fmt [37, 100]" using assms(1) kept assms(3-5) by (simp add: add.commute [of fmt])
  ultimately have "vprintfmt sprintputch fmt ap (m, b) = Some (m1, b1)"
    using vprintfmt_decimal [OF assms(1), of "(m1, b1)" sprintputch ap b] assms(2) by simp
  moreover have small: "unat (of_nat (length cs) :: u32) = length cs" "sint (of_nat (length cs) :: u32) = int (length cs)"
    using len(1) by (auto simp: unat_of_nat sint_of_small)
  ultimately have "vsnprintf m buf n fmt ap = Some (int (length cs), m1(buf + of_nat (length cs) := 0))"
    using assms(6,7) by (simp add: vsnprintf_def Let_def b_def b1_def)
  moreover have "is_str (m1(buf + of_nat (length cs) := 0)) buf bs"
    unfolding is_str_nth
  proof (intro conjI allI impI)
    fix i
    assume i: "i < length bs"
    then have ui: "unat (of_nat i :: u32) = i" using len by (simp add: unat_of_nat32)
    then have "(of_nat i :: u32) \<noteq> of_nat (length cs)" using i len small(1) by auto
    then show "(m1(buf + of_nat (length cs) := 0)) (buf + of_nat i) = bs ! i" using at [of "of_nat i"] i ui by simp
    have "bs ! i \<in> set bs" using i by simp
    then show "bs ! i \<noteq> 0" unfolding bs_def by (rule numeral_bytes_nonzero)
  qed (use len in simp)
  ultimately show ?thesis using len(2) unfolding bs_def by auto
qed

text \<open>C24. A number printed by \<^verbatim>\<open>snprintf(buf, n, "%d", x)\<close> is read back by \<^verbatim>\<open>strtol(buf, &endptr, 10)\<close>, for every \<^verbatim>\<open>int\<close>, and \<^verbatim>\<open>endptr\<close>
  is left at the terminating zero; 12 bytes are enough.\<close>

theorem strtol_reads_snprintf:
  assumes "is_str m fmt [37, 100]" and "get_long m ap = x"
    and "fmt \<in> outside buf n" and "fmt + 1 \<in> outside buf n" and "fmt + 2 \<in> outside buf n"
    and "buf \<noteq> 0" and "12 \<le> sint n" and "unat buf + unat n \<le> 2 ^ 32"
  shows "\<exists>len m'. vsnprintf m buf n fmt ap = Some (len, m') \<and>
    strtol m' buf 10 = Some (sint x, buf + word_of_int len) \<and> m' (buf + word_of_int len) = 0"
proof -
  let ?bs = "numeral_bytes (sint x < 0) (nat \<bar>sint x\<bar>)"
  obtain m' where m': "vsnprintf m buf n fmt ap = Some (int (length ?bs), m')" "is_str m' buf ?bs"
    using vsnprintf_decimal [OF assms] by blast
  then have "strtol m' buf 10 = Some (sint x, buf + of_nat (length ?bs))" "m' (buf + of_nat (length ?bs)) = 0"
    using strtol_reads [of m' buf "sint x < 0"] by (simp_all only: signed_magnitude is_str_nth)
  then show ?thesis using m'(1) by simp
qed

section \<open>Witnesses\<close>

text \<open>The format \<^verbatim>\<open>%d\<close> at \<open>0x1000\<close> and the argument -7 at \<open>0x1800\<close>.\<close>

definition minus_seven :: mem where
  "minus_seven = (\<lambda>_. 0)(0x1000 := 37, 0x1001 := 100, 0x1800 := 0xF9, 0x1801 := 0xFF, 0x1802 := 0xFF, 0x1803 := 0xFF)"

lemma minus_seven_format: "is_str minus_seven 0x1000 [37, 100]" "get_long minus_seven 0x1800 = - 7"
  by (simp_all add: minus_seven_def get_long_def)

theorem vsnprintf_in_bounds_witness:
  "\<exists>cnt m' k. vsnprintf minus_seven 0x2000 2 0x1000 0x1800 = Some (cnt, m') \<and> m' 0x2002 = minus_seven 0x2002 \<and>
     unat k < 2 \<and> m' (0x2000 + k) = 0"
proof -
  have "0x1000 + of_nat i \<in> outside 0x2000 2" if "i \<le> length [37, 100 :: u8]" for i
  proof -
    have "i = 0 \<or> i = 1 \<or> i = 2" using that by auto
    then show ?thesis by (auto simp: outside_def)
  qed
  moreover have "0x2002 \<in> outside 0x2000 2" by (simp add: outside_def)
  ultimately show ?thesis
    using vsnprintf_in_bounds [OF minus_seven_format(1), of "0x2000" 2 "0x1800"] by fastforce
qed

theorem strtol_reads_snprintf_witness:
  "\<exists>len m'. vsnprintf minus_seven 0x2000 12 0x1000 0x1800 = Some (len, m') \<and>
     strtol m' 0x2000 10 = Some (- 7, 0x2000 + word_of_int len) \<and> m' (0x2000 + word_of_int len) = 0"
  using strtol_reads_snprintf [OF minus_seven_format, of "0x2000" 12] by (simp add: outside_def)

end
