(* ===== verification/BlockCache.thy ===== *)
theory BlockCache
  imports Prelude
begin

text \<open>
  The block cache of the file system server, \<^verbatim>\<open>fs/bc.c\<close>, and the free block bitmap of \<^verbatim>\<open>fs/fs.c\<close>.

  Disk block \<open>b\<close> appears in the server's memory at \<^verbatim>\<open>DISKMAP + b * BLKSIZE\<close>. Pointers into this region are word
  addresses relative to \<^verbatim>\<open>DISKMAP\<close>: word \<open>w\<close> of block \<open>b\<close> is at \<open>b * 1024 + w\<close>. A block is resident when its page is
  mapped; the first access to another block faults, and \<^verbatim>\<open>bc_pgfault\<close> reads the block from the disk. \<open>None\<close> is a panic of
  the server, or a fault inside the handling of a fault that never ends. Page allocation and disk transfers are taken
  to succeed.

  The view of the disk is what the server sees through its memory, resident or not. Shown are that
  faulting in and flushing never change the view, that flushing brings the disk up to date, and what the
  allocator of blocks does to the bitmap.
\<close>

unbundle bit_operations_syntax

section \<open>Blocks in memory\<close>

abbreviation BLKSIZE :: nat where "BLKSIZE \<equiv> 4096"
abbreviation BLKWORDS :: nat where "BLKWORDS \<equiv> 1024"
abbreviation NDISK :: nat where "NDISK \<equiv> 0xC0000"
abbreviation SUPER :: nat where "SUPER \<equiv> 1024"
abbreviation BITMAP :: nat where "BITMAP \<equiv> 2048"

record fs =
  disk :: "nat \<Rightarrow> nat \<Rightarrow> u32"
  cache :: "nat \<Rightarrow> (nat \<Rightarrow> u32) option"
  dirty :: "nat \<Rightarrow> bool"
  super_set :: bool
  bitmap_set :: bool

definition va_is_mapped :: "fs \<Rightarrow> nat \<Rightarrow> bool" where
  "va_is_mapped s va \<longleftrightarrow> cache s (va div BLKWORDS) \<noteq> None"

definition va_is_dirty :: "fs \<Rightarrow> nat \<Rightarrow> bool" where
  "va_is_dirty s va \<longleftrightarrow> dirty s (va div BLKWORDS)"

text \<open>A resident word.\<close>

definition word_in :: "fs \<Rightarrow> nat \<Rightarrow> u32" where
  "word_in s va = the (cache s (va div BLKWORDS)) (va mod BLKWORDS)"

text \<open>Access to block \<open>b\<close>: \<^verbatim>\<open>bc_pgfault\<close> if it is not resident. The handler reads \<^verbatim>\<open>super->s_nblocks\<close> and, in
  \<^verbatim>\<open>block_is_free\<close>, the bitmap, which may fault in turn.\<close>

partial_function (option) bc_pgfault :: "fs \<Rightarrow> nat \<Rightarrow> fs option" where
  "bc_pgfault s b =
     (if cache s b \<noteq> None then Some s
      else if b \<ge> NDISK then None
      else
        do { s \<leftarrow> (if super_set s
                 then do { s \<leftarrow> bc_pgfault s 1;
                           if b \<ge> unat (word_in s (SUPER + 1)) then None else Some s }
                 else Some s);
             let s = s\<lparr>cache := (cache s)(b \<mapsto> disk s b), dirty := (dirty s)(b := False)\<rparr>;
             if bitmap_set s \<and> super_set s
             then do { s \<leftarrow> bc_pgfault s 1;
                       if b \<ge> unat (word_in s (SUPER + 1)) then Some s
                       else do { s \<leftarrow> bc_pgfault s ((BITMAP + b div 32) div BLKWORDS);
                                 if bit (word_in s (BITMAP + b div 32)) (b mod 32) then None else Some s } }
             else Some s })"

definition load :: "fs \<Rightarrow> nat \<Rightarrow> (u32 \<times> fs) option" where
  "load s va = do { s \<leftarrow> bc_pgfault s (va div BLKWORDS); Some (word_in s va, s) }"

definition store :: "fs \<Rightarrow> nat \<Rightarrow> u32 \<Rightarrow> fs option" where
  "store s va v =
     do { s \<leftarrow> bc_pgfault s (va div BLKWORDS);
          Some (s\<lparr>cache := (cache s)(va div BLKWORDS \<mapsto> (the (cache s (va div BLKWORDS)))(va mod BLKWORDS := v)),
                  dirty := (dirty s)(va div BLKWORDS := True)\<rparr>) }"

text \<open>Bytes are at four times the word address.\<close>

definition load_char :: "fs \<Rightarrow> nat \<Rightarrow> (u8 \<times> fs) option" where
  "load_char s a = do { (w, s) \<leftarrow> load s (a div 4); Some (ucast (drop_bit (8 * (a mod 4)) w), s) }"

definition store_char :: "fs \<Rightarrow> nat \<Rightarrow> u8 \<Rightarrow> fs option" where
  "store_char s a c =
     do { (w, s) \<leftarrow> load s (a div 4);
          store s (a div 4) (w AND NOT (push_bit (8 * (a mod 4)) 0xFF) OR push_bit (8 * (a mod 4)) (ucast c)) }"

definition diskaddr :: "fs \<Rightarrow> nat \<Rightarrow> (nat \<times> fs) option" where
  "diskaddr s blockno =
     (if blockno = 0 then None
      else if super_set s
      then do { (n, s) \<leftarrow> load s (SUPER + 1); if blockno \<ge> unat n then None else Some (blockno * BLKWORDS, s) }
      else Some (blockno * BLKWORDS, s))"

definition flush_block :: "fs \<Rightarrow> nat \<Rightarrow> fs option" where
  "flush_block s va =
     (let b = va div BLKWORDS
      in if b \<ge> NDISK then None
         else if va_is_mapped s va \<and> va_is_dirty s va
         then Some (s\<lparr>disk := (disk s)(b := the (cache s b)), dirty := (dirty s)(b := False)\<rparr>)
         else Some s)"

section \<open>The bitmap\<close>

definition block_is_free :: "fs \<Rightarrow> nat \<Rightarrow> (bool \<times> fs) option" where
  "block_is_free s b =
     (if \<not> super_set s then Some (False, s)
      else do { (n, s) \<leftarrow> load s (SUPER + 1);
                if b \<ge> unat n then Some (False, s)
                else do { (w, s) \<leftarrow> load s (BITMAP + b div 32); Some (bit w (b mod 32), s) } })"

definition free_block :: "fs \<Rightarrow> nat \<Rightarrow> fs option" where
  "free_block s b =
     (if b = 0 then None
      else do { (w, s) \<leftarrow> load s (BITMAP + b div 32); store s (BITMAP + b div 32) (w OR push_bit (b mod 32) 1) })"


definition take_block :: "fs \<Rightarrow> nat \<Rightarrow> (int \<times> fs) option" where
  "take_block s b =
     do { (w, s) \<leftarrow> load s (BITMAP + b div 32);
          s \<leftarrow> store s (BITMAP + b div 32) (w XOR push_bit (b mod 32) 1);
          s \<leftarrow> flush_block s BITMAP;
          Some (int b, s) }"

partial_function (option) alloc_block_loop :: "fs \<Rightarrow> nat \<Rightarrow> (int \<times> fs) option" where
  "alloc_block_loop s b =
     do { (n, s) \<leftarrow> load s (SUPER + 1);
          if b < unat n
          then do { (free, s) \<leftarrow> block_is_free s b;
                    if free then take_block s b else alloc_block_loop s (Suc b) }
          else Some (- E_NO_DISK, s) }"

definition alloc_block :: "fs \<Rightarrow> (int \<times> fs) option" where
  "alloc_block s = alloc_block_loop s 0"

section \<open>Start-up\<close>

definition check_super :: "fs \<Rightarrow> fs option" where
  "check_super s =
     do { (magic, s) \<leftarrow> load s SUPER;
          if magic \<noteq> 0x4A0530AE then None
          else do { (n, s) \<leftarrow> load s (SUPER + 1);
                    if n > of_nat NDISK then None else Some s } }"

partial_function (option) check_bitmap_loop :: "fs \<Rightarrow> nat \<Rightarrow> fs option" where
  "check_bitmap_loop s i =
     do { (n, s) \<leftarrow> load s (SUPER + 1);
          if i * (BLKSIZE * 8) < unat n
          then do { (free, s) \<leftarrow> block_is_free s (2 + i);
                    if free then None else check_bitmap_loop s (Suc i) }
          else Some s }"

definition check_bitmap :: "fs \<Rightarrow> fs option" where
  "check_bitmap s =
     do { s \<leftarrow> check_bitmap_loop s 0;
          (free, s) \<leftarrow> block_is_free s 0;
          if free then None
          else do { (free, s) \<leftarrow> block_is_free s 1;
                    if free then None else Some s } }"

fun load_words :: "fs \<Rightarrow> nat \<Rightarrow> nat \<Rightarrow> (u32 list \<times> fs) option" where
  "load_words s a 0 = Some ([], s)"
| "load_words s a (Suc n) = do { (w, s) \<leftarrow> load s a; (ws, s) \<leftarrow> load_words s (a + 1) n; Some (w # ws, s) }"

fun store_words :: "fs \<Rightarrow> nat \<Rightarrow> u32 list \<Rightarrow> fs option" where
  "store_words s a [] = Some s"
| "store_words s a (w # ws) = do { s \<leftarrow> store s a w; store_words s (a + 1) ws }"

fun store_chars :: "fs \<Rightarrow> nat \<Rightarrow> u8 list \<Rightarrow> fs option" where
  "store_chars s a [] = Some s"
| "store_chars s a (c # cs) = do { s \<leftarrow> store_char s a c; store_chars s (a + 1) cs }"

text \<open>\<^verbatim>\<open>strcmp(a, name) == 0\<close> for a constant string: the comparison stops at the first difference.\<close>

fun same_name :: "fs \<Rightarrow> nat \<Rightarrow> u8 list \<Rightarrow> (bool \<times> fs) option" where
  "same_name s a [] = do { (c, s) \<leftarrow> load_char s a; Some (c = 0, s) }"
| "same_name s a (n # ns) =
     do { (c, s) \<leftarrow> load_char s a;
          if c = n \<and> c \<noteq> 0 then same_name s (a + 1) ns else Some (c = n, s) }"

definition unmap_block :: "fs \<Rightarrow> nat \<Rightarrow> fs" where
  "unmap_block s va = s\<lparr>cache := (cache s)(va div BLKWORDS := None)\<rparr>"

text \<open>\<^verbatim>\<open>sizeof(struct Super)\<close> is 264 bytes; the string is \<^verbatim>\<open>"OOPS!\n"\<close>.\<close>

definition oops_string :: "u8 list" where
  "oops_string = [79, 79, 80, 83, 33, 10]"

definition smash_and_restore :: "fs \<Rightarrow> nat \<Rightarrow> bool \<Rightarrow> fs option" where
  "smash_and_restore s off clean =
     do { (va, s) \<leftarrow> diskaddr s 1;
          (backup, s) \<leftarrow> load_words s va 66;
          s \<leftarrow> store_chars s (4 * va) (oops_string @ [0]);
          s \<leftarrow> flush_block s ((4 * va + off) div 4);
          if \<not> va_is_mapped s va \<or> clean \<and> va_is_dirty s va then None
          else
            let s = unmap_block s va
            in if va_is_mapped s va then None
               else do { (same, s) \<leftarrow> same_name s (4 * va) oops_string;
                         if \<not> same then None
                         else do { s \<leftarrow> store_words s va backup; flush_block s va } } }"

definition check_bc :: "fs \<Rightarrow> fs option" where
  "check_bc s = do { s \<leftarrow> smash_and_restore s 0 True; smash_and_restore s 20 False }"

definition bc_init :: "fs \<Rightarrow> fs option" where
  "bc_init s = do { s \<leftarrow> check_bc s; (va, s) \<leftarrow> diskaddr s 1; (_, s) \<leftarrow> load_words s va 66; Some s }"

definition fs_init :: "fs \<Rightarrow> fs option" where
  "fs_init s =
     do { s \<leftarrow> bc_init s;
          (_, s) \<leftarrow> diskaddr s 1;
          let s = s\<lparr>super_set := True\<rparr>;
          s \<leftarrow> check_super s;
          (_, s) \<leftarrow> diskaddr s 2;
          let s = s\<lparr>bitmap_set := True\<rparr>;
          check_bitmap s }"

section \<open>The view through the cache\<close>

type_synonym view = "nat \<Rightarrow> u32"

definition view :: "fs \<Rightarrow> view" where
  "view s a = (case cache s (a div BLKWORDS) of Some p \<Rightarrow> p (a mod BLKWORDS) | None \<Rightarrow> disk s (a div BLKWORDS) (a mod BLKWORDS))"

lemma word_in_view: "cache s (a div BLKWORDS) \<noteq> None \<Longrightarrow> word_in s a = view s a"
  by (auto simp: word_in_def view_def)

text \<open>Blocks in use, and a disk laid out as the server needs it: the reserved blocks are in use.\<close>

definition nblocks :: "view \<Rightarrow> nat" where
  "nblocks v = unat (v (SUPER + 1))"

definition used :: "view \<Rightarrow> nat \<Rightarrow> bool" where
  "used v b \<longleftrightarrow> b < nblocks v \<and> \<not> bit (v (BITMAP + b div 32)) (b mod 32)"

definition layout :: "view \<Rightarrow> bool" where
  "layout v \<longleftrightarrow> nblocks v \<le> NDISK \<and> used v 0 \<and> used v 1 \<and> (\<forall>i. i * 32768 < nblocks v \<longrightarrow> used v (2 + i))"

text \<open>The running server sees \<open>v\<close>; the super block is resident.\<close>

definition at :: "fs \<Rightarrow> view \<Rightarrow> bool" where
  "at s v \<longleftrightarrow> super_set s \<and> bitmap_set s \<and> cache s 1 \<noteq> None \<and> view s = v"

lemma bitmap_block: "(BITMAP + b div 32) div BLKWORDS = 2 + b div 32768"
proof -
  have "(BITMAP + b div 32) div BLKWORDS = 2 + b div 32 div BLKWORDS"
    using div_mult_self2 [of BLKWORDS "b div 32" 2] by simp
  then show ?thesis by (simp add: div_mult2_eq [symmetric])
qed

abbreviation fetch :: "fs \<Rightarrow> nat \<Rightarrow> fs" where
  "fetch s b \<equiv> s\<lparr>cache := (cache s)(b \<mapsto> disk s b), dirty := (dirty s)(b := False)\<rparr>"

lemma view_fetch: "cache s b = None \<Longrightarrow> view (fetch s b) = view s"
  by (auto simp: view_def fun_eq_iff split: option.splits)

lemma at_fetch: "at s v \<Longrightarrow> cache s b = None \<Longrightarrow> at (fetch s b) v"
  by (auto simp: at_def view_fetch)

definition faults_in :: "fs \<Rightarrow> view \<Rightarrow> nat \<Rightarrow> bool" where
  "faults_in s v b \<longleftrightarrow> (\<exists>s'. bc_pgfault s b = Some s' \<and> at s' v \<and> cache s' b \<noteq> None \<and> disk s' = disk s \<and>
     (\<forall>c. cache s c \<noteq> None \<longrightarrow> cache s' c = cache s c \<and> dirty s' c = dirty s c))"

lemma resident: "cache s b \<noteq> None \<Longrightarrow> bc_pgfault s b = Some s"
  by (subst bc_pgfault.simps) simp

lemma faults_in_resident: "at s v \<Longrightarrow> cache s b \<noteq> None \<Longrightarrow> faults_in s v b"
  unfolding faults_in_def by (auto simp: resident)

lemma faults_in_step:
  assumes "at s v" and "used v b" and "b < NDISK" and "cache s b = None" and "faults_in (fetch s b) v (2 + b div 32768)"
  shows "faults_in s v b"
proof -
  from assms(5) obtain s' where s': "bc_pgfault (fetch s b) (2 + b div 32768) = Some s'" "at s' v"
    "cache s' (2 + b div 32768) \<noteq> None" "disk s' = disk s"
    "\<And>c. cache (fetch s b) c \<noteq> None \<Longrightarrow> cache s' c = cache (fetch s b) c \<and> dirty s' c = dirty (fetch s b) c"
    unfolding faults_in_def by auto
  have one: "bc_pgfault s 1 = Some s" "bc_pgfault (fetch s b) 1 = Some (fetch s b)"
    using assms(1) by (auto simp: at_def intro!: resident)
  have n: "word_in s (SUPER + 1) = v (SUPER + 1)" "word_in (fetch s b) (SUPER + 1) = v (SUPER + 1)"
    using assms(1) at_fetch [OF assms(1,4)] by (subst word_in_view; auto simp: at_def)+
  have bm: "word_in s' (BITMAP + b div 32) = v (BITMAP + b div 32)"
    using s'(2,3) bitmap_block [of b] by (subst word_in_view) (auto simp: at_def)
  have used: "b < unat (v (SUPER + 1))" "\<not> bit (v (BITMAP + b div 32)) (b mod 32)"
    using assms(2) by (simp_all add: used_def nblocks_def)
  have "bc_pgfault s b = Some s'"
    using assms(1,3,4) one n bm used s'(1) bitmap_block [of b] by (subst bc_pgfault.simps) (simp add: at_def Let_def)
  moreover have "cache s' b \<noteq> None" using s'(5) [of b] by simp
  moreover have "cache s' c = cache s c \<and> dirty s' c = dirty s c" if "cache s c \<noteq> None" for c
    using s'(5) [of c] that assms(4) by (cases "c = b") auto
  ultimately show ?thesis using s'(2,4) unfolding faults_in_def by blast
qed

lemma layout_reserved: "layout v \<Longrightarrow> i * 32768 < nblocks v \<Longrightarrow> used v (2 + i)"
  by (simp add: layout_def)

lemma faults_in_used:
  assumes "at s v" and "layout v" and "used v b"
  shows "faults_in s v b"
proof -
  have two: "faults_in s v 2" if "at s v" for s
  proof (cases "cache s 2 = None")
    case True
    have "faults_in (fetch s 2) v 2" using at_fetch [OF that True] by (intro faults_in_resident) auto
    moreover have "0 < nblocks v" using assms(3) by (auto simp: used_def)
    then have "used v 2" using layout_reserved [OF assms(2), of 0] by simp
    ultimately show ?thesis using faults_in_step [OF that _ _ True] by simp
  qed (use that faults_in_resident in blast)
  have small: "faults_in s v c" if "at s v" "used v c" "c < 32768" for s c
  proof (cases "cache s c = None")
    case True
    then show ?thesis using faults_in_step [OF that(1,2) _ True] that(3) two [OF at_fetch [OF that(1) True]] by simp
  qed (use that faults_in_resident in blast)
  have b: "b < nblocks v" "nblocks v \<le> NDISK" using assms(2,3) by (simp_all add: layout_def used_def)
  show ?thesis
  proof (cases "cache s b = None")
    case True
    have "b div 32768 * 32768 < nblocks v" using b(1) by (meson div_times_less_eq_dividend le_less_trans)
    then have "used v (2 + b div 32768)" using assms(2) by (simp add: layout_def)
    moreover have "b div 32768 \<le> NDISK div 32768" using b by (intro div_le_mono) simp
    ultimately have "faults_in (fetch s b) v (2 + b div 32768)"
      using at_fetch [OF assms(1) True] by (intro small) auto
    then show ?thesis using faults_in_step [OF assms(1,3) _ True] b by simp
  qed (use assms faults_in_resident in blast)
qed

section \<open>Operations on the view\<close>

text \<open>\<open>runs v f x v'\<close>: where \<open>v\<close> is seen, \<open>f\<close> returns \<open>x\<close> and leaves \<open>v'\<close> to be seen. \<open>does\<close> is the same for an operation without
  a result.\<close>

definition runs :: "view \<Rightarrow> (fs \<Rightarrow> ('a \<times> fs) option) \<Rightarrow> 'a \<Rightarrow> view \<Rightarrow> bool" where
  "runs v f x v' \<longleftrightarrow> (\<forall>s. at s v \<longrightarrow> (\<exists>s'. f s = Some (x, s') \<and> at s' v'))"

definition does :: "view \<Rightarrow> (fs \<Rightarrow> fs option) \<Rightarrow> view \<Rightarrow> bool" where
  "does v f v' \<longleftrightarrow> (\<forall>s. at s v \<longrightarrow> (\<exists>s'. f s = Some s' \<and> at s' v'))"

named_theorems runs_intros \<open>composition of operations on the view\<close>

lemma runs_ret [runs_intros]: "runs v (\<lambda>s. Some (x, s)) x v"
  by (simp add: runs_def)

lemma does_ret [runs_intros]: "does v (\<lambda>s. Some s) v"
  by (simp add: does_def)

lemma runs_bind [runs_intros]:
  "runs v f x v' \<Longrightarrow> runs v' (k x) y v'' \<Longrightarrow> runs v (\<lambda>s. f s \<bind> (\<lambda>(x, s). k x s)) y v''"
  by (fastforce simp: runs_def)

lemma runs_then [runs_intros]: "does v f v' \<Longrightarrow> runs v' k y v'' \<Longrightarrow> runs v (\<lambda>s. f s \<bind> (\<lambda>s. k s)) y v''"
  by (fastforce simp: runs_def does_def)

lemma does_bind [runs_intros]:
  "runs v f x v' \<Longrightarrow> does v' (k x) v'' \<Longrightarrow> does v (\<lambda>s. f s \<bind> (\<lambda>(x, s). k x s)) v''"
  by (fastforce simp: runs_def does_def)

lemma does_then [runs_intros]: "does v f v' \<Longrightarrow> does v' k v'' \<Longrightarrow> does v (\<lambda>s. f s \<bind> (\<lambda>s. k s)) v''"
  by (fastforce simp: does_def)

lemma runs_cong: "(\<And>s. at s v \<Longrightarrow> f s = g s) \<Longrightarrow> runs v g x v' \<Longrightarrow> runs v f x v'"
  by (simp add: runs_def)

lemma does_cong: "(\<And>s. at s v \<Longrightarrow> f s = g s) \<Longrightarrow> does v g v' \<Longrightarrow> does v f v'"
  by (simp add: does_def)

lemma load_runs [runs_intros]:
  assumes "layout v" and "used v (a div BLKWORDS)"
  shows "runs v (\<lambda>s. load s a) (v a) v"
  unfolding runs_def
proof (intro allI impI)
  fix s
  assume "at s v"
  then obtain s' where "bc_pgfault s (a div BLKWORDS) = Some s'" "at s' v" "cache s' (a div BLKWORDS) \<noteq> None"
    using faults_in_used [OF _ assms] unfolding faults_in_def by blast
  then show "\<exists>s'. load s a = Some (v a, s') \<and> at s' v" using word_in_view [of s' a] by (simp add: load_def at_def)
qed

lemma div_mod_upd: "(\<lambda>a. if a div n = x div n \<and> a mod n = x mod n then y else f a) = f(x := y)" for n :: nat
  by (auto simp: fun_eq_iff) (metis div_mult_mod_eq)

lemma store_runs [runs_intros]:
  assumes "layout v" and "used v (a div BLKWORDS)"
  shows "does v (\<lambda>s. store s a x) (v(a := x))"
  unfolding does_def
proof (intro allI impI)
  fix s
  assume "at s v"
  then obtain s' where s': "bc_pgfault s (a div BLKWORDS) = Some s'" "at s' v" "cache s' (a div BLKWORDS) \<noteq> None"
    using faults_in_used [OF _ assms] unfolding faults_in_def by blast
  then obtain p where p: "cache s' (a div BLKWORDS) = Some p" by auto
  let ?s = "s'\<lparr>cache := (cache s')(a div BLKWORDS \<mapsto> p(a mod BLKWORDS := x)), dirty := (dirty s')(a div BLKWORDS := True)\<rparr>"
  have "view ?s = (view s')(a := x)"
    unfolding div_mod_upd [of BLKWORDS a, symmetric] by (auto simp: view_def fun_eq_iff p split: option.splits)
  then have "at ?s (v(a := x))" using s'(2) by (auto simp: at_def)
  then show "\<exists>s'. store s a x = Some s' \<and> at s' (v(a := x))" using s'(1) p by (auto simp: store_def)
qed

lemma flush_runs [runs_intros]: "a div BLKWORDS < NDISK \<Longrightarrow> does v (\<lambda>s. flush_block s a) v"
  by (auto simp: does_def flush_block_def Let_def at_def view_def fun_eq_iff va_is_mapped_def split: option.splits)

lemma layout_super: "layout v \<Longrightarrow> used v ((SUPER + 1) div BLKWORDS)"
  by (simp add: layout_def)

lemma layout_bitmap: "layout v \<Longrightarrow> b < nblocks v \<Longrightarrow> used v ((BITMAP + b div 32) div BLKWORDS)"
  unfolding bitmap_block
  using div_times_less_eq_dividend [of b 32768] by (intro layout_reserved) simp_all

lemma diskaddr_runs [runs_intros]:
  assumes "layout v" and "0 < b" and "b < nblocks v"
  shows "runs v (\<lambda>s. diskaddr s b) (b * BLKWORDS) v"
proof (rule runs_cong)
  show "diskaddr s b = do { (n, s) \<leftarrow> load s (SUPER + 1); if b \<ge> unat n then None else Some (b * BLKWORDS, s) }" if "at s v" for s
    using that assms(2) by (simp add: diskaddr_def at_def)
  have "runs v (\<lambda>s. if b \<ge> unat (v (SUPER + 1)) then None else Some (b * BLKWORDS, s)) (b * BLKWORDS) v"
    using assms(3) by (simp add: runs_ret nblocks_def)
  then show "runs v (\<lambda>s. do { (n, s) \<leftarrow> load s (SUPER + 1); if b \<ge> unat n then None else Some (b * BLKWORDS, s) }) (b * BLKWORDS) v"
    by (rule runs_bind [OF load_runs [OF assms(1) layout_super [OF assms(1)]]])
qed

lemma block_is_free_runs [runs_intros]:
  assumes "layout v"
  shows "runs v (\<lambda>s. block_is_free s b) (b < nblocks v \<and> \<not> used v b) v"
proof (rule runs_cong)
  show "block_is_free s b = do { (n, s) \<leftarrow> load s (SUPER + 1);
      if b \<ge> unat n then Some (False, s) else do { (w, s) \<leftarrow> load s (BITMAP + b div 32); Some (bit w (b mod 32), s) } }"
    if "at s v" for s
    using that by (simp add: block_is_free_def at_def)
  have "runs v (\<lambda>s. if b \<ge> unat (v (SUPER + 1)) then Some (False, s)
      else do { (w, s) \<leftarrow> load s (BITMAP + b div 32); Some (bit w (b mod 32), s) }) (b < nblocks v \<and> \<not> used v b) v"
  proof (cases "b < nblocks v")
    case True
    then have "runs v (\<lambda>s. do { (w, s) \<leftarrow> load s (BITMAP + b div 32); Some (bit w (b mod 32), s) })
        (bit (v (BITMAP + b div 32)) (b mod 32)) v"
      by (intro runs_bind [OF load_runs [OF assms layout_bitmap [OF assms]]] runs_ret)
    then show ?thesis using True by (simp add: nblocks_def used_def)
  next
    case False
    then show ?thesis using runs_ret [of v False] by (simp add: nblocks_def)
  qed
  then show "runs v (\<lambda>s. do { (n, s) \<leftarrow> load s (SUPER + 1);
      if b \<ge> unat n then Some (False, s) else do { (w, s) \<leftarrow> load s (BITMAP + b div 32); Some (bit w (b mod 32), s) } })
      (b < nblocks v \<and> \<not> used v b) v"
    by (rule runs_bind [OF load_runs [OF assms layout_super [OF assms]]])
qed

text \<open>Marking a block in use or free.\<close>

definition mark :: "nat \<Rightarrow> bool \<Rightarrow> view \<Rightarrow> view" where
  "mark b inuse v = v(BITMAP + b div 32 := if inuse then v (BITMAP + b div 32) AND NOT (push_bit (b mod 32) 1)
     else v (BITMAP + b div 32) OR push_bit (b mod 32) 1)"

lemma nblocks_mark [simp]: "nblocks (mark b x v) = nblocks v"
  by (simp add: mark_def nblocks_def)

lemma used_mark: "used (mark b x v) c \<longleftrightarrow> (if c = b then x \<and> b < nblocks v else used v c)"
proof (cases "c = b")
  case True
  have "b mod 32 < 32" by simp
  then show ?thesis using True by (cases x) (simp_all add: used_def, simp_all add: mark_def bit_simps)
next
  case False
  have "c mod 32 \<noteq> b mod 32" if "c div 32 = b div 32" using False that by (metis div_mult_mod_eq)
  then show ?thesis using False
    by (cases x; cases "c div 32 = b div 32") (simp_all add: used_def, simp_all add: mark_def bit_simps)
qed

lemma layout_mark: "layout v \<Longrightarrow> layout (mark b True v)"
  by (auto simp: layout_def used_mark) (auto simp: used_def)

lemma xor_clears: "bit w i \<Longrightarrow> w XOR push_bit i 1 = w AND NOT (push_bit i 1)" for w :: u32
  by (rule bit_word_eqI) (auto simp: bit_simps)

lemma mark_elsewhere: "a < BITMAP \<or> BITMAP + (NDISK div 32) \<le> a \<Longrightarrow> b < NDISK \<Longrightarrow> mark b x v a = v a"
  by (auto simp: mark_def)

text \<open>The allocator takes the first free block.\<close>

lemma nblocks_load:
  assumes "at s v" and "layout v"
  obtains s' where "load s (SUPER + 1) = Some (v (SUPER + 1), s')" "at s' v"
  using assms load_runs [OF assms(2) layout_super [OF assms(2)]] unfolding runs_def by blast

lemma alloc_full:
  assumes "layout v" and "nblocks v \<le> b"
  shows "runs v (\<lambda>s. alloc_block_loop s b) (- E_NO_DISK) v"
  unfolding runs_def
proof (intro allI impI)
  fix s
  assume "at s v"
  then obtain s' where "load s (SUPER + 1) = Some (v (SUPER + 1), s')" "at s' v" using assms(1) by (rule nblocks_load)
  then show "\<exists>s'. alloc_block_loop s b = Some (- E_NO_DISK, s') \<and> at s' v"
    using assms(2) by (subst alloc_block_loop.simps) (simp add: nblocks_def)
qed

lemma alloc_step:
  assumes "layout v" and "b < nblocks v" and "used v b \<Longrightarrow> runs v (\<lambda>s. alloc_block_loop s (Suc b)) r v'"
    and "\<not> used v b \<Longrightarrow> runs v (\<lambda>s. take_block s b) r v'"
  shows "runs v (\<lambda>s. alloc_block_loop s b) r v'"
  unfolding runs_def
proof (intro allI impI)
  fix s
  assume "at s v"
  then obtain s1 where 1: "load s (SUPER + 1) = Some (v (SUPER + 1), s1)" "at s1 v" using assms(1) by (rule nblocks_load)
  then obtain s2 where 2: "block_is_free s1 b = Some (\<not> used v b, s2)" "at s2 v"
    using block_is_free_runs [OF assms(1), of b] assms(2) unfolding runs_def by auto
  show "\<exists>s'. alloc_block_loop s b = Some (r, s') \<and> at s' v'"
    using 1 2 assms(2-4) by (subst alloc_block_loop.simps) (auto simp: nblocks_def runs_def)
qed

lemma take_block_runs:
  assumes "layout v" and "b < nblocks v" and "\<not> used v b"
  shows "runs v (\<lambda>s. take_block s b) (int b) (mark b True v)"
proof -
  let ?a = "BITMAP + b div 32"
  have "v(?a := v ?a XOR push_bit (b mod 32) 1) = mark b True v"
    using assms(2,3) xor_clears [of "v ?a" "b mod 32"] by (simp add: mark_def used_def)
  then have st: "does v (\<lambda>s. store s ?a (v ?a XOR push_bit (b mod 32) 1)) (mark b True v)"
    using store_runs [OF assms(1) layout_bitmap [OF assms(1,2)], of "v ?a XOR push_bit (b mod 32) 1"] by simp
  have "does (mark b True v) (\<lambda>s. flush_block s BITMAP) (mark b True v)" by (rule flush_runs) simp
  from runs_then [OF st runs_then [OF this runs_ret]] show ?thesis
    unfolding take_block_def by (rule runs_bind [OF load_runs [OF assms(1) layout_bitmap [OF assms(1,2)]]])
qed

lemma alloc_block_loop_cases:
  assumes "layout v"
  shows "(\<And>j. j < i \<Longrightarrow> used v j) \<Longrightarrow>
    runs v (\<lambda>s. alloc_block_loop s i) (- E_NO_DISK) v \<and> (\<forall>b<nblocks v. used v b) \<or>
    (\<exists>b. b < nblocks v \<and> \<not> used v b \<and> (\<forall>c<b. used v c) \<and> runs v (\<lambda>s. alloc_block_loop s i) (int b) (mark b True v))"
proof (induction "nblocks v - i" arbitrary: i)
  case 0
  then show ?case using alloc_full [OF assms, of i] by auto
next
  case (Suc n)
  show ?case
  proof (cases "used v i")
    case True
    then have "used v j" if "j < Suc i" for j using Suc.prems that by (auto simp: less_Suc_eq)
    moreover have "n = nblocks v - Suc i" "i < nblocks v" using Suc.hyps(2) by simp_all
    ultimately show ?thesis
      using Suc.hyps(1) [of "Suc i"] alloc_step [OF assms \<open>i < nblocks v\<close>] True by blast
  next
    case False
    have "i < nblocks v" using Suc.hyps(2) by simp
    then show ?thesis using alloc_step [OF assms] take_block_runs [OF assms _ False] False Suc.prems by blast
  qed
qed

lemma alloc_block_cases:
  assumes "layout v"
  obtains (full) "runs v alloc_block (- E_NO_DISK) v" "\<And>b. b < nblocks v \<Longrightarrow> used v b"
    | (block) b where "runs v alloc_block (int b) (mark b True v)" "b < nblocks v" "\<not> used v b" "\<And>c. c < b \<Longrightarrow> used v c"
  using alloc_block_loop_cases [OF assms, of 0] by (auto simp: alloc_block_def [abs_def])

section \<open>Writing blocks of data\<close>

definition bitmap_blk :: "view \<Rightarrow> nat \<Rightarrow> bool" where
  "bitmap_blk v b \<longleftrightarrow> (\<exists>c<nblocks v. b = 2 + c div 32768)"

text \<open>Addresses that hold neither the number of blocks nor a part of the bitmap.\<close>

definition inert :: "view \<Rightarrow> nat \<Rightarrow> bool" where
  "inert v a \<longleftrightarrow> a \<noteq> SUPER + 1 \<and> \<not> bitmap_blk v (a div BLKWORDS)"

definition data_blk :: "view \<Rightarrow> nat \<Rightarrow> bool" where
  "data_blk v b \<longleftrightarrow> b \<noteq> 1 \<and> \<not> bitmap_blk v b"

lemma data_inert: "data_blk v (a div BLKWORDS) \<Longrightarrow> inert v a"
  by (auto simp: data_blk_def inert_def)

lemma inert_bitmap: "inert v a \<Longrightarrow> b < nblocks v \<Longrightarrow> a \<noteq> BITMAP + b div 32"
  unfolding inert_def bitmap_blk_def using bitmap_block [of b] by metis

lemma same_bitmap:
  assumes "v' (SUPER + 1) = v (SUPER + 1)" and "\<And>b. b < nblocks v \<Longrightarrow> v' (BITMAP + b div 32) = v (BITMAP + b div 32)"
  shows "nblocks v' = nblocks v" "used v' = used v" "layout v' = layout v" "bitmap_blk v' = bitmap_blk v" "inert v' = inert v"
    "data_blk v' = data_blk v"
proof -
  show n: "nblocks v' = nblocks v" using assms(1) by (simp add: nblocks_def)
  show u: "used v' = used v" using assms(2) by (auto simp: used_def n fun_eq_iff)
  show "layout v' = layout v" by (simp add: layout_def n u)
  show bm: "bitmap_blk v' = bitmap_blk v" by (simp add: bitmap_blk_def n fun_eq_iff)
  show "inert v' = inert v" "data_blk v' = data_blk v" by (simp_all add: inert_def data_blk_def bm fun_eq_iff)
qed

lemma inert_upd:
  assumes "inert v a"
  shows "nblocks (v(a := x)) = nblocks v" "used (v(a := x)) = used v" "layout (v(a := x)) = layout v"
    "bitmap_blk (v(a := x)) = bitmap_blk v" "inert (v(a := x)) = inert v" "data_blk (v(a := x)) = data_blk v"
  using assms inert_bitmap [OF assms] by (intro same_bitmap; auto simp: inert_def)+

lemma mark_facts:
  assumes "b < nblocks v"
  shows "bitmap_blk (mark b x v) = bitmap_blk v" "inert (mark b x v) = inert v" "data_blk (mark b x v) = data_blk v"
    "\<not> bitmap_blk v (a div BLKWORDS) \<Longrightarrow> mark b x v a = v a"
proof -
  show bm: "bitmap_blk (mark b x v) = bitmap_blk v" by (simp add: bitmap_blk_def fun_eq_iff)
  then show "inert (mark b x v) = inert v" "data_blk (mark b x v) = data_blk v"
    by (simp_all add: inert_def data_blk_def fun_eq_iff)
  show "mark b x v a = v a" if "\<not> bitmap_blk v (a div BLKWORDS)"
  proof -
    have "a \<noteq> BITMAP + b div 32" using that assms bitmap_block [of b] unfolding bitmap_blk_def by metis
    then show ?thesis by (simp add: mark_def)
  qed
qed

lemma over_inert:
  assumes "data_blk v b" and "k + length ws \<le> BLKWORDS"
  shows "nblocks (over (b * BLKWORDS + k) ws v) = nblocks v" "used (over (b * BLKWORDS + k) ws v) = used v"
    "layout (over (b * BLKWORDS + k) ws v) = layout v" "bitmap_blk (over (b * BLKWORDS + k) ws v) = bitmap_blk v"
    "inert (over (b * BLKWORDS + k) ws v) = inert v" "data_blk (over (b * BLKWORDS + k) ws v) = data_blk v"
proof -
  have out: "over (b * BLKWORDS + k) ws v a = v a" if "a div BLKWORDS \<noteq> b" for a
  proof -
    have "\<not> (b * BLKWORDS + k \<le> a \<and> a < b * BLKWORDS + k + length ws)"
    proof
      assume "b * BLKWORDS + k \<le> a \<and> a < b * BLKWORDS + k + length ws"
      then have "a div BLKWORDS = b" using assms(2) by (intro div_nat_eqI) auto
      then show False using that by simp
    qed
    then show ?thesis by (auto simp: over_def)
  qed
  have "(SUPER + 1) div BLKWORDS \<noteq> b" using assms(1) by (auto simp: data_blk_def)
  then have 1: "over (b * BLKWORDS + k) ws v (SUPER + 1) = v (SUPER + 1)" by (rule out)
  have 2: "over (b * BLKWORDS + k) ws v (BITMAP + c div 32) = v (BITMAP + c div 32)" if "c < nblocks v" for c
    using assms(1) that bitmap_block [of c] unfolding data_blk_def bitmap_blk_def by (intro out) metis
  show "nblocks (over (b * BLKWORDS + k) ws v) = nblocks v" "used (over (b * BLKWORDS + k) ws v) = used v"
    "layout (over (b * BLKWORDS + k) ws v) = layout v" "bitmap_blk (over (b * BLKWORDS + k) ws v) = bitmap_blk v"
    "inert (over (b * BLKWORDS + k) ws v) = inert v" "data_blk (over (b * BLKWORDS + k) ws v) = data_blk v"
    using same_bitmap [of "over (b * BLKWORDS + k) ws v" v] 1 2 by simp_all
qed

lemma store_words_does:
  assumes "layout v" and "used v b" and "data_blk v b" and "k + length ws \<le> BLKWORDS"
  shows "does v (\<lambda>s. store_words s (b * BLKWORDS + k) ws) (over (b * BLKWORDS + k) ws v)"
  using assms
proof (induction ws arbitrary: v k)
  case Nil
  then show ?case by (simp add: does_ret)
next
  case (Cons w ws)
  let ?a = "b * BLKWORDS + k"
  have blk: "?a div BLKWORDS = b" using Cons.prems(4) by simp
  then have "inert v ?a" using Cons.prems(3) by (intro data_inert) simp
  note same = inert_upd [OF this, of w]
  define v1 where "v1 = v(?a := w)"
  have "does v1 (\<lambda>s. store_words s (b * BLKWORDS + Suc k) ws) (over (b * BLKWORDS + Suc k) ws v1)"
    using Cons.prems same unfolding v1_def [symmetric] by (intro Cons.IH) simp_all
  then have "does v1 (\<lambda>s. store_words s (?a + 1) ws) (over ?a (w # ws) v)" by (simp add: over_Cons v1_def)
  then show ?case
    using does_then [OF store_runs [OF Cons.prems(1), of ?a w]] Cons.prems(2) blk by (simp add: v1_def)
qed

text \<open>Bytes of the view.\<close>

definition vbyte :: "view \<Rightarrow> nat \<Rightarrow> u8" where
  "vbyte v a = ucast (drop_bit (8 * (a mod 4)) (v (a div 4)))"

definition put_char :: "nat \<Rightarrow> u8 \<Rightarrow> view \<Rightarrow> view" where
  "put_char a c v = v(a div 4 := v (a div 4) AND NOT (push_bit (8 * (a mod 4)) 0xFF) OR push_bit (8 * (a mod 4)) (ucast c))"

fun put_chars :: "nat \<Rightarrow> u8 list \<Rightarrow> view \<Rightarrow> view" where
  "put_chars a [] v = v"
| "put_chars a (c # cs) v = put_chars (Suc a) cs (put_char a c v)"

lemma vbyte_put_char: "vbyte (put_char a c v) = (vbyte v)(a := c)"
proof
  fix i
  show "vbyte (put_char a c v) i = ((vbyte v)(a := c)) i"
  proof (cases "i div 4 = a div 4")
    case True
    then have "i = a \<longleftrightarrow> i mod 4 = a mod 4" by (metis div_mult_mod_eq)
    then show ?thesis using True byte_lane [of "i mod 4" "a mod 4" "v (a div 4)" c] by (simp add: vbyte_def put_char_def)
  next
    case False
    then have "i \<noteq> a" by auto
    then show ?thesis using False by (simp add: vbyte_def put_char_def)
  qed
qed

lemma vbyte_put_chars: "vbyte (put_chars a cs v) = over a cs (vbyte v)"
  by (induction cs arbitrary: a v) (simp_all add: vbyte_put_char over_Cons)

lemma put_chars_elsewhere: "x < a div 4 \<or> (a + length cs + 3) div 4 \<le> x \<Longrightarrow> put_chars a cs v x = v x"
proof (induction cs arbitrary: a v)
  case (Cons c cs)
  have "x < Suc a div 4 \<or> (Suc a + length cs + 3) div 4 \<le> x" using Cons.prems by auto
  moreover have "x \<noteq> a div 4" using Cons.prems by auto
  then have "put_char a c v x = v x" by (simp add: put_char_def)
  ultimately show ?case using Cons.IH [of "Suc a" "put_char a c v"] by simp
qed simp

lemma load_char_runs:
  assumes "layout v" and "used v (a div BLKSIZE)"
  shows "runs v (\<lambda>s. load_char s a) (vbyte v a) v"
proof -
  have "a div 4 div BLKWORDS = a div BLKSIZE" by (simp add: div_mult2_eq [symmetric])
  then have "runs v (\<lambda>s. load s (a div 4)) (v (a div 4)) v" using assms by (intro load_runs) simp_all
  then show ?thesis unfolding load_char_def vbyte_def by (rule runs_bind) (rule runs_ret)
qed

lemma store_char_does:
  assumes "layout v" and "used v (a div BLKSIZE)"
  shows "does v (\<lambda>s. store_char s a c) (put_char a c v)"
proof -
  have blk: "a div 4 div BLKWORDS = a div BLKSIZE" by (simp add: div_mult2_eq [symmetric])
  then have "runs v (\<lambda>s. load s (a div 4)) (v (a div 4)) v" using assms by (intro load_runs) simp_all
  then show ?thesis unfolding store_char_def put_char_def
    by (rule does_bind) (use assms blk in \<open>intro store_runs; simp\<close>)
qed

lemma put_char_inert:
  assumes "data_blk v (a div BLKSIZE)"
  shows "nblocks (put_char a c v) = nblocks v" "used (put_char a c v) = used v" "layout (put_char a c v) = layout v"
    "bitmap_blk (put_char a c v) = bitmap_blk v" "inert (put_char a c v) = inert v" "data_blk (put_char a c v) = data_blk v"
proof -
  have "a div 4 div BLKWORDS = a div BLKSIZE" by (simp add: div_mult2_eq [symmetric])
  then have "inert v (a div 4)" using assms by (intro data_inert) simp
  then show "nblocks (put_char a c v) = nblocks v" "used (put_char a c v) = used v" "layout (put_char a c v) = layout v"
    "bitmap_blk (put_char a c v) = bitmap_blk v" "inert (put_char a c v) = inert v" "data_blk (put_char a c v) = data_blk v"
    unfolding put_char_def by (simp_all add: inert_upd)
qed

text \<open>Within one block \<open>b\<close>.\<close>

lemma store_chars_does:
  "layout v \<Longrightarrow> used v b \<Longrightarrow> data_blk v b \<Longrightarrow> k + length cs \<le> BLKSIZE \<Longrightarrow>
     does v (\<lambda>s. store_chars s (b * BLKSIZE + k) cs) (put_chars (b * BLKSIZE + k) cs v)"
proof (induction cs arbitrary: v k)
  case Nil
  then show ?case by (simp add: does_ret)
next
  case (Cons c cs)
  let ?a = "b * BLKSIZE + k"
  have blk: "?a div BLKSIZE = b" using Cons.prems(4) by simp
  note same = put_char_inert [of v ?a c]
  define v1 where "v1 = put_char ?a c v"
  have "does v1 (\<lambda>s. store_chars s (b * BLKSIZE + Suc k) cs) (put_chars (b * BLKSIZE + Suc k) cs v1)"
    using Cons.prems same blk unfolding v1_def [symmetric] by (intro Cons.IH) simp_all
  then have "does v1 (\<lambda>s. store_chars s (?a + 1) cs) (put_chars ?a (c # cs) v)" by (simp add: v1_def)
  then show ?case
    using does_then [OF store_char_does [OF Cons.prems(1), of ?a c]] Cons.prems(2) blk by (simp add: v1_def)
qed

section \<open>Durability\<close>

text \<open>A resident block that is not marked dirty is the same on the disk.\<close>

definition coherent :: "fs \<Rightarrow> bool" where
  "coherent s \<longleftrightarrow> (\<forall>b p. cache s b = Some p \<and> \<not> dirty s b \<longrightarrow> (\<forall>w<BLKWORDS. disk s b w = p w))"

lemma view_block: "w < BLKWORDS \<Longrightarrow> view s (b * BLKWORDS + w) = (case cache s b of Some p \<Rightarrow> p w | None \<Rightarrow> disk s b w)"
  by (simp add: view_def split: option.splits)

lemma faults_in_coherent:
  assumes "at s v" and "layout v" and "used v b" and "coherent s"
  obtains s' where "bc_pgfault s b = Some s'" "at s' v" "cache s' b \<noteq> None" "disk s' = disk s" "coherent s'"
proof -
  obtain s' where s': "bc_pgfault s b = Some s'" "at s' v" "cache s' b \<noteq> None" "disk s' = disk s"
    "\<And>c. cache s c \<noteq> None \<Longrightarrow> cache s' c = cache s c \<and> dirty s' c = dirty s c"
    using faults_in_used [OF assms(1-3)] unfolding faults_in_def by blast
  have "disk s' c w = p w" if c: "cache s' c = Some p" "\<not> dirty s' c" "w < BLKWORDS" for c p w
  proof (cases "cache s c")
    case None
    then have "view s' (c * BLKWORDS + w) = disk s c w" using assms(1) s'(2) view_block [OF c(3), of s c] by (simp add: at_def)
    then show ?thesis using view_block [OF c(3), of s' c] c(1) s'(4) by simp
  next
    case (Some q)
    then show ?thesis using s'(5) [of c] c assms(4) s'(4) by (simp add: coherent_def)
  qed
  then have "coherent s'" by (simp add: coherent_def)
  then show ?thesis using that s' by blast
qed

lemma load_coherent:
  assumes "at s v" and "layout v" and "used v (a div BLKWORDS)" and "coherent s"
  obtains s' where "load s a = Some (v a, s')" "at s' v" "disk s' = disk s" "coherent s'"
proof -
  obtain s' where s': "bc_pgfault s (a div BLKWORDS) = Some s'" "at s' v" "cache s' (a div BLKWORDS) \<noteq> None" "disk s' = disk s" "coherent s'"
    by (rule faults_in_coherent [OF assms])
  then have "load s a = Some (v a, s')" using word_in_view [of s' a] by (simp add: load_def at_def)
  then show ?thesis using that s' by blast
qed

text \<open>Flushing brings one block of the disk up to date.\<close>

lemma flush_coherent:
  assumes "at s v" and "coherent s" and "a div BLKWORDS < NDISK"
  obtains s' where "flush_block s a = Some s'" "at s' v" "coherent s'"
    "\<And>w. w < BLKWORDS \<Longrightarrow> disk s' (a div BLKWORDS) w = v (a div BLKWORDS * BLKWORDS + w)"
    "\<And>c. c \<noteq> a div BLKWORDS \<Longrightarrow> disk s' c = disk s c"
proof -
  let ?b = "a div BLKWORDS"
  obtain s' where s': "flush_block s a = Some s'" "at s' v" using flush_runs [OF assms(3), of v] assms(1) unfolding does_def by blast
  have eq: "s' = (if cache s ?b \<noteq> None \<and> dirty s ?b then s\<lparr>disk := (disk s)(?b := the (cache s ?b)), dirty := (dirty s)(?b := False)\<rparr> else s)"
    using s'(1) assms(3) by (auto simp: flush_block_def Let_def va_is_mapped_def va_is_dirty_def split: if_splits)
  have "coherent s'" using assms(2) by (auto simp: eq coherent_def)
  moreover have "disk s' ?b w = v (?b * BLKWORDS + w)" if "w < BLKWORDS" for w
    using view_block [OF that, of s ?b] assms(1,2) that by (auto simp: eq at_def coherent_def split: option.splits)
  moreover have "disk s' c = disk s c" if "c \<noteq> ?b" for c using that by (simp add: eq)
  ultimately show ?thesis using that s' by blast
qed

text \<open>The block allocator, with the reserved blocks in use: it returns the lowest free block number and marks exactly
  this block as used, or returns \<^verbatim>\<open>-E_NO_DISK\<close> without effect when there is none.\<close>

lemma alloc_block_first_free:
  assumes "at s v" and "layout v"
  shows "\<exists>r s'. alloc_block s = Some (r, s') \<and>
    (r = - E_NO_DISK \<and> view s' = v \<and> (\<forall>b<nblocks v. used v b) \<or>
     (\<exists>b. r = int b \<and> b < nblocks v \<and> \<not> used v b \<and> (\<forall>c<b. used v c) \<and>
       (\<forall>c. used (view s') c \<longleftrightarrow> c = b \<or> used v c) \<and> layout (view s') \<and>
       (\<forall>a. a \<noteq> BITMAP + b div 32 \<longrightarrow> view s' a = v a)))"
proof (cases rule: alloc_block_cases [OF assms(2)])
  case 1
  then show ?thesis using assms(1) unfolding runs_def at_def by blast
next
  case (2 b)
  then obtain s' where s': "alloc_block s = Some (int b, s')" "view s' = mark b True v"
    using assms(1) unfolding runs_def at_def by blast
  moreover have "\<forall>c. used (mark b True v) c \<longleftrightarrow> c = b \<or> used v c" using 2(2) by (auto simp: used_mark)
  moreover have "\<forall>a. a \<noteq> BITMAP + b div 32 \<longrightarrow> mark b True v a = v a" by (simp add: mark_def)
  ultimately show ?thesis using 2(2-4) layout_mark [OF assms(2)] by auto
qed

text \<open>A server that has read nothing but the super block, and a disk of eight blocks, of which 3 to 7 are free.\<close>

definition disk_of :: "view \<Rightarrow> fs" where
  "disk_of v = \<lparr>disk = (\<lambda>b w. v (b * BLKWORDS + w)), cache = (\<lambda>_. None)(1 := Some (\<lambda>w. v (BLKWORDS + w))),
     dirty = (\<lambda>_. False), super_set = True, bitmap_set = True\<rparr>"

definition small_view :: view where
  "small_view = (\<lambda>_. 0)(SUPER + 1 := 8, BITMAP := 0xF8)"

lemma disk_of_at: "at (disk_of v) v" "coherent (disk_of v)"
proof -
  have "view (disk_of v) a = v a" for a
  proof (cases "a div BLKWORDS = 1")
    case True
    then show ?thesis using div_mult_mod_eq [of a BLKWORDS] by (simp add: view_def disk_of_def)
  next
    case False
    then show ?thesis using div_mult_mod_eq [of a BLKWORDS] by (simp add: view_def disk_of_def)
  qed
  then show "at (disk_of v) v" by (auto simp: at_def disk_of_def fun_eq_iff)
  show "coherent (disk_of v)" by (auto simp: coherent_def disk_of_def split: if_splits)
qed

lemma small_used: "used small_view b \<longleftrightarrow> b < 3"
proof -
  have "b < 8 \<Longrightarrow> b \<in> {0, 1, 2, 3, 4, 5, 6, 7}" by auto
  then show ?thesis by (auto simp: used_def nblocks_def small_view_def)
qed

lemma small_layout: "layout small_view" "nblocks small_view = 8"
proof -
  show n: "nblocks small_view = 8" by (simp add: nblocks_def small_view_def)
  have "i = 0" if "i * 32768 < (8 :: nat)" for i using that by auto
  then show "layout small_view" by (auto simp: layout_def n small_used)
qed

lemma alloc_block_first_free_example:
  "\<exists>s'. alloc_block (disk_of small_view) = Some (3, s') \<and> used (view s') 3"
proof -
  obtain r s' where "alloc_block (disk_of small_view) = Some (r, s')"
    "r = - E_NO_DISK \<and> (\<forall>b<nblocks small_view. used small_view b) \<or>
     (\<exists>b. r = int b \<and> b < nblocks small_view \<and> \<not> used small_view b \<and> (\<forall>c<b. used small_view c) \<and>
       (\<forall>c. used (view s') c \<longleftrightarrow> c = b \<or> used small_view c))"
    using alloc_block_first_free [OF disk_of_at(1) small_layout(1)] by blast
  then show ?thesis unfolding small_used small_layout by (auto dest: spec [of _ 3])
qed

end
