(* ===== verification/Fs.thy ===== *)
theory Fs
  imports BlockCache
begin

text \<open>
  Files and directories of the file system server, \<^verbatim>\<open>fs/fs.c\<close>, on top of the block cache.

  A \<^verbatim>\<open>struct File *\<close> is a word address in the disk map: the name is in words 0 to 31, then come the size, the type,
  ten direct block numbers and the number of the indirect block. A result \<open>Inl e\<close> is a negative return value. Path
  names are the bytes of the string without its terminator. The buffers of \<^verbatim>\<open>file_read\<close> and \<^verbatim>\<open>file_write\<close>, outside of the
  disk map, are a list of the bytes put there and a function that gives the bytes read from there.

  Shown is that a file whose blocks are its own behaves as an array of bytes with a size: blocks appear on
  demand without changing what is read, a write changes exactly the bytes written, and a read returns
  what was written last.
\<close>

unbundle bit_operations_syntax

section \<open>Blocks of a file\<close>

abbreviation NDIRECT :: nat where "NDIRECT \<equiv> 10"
abbreviation NINDIRECT :: nat where "NINDIRECT \<equiv> 1024"
abbreviation f_size :: "nat \<Rightarrow> nat" where "f_size f \<equiv> f + 32"
abbreviation f_type :: "nat \<Rightarrow> nat" where "f_type f \<equiv> f + 33"
abbreviation f_direct :: "nat \<Rightarrow> nat" where "f_direct f \<equiv> f + 34"
abbreviation f_indirect :: "nat \<Rightarrow> nat" where "f_indirect f \<equiv> f + 44"


text \<open>\<^verbatim>\<open>memset(diskaddr(b), 0, BLKSIZE); flush_block(diskaddr(b));\<close>\<close>

definition clear_block :: "fs \<Rightarrow> nat \<Rightarrow> fs option" where
  "clear_block s b =
     do { (a, s) \<leftarrow> diskaddr s b;
          s \<leftarrow> store_words s a (replicate BLKWORDS 0);
          (a, s) \<leftarrow> diskaddr s b;
          flush_block s a }"

text \<open>\<^verbatim>\<open>if ((ret = alloc_block()) < 0) return -E_NO_DISK; *slot = ret;\<close> and clearing the block, which \<^verbatim>\<open>file_block_walk\<close> and
  \<^verbatim>\<open>file_get_block\<close> both do; \<open>False\<close> is the error.\<close>

definition attach_block :: "fs \<Rightarrow> nat \<Rightarrow> (bool \<times> fs) option" where
  "attach_block s slot =
     do { (ret, s) \<leftarrow> alloc_block s;
          if ret < 0 then Some (False, s)
          else do { s \<leftarrow> store s slot (word_of_int ret);
                    s \<leftarrow> clear_block s (nat ret);
                    Some (True, s) } }"

definition indirect_slot :: "fs \<Rightarrow> nat \<Rightarrow> nat \<Rightarrow> ((int + nat) \<times> fs) option" where
  "indirect_slot s f filebno =
     do { (ind, s) \<leftarrow> load s (f_indirect f);
          (a, s) \<leftarrow> diskaddr s (unat ind);
          Some (Inr (a + filebno - NDIRECT), s) }"

definition file_block_walk :: "fs \<Rightarrow> nat \<Rightarrow> nat \<Rightarrow> bool \<Rightarrow> ((int + nat) \<times> fs) option" where
  "file_block_walk s f filebno alloc =
     (if filebno > NINDIRECT + NDIRECT then Some (Inl (- E_INVAL), s)
      else if filebno < NDIRECT then Some (Inr (f_direct f + filebno), s)
      else
        do { (ind, s) \<leftarrow> load s (f_indirect f);
             if \<not> alloc \<and> ind = 0 then Some (Inl (- E_NOT_FOUND), s)
             else if ind = 0
             then do { (attached, s) \<leftarrow> attach_block s (f_indirect f);
                       if attached then indirect_slot s f filebno else Some (Inl (- E_NO_DISK), s) }
             else indirect_slot s f filebno })"

definition file_get_block :: "fs \<Rightarrow> nat \<Rightarrow> nat \<Rightarrow> ((int + nat) \<times> fs) option" where
  "file_get_block s f filebno =
     do { (r, s) \<leftarrow> file_block_walk s f filebno True;
          case r of
            Inl e \<Rightarrow> Some (Inl e, s)
          | Inr p \<Rightarrow>
              do { (bno, s) \<leftarrow> load s p;
                   (present, s) \<leftarrow> (if bno = 0 then attach_block s p else Some (True, s));
                   if present
                   then do { (bno, s) \<leftarrow> load s p; (blk, s) \<leftarrow> diskaddr s (unat bno); Some (Inr blk, s) }
                   else Some (Inl (- E_NO_DISK), s) } }"

section \<open>Directories\<close>

text \<open>The loops over the 16 entries of one block and over the blocks; an entry has 64 words.\<close>

fun find_name :: "fs \<Rightarrow> nat \<Rightarrow> u8 list \<Rightarrow> nat list \<Rightarrow> (nat option \<times> fs) option" where
  "find_name s blk name [] = Some (None, s)"
| "find_name s blk name (j # js) =
     do { (same, s) \<leftarrow> same_name s (4 * (blk + 64 * j)) name;
          if same then Some (Some (blk + 64 * j), s) else find_name s blk name js }"

fun dir_lookup_loop :: "fs \<Rightarrow> nat \<Rightarrow> u8 list \<Rightarrow> nat list \<Rightarrow> ((int + nat) \<times> fs) option" where
  "dir_lookup_loop s dir name [] = Some (Inl (- E_NOT_FOUND), s)"
| "dir_lookup_loop s dir name (i # js) =
     do { (r, s) \<leftarrow> file_get_block s dir i;
          case r of
            Inl e \<Rightarrow> Some (Inl e, s)
          | Inr blk \<Rightarrow>
              do { (found, s) \<leftarrow> find_name s blk name [0 ..< 16];
                   case found of
                     Some f \<Rightarrow> Some (Inr f, s)
                   | None \<Rightarrow> dir_lookup_loop s dir name js } }"

definition dir_lookup :: "fs \<Rightarrow> nat \<Rightarrow> u8 list \<Rightarrow> ((int + nat) \<times> fs) option" where
  "dir_lookup s dir name =
     do { (size, s) \<leftarrow> load s (f_size dir);
          if cmod size BLKSIZE \<noteq> 0 then None
          else dir_lookup_loop s dir name [0 ..< unat (cdiv size BLKSIZE)] }"

fun find_empty :: "fs \<Rightarrow> nat \<Rightarrow> nat list \<Rightarrow> (nat option \<times> fs) option" where
  "find_empty s blk [] = Some (None, s)"
| "find_empty s blk (j # js) =
     do { (c, s) \<leftarrow> load_char s (4 * (blk + 64 * j));
          if c = 0 then Some (Some (blk + 64 * j), s) else find_empty s blk js }"

fun dir_alloc_loop :: "fs \<Rightarrow> nat \<Rightarrow> nat list \<Rightarrow> ((int + nat option) \<times> fs) option" where
  "dir_alloc_loop s dir [] = Some (Inr None, s)"
| "dir_alloc_loop s dir (i # js) =
     do { (r, s) \<leftarrow> file_get_block s dir i;
          case r of
            Inl e \<Rightarrow> Some (Inl e, s)
          | Inr blk \<Rightarrow>
              do { (found, s) \<leftarrow> find_empty s blk [0 ..< 16];
                   case found of
                     Some f \<Rightarrow> Some (Inr (Some f), s)
                   | None \<Rightarrow> dir_alloc_loop s dir js } }"

definition dir_alloc_file :: "fs \<Rightarrow> nat \<Rightarrow> ((int + nat) \<times> fs) option" where
  "dir_alloc_file s dir =
     do { (size, s) \<leftarrow> load s (f_size dir);
          if cmod size BLKSIZE \<noteq> 0 then None
          else do { let nblock = unat (cdiv size BLKSIZE);
                    (r, s) \<leftarrow> dir_alloc_loop s dir [0 ..< nblock];
                    case r of
                      Inl e \<Rightarrow> Some (Inl e, s)
                    | Inr (Some f) \<Rightarrow> Some (Inr f, s)
                    | Inr None \<Rightarrow>
                        do { (size, s) \<leftarrow> load s (f_size dir);
                             s \<leftarrow> store s (f_size dir) (size + of_nat BLKSIZE);
                             file_get_block s dir nblock } } }"

definition skip_slash :: "u8 list \<Rightarrow> u8 list" where
  "skip_slash path = dropWhile (\<lambda>c. c = 47) path"

text \<open>What \<^verbatim>\<open>walk_path\<close> stores through \<^verbatim>\<open>pdir\<close>, \<^verbatim>\<open>pf\<close> and \<^verbatim>\<open>lastelem\<close>.\<close>

record walk =
  w_ret :: int
  w_dir :: "nat option"
  w_file :: "nat option"
  w_last :: "u8 list"

lemma skip_slash_shorter: "length (skip_slash path) \<le> length path"
  by (simp add: skip_slash_def length_dropWhile_le)

lemma rest_shorter: "path \<noteq> [] \<Longrightarrow> length (skip_slash (dropWhile (\<lambda>c. c \<noteq> 47) path)) < length path"
proof (cases "hd path = 47")
  case True
  then show "path \<noteq> [] \<Longrightarrow> ?thesis"
    using length_dropWhile_le [of "\<lambda>c. c = 47" "tl path"] by (cases path) (auto simp: skip_slash_def)
next
  case False
  then have "length (dropWhile (\<lambda>c. c \<noteq> 47) path) < length path" if "path \<noteq> []"
    using that length_dropWhile_le [of "\<lambda>c. c \<noteq> 47" "tl path"] by (cases path) auto
  then show "path \<noteq> [] \<Longrightarrow> ?thesis" using skip_slash_shorter [of "dropWhile (\<lambda>c. c \<noteq> 47) path"] by simp
qed

function walk_loop :: "fs \<Rightarrow> nat \<Rightarrow> nat option \<Rightarrow> u8 list \<Rightarrow> (walk \<times> fs) option" where
  "walk_loop s f dir path =
     (if path = [] then Some (\<lparr>w_ret = 0, w_dir = dir, w_file = Some f, w_last = []\<rparr>, s)
      else
        let name = takeWhile (\<lambda>c. c \<noteq> 47) path; rest = skip_slash (dropWhile (\<lambda>c. c \<noteq> 47) path)
        in if length name \<ge> 128
           then Some (\<lparr>w_ret = - E_BAD_PATH, w_dir = None, w_file = None, w_last = []\<rparr>, s)
           else
             do { (type, s) \<leftarrow> load s (f_type f);
                  if type \<noteq> 1
                  then Some (\<lparr>w_ret = - E_NOT_FOUND, w_dir = None, w_file = None, w_last = []\<rparr>, s)
                  else
                    do { (r, s) \<leftarrow> dir_lookup s f name;
                         case r of
                           Inl e \<Rightarrow>
                             if e = - E_NOT_FOUND \<and> rest = []
                             then Some (\<lparr>w_ret = e, w_dir = Some f, w_file = None, w_last = name\<rparr>, s)
                             else Some (\<lparr>w_ret = e, w_dir = None, w_file = None, w_last = []\<rparr>, s)
                         | Inr f' \<Rightarrow> walk_loop s f' (Some f) rest } })"
  by pat_completeness auto

termination
  by (relation "measure (\<lambda>(s, f, dir, path). length path)") (simp_all add: rest_shorter)

definition walk_path :: "fs \<Rightarrow> u8 list \<Rightarrow> (walk \<times> fs) option" where
  "walk_path s path = walk_loop s (SUPER + 2) None (skip_slash path)"

section \<open>Size and flushing\<close>

definition file_free_block :: "fs \<Rightarrow> nat \<Rightarrow> nat \<Rightarrow> (int \<times> fs) option" where
  "file_free_block s f filebno =
     do { (r, s) \<leftarrow> file_block_walk s f filebno False;
          case r of
            Inl e \<Rightarrow> Some (e, s)
          | Inr p \<Rightarrow>
              do { (bno, s) \<leftarrow> load s p;
                   if bno \<noteq> 0
                   then do { s \<leftarrow> free_block s (unat bno); s \<leftarrow> store s p 0; Some (0, s) }
                   else Some (0, s) } }"

fun free_blocks :: "fs \<Rightarrow> nat \<Rightarrow> nat list \<Rightarrow> fs option" where
  "free_blocks s f [] = Some s"
| "free_blocks s f (bno # bs) = do { (_, s) \<leftarrow> file_free_block s f bno; free_blocks s f bs }"

definition file_truncate_blocks :: "fs \<Rightarrow> nat \<Rightarrow> u32 \<Rightarrow> fs option" where
  "file_truncate_blocks s f newsize =
     do { (size, s) \<leftarrow> load s (f_size f);
          let old_nblocks = unat (cdiv (size + of_nat BLKSIZE - 1) BLKSIZE);
          let new_nblocks = unat (cdiv (newsize + of_nat BLKSIZE - 1) BLKSIZE);
          s \<leftarrow> free_blocks s f [new_nblocks ..< old_nblocks];
          if new_nblocks \<le> NDIRECT
          then do { (ind, s) \<leftarrow> load s (f_indirect f);
                    if ind \<noteq> 0
                    then do { s \<leftarrow> free_block s (unat ind); store s (f_indirect f) 0 }
                    else Some s }
          else Some s }"

definition file_set_size :: "fs \<Rightarrow> nat \<Rightarrow> u32 \<Rightarrow> fs option" where
  "file_set_size s f newsize =
     do { (size, s) \<leftarrow> load s (f_size f);
          s \<leftarrow> (if sint size > sint newsize then file_truncate_blocks s f newsize else Some s);
          s \<leftarrow> store s (f_size f) newsize;
          flush_block s f }"

partial_function (option) file_flush_loop :: "fs \<Rightarrow> nat \<Rightarrow> nat \<Rightarrow> fs option" where
  "file_flush_loop s f i =
     do { (size, s) \<leftarrow> load s (f_size f);
          if int i < sint (cdiv (size + of_nat BLKSIZE - 1) BLKSIZE)
          then do { (r, s) \<leftarrow> file_block_walk s f i False;
                    case r of
                      Inl e \<Rightarrow> file_flush_loop s f (Suc i)
                    | Inr p \<Rightarrow>
                        do { (bno, s) \<leftarrow> load s p;
                             if bno = 0 then file_flush_loop s f (Suc i)
                             else do { (a, s) \<leftarrow> diskaddr s (unat bno);
                                       s \<leftarrow> flush_block s a;
                                       file_flush_loop s f (Suc i) } } }
          else Some s }"

definition file_flush :: "fs \<Rightarrow> nat \<Rightarrow> fs option" where
  "file_flush s f =
     do { s \<leftarrow> file_flush_loop s f 0;
          s \<leftarrow> flush_block s f;
          (ind, s) \<leftarrow> load s (f_indirect f);
          if ind \<noteq> 0 then do { (a, s) \<leftarrow> diskaddr s (unat ind); flush_block s a } else Some s }"

partial_function (option) fs_sync_loop :: "fs \<Rightarrow> nat \<Rightarrow> fs option" where
  "fs_sync_loop s i =
     do { (n, s) \<leftarrow> load s (SUPER + 1);
          if i < unat n
          then do { (a, s) \<leftarrow> diskaddr s i; s \<leftarrow> flush_block s a; fs_sync_loop s (Suc i) }
          else Some s }"

definition fs_sync :: "fs \<Rightarrow> fs option" where
  "fs_sync s = fs_sync_loop s 1"

section \<open>Creating, opening, reading and writing\<close>

definition file_create :: "fs \<Rightarrow> u8 list \<Rightarrow> ((int + nat) \<times> fs) option" where
  "file_create s path =
     do { (w, s) \<leftarrow> walk_path s path;
          if w_ret w = 0 then Some (Inl (- E_FILE_EXISTS), s)
          else case w_dir w of
            None \<Rightarrow> Some (Inl (w_ret w), s)
          | Some dir \<Rightarrow>
              if w_ret w \<noteq> - E_NOT_FOUND then Some (Inl (w_ret w), s)
              else
                do { (r, s) \<leftarrow> dir_alloc_file s dir;
                     case r of
                       Inl e \<Rightarrow> Some (Inl e, s)
                     | Inr f \<Rightarrow>
                         do { s \<leftarrow> store_chars s (4 * f) (w_last w @ [0]);
                              s \<leftarrow> file_flush s dir;
                              Some (Inr f, s) } } }"

definition file_open :: "fs \<Rightarrow> u8 list \<Rightarrow> ((int + nat) \<times> fs) option" where
  "file_open s path =
     do { (w, s) \<leftarrow> walk_path s path;
          case w_file w of Some f \<Rightarrow> Some (Inr f, s) | None \<Rightarrow> Some (Inl (w_ret w), s) }"

fun load_chars :: "fs \<Rightarrow> nat \<Rightarrow> nat \<Rightarrow> (u8 list \<times> fs) option" where
  "load_chars s a 0 = Some ([], s)"
| "load_chars s a (Suc n) = do { (c, s) \<leftarrow> load_char s a; (cs, s) \<leftarrow> load_chars s (a + 1) n; Some (c # cs, s) }"

text \<open>Byte \<open>pos % BLKSIZE\<close> of a block; for a negative position this is before the block.\<close>

definition char_addr :: "nat \<Rightarrow> u32 \<Rightarrow> nat" where
  "char_addr blk pos = nat (int (4 * blk) + sint (cmod pos BLKSIZE))"

definition chunk :: "u32 \<Rightarrow> u32 \<Rightarrow> u32" where
  "chunk ends pos = min (of_nat BLKSIZE - cmod pos BLKSIZE) (ends - pos)"

partial_function (option) file_read_loop :: "fs \<Rightarrow> nat \<Rightarrow> u32 \<Rightarrow> u32 \<Rightarrow> u8 list \<Rightarrow> ((int + u8 list) \<times> fs) option" where
  "file_read_loop s f ends pos buf =
     (if pos < ends
      then do { (r, s) \<leftarrow> file_get_block s f (unat (cdiv pos BLKSIZE));
                case r of
                  Inl e \<Rightarrow> Some (Inl e, s)
                | Inr blk \<Rightarrow>
                    do { (cs, s) \<leftarrow> load_chars s (char_addr blk pos) (unat (chunk ends pos));
                         file_read_loop s f ends (pos + chunk ends pos) (buf @ cs) } }
      else Some (Inr buf, s))"

text \<open>The count returned and the bytes put into the buffer.\<close>

definition file_read :: "fs \<Rightarrow> nat \<Rightarrow> u32 \<Rightarrow> u32 \<Rightarrow> ((int + u32 \<times> u8 list) \<times> fs) option" where
  "file_read s f count offset =
     do { (size, s) \<leftarrow> load s (f_size f);
          if sint offset \<ge> sint size then Some (Inr (0, []), s)
          else do { let count = min count (size - offset);
                    (r, s) \<leftarrow> file_read_loop s f (offset + count) offset [];
                    case r of Inl e \<Rightarrow> Some (Inl e, s) | Inr buf \<Rightarrow> Some (Inr (count, buf), s) } }"

partial_function (option) file_write_loop ::
  "fs \<Rightarrow> nat \<Rightarrow> (nat \<Rightarrow> u8) \<Rightarrow> u32 \<Rightarrow> u32 \<Rightarrow> nat \<Rightarrow> (int option \<times> fs) option" where
  "file_write_loop s f buf ends pos i =
     (if pos < ends
      then do { (r, s) \<leftarrow> file_get_block s f (unat (cdiv pos BLKSIZE));
                case r of
                  Inl e \<Rightarrow> Some (Some e, s)
                | Inr blk \<Rightarrow>
                    do { s \<leftarrow> store_chars s (char_addr blk pos) (map buf [i ..< i + unat (chunk ends pos)]);
                         file_write_loop s f buf ends (pos + chunk ends pos) (i + unat (chunk ends pos)) } }
      else Some (None, s))"

definition file_write :: "fs \<Rightarrow> nat \<Rightarrow> (nat \<Rightarrow> u8) \<Rightarrow> u32 \<Rightarrow> u32 \<Rightarrow> ((int + u32) \<times> fs) option" where
  "file_write s f buf count offset =
     do { (size, s) \<leftarrow> load s (f_size f);
          s \<leftarrow> (if offset + count > size then file_set_size s f (offset + count) else Some s);
          (e, s) \<leftarrow> file_write_loop s f buf (offset + count) offset 0;
          case e of Some e \<Rightarrow> Some (Inl e, s) | None \<Rightarrow> Some (Inr count, s) }"

section \<open>A file as an array of bytes\<close>

abbreviation MAXBLOCKS :: nat where "MAXBLOCKS \<equiv> NDIRECT + NINDIRECT"

text \<open>Where the number of block \<open>n\<close> is kept, and the number.\<close>

definition slot :: "view \<Rightarrow> nat \<Rightarrow> nat \<Rightarrow> nat" where
  "slot v f n = (if n < NDIRECT then f_direct f + n else unat (v (f_indirect f)) * BLKWORDS + (n - NDIRECT))"

definition bno :: "view \<Rightarrow> nat \<Rightarrow> nat \<Rightarrow> nat" where
  "bno v f n = (if n < NDIRECT \<or> v (f_indirect f) \<noteq> 0 then unat (v (slot v f n)) else 0)"

definition ind :: "view \<Rightarrow> nat \<Rightarrow> nat" where
  "ind v f = unat (v (f_indirect f))"

definition own :: "view \<Rightarrow> nat \<Rightarrow> nat set" where
  "own v f = (insert (ind v f) (bno v f ` {..<MAXBLOCKS})) - {0}"

text \<open>The blocks of a file are in use, hold neither the bitmap nor the super block nor the descriptor of the file, and
  are used once. The descriptor of the root directory is in the super block.\<close>

definition file_ok :: "view \<Rightarrow> nat \<Rightarrow> bool" where
  "file_ok v f \<longleftrightarrow> layout v \<and> f mod BLKWORDS + 64 \<le> BLKWORDS \<and> used v (f div BLKWORDS) \<and> \<not> bitmap_blk v (f div BLKWORDS) \<and>
     (f div BLKWORDS = 1 \<longrightarrow> f = SUPER + 2) \<and>
     (\<forall>b \<in> own v f. used v b \<and> data_blk v b \<and> b \<noteq> f div BLKWORDS) \<and>
     (\<forall>n<MAXBLOCKS. ind v f \<noteq> 0 \<longrightarrow> bno v f n \<noteq> ind v f) \<and>
     (\<forall>m<MAXBLOCKS. \<forall>n<MAXBLOCKS. bno v f m = bno v f n \<and> bno v f m \<noteq> 0 \<longrightarrow> m = n)"

definition contents :: "view \<Rightarrow> nat \<Rightarrow> nat \<Rightarrow> u8" where
  "contents v f pos = (if bno v f (pos div BLKSIZE) = 0 then 0 else vbyte v (bno v f (pos div BLKSIZE) * BLKSIZE + pos mod BLKSIZE))"

lemma field_block:
  assumes "file_ok v f" and "k < 64"
  shows "(f + k) div BLKWORDS = f div BLKWORDS" "inert v (f + k)"
proof -
  have "f mod BLKWORDS + k < BLKWORDS" using assms by (simp add: file_ok_def)
  then show blk: "(f + k) div BLKWORDS = f div BLKWORDS"
    by (rule div_add_small)
  show "inert v (f + k)" using assms(1) blk by (auto simp: file_ok_def inert_def)
qed

lemma file_load:
  assumes "file_ok v f" and "k < 64"
  shows "runs v (\<lambda>s. load s (f + k)) (v (f + k)) v"
  using assms field_block(1) [OF assms] by (intro load_runs) (simp_all add: file_ok_def)

lemma slot_ok:
  assumes "file_ok v f" and "n < MAXBLOCKS" and "n < NDIRECT \<or> ind v f \<noteq> 0"
  shows "used v (slot v f n div BLKWORDS)" "inert v (slot v f n)" "n \<ge> NDIRECT \<Longrightarrow> slot v f n div BLKWORDS = ind v f"
    "n < NDIRECT \<Longrightarrow> slot v f n div BLKWORDS = f div BLKWORDS"
proof -
  show d: "slot v f n div BLKWORDS = f div BLKWORDS" if "n < NDIRECT"
    using that field_block [OF assms(1), of "34 + n"] by (simp add: slot_def add.assoc)
  show i: "slot v f n div BLKWORDS = ind v f" if "n \<ge> NDIRECT"
    using that assms(2) by (simp add: slot_def ind_def)
  have own: "ind v f \<noteq> 0 \<Longrightarrow> ind v f \<in> own v f" by (simp add: own_def)
  show "used v (slot v f n div BLKWORDS)"
    using assms d i own by (cases "n < NDIRECT") (auto simp: file_ok_def)
  show "inert v (slot v f n)"
  proof (cases "n < NDIRECT")
    case True
    then show ?thesis using field_block(2) [OF assms(1), of "34 + n"] by (simp add: slot_def add.assoc)
  next
    case False
    then have "data_blk v (slot v f n div BLKWORDS)" using assms i own by (auto simp: file_ok_def)
    then show ?thesis by (rule data_inert)
  qed
qed

section \<open>Blocks appear on demand\<close>

lemma clear_block_does:
  assumes "layout v" and "used v b" and "data_blk v b" and "0 < b"
  shows "does v (\<lambda>s. clear_block s b) (over (b * BLKWORDS) (replicate BLKWORDS 0) v)"
proof -
  let ?v = "over (b * BLKWORDS) (replicate BLKWORDS 0) v"
  have b: "b < nblocks v" "b < NDISK" using assms(1,2) by (simp_all add: used_def layout_def)
  have same: "layout ?v" "nblocks ?v = nblocks v" using over_inert [OF assms(3), of 0 "replicate BLKWORDS 0"] assms(1) by simp_all
  have "does v (\<lambda>s. store_words s (b * BLKWORDS) (replicate BLKWORDS 0)) ?v"
    using store_words_does [OF assms(1-3), of 0 "replicate BLKWORDS 0"] by simp
  moreover have "runs ?v (\<lambda>s. diskaddr s b) (b * BLKWORDS) ?v" using assms(4) b same by (intro diskaddr_runs) simp_all
  moreover have "does ?v (\<lambda>s. flush_block s (b * BLKWORDS)) ?v" using b by (intro flush_runs) simp
  ultimately show ?thesis unfolding clear_block_def
    using assms(4) b by (intro does_bind [OF diskaddr_runs [OF assms(1)]] does_then does_bind) assumption+
qed

lemma free_is_data: "layout v \<Longrightarrow> b < nblocks v \<Longrightarrow> \<not> used v b \<Longrightarrow> data_blk v b \<and> 0 < b"
  using layout_bitmap [of v] by (auto simp: data_blk_def bitmap_blk_def bitmap_block layout_def intro: gr0I)

text \<open>The view after block \<open>b\<close> was taken, its number stored at \<open>a\<close>, and the block cleared.\<close>

definition grown :: "view \<Rightarrow> nat \<Rightarrow> nat \<Rightarrow> view" where
  "grown v b a = over (b * BLKWORDS) (replicate BLKWORDS 0) ((mark b True v)(a := of_nat b))"

lemma over_block: "over (b * BLKWORDS) (replicate BLKWORDS 0) v x = (if x div BLKWORDS = b then 0 else v x)"
proof -
  have "b * BLKWORDS \<le> x \<and> x < b * BLKWORDS + BLKWORDS \<longleftrightarrow> x div BLKWORDS = b"
    by (metis add.commute div_le_dividend div_nat_eqI div_times_less_eq_dividend dividend_less_div_times less_numeral_extra(1) mult.commute mult_Suc_right zero_less_numeral)
  then show ?thesis by (auto simp: over_def)
qed

lemma grown_facts:
  assumes "layout v" and "b < nblocks v" and "\<not> used v b" and "inert v a" and "a div BLKWORDS \<noteq> b"
  shows "layout (grown v b a)" "nblocks (grown v b a) = nblocks v" "used (grown v b a) c \<longleftrightarrow> c = b \<or> used v c"
    "bitmap_blk (grown v b a) = bitmap_blk v" "data_blk (grown v b a) = data_blk v" "inert (grown v b a) = inert v"
    "\<not> bitmap_blk v (x div BLKWORDS) \<Longrightarrow> grown v b a x = (if x div BLKWORDS = b then 0 else if x = a then of_nat b else v x)"
proof -
  have d: "data_blk v b" "0 < b" using free_is_data [OF assms(1-3)] by simp_all
  have a: "inert (mark b True v) a" using assms(2,4) by (simp add: mark_facts)
  note m = mark_facts [OF assms(2), where x = True] and u = inert_upd [OF a, of "of_nat b"]
  have d': "data_blk ((mark b True v)(a := of_nat b)) b" using d u m by simp
  note o = over_inert [OF d', of 0 "replicate BLKWORDS 0"]
  show "layout (grown v b a)" "nblocks (grown v b a) = nblocks v" "bitmap_blk (grown v b a) = bitmap_blk v"
    "data_blk (grown v b a) = data_blk v" "inert (grown v b a) = inert v"
    using o u m layout_mark [OF assms(1)] by (simp_all add: grown_def)
  show "used (grown v b a) c \<longleftrightarrow> c = b \<or> used v c"
    using o(2) u(2) assms(2) used_mark [of b True v c] by (auto simp: grown_def)
  show "grown v b a x = (if x div BLKWORDS = b then 0 else if x = a then of_nat b else v x)"
    if "\<not> bitmap_blk v (x div BLKWORDS)"
    using m(4) [OF that] assms(5) by (auto simp: grown_def over_block)
qed

text \<open>What every step of an operation on file \<open>f\<close> keeps: its bytes and its size, and everything that is not its own.\<close>

definition elsewhere :: "view \<Rightarrow> nat \<Rightarrow> nat \<Rightarrow> bool" where
  "elsewhere v f x \<longleftrightarrow> used v (x div BLKWORDS) \<and> x div BLKWORDS \<notin> own v f \<and> \<not> bitmap_blk v (x div BLKWORDS) \<and>
     \<not> (f_direct f \<le> x \<and> x \<le> f_indirect f)"

definition keeps :: "nat \<Rightarrow> view \<Rightarrow> view \<Rightarrow> bool" where
  "keeps f v v' \<longleftrightarrow> file_ok v' f \<and> nblocks v' = nblocks v \<and> v' (f_size f) = v (f_size f) \<and>
     (\<forall>n<MAXBLOCKS. bno v f n \<noteq> 0 \<longrightarrow> bno v' f n = bno v f n) \<and>
     (\<forall>pos<MAXBLOCKS * BLKSIZE. contents v' f pos = contents v f pos) \<and>
     (\<forall>c. used v c \<longrightarrow> used v' c) \<and> own v' f \<subseteq> own v f \<union> {c. \<not> used v c} \<and> (\<forall>x. elsewhere v f x \<longrightarrow> v' x = v x)"

lemma bitmap_blk_cong: "nblocks v' = nblocks v \<Longrightarrow> bitmap_blk v' = bitmap_blk v"
  by (simp add: bitmap_blk_def fun_eq_iff)

lemma keeps_refl: "file_ok v f \<Longrightarrow> keeps f v v"
  by (simp add: keeps_def)

lemma keeps_trans:
  assumes "keeps f v v'" and "keeps f v' v''"
  shows "keeps f v v''"
proof -
  have "elsewhere v' f x" if "elsewhere v f x" for x
    using that assms(1) bitmap_blk_cong [of v' v] by (auto simp: elsewhere_def keeps_def)
  then show ?thesis using assms unfolding keeps_def by (auto simp: subset_iff)
qed

lemma contents_bno:
  assumes "bno v' f n = bno v f n" and "pos div BLKSIZE = n"
    and "\<And>x. x div BLKWORDS = bno v f n \<Longrightarrow> bno v f n \<noteq> 0 \<Longrightarrow> v' x = v x"
  shows "contents v' f pos = contents v f pos"
proof (cases "bno v f n = 0")
  case False
  have "(bno v f n * BLKSIZE + pos mod BLKSIZE) div 4 div BLKWORDS = bno v f n"
    by (simp add: div_mult2_eq [symmetric])
  then show ?thesis using assms False by (simp add: contents_def vbyte_def)
qed (use assms in \<open>simp add: contents_def\<close>)

lemma own_used: "file_ok v f \<Longrightarrow> b \<in> own v f \<Longrightarrow> used v b \<and> data_blk v b \<and> \<not> bitmap_blk v b \<and> b \<noteq> f div BLKWORDS \<and> b \<noteq> 0"
  by (auto simp: file_ok_def data_blk_def own_def)

lemma bno_own: "n < MAXBLOCKS \<Longrightarrow> bno v f n \<noteq> 0 \<Longrightarrow> bno v f n \<in> own v f"
  by (auto simp: own_def)

text \<open>The view changes as blocks are taken; what the file's block numbers become decides the rest.\<close>

lemma grown_keeps:
  assumes ok: "file_ok v f" and b: "b < nblocks v" "\<not> used v b" and a: "inert v a" "a div BLKWORDS \<noteq> b"
    and range: "\<not> elsewhere v f a" "a \<noteq> f_size f"
    and bno: "\<And>n. n < MAXBLOCKS \<Longrightarrow> bno (grown v b a) f n = bno v f n \<or> bno v f n = 0 \<and> bno (grown v b a) f n = b"
    and own: "\<And>n. n < MAXBLOCKS \<Longrightarrow> bno v f n \<noteq> 0 \<Longrightarrow> a div BLKWORDS \<noteq> bno v f n"
    and once: "\<And>m n. m < MAXBLOCKS \<Longrightarrow> n < MAXBLOCKS \<Longrightarrow> bno (grown v b a) f m = b \<Longrightarrow> bno (grown v b a) f n = b \<Longrightarrow> m = n"
    and ind: "ind (grown v b a) f = ind v f \<or> ind v f = 0 \<and> ind (grown v b a) f = b \<and> (\<forall>n<MAXBLOCKS. bno (grown v b a) f n \<noteq> b)"
  shows "keeps f v (grown v b a)"
proof -
  let ?v = "grown v b a"
  have lay: "layout v" using ok by (simp add: file_ok_def)
  note g = grown_facts [OF lay b a]
  have data: "data_blk v b" "0 < b" using free_is_data [OF lay b] by simp_all
  have fb: "b \<noteq> f div BLKWORDS" "\<not> bitmap_blk v (f div BLKWORDS)" using ok b(2) by (auto simp: file_ok_def)
  have notown: "b \<notin> own v f" using own_used [OF ok] b(2) by auto
  have sub: "own ?v f \<subseteq> insert b (own v f)"
  proof
    fix c
    assume "c \<in> own ?v f"
    then have "c \<noteq> 0" "c = ind ?v f \<or> (\<exists>n<MAXBLOCKS. c = bno ?v f n)" by (auto simp: own_def)
    then show "c \<in> insert b (own v f)" using bno ind by (fastforce simp: own_def)
  qed
  have fo: "file_ok ?v f"
    unfolding file_ok_def
  proof (intro conjI ballI allI impI)
    show "layout ?v" by (rule g)
    show "f mod BLKWORDS + 64 \<le> BLKWORDS" "f div BLKWORDS = 1 \<Longrightarrow> f = SUPER + 2" using ok by (simp_all add: file_ok_def)
    show "used ?v (f div BLKWORDS)" "\<not> bitmap_blk ?v (f div BLKWORDS)" using ok by (simp_all add: file_ok_def g)
    show "used ?v c" "data_blk ?v c" "c \<noteq> f div BLKWORDS" if "c \<in> own ?v f" for c
      using that sub own_used [OF ok, of c] data fb by (auto simp: g)
    show "bno ?v f n \<noteq> ind ?v f" if "n < MAXBLOCKS" "ind ?v f \<noteq> 0" for n
    proof -
      have old: "ind v f \<noteq> 0 \<Longrightarrow> bno v f n \<noteq> ind v f" "ind v f \<noteq> 0 \<Longrightarrow> ind v f \<noteq> b"
        using ok notown that(1) by (auto simp: file_ok_def own_def)
      show ?thesis
      proof (cases "ind ?v f = ind v f")
        case True
        then show ?thesis using that old bno [OF that(1)] by auto
      next
        case False
        then show ?thesis using that ind by auto
      qed
    qed
    show "m = n" if "m < MAXBLOCKS" "n < MAXBLOCKS" "bno ?v f m = bno ?v f n \<and> bno ?v f m \<noteq> 0" for m n
    proof (cases "bno ?v f m = b")
      case True
      then show ?thesis using that once by simp
    next
      case False
      then have "bno v f m = bno v f n" "bno v f m \<noteq> 0" using that bno [of m] bno [of n] by auto
      then show ?thesis using that ok by (simp add: file_ok_def)
    qed
  qed
  have co: "contents ?v f pos = contents v f pos" if "pos < MAXBLOCKS * BLKSIZE" for pos
  proof -
    let ?n = "pos div BLKSIZE"
    have n: "?n < MAXBLOCKS" using that by (simp add: less_mult_imp_div_less)
    show ?thesis
    proof (cases "bno ?v f ?n = bno v f ?n")
      case True
      have "?v x = v x" if "x div BLKWORDS = bno v f ?n" "bno v f ?n \<noteq> 0" for x
        using that own [OF n] own_used [OF ok bno_own [OF n]] notown bno_own [OF n, of v f] g(7) [of x] by auto
      then show ?thesis using contents_bno [OF True] by blast
    next
      case False
      then have "bno v f ?n = 0" "bno ?v f ?n = b" using bno [OF n] by auto
      moreover have "(b * BLKSIZE + pos mod BLKSIZE) div 4 div BLKWORDS = b" by (simp add: div_mult2_eq [symmetric])
      ultimately show ?thesis using data g(7) by (simp add: contents_def vbyte_def data_blk_def)
    qed
  qed
  have sz: "?v (f_size f) = v (f_size f)"
    using field_block [OF ok, of 32] fb range(2) g(7) [of "f_size f"] by simp
  have el: "?v x = v x" if "elsewhere v f x" for x
    using that range b(2) g(7) [of x] by (auto simp: elsewhere_def)
  have bn: "bno ?v f n = bno v f n" if "n < MAXBLOCKS" "bno v f n \<noteq> 0" for n using bno [OF that(1)] that(2) by auto
  show ?thesis
    unfolding keeps_def
  proof (intro conjI allI impI)
    show "own ?v f \<subseteq> own v f \<union> {c. \<not> used v c}" using sub b(2) by auto
    show "used ?v c" if "used v c" for c using that by (simp add: g)
  qed (use fo co sz el bn in \<open>simp_all add: g\<close>)
qed

text \<open>The two ways a file grows: its indirect block, and a block in a slot.\<close>

lemma unat_block: "layout v \<Longrightarrow> b < nblocks v \<Longrightarrow> unat (of_nat b :: u32) = b"
  by (simp add: layout_def unat_of_nat)

lemma grow_indirect:
  assumes ok: "file_ok v f" and b: "b < nblocks v" "\<not> used v b" and none: "v (f_indirect f) = 0"
  shows "keeps f v (grown v b (f_indirect f))" "ind (grown v b (f_indirect f)) f = b"
    "\<And>n. n < MAXBLOCKS \<Longrightarrow> bno (grown v b (f_indirect f)) f n = bno v f n"
proof -
  let ?a = "f_indirect f" and ?v = "grown v b (f_indirect f)"
  have lay: "layout v" using ok by (simp add: file_ok_def)
  have data: "data_blk v b" "0 < b" "\<not> bitmap_blk v b" using free_is_data [OF lay b] by (simp_all add: data_blk_def)
  have fb: "b \<noteq> f div BLKWORDS" "\<not> bitmap_blk v (f div BLKWORDS)" using ok b(2) by (auto simp: file_ok_def)
  have a: "inert v ?a" "?a div BLKWORDS \<noteq> b" using field_block [OF ok, of 44] fb by simp_all
  note g = grown_facts [OF lay b a]
  have field: "?v (f + k) = (if k = 44 then of_nat b else v (f + k))" if "k < 64" for k
    using g(7) [of "f + k"] field_block(1) [OF ok that] fb by simp
  have ind: "?v ?a = of_nat b" using field [of 44] by simp
  then show "ind ?v f = b" by (simp add: ind_def unat_block [OF lay b(1)])
  have nz: "(of_nat b :: u32) \<noteq> 0" using unat_block [OF lay b(1)] data(2) by auto
  show bno: "bno ?v f n = bno v f n" if "n < MAXBLOCKS" for n
  proof (cases "n < NDIRECT")
    case True
    then show ?thesis using field [of "34 + n"] by (simp add: bno_def slot_def add.assoc)
  next
    case False
    let ?x = "b * BLKWORDS + (n - NDIRECT)"
    have "?x div BLKWORDS = b" using that by simp
    then have "?v ?x = 0" using g(7) [of ?x] data(3) by simp
    then show ?thesis using False none ind nz unat_block [OF lay b(1)] by (simp add: bno_def slot_def)
  qed
  have own: "b \<notin> own v f" "f div BLKWORDS \<notin> own v f" using own_used [OF ok] b(2) by auto
  show "keeps f v ?v"
  proof (rule grown_keeps [OF ok b a])
    show "\<not> elsewhere v f ?a" by (simp add: elsewhere_def)
    show "?a div BLKWORDS \<noteq> bno v f n" if "n < MAXBLOCKS" "bno v f n \<noteq> 0" for n
      using bno_own [OF that] own(2) field_block(1) [OF ok, of 44] by auto
    have no: "bno ?v f n \<noteq> b" if "n < MAXBLOCKS" for n using bno [OF that] bno_own [OF that, of v f] own(1) data(2) by auto
    then show "m = n" if "m < MAXBLOCKS" "bno ?v f m = b" for m n using that by blast
    show "ind ?v f = ind v f \<or> ind v f = 0 \<and> ind ?v f = b \<and> (\<forall>n<MAXBLOCKS. bno ?v f n \<noteq> b)"
      using no none \<open>ind ?v f = b\<close> by (simp add: ind_def)
  qed (use bno in simp_all)
qed

lemma grow_slot:
  assumes ok: "file_ok v f" and b: "b < nblocks v" "\<not> used v b" and n: "n < MAXBLOCKS" "n < NDIRECT \<or> ind v f \<noteq> 0"
    and none: "v (slot v f n) = 0"
  shows "keeps f v (grown v b (slot v f n))" "bno (grown v b (slot v f n)) f n = b" "slot (grown v b (slot v f n)) f n = slot v f n"
proof -
  let ?a = "slot v f n" and ?v = "grown v b (slot v f n)"
  have lay: "layout v" using ok by (simp add: file_ok_def)
  have data: "0 < b" using free_is_data [OF lay b] by simp
  have fb: "b \<noteq> f div BLKWORDS" "\<not> bitmap_blk v (f div BLKWORDS)" using ok b(2) by (auto simp: file_ok_def)
  note sl = slot_ok [OF ok n]
  have a: "inert v ?a" "?a div BLKWORDS \<noteq> b" using sl(1,2) b(2) by auto
  note g = grown_facts [OF lay b a]
  have own: "b \<notin> own v f" "f div BLKWORDS \<notin> own v f" using own_used [OF ok] b(2) by auto
  have own_ind: "ind v f \<noteq> 0 \<Longrightarrow> ind v f \<in> own v f" by (simp add: own_def)
  have keep: "?v x = (if x = ?a then of_nat b else v x)" if "x div BLKWORDS = f div BLKWORDS \<or> x div BLKWORDS = ind v f \<and> ind v f \<noteq> 0" for x
  proof -
    have "x div BLKWORDS \<noteq> b" "\<not> bitmap_blk v (x div BLKWORDS)" using that own own_ind own_used [OF ok, of "ind v f"] fb by metis+
    then show ?thesis using g(7) [of x] by simp
  qed
  have indf: "ind v f \<noteq> 0 \<Longrightarrow> ind v f \<noteq> f div BLKWORDS" using own own_ind by auto
  have fields: "f_indirect f div BLKWORDS = f div BLKWORDS" "f_size f div BLKWORDS = f div BLKWORDS"
    using field_block(1) [OF ok, of 44] field_block(1) [OF ok, of 32] by simp_all
  have "f_indirect f \<noteq> ?a"
  proof (cases "n < NDIRECT")
    case False
    then show ?thesis using sl(3) n(2) indf fields(1) by (metis not_le)
  qed (simp add: slot_def)
  then have ind: "?v (f_indirect f) = v (f_indirect f)" using keep [of "f_indirect f"] field_block(1) [OF ok, of 44] by simp
  then have slots: "slot ?v f m = slot v f m" for m by (simp add: slot_def)
  then show "slot ?v f n = ?a" .
  have inj: "m = n" if "slot v f m = ?a" "m < MAXBLOCKS" "m < NDIRECT \<or> ind v f \<noteq> 0" for m
  proof (cases "m < NDIRECT \<longleftrightarrow> n < NDIRECT")
    case True
    then show ?thesis using that(1) by (auto simp: slot_def split: if_splits)
  next
    case False
    then show ?thesis using that sl(3,4) slot_ok(3,4) [OF ok that(2,3)] n(2) indf by (metis not_le)
  qed
  have at: "bno ?v f m = (if m = n then b else bno v f m)" if "m < MAXBLOCKS" for m
  proof (cases "m < NDIRECT \<or> ind v f \<noteq> 0")
    case True
    note sm = slot_ok [OF ok that True]
    have "slot v f m div BLKWORDS = f div BLKWORDS \<or> slot v f m div BLKWORDS = ind v f \<and> ind v f \<noteq> 0"
      using sm(3,4) True by (cases "m < NDIRECT") auto
    then have "?v (slot v f m) = (if m = n then of_nat b else v (slot v f m))"
      using keep [of "slot v f m"] inj [OF _ that True] by auto
    then show ?thesis using True unat_block [OF lay b(1)] ind by (auto simp: bno_def slots ind_def)
  next
    case False
    then show ?thesis using n(2) ind by (auto simp: bno_def ind_def unat_eq_zero)
  qed
  then show "bno ?v f n = b" using n(1) by simp
  have zero: "bno v f n = 0" using none by (simp add: bno_def)
  have not_b: "bno v f m \<noteq> b" if "m < MAXBLOCKS" for m using bno_own [OF that, of v f] own(1) data by auto
  show "keeps f v ?v"
  proof (rule grown_keeps [OF ok b a])
    show "\<not> elsewhere v f ?a" using sl(3) own_ind n by (cases "n < NDIRECT") (auto simp: elsewhere_def slot_def)
    show "?a \<noteq> f_size f"
    proof (cases "n < NDIRECT")
      case False
      then show ?thesis using sl(3) n(2) indf fields(2) by (metis not_le)
    qed (simp add: slot_def)
    show "?a div BLKWORDS \<noteq> bno v f m" if "m < MAXBLOCKS" "bno v f m \<noteq> 0" for m
      using bno_own [OF that] own(2) sl(3,4) n(2) ok that by (cases "n < NDIRECT") (auto simp: file_ok_def)
    show "ind ?v f = ind v f \<or> ind v f = 0 \<and> ind ?v f = b \<and> (\<forall>n<MAXBLOCKS. bno ?v f n \<noteq> b)"
      using ind by (simp add: ind_def)
    show "m = k" if "m < MAXBLOCKS" "k < MAXBLOCKS" "bno ?v f m = b" "bno ?v f k = b" for m k
      using that at not_b by (metis)
  qed (use at zero in auto)
qed

lemma attach_cases:
  assumes "file_ok v f" and "inert v a" and "used v (a div BLKWORDS)"
  obtains (full) "runs v (\<lambda>s. attach_block s a) False v" "\<And>b. b < nblocks v \<Longrightarrow> used v b"
    | (block) b where "runs v (\<lambda>s. attach_block s a) True (grown v b a)" "b < nblocks v" "\<not> used v b"
proof -
  have lay: "layout v" using assms(1) by (simp add: file_ok_def)
  show ?thesis
  proof (cases rule: alloc_block_cases [OF lay])
    case 1
    then show ?thesis using full unfolding runs_def attach_block_def by fastforce
  next
    case (2 b)
    let ?v = "(mark b True v)(a := of_nat b)"
    have data: "data_blk v b" "0 < b" using free_is_data [OF lay 2(2,3)] by simp_all
    have a: "inert (mark b True v) a" "layout (mark b True v)" "used (mark b True v) (a div BLKWORDS)"
      using assms 2(2,3) layout_mark [OF lay] by (simp_all add: mark_facts used_mark)
    note u = inert_upd [OF a(1), of "of_nat b"]
    have st: "does (mark b True v) (\<lambda>s. store s a (of_nat b)) ?v" using a by (intro store_runs)
    have cl: "does ?v (\<lambda>s. clear_block s b) (grown v b a)"
      unfolding grown_def using a(2) u 2(2) data by (intro clear_block_does) (simp_all add: mark_facts used_mark)
    have "runs (mark b True v) (\<lambda>s. if int b < 0 then Some (False, s)
        else do { s \<leftarrow> store s a (word_of_int (int b)); s \<leftarrow> clear_block s (nat (int b)); Some (True, s) }) True (grown v b a)"
      using runs_then [OF st runs_then [OF cl runs_ret]] by simp
    then have "runs v (\<lambda>s. attach_block s a) True (grown v b a)" unfolding attach_block_def by (rule runs_bind [OF 2(1)])
    then show ?thesis using block 2(2,3) by blast
  qed
qed

lemma indirect_slot_runs:
  assumes "file_ok v f" and "ind v f \<noteq> 0" and "NDIRECT \<le> n" and "n < MAXBLOCKS"
  shows "runs v (\<lambda>s. indirect_slot s f n) (Inr (slot v f n)) v"
proof -
  have "layout v" using assms(1) by (simp add: file_ok_def)
  moreover have "used v (ind v f)" using own_used [OF assms(1), of "ind v f"] assms(2) by (simp add: own_def)
  ultimately have "runs v (\<lambda>s. diskaddr s (unat (v (f_indirect f)))) (ind v f * BLKWORDS) v"
    using assms(2) unfolding ind_def [symmetric] by (intro diskaddr_runs) (simp_all add: used_def)
  moreover have "ind v f * BLKWORDS + n - NDIRECT = slot v f n" using assms(3) by (simp add: slot_def ind_def)
  ultimately show ?thesis
    unfolding indirect_slot_def
    by (intro runs_bind [OF file_load [OF assms(1)]] runs_bind [where x = "ind v f * BLKWORDS"]) (auto intro: runs_ret)
qed

lemma walk_cases:
  assumes "file_ok v f" and "n < MAXBLOCKS"
  obtains (full) "runs v (\<lambda>s. file_block_walk s f n True) (Inl (- E_NO_DISK)) v" "\<And>b. b < nblocks v \<Longrightarrow> used v b"
    | (slot) v' where "runs v (\<lambda>s. file_block_walk s f n True) (Inr (slot v' f n)) v'" "keeps f v v'" "n < NDIRECT \<or> ind v' f \<noteq> 0"
proof (cases "n < NDIRECT")
  case True
  then have "runs v (\<lambda>s. file_block_walk s f n True) (Inr (slot v f n)) v"
    using runs_ret [of v "Inr (slot v f n)"] by (simp add: file_block_walk_def slot_def)
  then show ?thesis using slot keeps_refl [OF assms(1)] True by blast
next
  case False
  have load: "runs v (\<lambda>s. load s (f_indirect f)) (v (f_indirect f)) v" using file_load [OF assms(1), of 44] by simp
  show ?thesis
  proof (cases "ind v f = 0")
    case False': False
    then have "v (f_indirect f) \<noteq> 0" by (auto simp: ind_def)
    moreover have "runs v (\<lambda>s. indirect_slot s f n) (Inr (slot v f n)) v" using assms False False' by (intro indirect_slot_runs) auto
    ultimately have "runs v (\<lambda>s. file_block_walk s f n True) (Inr (slot v f n)) v"
      using False assms(2) load unfolding runs_def file_block_walk_def by fastforce
    then show ?thesis using slot keeps_refl [OF assms(1)] False' by blast
  next
    case True
    then have none: "v (f_indirect f) = 0" by (simp add: ind_def unat_eq_zero)
    have field: "inert v (f_indirect f)" "used v (f_indirect f div BLKWORDS)"
      using field_block [OF assms(1), of 44] assms(1) by (simp_all add: file_ok_def)
    show ?thesis
    proof (cases rule: attach_cases [OF assms(1) field])
      case 1
      then have "runs v (\<lambda>s. file_block_walk s f n True) (Inl (- E_NO_DISK)) v"
        using False assms(2) load none unfolding runs_def file_block_walk_def by fastforce
      then show ?thesis using full 1(2) by blast
    next
      case (2 b)
      let ?v = "grown v b (f_indirect f)"
      note g = grow_indirect [OF assms(1) 2(2,3) none]
      have "layout v" using assms(1) by (simp add: file_ok_def)
      then have "0 < b" using free_is_data 2(2,3) by blast
      then have ok: "file_ok ?v f" "ind ?v f \<noteq> 0" using g(1,2) by (simp_all add: keeps_def)
      have "runs ?v (\<lambda>s. indirect_slot s f n) (Inr (slot ?v f n)) ?v" using ok False assms(2) by (intro indirect_slot_runs) auto
      then have "runs v (\<lambda>s. file_block_walk s f n True) (Inr (slot ?v f n)) ?v"
        using False assms(2) load none 2(1) unfolding runs_def file_block_walk_def by fastforce
      then show ?thesis using slot g(1) ok(2) by blast
    qed
  qed
qed

lemma get_block_cases:
  assumes "file_ok v f" and "n < MAXBLOCKS"
  obtains (full) v' where "runs v (\<lambda>s. file_get_block s f n) (Inl (- E_NO_DISK)) v'" "keeps f v v'" "\<And>b. b < nblocks v' \<Longrightarrow> used v' b"
    | (block) v' where "runs v (\<lambda>s. file_get_block s f n) (Inr (bno v' f n * BLKWORDS)) v'" "keeps f v v'" "bno v' f n \<noteq> 0"
proof (cases rule: walk_cases [OF assms])
  case 1
  then have "runs v (\<lambda>s. file_get_block s f n) (Inl (- E_NO_DISK)) v" unfolding runs_def file_get_block_def by fastforce
  then show ?thesis using full keeps_refl [OF assms(1)] 1(2) by blast
next
  case (2 v1)
  have ok: "file_ok v1 f" using 2(2) by (simp add: keeps_def)
  have lay: "layout v1" using ok by (simp add: file_ok_def)
  note sl = slot_ok [OF ok assms(2) 2(3)]
  have have_bno: "bno v1 f n = unat (v1 (slot v1 f n))" using 2(3) by (auto simp: bno_def ind_def)
  have found: "runs v2 (\<lambda>s. do { (bno, s) \<leftarrow> load s p; (blk, s) \<leftarrow> diskaddr s (unat bno); Some (Inr blk, s) })
      (Inr (bno v2 f n * BLKWORDS)) v2" if "file_ok v2 f" "slot v2 f n = p" "bno v2 f n \<noteq> 0" for v2 p
  proof -
    have cond: "n < NDIRECT \<or> ind v2 f \<noteq> 0" using that(3) by (auto simp: bno_def ind_def unat_eq_zero split: if_splits)
    have eq: "unat (v2 p) = bno v2 f n" using that cond by (auto simp: bno_def ind_def)
    have lay2: "layout v2" using that(1) by (simp add: file_ok_def)
    have "used v2 (p div BLKWORDS)" using slot_ok(1) [OF that(1) assms(2) cond] that(2) by simp
    moreover have "used v2 (bno v2 f n)" using own_used [OF that(1) bno_own [OF assms(2) that(3)]] by simp
    then have "runs v2 (\<lambda>s. diskaddr s (unat (v2 p))) (bno v2 f n * BLKWORDS) v2"
      unfolding eq using lay2 that(3) by (intro diskaddr_runs) (auto simp: used_def)
    ultimately show ?thesis using lay2 by (intro runs_bind [OF load_runs] runs_bind [where x = "bno v2 f n * BLKWORDS"]) (auto intro: runs_ret)
  qed
  have load: "runs v1 (\<lambda>s. load s (slot v1 f n)) (v1 (slot v1 f n)) v1" using lay sl(1) by (rule load_runs)
  show ?thesis
  proof (cases "v1 (slot v1 f n) = 0")
    case False
    then have nz: "bno v1 f n \<noteq> 0" using have_bno by (simp add: unat_eq_zero)
    then have "runs v (\<lambda>s. file_get_block s f n) (Inr (bno v1 f n * BLKWORDS)) v1"
      using found [OF ok refl nz] load 2(1) False unfolding runs_def file_get_block_def by fastforce
    then show ?thesis using block 2(2) nz by blast
  next
    case True
    show ?thesis
    proof (cases rule: attach_cases [OF ok sl(2,1)])
      case 1
      then have "runs v (\<lambda>s. file_get_block s f n) (Inl (- E_NO_DISK)) v1"
        using load 2(1) True unfolding runs_def file_get_block_def by fastforce
      then show ?thesis using full 2(2) 1(2) by blast
    next
      case (2 b)
      note g = grow_slot [OF ok 2(2,3) assms(2) \<open>n < NDIRECT \<or> ind v1 f \<noteq> 0\<close> True]
      let ?v = "grown v1 b (slot v1 f n)"
      have nz: "bno ?v f n \<noteq> 0" using free_is_data [OF lay 2(2,3)] g(2) by simp
      have "file_ok ?v f" using g(1) by (simp add: keeps_def)
      note fin = found [OF this g(3) nz]
      then have "runs v (\<lambda>s. file_get_block s f n) (Inr (bno ?v f n * BLKWORDS)) ?v"
        using load \<open>runs v (\<lambda>s. file_block_walk s f n True) (Inr (slot v1 f n)) v1\<close> True 2(1)
        unfolding runs_def file_get_block_def by fastforce
      then show ?thesis using block nz keeps_trans [OF \<open>keeps f v v1\<close> g(1)] by blast
    qed
  qed
qed

section \<open>Positions\<close>

abbreviation MAXFILESIZE :: nat where "MAXFILESIZE \<equiv> MAXBLOCKS * BLKSIZE"

lemma position:
  assumes "unat x < 2 ^ 31"
  shows "unat (cdiv x BLKSIZE) = unat x div BLKSIZE" "unat (cmod x BLKSIZE) = unat x mod BLKSIZE"
    "char_addr (b * BLKWORDS) x = b * BLKSIZE + unat x mod BLKSIZE"
proof -
  show "unat (cdiv x BLKSIZE) = unat x div BLKSIZE" "unat (cmod x BLKSIZE) = unat x mod BLKSIZE"
    using assms by (simp_all add: cdiv_cmod_small)
  then have "sint (cmod x BLKSIZE) = int (unat x mod BLKSIZE)"
    using sint_small [of "cmod x BLKSIZE"] less_trans [of "unat x mod BLKSIZE" BLKSIZE "2 ^ 31"] by simp
  then show "char_addr (b * BLKWORDS) x = b * BLKSIZE + unat x mod BLKSIZE" by (simp add: char_addr_def nat_add_distrib)
qed

lemma chunk_size:
  assumes "pos < ends" and "unat ends < 2 ^ 31"
  shows "unat (chunk ends pos) = min (BLKSIZE - unat pos mod BLKSIZE) (unat ends - unat pos)"
    "unat (pos + chunk ends pos) = unat pos + unat (chunk ends pos)" "0 < unat (chunk ends pos)"
    "unat pos + unat (chunk ends pos) \<le> unat ends" "unat pos mod BLKSIZE + unat (chunk ends pos) \<le> BLKSIZE"
proof -
  have pos: "unat pos < unat ends" "unat pos < 2 ^ 31" using assms by (simp_all add: word_less_nat_alt)
  define r where "r = unat pos mod BLKSIZE"
  have m: "unat (cmod pos BLKSIZE) = r" using position(2) [OF pos(2)] by (simp add: r_def)
  have le: "r < BLKSIZE" by (simp add: r_def)
  have "unat (of_nat BLKSIZE - cmod pos BLKSIZE) = BLKSIZE - r"
    using le m by (subst unat_sub) (simp_all add: word_le_nat_alt)
  moreover have "unat (ends - pos) = unat ends - unat pos" using pos by (intro unat_sub) (simp add: word_le_nat_alt)
  ultimately have c: "unat (chunk ends pos) = min (BLKSIZE - r) (unat ends - unat pos)"
    by (auto simp: chunk_def min_def word_le_nat_alt)
  then show "unat (chunk ends pos) = min (BLKSIZE - unat pos mod BLKSIZE) (unat ends - unat pos)" by (simp add: r_def)
  have b: "unat pos + unat (chunk ends pos) \<le> unat ends" "r + unat (chunk ends pos) \<le> BLKSIZE" "0 < unat (chunk ends pos)"
    unfolding c min_def using pos le by auto
  then show "unat pos + unat (chunk ends pos) \<le> unat ends" "unat pos mod BLKSIZE + unat (chunk ends pos) \<le> BLKSIZE"
    "0 < unat (chunk ends pos)" by (simp_all add: r_def)
  then show "unat (pos + chunk ends pos) = unat pos + unat (chunk ends pos)"
    using assms(2) by (simp add: unat_word_ariths)
qed

section \<open>Reading\<close>

lemma load_chars_runs:
  "layout v \<Longrightarrow> used v b \<Longrightarrow> k + n \<le> BLKSIZE \<Longrightarrow>
     runs v (\<lambda>s. load_chars s (b * BLKSIZE + k) n) (map (\<lambda>i. vbyte v (b * BLKSIZE + k + i)) [0 ..< n]) v"
proof (induction n arbitrary: k)
  case 0
  then show ?case by (simp add: runs_ret)
next
  case (Suc n)
  let ?a = "b * BLKSIZE + k"
  have "runs v (\<lambda>s. load_char s ?a) (vbyte v ?a) v" using Suc.prems by (intro load_char_runs) simp_all
  moreover have "runs v (\<lambda>s. load_chars s (?a + 1) n) (map (\<lambda>i. vbyte v (?a + 1 + i)) [0 ..< n]) v"
    using Suc.IH [of "Suc k"] Suc.prems by simp
  moreover have "map (\<lambda>i. vbyte v (?a + i)) [0 ..< Suc n] = vbyte v ?a # map (\<lambda>i. vbyte v (?a + 1 + i)) [0 ..< n]"
    by (simp add: upt_conv_Cons map_Suc_upt [symmetric] del: upt_Suc)
  ultimately show ?case
    by (auto intro!: runs_bind [where x = "vbyte v ?a"] runs_bind [where x = "map (\<lambda>i. vbyte v (?a + 1 + i)) [0 ..< n]"] intro: runs_ret)
qed

lemma contents_in_block:
  assumes "bno v f (pos div BLKSIZE) \<noteq> 0" and "pos mod BLKSIZE + i < BLKSIZE"
  shows "contents v f (pos + i) = vbyte v (bno v f (pos div BLKSIZE) * BLKSIZE + pos mod BLKSIZE + i)"
proof -
  have "(pos + i) div BLKSIZE = pos div BLKSIZE" by (rule div_add_small) (rule assms)
  moreover have "(pos + i) mod BLKSIZE = pos mod BLKSIZE + i"
    using assms(2) by (metis mod_add_left_eq mod_less)
  ultimately show ?thesis using assms(1) by (simp add: contents_def add.assoc)
qed

lemma block_position: "pos < MAXFILESIZE \<Longrightarrow> pos div BLKSIZE < MAXBLOCKS"
  by (simp add: less_mult_imp_div_less)

lemma keeps_contents: "keeps f v v' \<Longrightarrow> pos < MAXFILESIZE \<Longrightarrow> contents v' f pos = contents v f pos"
  by (simp add: keeps_def)

lemma map_upt_split: "a \<le> b \<Longrightarrow> b \<le> c \<Longrightarrow> map g [a ..< c] = map (\<lambda>i. g (a + i)) [0 ..< b - a] @ map g [b ..< c]"
proof -
  assume "a \<le> b" "b \<le> c"
  moreover have "[a ..< b] = map (\<lambda>i. a + i) [0 ..< b - a]" using \<open>a \<le> b\<close> map_add_upt [of a "b - a"] by (simp add: add.commute)
  ultimately show ?thesis using upt_add_eq_append [of a b "c - b"] by simp
qed

lemma get_block_present:
  assumes "file_ok v f" and "n < MAXBLOCKS" and "bno v f n \<noteq> 0"
  shows "runs v (\<lambda>s. file_get_block s f n) (Inr (bno v f n * BLKWORDS)) v"
  unfolding runs_def
proof (intro allI impI)
  fix s
  assume "at s v"
  have cond: "n < NDIRECT \<or> ind v f \<noteq> 0" using assms(3) by (auto simp: bno_def ind_def unat_eq_zero split: if_splits)
  have eq: "unat (v (slot v f n)) = bno v f n" using cond by (auto simp: bno_def ind_def)
  have lay: "layout v" using assms(1) by (simp add: file_ok_def)
  have "runs v (\<lambda>s. file_block_walk s f n True) (Inr (slot v f n)) v"
  proof (cases "n < NDIRECT")
    case True
    then show ?thesis using runs_ret [of v "Inr (slot v f n)"] by (simp add: file_block_walk_def slot_def)
  next
    case False
    then have "v (f_indirect f) \<noteq> 0" using cond by (auto simp: ind_def)
    moreover have "runs v (\<lambda>s. indirect_slot s f n) (Inr (slot v f n)) v" using assms cond False by (intro indirect_slot_runs) auto
    ultimately show ?thesis
      using False assms(2) file_load [OF assms(1), of 44] unfolding runs_def file_block_walk_def by fastforce
  qed
  then obtain s1 where 1: "file_block_walk s f n True = Some (Inr (slot v f n), s1)" "at s1 v"
    using \<open>at s v\<close> unfolding runs_def by blast
  have load: "runs v (\<lambda>s. load s (slot v f n)) (v (slot v f n)) v" using lay slot_ok(1) [OF assms(1,2) cond] by (rule load_runs)
  obtain s2 where 2: "load s1 (slot v f n) = Some (v (slot v f n), s2)" "at s2 v" using load 1(2) unfolding runs_def by blast
  obtain s3 where 3: "load s2 (slot v f n) = Some (v (slot v f n), s3)" "at s3 v" using load 2(2) unfolding runs_def by blast
  have "used v (bno v f n)" using own_used [OF assms(1) bno_own [OF assms(2,3)]] by simp
  then have "runs v (\<lambda>s. diskaddr s (bno v f n)) (bno v f n * BLKWORDS) v"
    using lay assms(3) by (intro diskaddr_runs) (auto simp: used_def)
  then obtain s4 where "diskaddr s3 (bno v f n) = Some (bno v f n * BLKWORDS, s4)" "at s4 v" using 3(2) unfolding runs_def by blast
  moreover have "v (slot v f n) \<noteq> 0" using eq assms(3) by auto
  ultimately show "\<exists>s'. file_get_block s f n = Some (Inr (bno v f n * BLKWORDS), s') \<and> at s' v"
    using 1 2 3 eq by (simp add: file_get_block_def)
qed

lemma read_step:
  assumes "pos < ends" and "runs v (\<lambda>s. file_get_block s f (unat (cdiv pos BLKSIZE))) (Inr blk) v1"
    and "runs v1 (\<lambda>s. load_chars s (char_addr blk pos) (unat (chunk ends pos))) cs v1"
    and "runs v1 (\<lambda>s. file_read_loop s f ends (pos + chunk ends pos) (buf @ cs)) r v2"
  shows "runs v (\<lambda>s. file_read_loop s f ends pos buf) r v2"
  unfolding runs_def
proof (intro allI impI)
  fix s
  assume "at s v"
  then obtain s1 where 1: "file_get_block s f (unat (cdiv pos BLKSIZE)) = Some (Inr blk, s1)" "at s1 v1"
    using assms(2) unfolding runs_def by blast
  then obtain s2 where 2: "load_chars s1 (char_addr blk pos) (unat (chunk ends pos)) = Some (cs, s2)" "at s2 v1"
    using assms(3) unfolding runs_def by blast
  show "\<exists>s'. file_read_loop s f ends pos buf = Some (r, s') \<and> at s' v2"
    using 1 2 assms(1,4) by (subst file_read_loop.simps) (simp add: runs_def)
qed

lemma load_chunk:
  assumes ok: "file_ok v f" and pos: "pos < ends" "unat ends \<le> MAXFILESIZE" and b: "bno v f (unat pos div BLKSIZE) \<noteq> 0"
  shows "runs v (\<lambda>s. load_chars s (char_addr (bno v f (unat pos div BLKSIZE) * BLKWORDS) pos) (unat (chunk ends pos)))
    (map (\<lambda>i. contents v f (unat pos + i)) [0 ..< unat (chunk ends pos)]) v"
proof -
  have lt: "unat pos < unat ends" "unat ends < 2 ^ 31" "unat pos < 2 ^ 31" "unat pos < MAXFILESIZE"
    using pos by (simp_all add: word_less_nat_alt)
  note c = chunk_size [OF pos(1) lt(2)]
  have "layout v" "used v (bno v f (unat pos div BLKSIZE))"
    using ok own_used [OF ok bno_own [OF block_position [OF lt(4)] b]] by (simp_all add: file_ok_def)
  moreover have "vbyte v (bno v f (unat pos div BLKSIZE) * BLKSIZE + unat pos mod BLKSIZE + i) = contents v f (unat pos + i)"
    if "i < unat (chunk ends pos)" for i
    using contents_in_block [OF b] that c(5) by simp
  then have cs: "map (\<lambda>i. vbyte v (bno v f (unat pos div BLKSIZE) * BLKSIZE + unat pos mod BLKSIZE + i)) [0 ..< unat (chunk ends pos)] =
      map (\<lambda>i. contents v f (unat pos + i)) [0 ..< unat (chunk ends pos)]" by auto
  ultimately show ?thesis using load_chars_runs [OF _ _ c(5)] unfolding position(3) [OF lt(3)] cs [symmetric] by blast
qed

lemma read_loop_present:
  "file_ok v f \<Longrightarrow> pos \<le> ends \<Longrightarrow> unat ends \<le> MAXFILESIZE \<Longrightarrow>
    (\<And>p. unat pos \<le> p \<Longrightarrow> p < unat ends \<Longrightarrow> bno v f (p div BLKSIZE) \<noteq> 0) \<Longrightarrow>
    runs v (\<lambda>s. file_read_loop s f ends pos buf) (Inr (buf @ map (contents v f) [unat pos ..< unat ends])) v"
proof (induction "unat ends - unat pos" arbitrary: pos buf rule: less_induct)
  case less
  show ?case
  proof (cases "pos = ends")
    case True
    then show ?thesis using runs_ret [of v "Inr buf"] by (subst file_read_loop.simps) simp
  next
    case False
    then have lt: "pos < ends" using less.prems(2) by simp
    have pos: "unat pos < unat ends" "unat ends < 2 ^ 31" "unat pos < 2 ^ 31" "unat pos < MAXFILESIZE"
      using lt less.prems(3) by (simp_all add: word_less_nat_alt)
    note c = chunk_size [OF lt pos(2)]
    let ?n = "unat pos div BLKSIZE" and ?c = "unat (chunk ends pos)" and ?pos = "pos + chunk ends pos"
    let ?cs = "map (\<lambda>i. contents v f (unat pos + i)) [0 ..< ?c]"
    have b: "bno v f ?n \<noteq> 0" using less.prems(4) [of "unat pos"] pos(1) by simp
    have get: "runs v (\<lambda>s. file_get_block s f (unat (cdiv pos BLKSIZE))) (Inr (bno v f ?n * BLKWORDS)) v"
      using get_block_present [OF less.prems(1) block_position [OF pos(4)] b] by (simp only: position(1) [OF pos(3)])
    have le: "?pos \<le> ends" "unat ends - unat ?pos < unat ends - unat pos" "unat ?pos = unat pos + ?c"
      using c(2,3,4) pos(1) by (simp_all add: word_le_nat_alt)
    have "bno v f (p div BLKSIZE) \<noteq> 0" if "unat ?pos \<le> p" "p < unat ends" for p
      using less.prems(4) [of p] that le(3) by simp
    then have rest: "runs v (\<lambda>s. file_read_loop s f ends ?pos (buf @ ?cs)) (Inr ((buf @ ?cs) @ map (contents v f) [unat ?pos ..< unat ends])) v"
      using less.hyps [OF le(2) less.prems(1) le(1) less.prems(3)] by blast
    have "?cs @ map (contents v f) [unat ?pos ..< unat ends] = map (contents v f) [unat pos ..< unat ends]"
      using map_upt_split [of "unat pos" "unat ?pos" "unat ends" "contents v f"] le c(4) by simp
    then show ?thesis
      using read_step [OF lt get load_chunk [OF less.prems(1) lt less.prems(3) b] rest] unfolding append_assoc by simp
  qed
qed

lemma read_loop_cases:
  "file_ok v f \<Longrightarrow> pos \<le> ends \<Longrightarrow> unat ends \<le> MAXFILESIZE \<Longrightarrow>
    (\<exists>v'. runs v (\<lambda>s. file_read_loop s f ends pos buf) (Inl (- E_NO_DISK)) v' \<and> keeps f v v' \<and> (\<forall>b<nblocks v'. used v' b)) \<or>
    (\<exists>v'. runs v (\<lambda>s. file_read_loop s f ends pos buf) (Inr (buf @ map (contents v f) [unat pos ..< unat ends])) v' \<and> keeps f v v')"
proof (induction "unat ends - unat pos" arbitrary: v pos buf rule: less_induct)
  case less
  show ?case
  proof (cases "pos = ends")
    case True
    then have "runs v (\<lambda>s. file_read_loop s f ends pos buf) (Inr buf) v"
      using runs_ret [of v "Inr buf"] by (subst file_read_loop.simps) simp
    then show ?thesis using True keeps_refl [OF less.prems(1)] by auto
  next
    case False
    then have lt: "pos < ends" using less.prems(2) by simp
    have pos: "unat pos < unat ends" "unat ends < 2 ^ 31" "unat pos < 2 ^ 31" "unat pos < MAXFILESIZE"
      using lt less.prems(3) by (simp_all add: word_less_nat_alt)
    note c = chunk_size [OF lt pos(2)] and p = position [OF pos(3)]
    let ?n = "unat pos div BLKSIZE" and ?c = "unat (chunk ends pos)"
    show ?thesis
    proof (cases rule: get_block_cases [OF less.prems(1) block_position [OF pos(4)]])
      case (1 v1)
      then have "runs v (\<lambda>s. file_read_loop s f ends pos buf) (Inl (- E_NO_DISK)) v1"
        using lt unfolding runs_def p(1) [symmetric] by (subst file_read_loop.simps) fastforce
      then show ?thesis using 1 by blast
    next
      case (2 v1)
      have ok: "file_ok v1 f" "layout v1" "used v1 (bno v1 f ?n)"
        using 2(2,3) own_used [OF _ bno_own [OF block_position [OF pos(4)] 2(3)]] by (auto simp: keeps_def file_ok_def)
      let ?cs = "map (\<lambda>i. contents v f (unat pos + i)) [0 ..< ?c]"
      have "contents v1 f (unat pos + i) = contents v f (unat pos + i)" if "i < ?c" for i
        using keeps_contents [OF 2(2)] that c(4) less.prems(3) by simp
      then have cs: "map (\<lambda>i. contents v1 f (unat pos + i)) [0 ..< ?c] = ?cs" by auto
      have "runs v1 (\<lambda>s. load_chars s (char_addr (bno v1 f ?n * BLKWORDS) pos) ?c) ?cs v1"
        using load_chunk [OF ok(1) lt less.prems(3) 2(3)] unfolding cs .
      moreover have "runs v (\<lambda>s. file_get_block s f (unat (cdiv pos BLKSIZE))) (Inr (bno v1 f ?n * BLKWORDS)) v1"
        using 2(1) by (simp only: p(1))
      ultimately have step: "runs v (\<lambda>s. file_read_loop s f ends pos buf) r v2"
        if "runs v1 (\<lambda>s. file_read_loop s f ends (pos + chunk ends pos) (buf @ ?cs)) r v2" for r v2
        using read_step [OF lt] that by blast
      let ?pos = "pos + chunk ends pos"
      have le: "?pos \<le> ends" "unat ends - unat ?pos < unat ends - unat pos" "unat ?pos = unat pos + ?c"
        using c(2,3,4) pos(1) by (simp_all add: word_le_nat_alt)
      have rest: "map (contents v1 f) [unat ?pos ..< unat ends] = map (contents v f) [unat ?pos ..< unat ends]"
        using keeps_contents [OF 2(2)] less.prems(3) by auto
      have all: "?cs @ map (contents v f) [unat ?pos ..< unat ends] = map (contents v f) [unat pos ..< unat ends]"
        using map_upt_split [of "unat pos" "unat ?pos" "unat ends" "contents v f"] le c(4) by simp
      from less.hyps [OF le(2) ok(1) le(1) less.prems(3), of "buf @ ?cs"] show ?thesis
      proof (elim disjE exE conjE)
        fix v2
        assume "runs v1 (\<lambda>s. file_read_loop s f ends ?pos (buf @ ?cs)) (Inl (- E_NO_DISK)) v2" "keeps f v1 v2" "\<forall>b<nblocks v2. used v2 b"
        then show ?thesis using step keeps_trans [OF 2(2)] by blast
      next
        fix v2
        assume "runs v1 (\<lambda>s. file_read_loop s f ends ?pos (buf @ ?cs)) (Inr ((buf @ ?cs) @ map (contents v1 f) [unat ?pos ..< unat ends])) v2"
          "keeps f v1 v2"
        then show ?thesis using step keeps_trans [OF 2(2)] unfolding rest append_assoc all by blast
      qed
    qed
  qed
qed

section \<open>Writing\<close>

text \<open>Changes to the size and inside blocks of data leave the structure of the file as it is.\<close>

lemma own_change:
  assumes ok: "file_ok v f"
    and same: "\<And>x. v' x = v x \<or> x = f_size f \<or> (\<exists>n<MAXBLOCKS. bno v f n \<noteq> 0 \<and> x div BLKWORDS = bno v f n)"
  shows "file_ok v' f" "m < MAXBLOCKS \<Longrightarrow> bno v' f m = bno v f m" "nblocks v' = nblocks v" "used v' = used v" "own v' f = own v f"
    "elsewhere v f x \<Longrightarrow> x \<noteq> f_size f \<Longrightarrow> v' x = v x" "elsewhere v' f x = elsewhere v f x"
proof -
  have b: "used v (bno v f n)" "data_blk v (bno v f n)" "bno v f n \<noteq> f div BLKWORDS" "bno v f n \<in> own v f"
    if "n < MAXBLOCKS" "bno v f n \<noteq> 0" for n
    using own_used [OF ok bno_own [OF that]] bno_own [OF that] by simp_all
  have size: "inert v (f_size f)" "f_size f div BLKWORDS = f div BLKWORDS" using field_block [OF ok, of 32] by simp_all
  have inert: "v' x = v x" if "\<not> inert v x" for x using same [of x] that b(2) data_inert size(1) by metis
  have s1: "v' (SUPER + 1) = v (SUPER + 1)" by (rule inert) (simp add: inert_def)
  have s2: "v' (BITMAP + c div 32) = v (BITMAP + c div 32)" if "c < nblocks v" for c
    using inert_bitmap that by (intro inert) blast
  note s = same_bitmap [of v' v, OF s1 s2]
  show n: "nblocks v' = nblocks v" and u: "used v' = used v" by (rule s; assumption)+
  have bm: "bitmap_blk v' = bitmap_blk v" "data_blk v' = data_blk v" "layout v' = layout v" by (rule s; assumption)+
  have field: "v' (f + k) = v (f + k)" if "k < 64" "k \<noteq> 32" for k
    using field_block(1) [OF ok that(1)] b(3) same [of "f + k"] that(2) by (metis add_left_cancel)
  have slots: "slot v' f m = slot v f m" "ind v' f = ind v f" for m using field [of 44] by (simp_all add: slot_def ind_def)
  have bno: "bno v' f m = bno v f m" if "m < MAXBLOCKS" for m
  proof (cases "m < NDIRECT \<or> ind v f \<noteq> 0")
    case True
    have i: "ind v f \<noteq> 0 \<Longrightarrow> n < MAXBLOCKS \<Longrightarrow> ind v f \<noteq> bno v f n" for n using ok by (metis file_ok_def)
    have "v' (slot v f m) = v (slot v f m)"
    proof (cases "m < NDIRECT")
      case True
      then show ?thesis using field [of "34 + m"] by (simp add: slot_def add.assoc)
    next
      case False
      then have "slot v f m div BLKWORDS = ind v f" "ind v f \<noteq> 0" using slot_ok(3) [OF ok that] True by auto
      moreover have "ind v f \<noteq> f div BLKWORDS" using own_used [OF ok, of "ind v f"] \<open>ind v f \<noteq> 0\<close> by (simp add: own_def)
      ultimately show ?thesis using same [of "slot v f m"] i size(2) by metis
    qed
    then show ?thesis using slots(1) field [of 44] by (simp add: bno_def)
  next
    case False
    then show ?thesis using field [of 44] by (simp add: bno_def ind_def unat_eq_zero)
  qed
  then show "m < MAXBLOCKS \<Longrightarrow> bno v' f m = bno v f m" .
  have "bno v' f ` {..<MAXBLOCKS} = bno v f ` {..<MAXBLOCKS}" using bno by (intro image_cong) auto
  then show own: "own v' f = own v f" using slots(2) by (simp add: own_def)
  show "file_ok v' f" using ok bno slots(2) own n u bm unfolding file_ok_def by metis
  show "v' x = v x" if "elsewhere v f x" "x \<noteq> f_size f"
    using that same [of x] b(4) unfolding elsewhere_def by metis
  show "elsewhere v' f x = elsewhere v f x" by (simp add: elsewhere_def own u bm)
qed

lemma put_in_block:
  assumes "k + length cs \<le> BLKSIZE" and "x div BLKWORDS \<noteq> b"
  shows "put_chars (b * BLKSIZE + k) cs v x = v x"
proof (rule put_chars_elsewhere)
  have lo: "(b * BLKSIZE + k) div 4 = b * BLKWORDS + k div 4" by simp
  have hi: "(b * BLKSIZE + k + length cs + 3) div 4 \<le> (b + 1) * BLKWORDS" using assms(1) by simp
  have "x < b * BLKWORDS \<or> (b + 1) * BLKWORDS \<le> x"
  proof (rule ccontr)
    assume "\<not> (x < b * BLKWORDS \<or> (b + 1) * BLKWORDS \<le> x)"
    then have "x div BLKWORDS = b" by (intro div_nat_eqI) auto
    then show False using assms(2) by simp
  qed
  then show "x < (b * BLKSIZE + k) div 4 \<or> (b * BLKSIZE + k + length cs + 3) div 4 \<le> x" using lo hi by linarith
qed

definition wrote :: "nat \<Rightarrow> (nat \<Rightarrow> u8) \<Rightarrow> view \<Rightarrow> view \<Rightarrow> bool" where
  "wrote f c v v' \<longleftrightarrow> file_ok v' f \<and> nblocks v' = nblocks v \<and> v' (f_size f) = v (f_size f) \<and>
     (\<forall>n<MAXBLOCKS. bno v f n \<noteq> 0 \<longrightarrow> bno v' f n = bno v f n) \<and> (\<forall>pos<MAXFILESIZE. contents v' f pos = c pos) \<and>
     (\<forall>c. used v c \<longrightarrow> used v' c) \<and> own v' f \<subseteq> own v f \<union> {c. \<not> used v c} \<and> (\<forall>x. elsewhere v f x \<longrightarrow> v' x = v x)"

lemma keeps_wrote: "keeps f v v' \<Longrightarrow> wrote f (contents v f) v v'"
  by (simp add: keeps_def wrote_def)

lemma wrote_trans:
  assumes "wrote f c v v'" and "wrote f c' v' v''"
  shows "wrote f c' v v''"
proof -
  have "elsewhere v' f x" if "elsewhere v f x" for x
    using that assms(1) bitmap_blk_cong [of v' v] by (auto simp: elsewhere_def wrote_def)
  then show ?thesis using assms unfolding wrote_def by (auto simp: subset_iff)
qed

lemma wrote_cong: "wrote f c v v' \<Longrightarrow> (\<And>pos. pos < MAXFILESIZE \<Longrightarrow> c pos = c' pos) \<Longrightarrow> wrote f c' v v'"
  by (simp add: wrote_def)

lemma write_chunk:
  assumes ok: "file_ok v f" and pos: "pos < MAXFILESIZE" and b: "bno v f (pos div BLKSIZE) \<noteq> 0"
    and len: "pos mod BLKSIZE + length cs \<le> BLKSIZE"
  shows "wrote f (over pos cs (contents v f)) v (put_chars (bno v f (pos div BLKSIZE) * BLKSIZE + pos mod BLKSIZE) cs v)"
proof -
  let ?n = "pos div BLKSIZE"
  let ?b = "bno v f ?n"
  let ?v = "put_chars (?b * BLKSIZE + pos mod BLKSIZE) cs v"
  have n: "?n < MAXBLOCKS" using pos by (rule block_position)
  have same: "?v x = v x" if "x div BLKWORDS \<noteq> ?b" for x using len that by (rule put_in_block)
  then have "?v x = v x \<or> x = f_size f \<or> (\<exists>n<MAXBLOCKS. bno v f n \<noteq> 0 \<and> x div BLKWORDS = bno v f n)" for x
    using n b by blast
  note c = own_change [OF ok this] and bno = own_change(2) [OF ok this]
  have "contents ?v f p = over pos cs (contents v f) p" if "p < MAXFILESIZE" for p
  proof (cases "p div BLKSIZE = ?n")
    case True
    define q r where "q = p mod BLKSIZE" and "r = pos mod BLKSIZE"
    have p: "p = ?n * BLKSIZE + q" "pos = ?n * BLKSIZE + r" "q < BLKSIZE"
      unfolding q_def r_def True [symmetric] by simp_all (simp add: True)
    have "contents ?v f p = over (?b * BLKSIZE + r) cs (vbyte v) (?b * BLKSIZE + q)"
      using b bno [OF n] by (simp add: contents_def True vbyte_put_chars q_def r_def)
    also have "\<dots> = (if r \<le> q \<and> q < r + length cs then cs ! (q - r) else vbyte v (?b * BLKSIZE + q))" by (auto simp: over_def)
    also have "\<dots> = over pos cs (contents v f) p"
    proof -
      have "pos \<le> p \<and> p < pos + length cs \<longleftrightarrow> r \<le> q \<and> q < r + length cs" "p - pos = q - r" using p(1,2) by linarith+
      then show ?thesis using b by (simp add: over_def contents_def True q_def)
    qed
    finally show ?thesis .
  next
    case False
    have m: "p div BLKSIZE < MAXBLOCKS" using that by (rule block_position)
    have "bno v f (p div BLKSIZE) \<noteq> ?b \<or> bno v f (p div BLKSIZE) = 0"
      using ok m n False unfolding file_ok_def by metis
    then have "contents ?v f p = contents v f p"
      using same bno [OF m] b by (intro contents_bno [OF _ refl]) auto
    moreover have "\<not> (pos \<le> p \<and> p < pos + length cs)"
    proof
      assume "pos \<le> p \<and> p < pos + length cs"
      then have "pos mod BLKSIZE + (p - pos) < BLKSIZE" "pos + (p - pos) = p" using len by auto
      then show False using False div_add_small [of pos BLKSIZE "p - pos"] by simp
    qed
    ultimately show ?thesis by (auto simp: over_def)
  qed
  moreover have size: "?v (f_size f) = v (f_size f)"
    using field_block(1) [OF ok, of 32] own_used [OF ok bno_own [OF n b]] by (intro same) simp
  moreover have "?v x = v x" if "elsewhere v f x" for x using c(6) [OF that] size by blast
  ultimately show ?thesis unfolding wrote_def using c(1,3,4,5) bno by simp
qed

lemma upt_split: "c \<le> d \<Longrightarrow> [i ..< i + d] = [i ..< i + c] @ [i + c ..< i + c + (d - c)]"
  using upt_add_eq_append [of i "i + c" "d - c"] by simp

lemma write_step:
  assumes "pos < ends" and "runs v (\<lambda>s. file_get_block s f (unat (cdiv pos BLKSIZE))) (Inr blk) v1"
    and "does v1 (\<lambda>s. store_chars s (char_addr blk pos) (map buf [i ..< i + unat (chunk ends pos)])) v2"
    and "runs v2 (\<lambda>s. file_write_loop s f buf ends (pos + chunk ends pos) (i + unat (chunk ends pos))) r v3"
  shows "runs v (\<lambda>s. file_write_loop s f buf ends pos i) r v3"
  unfolding runs_def
proof (intro allI impI)
  fix s
  assume "at s v"
  then obtain s1 where 1: "file_get_block s f (unat (cdiv pos BLKSIZE)) = Some (Inr blk, s1)" "at s1 v1"
    using assms(2) unfolding runs_def by blast
  then obtain s2 where 2: "store_chars s1 (char_addr blk pos) (map buf [i ..< i + unat (chunk ends pos)]) = Some s2" "at s2 v2"
    using assms(3) unfolding does_def by blast
  show "\<exists>s'. file_write_loop s f buf ends pos i = Some (r, s') \<and> at s' v3"
    using 1 2 assms(1,4) by (subst file_write_loop.simps) (simp add: runs_def)
qed

lemma write_loop_cases:
  "file_ok v f \<Longrightarrow> pos \<le> ends \<Longrightarrow> unat ends \<le> MAXFILESIZE \<Longrightarrow>
    (\<exists>v' c. runs v (\<lambda>s. file_write_loop s f buf ends pos i) (Some (- E_NO_DISK)) v' \<and> wrote f c v v' \<and> (\<forall>b<nblocks v'. used v' b)) \<or>
    (\<exists>v'. runs v (\<lambda>s. file_write_loop s f buf ends pos i) None v' \<and>
       wrote f (over (unat pos) (map buf [i ..< i + (unat ends - unat pos)]) (contents v f)) v v' \<and>
       (\<forall>p. unat pos \<le> p \<and> p < unat ends \<longrightarrow> bno v' f (p div BLKSIZE) \<noteq> 0))"
proof (induction "unat ends - unat pos" arbitrary: v pos i rule: less_induct)
  case less
  show ?case
  proof (cases "pos = ends")
    case True
    then have "runs v (\<lambda>s. file_write_loop s f buf ends pos i) None v"
      using runs_ret [of v None] by (subst file_write_loop.simps) simp
    then show ?thesis using True keeps_wrote [OF keeps_refl [OF less.prems(1)]] by auto
  next
    case False
    then have lt: "pos < ends" using less.prems(2) by simp
    have pos: "unat pos < unat ends" "unat ends < 2 ^ 31" "unat pos < 2 ^ 31" "unat pos < MAXFILESIZE"
      using lt less.prems(3) by (simp_all add: word_less_nat_alt)
    note c = chunk_size [OF lt pos(2)] and p = position [OF pos(3)]
    let ?n = "unat pos div BLKSIZE" and ?c = "unat (chunk ends pos)" and ?pos = "pos + chunk ends pos"
    let ?cs = "map buf [i ..< i + ?c]"
    show ?thesis
    proof (cases rule: get_block_cases [OF less.prems(1) block_position [OF pos(4)]])
      case (1 v1)
      then have "runs v (\<lambda>s. file_write_loop s f buf ends pos i) (Some (- E_NO_DISK)) v1"
        using lt unfolding runs_def p(1) [symmetric] by (subst file_write_loop.simps) fastforce
      then show ?thesis using 1 keeps_wrote by blast
    next
      case (2 v1)
      let ?v = "put_chars (bno v1 f ?n * BLKSIZE + unat pos mod BLKSIZE) ?cs v1"
      have ok: "file_ok v1 f" "layout v1" "used v1 (bno v1 f ?n)" "data_blk v1 (bno v1 f ?n)"
        using 2(2,3) own_used [OF _ bno_own [OF block_position [OF pos(4)] 2(3)]] by (auto simp: keeps_def file_ok_def)
      have "does v1 (\<lambda>s. store_chars s (char_addr (bno v1 f ?n * BLKWORDS) pos) ?cs) ?v"
        using store_chars_does [OF ok(2-4)] c(5) unfolding p(3) by simp
      moreover have "runs v (\<lambda>s. file_get_block s f (unat (cdiv pos BLKSIZE))) (Inr (bno v1 f ?n * BLKWORDS)) v1"
        using 2(1) by (simp only: p(1))
      ultimately have step: "runs v (\<lambda>s. file_write_loop s f buf ends pos i) r v3"
        if "runs ?v (\<lambda>s. file_write_loop s f buf ends ?pos (i + ?c)) r v3" for r v3
        using write_step [OF lt] that by blast
      have "wrote f (over (unat pos) ?cs (contents v1 f)) v1 ?v" using ok(1) pos(4) 2(3) c(5) by (intro write_chunk) simp_all
      then have w1: "wrote f (over (unat pos) ?cs (contents v f)) v1 ?v"
        by (rule wrote_cong) (simp add: over_def keeps_contents [OF 2(2)])
      note w = wrote_trans [OF keeps_wrote [OF 2(2)] w1]
      have le: "?pos \<le> ends" "unat ends - unat ?pos < unat ends - unat pos" "unat ?pos = unat pos + ?c"
        using c(2,3,4) pos(1) by (simp_all add: word_le_nat_alt)
      have okv: "file_ok ?v f" using w by (simp add: wrote_def)
      have rest: "unat ends - unat ?pos = unat ends - unat pos - ?c" "?c \<le> unat ends - unat pos" using le c(4) by simp_all
      from less.hyps [OF le(2) okv le(1) less.prems(3), of "i + ?c"] show ?thesis
      proof (elim disjE exE conjE)
        fix v3 c
        assume "runs ?v (\<lambda>s. file_write_loop s f buf ends ?pos (i + ?c)) (Some (- E_NO_DISK)) v3" "wrote f c ?v v3" "\<forall>b<nblocks v3. used v3 b"
        then show ?thesis using step wrote_trans [OF w] by blast
      next
        fix v3
        assume r: "runs ?v (\<lambda>s. file_write_loop s f buf ends ?pos (i + ?c)) None v3"
          and w3: "wrote f (over (unat ?pos) (map buf [i + ?c ..< i + ?c + (unat ends - unat ?pos)]) (contents ?v f)) ?v v3"
          and there: "\<forall>p. unat ?pos \<le> p \<and> p < unat ends \<longrightarrow> bno v3 f (p div BLKSIZE) \<noteq> 0"
        have "bno ?v f ?n \<noteq> 0" using 2(3) w1 block_position [OF pos(4)] by (simp add: wrote_def)
        then have here: "bno v3 f ?n \<noteq> 0" using w3 block_position [OF pos(4)] by (simp add: wrote_def)
        have "bno v3 f (p div BLKSIZE) \<noteq> 0" if "unat pos \<le> p" "p < unat ends" for p
        proof (cases "p < unat ?pos")
          case True
          then have "unat pos mod BLKSIZE + (p - unat pos) < BLKSIZE" using le(3) c(5) that(1) by linarith
          then have "p div BLKSIZE = ?n" using div_add_small [of "unat pos" BLKSIZE "p - unat pos"] that(1) by simp
          then show ?thesis using here by simp
        qed (use there that in simp)
        moreover have "wrote f (over (unat pos) (map buf [i ..< i + (unat ends - unat pos)]) (contents v f)) v v3"
          using wrote_trans [OF w w3]
        proof (rule wrote_cong)
          fix p
          assume "p < MAXFILESIZE"
          then have now: "contents ?v f p = over (unat pos) ?cs (contents v f) p" using w by (simp add: wrote_def)
          have "length ?cs = ?c" by simp
          moreover have "map buf [i ..< i + (unat ends - unat pos)] = ?cs @ map buf [i + ?c ..< i + ?c + (unat ends - unat ?pos)]"
            unfolding rest(1) upt_split [OF rest(2)] by simp
          ultimately show "over (unat ?pos) (map buf [i + ?c ..< i + ?c + (unat ends - unat ?pos)]) (contents ?v f) p =
              over (unat pos) (map buf [i ..< i + (unat ends - unat pos)]) (contents v f) p"
            using over_cong [of "contents ?v f" p "over (unat pos) ?cs (contents v f)", OF now] over_append le(3) by metis
        qed
        ultimately show ?thesis using step [OF r] by blast
      qed
    qed
  qed
qed

section \<open>Properties\<close>

lemma set_size_grows:
  assumes ok: "file_ok v f" and new: "unat newsize < 2 ^ 31" "v (f_size f) < newsize"
  shows "does v (\<lambda>s. file_set_size s f newsize) (v(f_size f := newsize))"
proof -
  have f: "inert v (f_size f)" "f_size f div BLKWORDS = f div BLKWORDS" using field_block [OF ok, of 32] by simp_all
  have lay: "layout v" "used v (f div BLKWORDS)" "f div BLKWORDS < NDISK" using ok by (auto simp: file_ok_def layout_def used_def)
  have "sint (v (f_size f)) = int (unat (v (f_size f)))" "sint newsize = int (unat newsize)"
    using new by (simp_all add: sint_small word_less_nat_alt)
  then have keep: "\<not> sint (v (f_size f)) > sint newsize" using new(2) by (simp add: word_less_alt)
  have st: "does v (\<lambda>s. store s (f_size f) newsize) (v(f_size f := newsize))" using lay f by (intro store_runs) simp_all
  have fl: "does (v(f_size f := newsize)) (\<lambda>s. flush_block s f) (v(f_size f := newsize))" using lay(3) by (intro flush_runs)
  have "does v (\<lambda>s. do { s \<leftarrow> (if sint (v (f_size f)) > sint newsize then file_truncate_blocks s f newsize else Some s);
      s \<leftarrow> store s (f_size f) newsize; flush_block s f }) (v(f_size f := newsize))"
    using does_then [OF does_ret does_then [OF st fl]] keep by simp
  then show ?thesis unfolding file_set_size_def using file_load [OF ok, of 32] by (intro does_bind) simp_all
qed

lemma size_contents:
  assumes "file_ok v f" and "pos < MAXFILESIZE"
  shows "contents (v(f_size f := x)) f pos = contents v f pos"
proof -
  let ?v = "v(f_size f := x)" and ?n = "pos div BLKSIZE"
  have n: "?n < MAXBLOCKS" using assms(2) by (rule block_position)
  have "bno ?v f ?n = bno v f ?n" using n by (intro own_change(2) [OF assms(1)]) auto
  moreover have "?v y = v y" if "y div BLKWORDS = bno v f ?n" "bno v f ?n \<noteq> 0" for y
    using that own_used [OF assms(1) bno_own [OF n that(2)]] field_block(1) [OF assms(1), of 32] by auto
  ultimately show ?thesis by (intro contents_bno [OF _ refl]) auto
qed

lemma read_present:
  assumes "at s v" and ok: "file_ok v f" and ends: "unat (offset + count) = unat offset + unat count"
    and size: "unat (offset + count) \<le> unat (v (f_size f))" "unat (v (f_size f)) \<le> MAXFILESIZE"
    and there: "\<And>p. unat offset \<le> p \<Longrightarrow> p < unat (offset + count) \<Longrightarrow> bno v f (p div BLKSIZE) \<noteq> 0"
  shows "\<exists>s'. file_read s f count offset = Some (Inr (count, map (contents v f) [unat offset ..< unat (offset + count)]), s')"
proof -
  obtain s0 where s0: "load s (f_size f) = Some (v (f_size f), s0)" "at s0 v"
    using file_load [OF ok, of 32] assms(1) unfolding runs_def by auto
  have small: "sint (v (f_size f)) = int (unat (v (f_size f)))" "sint offset = int (unat offset)"
    using size ends by (intro sint_small; simp)+
  then have iff: "sint offset \<ge> sint (v (f_size f)) \<longleftrightarrow> unat offset \<ge> unat (v (f_size f))" by (simp only: of_nat_le_iff)
  show ?thesis
  proof (cases "sint offset \<ge> sint (v (f_size f))")
    case True
    then have "unat count = 0" using size(1) ends iff by simp
    then have "count = 0" by (simp add: unat_eq_zero)
    then show ?thesis using True s0 by (simp add: file_read_def)
  next
    case False
    then have "unat (v (f_size f) - offset) = unat (v (f_size f)) - unat offset"
      using iff by (intro unat_sub) (simp add: word_le_nat_alt)
    then have "count \<le> v (f_size f) - offset" unfolding word_le_nat_alt using size(1) ends by linarith
    then have "min count (v (f_size f) - offset) = count" by (rule min_absorb1)
    moreover have "runs v (\<lambda>s. file_read_loop s f (offset + count) offset []) (Inr (map (contents v f) [unat offset ..< unat (offset + count)])) v"
      using read_loop_present [of v f offset "offset + count" "[]"] ok there size ends by (simp add: word_le_nat_alt)
    ultimately show ?thesis using False s0 unfolding runs_def by (fastforce simp: file_read_def Let_def)
  qed
qed

lemma write_read_back:
  assumes "at s v" and "file_ok v f" and "unat (v (f_size f)) \<le> MAXFILESIZE" and "unat offset + unat count \<le> MAXFILESIZE"
  shows "\<exists>r s'. file_write s f buf count offset = Some (r, s') \<and>
    (r = Inl (- E_NO_DISK) \<and> (\<forall>b<nblocks (view s'). used (view s') b) \<or>
     r = Inr count \<and> (\<exists>s''. file_read s' f count offset = Some (Inr (count, map buf [0 ..< unat count]), s''))) \<and>
    (\<forall>x. elsewhere v f x \<and> x \<noteq> f_size f \<longrightarrow> view s' x = v x)"
proof -
  let ?ends = "offset + count"
  define v1 where "v1 = (if ?ends > v (f_size f) then v(f_size f := ?ends) else v)"
  have ends: "unat ?ends = unat offset + unat count" "unat ?ends \<le> MAXFILESIZE" "offset \<le> ?ends"
    using assms(4) by (simp_all add: unat_word_ariths word_le_nat_alt)
  have size1: "unat ?ends \<le> unat (v1 (f_size f))" "unat (v1 (f_size f)) \<le> MAXFILESIZE"
    using ends(2) assms(3) by (auto simp: v1_def word_less_nat_alt)
  have ok1: "file_ok v1 f" using assms(2) own_change(1) [OF assms(2), of "v(f_size f := ?ends)"] by (simp add: v1_def)
  have same1: "elsewhere v1 f x = elsewhere v f x" "x \<noteq> f_size f \<Longrightarrow> v1 x = v x" for x
    using own_change(7) [OF assms(2), of "v(f_size f := ?ends)" x] by (simp_all add: v1_def)
  obtain s0 where s0: "load s (f_size f) = Some (v (f_size f), s0)" "at s0 v"
    using file_load [OF assms(2), of 32] assms(1) unfolding runs_def by auto
  have "\<exists>s1. (if ?ends > v (f_size f) then file_set_size s0 f ?ends else Some s0) = Some s1 \<and> at s1 v1"
    using set_size_grows [OF assms(2), of ?ends] ends(2) s0(2)
    by (cases "?ends > v (f_size f)") (simp_all add: does_def v1_def)
  then obtain s1 where s1: "(if ?ends > v (f_size f) then file_set_size s0 f ?ends else Some s0) = Some s1" "at s1 v1" by blast
  from write_loop_cases [OF ok1 ends(3,2), of buf 0] show ?thesis
  proof (elim disjE exE conjE)
    fix v2 c
    assume "runs v1 (\<lambda>s. file_write_loop s f buf ?ends offset 0) (Some (- E_NO_DISK)) v2" "wrote f c v1 v2" "\<forall>b<nblocks v2. used v2 b"
    moreover from this(1) obtain s2 where "file_write_loop s1 f buf ?ends offset 0 = Some (Some (- E_NO_DISK), s2)" "at s2 v2"
      using s1(2) unfolding runs_def by blast
    ultimately show ?thesis using s0 s1 same1 by (auto simp: file_write_def wrote_def at_def)
  next
    fix v2
    assume r: "runs v1 (\<lambda>s. file_write_loop s f buf ?ends offset 0) None v2"
      and w: "wrote f (over (unat offset) (map buf [0 ..< 0 + (unat ?ends - unat offset)]) (contents v1 f)) v1 v2"
      and there: "\<forall>p. unat offset \<le> p \<and> p < unat ?ends \<longrightarrow> bno v2 f (p div BLKSIZE) \<noteq> 0"
    obtain s2 where s2: "file_write_loop s1 f buf ?ends offset 0 = Some (None, s2)" "at s2 v2"
      using r s1(2) unfolding runs_def by blast
    have ok2: "file_ok v2 f" and size2: "v2 (f_size f) = v1 (f_size f)" using w by (simp_all add: wrote_def)
    have "contents v2 f p = buf (p - unat offset)" if "unat offset \<le> p" "p < unat ?ends" for p
      using w that ends(2) by (simp add: wrote_def over_def)
    then have "map (contents v2 f) [unat offset ..< unat ?ends] = map buf [0 ..< unat count]"
      by (intro nth_equalityI) (simp_all add: ends(1))
    then have "\<exists>s''. file_read s2 f count offset = Some (Inr (count, map buf [0 ..< unat count]), s'')"
      using read_present [OF s2(2) ok2, of offset count] ends size1 size2 there by simp
    then show ?thesis using s0 s1 s2 same1 w by (auto simp: file_write_def wrote_def at_def)
  qed
qed


text \<open>The root directory of the small disk is an empty file.\<close>

lemma small_root: "file_ok small_view (SUPER + 2)"
proof -
  have "bno small_view (SUPER + 2) n = 0" for n by (auto simp: bno_def slot_def small_view_def)
  moreover have "ind small_view (SUPER + 2) = 0" by (simp add: ind_def small_view_def)
  ultimately have "own small_view (SUPER + 2) = {}" "ind small_view (SUPER + 2) = 0" "bno small_view (SUPER + 2) n = 0" for n
    by (auto simp: own_def)
  moreover have "\<not> bitmap_blk small_view 1" by (simp add: bitmap_blk_def)
  ultimately show ?thesis by (simp add: file_ok_def small_layout small_used)
qed


lemma fs_sync_loop_durable:
  assumes "layout v"
  shows "at s v \<Longrightarrow> coherent s \<Longrightarrow> 0 < i \<Longrightarrow>
    (\<And>b w. 0 < b \<Longrightarrow> b < i \<Longrightarrow> w < BLKWORDS \<Longrightarrow> disk s b w = v (b * BLKWORDS + w)) \<Longrightarrow>
    \<exists>s'. fs_sync_loop s i = Some s' \<and> at s' v \<and>
      (\<forall>b w. 0 < b \<and> b < nblocks v \<and> w < BLKWORDS \<longrightarrow> disk s' b w = v (b * BLKWORDS + w))"
proof (induction "nblocks v - i" arbitrary: s i)
  case 0
  obtain s1 where "load s (SUPER + 1) = Some (v (SUPER + 1), s1)" "at s1 v" "disk s1 = disk s"
    using load_coherent [OF 0(2) assms layout_super [OF assms] 0(3)] by blast
  moreover have "\<not> i < unat (v (SUPER + 1))" using 0(1) by (simp add: nblocks_def)
  ultimately show ?case using 0 by (subst fs_sync_loop.simps) (simp add: nblocks_def)
next
  case (Suc n)
  have "nblocks v \<le> NDISK" using assms by (simp add: layout_def)
  then have i: "i < nblocks v" "i < NDISK" using Suc(2) by linarith+
  obtain s1 where 1: "load s (SUPER + 1) = Some (v (SUPER + 1), s1)" "at s1 v" "disk s1 = disk s" "coherent s1"
    using load_coherent [OF Suc(3) assms layout_super [OF assms] Suc(4)] by blast
  obtain s2 where 2: "load s1 (SUPER + 1) = Some (v (SUPER + 1), s2)" "at s2 v" "disk s2 = disk s" "coherent s2"
    using load_coherent [OF 1(2) assms layout_super [OF assms] 1(4)] 1(3) by metis
  have div: "i * BLKWORDS div BLKWORDS = i" by simp
  obtain s3 where 3: "flush_block s2 (i * BLKWORDS) = Some s3" "at s3 v" "coherent s3"
    "\<And>w. w < BLKWORDS \<Longrightarrow> disk s3 i w = v (i * BLKWORDS + w)" "\<And>c. c \<noteq> i \<Longrightarrow> disk s3 c = disk s2 c"
    using flush_coherent [OF 2(2,4), of "i * BLKWORDS"] i(2) unfolding div by blast
  have "disk s3 b w = v (b * BLKWORDS + w)" if "0 < b" "b < Suc i" "w < BLKWORDS" for b w
    using that 3(4,5) 2(3) Suc(6) by (cases "b = i") auto
  moreover have "n = nblocks v - Suc i" using Suc(2) by simp
  ultimately obtain s' where s': "fs_sync_loop s3 (Suc i) = Some s'" "at s' v"
    "\<forall>b w. 0 < b \<and> b < nblocks v \<and> w < BLKWORDS \<longrightarrow> disk s' b w = v (b * BLKWORDS + w)"
    using Suc(1) [of "Suc i" s3] 3(2,3) by blast
  have "super_set s1" using 1(2) by (simp add: at_def)
  then have "diskaddr s1 i = Some (i * BLKWORDS, s2)" using 2(1) Suc(5) i by (simp add: diskaddr_def nblocks_def)
  then show ?case using 1(1) 3(1) s' i by (subst fs_sync_loop.simps) (simp add: nblocks_def)
qed

text \<open>C40. \<^verbatim>\<open>fs_sync\<close> returns, and afterwards every block of the disk but the boot block holds what the server saw in memory:
  writes are durable.\<close>

theorem fs_sync_durable:
  assumes "at s v" and "layout v" and "coherent s"
  shows "\<exists>s'. fs_sync s = Some s' \<and> view s' = v \<and>
    (\<forall>b w. 0 < b \<and> b < nblocks v \<and> w < BLKWORDS \<longrightarrow> disk s' b w = v (b * BLKWORDS + w))"
  using fs_sync_loop_durable [OF assms(2,1,3), of 1] by (auto simp: fs_sync_def at_def)

theorem fs_sync_durable_witness:
  "\<exists>s'. fs_sync (disk_of small_view) = Some s' \<and> disk s' 2 0 = 0xF8"
proof -
  obtain s' where s': "fs_sync (disk_of small_view) = Some s'"
    "\<forall>b w. 0 < b \<and> b < nblocks small_view \<and> w < BLKWORDS \<longrightarrow> disk s' b w = small_view (b * BLKWORDS + w)"
    using fs_sync_durable [OF disk_of_at(1) small_layout(1) disk_of_at(2)] by blast
  then have "disk s' 2 0 = small_view (2 * BLKWORDS + 0)" using small_layout(2) by (auto dest!: spec [of _ 2] spec [of _ 0])
  then show ?thesis using s'(1) by (simp add: small_view_def)
qed

text \<open>\<^verbatim>\<open>file_block_walk\<close> accepts the file block number \<^verbatim>\<open>NDIRECT + NINDIRECT\<close>, which its comment says is out of range: the slot it
  returns is the first word of the disk block behind the indirect block.\<close>

lemma file_block_walk_off_by_one:
  assumes "at s v" and "file_ok v f" and "ind v f \<noteq> 0"
  shows "\<exists>s'. file_block_walk s f (NDIRECT + NINDIRECT) alloc = Some (Inr ((ind v f + 1) * BLKWORDS), s')"
proof -
  have load: "runs v (\<lambda>s. load s (f_indirect f)) (v (f_indirect f)) v" using file_load [OF assms(2), of 44] by simp
  obtain s1 where 1: "load s (f_indirect f) = Some (v (f_indirect f), s1)" "at s1 v" using load assms(1) unfolding runs_def by blast
  obtain s2 where 2: "load s1 (f_indirect f) = Some (v (f_indirect f), s2)" "at s2 v" using load 1(2) unfolding runs_def by blast
  have "used v (ind v f)" using own_used [OF assms(2), of "ind v f"] assms(3) by (simp add: own_def)
  then have "runs v (\<lambda>s. diskaddr s (ind v f)) (ind v f * BLKWORDS) v"
    using assms(2,3) by (intro diskaddr_runs) (simp_all add: file_ok_def used_def)
  then obtain s3 where "diskaddr s2 (ind v f) = Some (ind v f * BLKWORDS, s3)" using 2(2) unfolding runs_def by blast
  moreover have "v (f_indirect f) \<noteq> 0" using assms(3) by (auto simp: ind_def)
  ultimately show ?thesis using 1 2 by (simp add: file_block_walk_def indirect_slot_def ind_def)
qed

text \<open>The root directory with block 3 as its indirect block.\<close>

definition indirect_view :: view where
  "indirect_view = (\<lambda>_. 0)(SUPER + 1 := 8, BITMAP := 0xF0, f_indirect (SUPER + 2) := 3)"

lemma indirect_root: "file_ok indirect_view (SUPER + 2)" "ind indirect_view (SUPER + 2) = 3"
proof -
  show ind: "ind indirect_view (SUPER + 2) = 3" by (simp add: ind_def indirect_view_def)
  have bno: "bno indirect_view (SUPER + 2) n = 0" for n by (auto simp: bno_def slot_def indirect_view_def)
  have own: "own indirect_view (SUPER + 2) = {3}" using ind bno by (auto simp: own_def)
  have n: "nblocks indirect_view = 8" by (simp add: nblocks_def indirect_view_def)
  have used: "used indirect_view b \<longleftrightarrow> b < 4" for b
  proof -
    have "b < 8 \<Longrightarrow> b \<in> {0, 1, 2, 3, 4, 5, 6, 7}" by auto
    then show ?thesis by (auto simp: used_def nblocks_def indirect_view_def)
  qed
  have "i = 0" if "i * 32768 < (8 :: nat)" for i using that by auto
  then have "layout indirect_view" by (auto simp: layout_def n used)
  moreover have "bitmap_blk indirect_view b \<longleftrightarrow> b = 2" for b by (auto simp: bitmap_blk_def n intro: exI [of _ 0])
  ultimately show "file_ok indirect_view (SUPER + 2)" unfolding file_ok_def own bno ind used by (simp add: data_blk_def)
qed

lemma file_block_walk_off_by_one_example:
  "\<exists>s'. file_block_walk (disk_of indirect_view) (SUPER + 2) 1034 False = Some (Inr (4 * BLKWORDS), s')"
  using file_block_walk_off_by_one [OF disk_of_at(1) indirect_root(1), of False] indirect_root(2) by simp

end
