(* ===== verification/FsServ.thy ===== *)
theory FsServ
  imports Fs
begin

text \<open>
  The main loop of the file system server, \<^verbatim>\<open>fs/serv.c\<close>. A request is a page of bytes that the client shares with the server, a function from
  offsets; what the server finds behind the page (the start of the disk map) is that function above 4096. The page of each
  \<^verbatim>\<open>struct Fd\<close> is shared with the clients that have the file open: \<open>fd_ref\<close> is what \<^verbatim>\<open>pageref\<close> returns for it, and clients may write to it.
  Whether \<^verbatim>\<open>sys_page_alloc\<close> succeeds is an argument.

  Shown is that file identifiers are sound: whatever clients do, a table entry is found only under its current identifier and while a client shares it, and
  serving a request never touches the entry of a file somebody has open, except the one named in the request.
\<close>

unbundle bit_operations_syntax

section \<open>State\<close>

abbreviation MAXOPEN :: nat where "MAXOPEN \<equiv> 1024"
abbreviation O_ACCMODE :: u32 where "O_ACCMODE \<equiv> 0x0003"
abbreviation O_CREAT :: u32 where "O_CREAT \<equiv> 0x0100"
abbreviation O_TRUNC :: u32 where "O_TRUNC \<equiv> 0x0200"
abbreviation O_EXCL :: u32 where "O_EXCL \<equiv> 0x0400"
abbreviation DEV_FILE :: u32 where "DEV_FILE \<equiv> 102"

record Fd =
  fd_dev_id :: u32
  fd_offset :: u32
  fd_omode :: u32
  fd_file_id :: u32

record OpenFile =
  o_fileid :: u32
  o_file :: nat
  o_mode :: u32

record server =
  srv :: fs
  opentab :: "nat \<Rightarrow> OpenFile"
  o_fd :: "nat \<Rightarrow> Fd"
  fd_ref :: "nat \<Rightarrow> nat"

type_synonym page = "nat \<Rightarrow> u8"

definition zero_Fd :: Fd where
  "zero_Fd = \<lparr>fd_dev_id = 0, fd_offset = 0, fd_omode = 0, fd_file_id = 0\<rparr>"

section \<open>The open file table\<close>

fun serve_init_loop :: "nat list \<Rightarrow> server \<Rightarrow> server" where
  "serve_init_loop [] s = s"
| "serve_init_loop (i # is) s = serve_init_loop is (s\<lparr>opentab := (opentab s)(i := (opentab s i)\<lparr>o_fileid := of_nat i\<rparr>)\<rparr>)"

definition serve_init :: "server \<Rightarrow> server" where
  "serve_init s = serve_init_loop [0..<MAXOPEN] s"

definition openfile_take :: "server \<Rightarrow> nat \<Rightarrow> server" where
  "openfile_take s i =
     s\<lparr>opentab := (opentab s)(i := (opentab s i)\<lparr>o_fileid := o_fileid (opentab s i) + of_nat MAXOPEN\<rparr>),
       o_fd := (o_fd s)(i := zero_Fd)\<rparr>"

fun openfile_alloc_loop :: "server \<Rightarrow> int \<Rightarrow> nat list \<Rightarrow> (int + nat) \<times> server" where
  "openfile_alloc_loop s r [] = (Inl (- E_MAX_OPEN), s)"
| "openfile_alloc_loop s r (i # is) =
     (if fd_ref s i = 0
      then if r < 0 then (Inl r, s) else (Inr i, openfile_take (s\<lparr>fd_ref := (fd_ref s)(i := 1)\<rparr>) i)
      else if fd_ref s i = 1 then (Inr i, openfile_take s i)
      else openfile_alloc_loop s r is)"

definition openfile_alloc :: "server \<Rightarrow> int \<Rightarrow> (int + nat) \<times> server" where
  "openfile_alloc s r = openfile_alloc_loop s r [0..<MAXOPEN]"

definition openfile_lookup :: "server \<Rightarrow> u32 \<Rightarrow> nat option" where
  "openfile_lookup s fileid =
     (let i = unat fileid mod MAXOPEN in
      if fd_ref s i \<le> 1 \<or> o_fileid (opentab s i) \<noteq> fileid then None else Some i)"

section \<open>The handlers\<close>

definition req_path :: "page \<Rightarrow> u8 list" where
  "req_path req = takeWhile (\<lambda>c. c \<noteq> 0) (map req [0..<1023])"

definition open_or_create :: "fs \<Rightarrow> u8 list \<Rightarrow> u32 \<Rightarrow> ((int + nat) \<times> fs) option" where
  "open_or_create s path omode =
     (if omode AND O_CREAT \<noteq> 0
      then do { (r, s) \<leftarrow> file_create s path;
                case r of
                  Inl e \<Rightarrow> if omode AND O_EXCL = 0 \<and> e = - E_FILE_EXISTS then file_open s path else Some (Inl e, s)
                | Inr f \<Rightarrow> Some (Inr f, s) }
      else file_open s path)"

definition open_path :: "fs \<Rightarrow> u8 list \<Rightarrow> u32 \<Rightarrow> ((int + nat) \<times> fs) option" where
  "open_path s path omode =
     do { (r, s) \<leftarrow> open_or_create s path omode;
          case r of
            Inl e \<Rightarrow> Some (Inl e, s)
          | Inr f \<Rightarrow> do { s \<leftarrow> (if omode AND O_TRUNC \<noteq> 0 then file_set_size s f 0 else Some s); file_open s path } }"

text \<open>The result, and the \<^verbatim>\<open>Fd\<close> page to send.\<close>

definition serve_open :: "server \<Rightarrow> page \<Rightarrow> int \<Rightarrow> ((int \<times> nat option) \<times> server) option" where
  "serve_open s req alloc =
     (let path = req_path req; omode = word_at req 1024 in
      case openfile_alloc s alloc of
        (Inl e, s) \<Rightarrow> Some ((e, None), s)
      | (Inr i, s) \<Rightarrow>
          if sint (o_fileid (opentab s i)) < 0 then Some ((sint (o_fileid (opentab s i)), None), s)
          else do { (r, d) \<leftarrow> open_path (srv s) path omode;
                    case r of
                      Inl e \<Rightarrow> Some ((e, None), s\<lparr>srv := d\<rparr>)
                    | Inr f \<Rightarrow>
                        Some ((0, Some i),
                          s\<lparr>srv := d,
                            opentab := (opentab s)(i := (opentab s i)\<lparr>o_file := f, o_mode := omode\<rparr>),
                            o_fd := (o_fd s)(i := (o_fd s i)\<lparr>fd_file_id := o_fileid (opentab s i),
                              fd_omode := omode AND O_ACCMODE, fd_dev_id := DEV_FILE\<rparr>)\<rparr>) })"

text \<open>Every other handler looks up the file first.\<close>

definition with_file :: "server \<Rightarrow> page \<Rightarrow> (nat \<Rightarrow> ((int \<times> page) \<times> server) option) \<Rightarrow> ((int \<times> page) \<times> server) option" where
  "with_file s req f =
     (case openfile_lookup s (word_at req 0) of None \<Rightarrow> Some ((- E_INVAL, req), s) | Some i \<Rightarrow> f i)"

definition serve_set_size :: "server \<Rightarrow> page \<Rightarrow> ((int \<times> page) \<times> server) option" where
  "serve_set_size s req =
     with_file s req (\<lambda>i. do { d \<leftarrow> file_set_size (srv s) (o_file (opentab s i)) (word_at req 4); Some ((0, req), s\<lparr>srv := d\<rparr>) })"

definition advance_fd :: "server \<Rightarrow> nat \<Rightarrow> u32 \<Rightarrow> server" where
  "advance_fd s i r = s\<lparr>o_fd := (o_fd s)(i := (o_fd s i)\<lparr>fd_offset := fd_offset (o_fd s i) + r\<rparr>)\<rparr>"

definition req_count :: "page \<Rightarrow> u32" where
  "req_count req = (if word_at req 4 > 4096 then 4096 else word_at req 4)"

definition serve_read :: "server \<Rightarrow> page \<Rightarrow> ((int \<times> page) \<times> server) option" where
  "serve_read s req =
     with_file s req (\<lambda>i.
       do { (r, d) \<leftarrow> file_read (srv s) (o_file (opentab s i)) (req_count req) (fd_offset (o_fd s i));
            case r of
              Inl e \<Rightarrow> Some ((e, req), s\<lparr>srv := d\<rparr>)
            | Inr (n, bytes) \<Rightarrow>
                if sint n < 0 then Some ((sint n, over 0 bytes req), s\<lparr>srv := d\<rparr>)
                else Some ((sint n, over 0 bytes req), advance_fd (s\<lparr>srv := d\<rparr>) i n) })"

definition serve_write :: "server \<Rightarrow> page \<Rightarrow> ((int \<times> page) \<times> server) option" where
  "serve_write s req =
     with_file s req (\<lambda>i.
       do { (r, d) \<leftarrow> file_write (srv s) (o_file (opentab s i)) (\<lambda>k. req (8 + k)) (req_count req) (fd_offset (o_fd s i));
            case r of
              Inl e \<Rightarrow> Some ((e, req), s\<lparr>srv := d\<rparr>)
            | Inr n \<Rightarrow>
                if sint n < 0 then Some ((sint n, req), s\<lparr>srv := d\<rparr>)
                else Some ((sint n, req), advance_fd (s\<lparr>srv := d\<rparr>) i n) })"

text \<open>\<^verbatim>\<open>strcpy\<close> of the name, from byte address \<open>a\<close> of the disk map.\<close>

partial_function (option) copy_name :: "fs \<Rightarrow> nat \<Rightarrow> page \<Rightarrow> nat \<Rightarrow> (page \<times> fs) option" where
  "copy_name s a req k =
     do { (c, s) \<leftarrow> load_char s a;
          if c = 0 then Some (req(k := 0), s) else copy_name s (a + 1) (req(k := c)) (k + 1) }"

definition le_bytes :: "u32 \<Rightarrow> u8 list" where
  "le_bytes w = [ucast w, ucast (drop_bit 8 w), ucast (drop_bit 16 w), ucast (drop_bit 24 w)]"

definition serve_stat :: "server \<Rightarrow> page \<Rightarrow> ((int \<times> page) \<times> server) option" where
  "serve_stat s req =
     with_file s req (\<lambda>i.
       let f = o_file (opentab s i) in
       do { (ret, d) \<leftarrow> copy_name (srv s) (4 * f) req 0;
            (size, d) \<leftarrow> load d (f_size f);
            (type, d) \<leftarrow> load d (f_type f);
            Some ((0, over 132 (le_bytes (if type = 1 then 1 else 0)) (over 128 (le_bytes size) ret)), s\<lparr>srv := d\<rparr>) })"

definition serve_flush :: "server \<Rightarrow> page \<Rightarrow> ((int \<times> page) \<times> server) option" where
  "serve_flush s req =
     with_file s req (\<lambda>i. do { d \<leftarrow> file_flush (srv s) (o_file (opentab s i)); Some ((0, req), s\<lparr>srv := d\<rparr>) })"

definition serve_sync :: "server \<Rightarrow> page \<Rightarrow> ((int \<times> page) \<times> server) option" where
  "serve_sync s req = do { d \<leftarrow> fs_sync (srv s); Some ((0, req), s\<lparr>srv := d\<rparr>) }"

section \<open>The loop\<close>

definition handlers :: "nat \<Rightarrow> (server \<Rightarrow> page \<Rightarrow> ((int \<times> page) \<times> server) option) option" where
  "handlers n = [None, None, Some serve_set_size, Some serve_read, Some serve_write, Some serve_stat, Some serve_flush, None, Some serve_sync] ! n"

record reply =
  rep_value :: int
  rep_fd :: "nat option"
  rep_page :: page

text \<open>One round: \<open>None\<close> inside is a request without a page, which gets no answer.\<close>

definition serve :: "server \<Rightarrow> u32 \<Rightarrow> u32 \<Rightarrow> page \<Rightarrow> int \<Rightarrow> (reply option \<times> server) option" where
  "serve s req perm pg alloc =
     (if perm AND 1 = 0 then Some (None, s)
      else if req = 1
      then do { ((r, fd), s) \<leftarrow> serve_open s pg alloc; Some (Some \<lparr>rep_value = r, rep_fd = fd, rep_page = pg\<rparr>, s) }
      else case (if unat req < 9 then handlers (unat req) else None) of
        Some h \<Rightarrow> do { ((r, pg), s) \<leftarrow> h s pg; Some (Some \<lparr>rep_value = r, rep_fd = None, rep_page = pg\<rparr>, s) }
      | None \<Rightarrow> Some (Some \<lparr>rep_value = - E_INVAL, rep_fd = None, rep_page = pg\<rparr>, s))"

section \<open>Open files\<close>

lemma serve_init_loop_opentab:
  "distinct is \<Longrightarrow> opentab (serve_init_loop is s) i = (if i \<in> set is then (opentab s i)\<lparr>o_fileid := of_nat i\<rparr> else opentab s i)"
  by (induction "is" arbitrary: s) auto

lemma serve_init_loop_frame:
  "srv (serve_init_loop is s) = srv s" "o_fd (serve_init_loop is s) = o_fd s" "fd_ref (serve_init_loop is s) = fd_ref s"
  by (induction "is" arbitrary: s) simp_all

lemma serve_init_opentab: "opentab (serve_init s) i = (if i < MAXOPEN then (opentab s i)\<lparr>o_fileid := of_nat i\<rparr> else opentab s i)"
proof -
  have "set [0..<MAXOPEN] = {0..<MAXOPEN}" by (rule set_upt)
  then show ?thesis by (simp only: serve_init_def serve_init_loop_opentab [OF distinct_upt]) simp
qed

lemma serve_init_frame: "srv (serve_init s) = srv s" "o_fd (serve_init s) = o_fd s" "fd_ref (serve_init s) = fd_ref s"
  unfolding serve_init_def by (rule serve_init_loop_frame)+

text \<open>The identifier in entry \<open>i\<close> is congruent to \<open>i\<close>.\<close>

definition ids_ok :: "server \<Rightarrow> bool" where
  "ids_ok s \<longleftrightarrow> (\<forall>i<MAXOPEN. unat (o_fileid (opentab s i)) mod MAXOPEN = i)"

lemma next_id_mod: "unat (w + 0x400 :: u32) mod MAXOPEN = unat w mod MAXOPEN"
proof -
  have "unat (w + 0x400) mod MAXOPEN = (unat w + 1024) mod 4294967296 mod MAXOPEN" by (simp add: unat_word_ariths)
  also have "\<dots> = (unat w + 1024) mod MAXOPEN" by (rule mod_mod_cancel) simp
  finally show ?thesis by simp
qed

text \<open>Allocation takes the first entry that no client shares.\<close>

lemma openfile_alloc_loop_cases:
  "openfile_alloc_loop s r is = (Inl e, s') \<Longrightarrow> s' = s \<and> (e = r \<and> r < 0 \<or> e = - E_MAX_OPEN \<and> (\<forall>i\<in>set is. 1 < fd_ref s i))"
  "openfile_alloc_loop s r is = (Inr i, s') \<Longrightarrow>
    i \<in> set is \<and> fd_ref s i \<le> 1 \<and> s' = openfile_take (s\<lparr>fd_ref := (fd_ref s)(i := 1)\<rparr>) i"
  by (induction "is") (auto split: if_splits simp: le_less fun_upd_idem)

lemma openfile_alloc_fails:
  "openfile_alloc s r = (Inl e, s') \<Longrightarrow> s' = s \<and> (e = r \<and> r < 0 \<or> e = - E_MAX_OPEN \<and> (\<forall>i<MAXOPEN. 1 < fd_ref s i))"
  unfolding openfile_alloc_def using openfile_alloc_loop_cases(1) [of s r "[0..<MAXOPEN]" e s'] unfolding set_upt by auto

lemma openfile_alloc_takes:
  "openfile_alloc s r = (Inr i, s') \<Longrightarrow> i < MAXOPEN \<and> fd_ref s i \<le> 1 \<and> s' = openfile_take (s\<lparr>fd_ref := (fd_ref s)(i := 1)\<rparr>) i"
  unfolding openfile_alloc_def using openfile_alloc_loop_cases(2) [of s r "[0..<MAXOPEN]" i s'] unfolding set_upt by auto

text \<open>What opening a file can do: nothing, take an entry and give up, or fill out the entry.\<close>

definition taken :: "server \<Rightarrow> nat \<Rightarrow> server \<Rightarrow> bool" where
  "taken s i s' \<longleftrightarrow>
     i < MAXOPEN \<and> fd_ref s i \<le> 1 \<and> fd_ref s' = (fd_ref s)(i := 1) \<and>
     o_fileid (opentab s' i) = o_fileid (opentab s i) + of_nat MAXOPEN \<and>
     (\<forall>j. j \<noteq> i \<longrightarrow> opentab s' j = opentab s j \<and> o_fd s' j = o_fd s j)"

definition sent :: "server \<Rightarrow> u32 \<Rightarrow> nat \<Rightarrow> bool" where
  "sent s omode i \<longleftrightarrow>
     0 \<le> sint (o_fileid (opentab s i)) \<and> o_mode (opentab s i) = omode \<and>
     o_fd s i = \<lparr>fd_dev_id = DEV_FILE, fd_offset = 0, fd_omode = omode AND O_ACCMODE, fd_file_id = o_fileid (opentab s i)\<rparr>"

lemma serve_open_cases:
  assumes "serve_open s req alloc = Some ((r, fd), s')"
  shows "fd = None \<and> s' = s \<or> (\<exists>i. taken s i s' \<and> (fd = None \<or> fd = Some i \<and> r = 0 \<and> sent s' (word_at req 1024) i))"
proof -
  obtain a s1 where alloc: "openfile_alloc s alloc = (a, s1)" by (cases "openfile_alloc s alloc")
  consider (full) e where "a = Inl e" | (entry) i where "a = Inr i" by (cases a)
  then show ?thesis
  proof cases
    case full
    then show ?thesis using assms alloc openfile_alloc_fails [of s alloc e s1] by (simp add: serve_open_def)
  next
    case entry
    define t where "t = openfile_take (s\<lparr>fd_ref := (fd_ref s)(i := 1)\<rparr>) i"
    have i: "i < MAXOPEN" "fd_ref s i \<le> 1" "s1 = t"
      using openfile_alloc_takes [of s alloc i s1] alloc entry by (simp_all add: t_def)
    have t: "taken s i t" "o_fd t i = zero_Fd" using i by (simp_all add: t_def taken_def openfile_take_def)
    show ?thesis
    proof (cases "sint (o_fileid (opentab t i)) < 0")
      case True
      then show ?thesis using assms i(3) alloc entry t by (auto simp: serve_open_def)
    next
      case False
      then obtain q d where q: "open_path (srv t) (req_path req) (word_at req 1024) = Some (q, d)"
        using assms i(3) alloc entry by (auto simp: serve_open_def bind_eq_Some_conv Let_def)
      show ?thesis
        using assms i(3) alloc entry t q False
        by (cases q) (auto simp: serve_open_def taken_def sent_def zero_Fd_def Let_def)
    qed
  qed
qed

text \<open>What the other handlers can do to the table: move the position of the file of the request.\<close>

definition handled :: "server \<Rightarrow> page \<Rightarrow> server \<Rightarrow> bool" where
  "handled s req s' \<longleftrightarrow>
     opentab s' = opentab s \<and> fd_ref s' = fd_ref s \<and>
     (\<forall>j. openfile_lookup s (word_at req 0) \<noteq> Some j \<longrightarrow> o_fd s' j = o_fd s j) \<and>
     (\<forall>j. o_fd s' j = (o_fd s j)\<lparr>fd_offset := fd_offset (o_fd s' j)\<rparr>)"

lemma with_file_handled:
  assumes "with_file s req f = Some ((r, req'), s')"
    and "\<And>i r req' s'. openfile_lookup s (word_at req 0) = Some i \<Longrightarrow> f i = Some ((r, req'), s') \<Longrightarrow>
      opentab s' = opentab s \<and> fd_ref s' = fd_ref s \<and>
      (\<forall>j. i \<noteq> j \<longrightarrow> o_fd s' j = o_fd s j) \<and> (\<forall>j. o_fd s' j = (o_fd s j)\<lparr>fd_offset := fd_offset (o_fd s' j)\<rparr>)"
  shows "handled s req s'"
proof (cases "openfile_lookup s (word_at req 0)")
  case None
  then show ?thesis using assms(1) by (simp add: with_file_def handled_def)
next
  case (Some i)
  then show ?thesis using assms(1) assms(2) [of i r req' s'] by (simp add: with_file_def handled_def)
qed

lemma serve_read_handled: "serve_read s req = Some ((r, req'), s') \<Longrightarrow> handled s req s'"
  unfolding serve_read_def
proof (erule with_file_handled, goal_cases)
  case (1 i r req' s')
  then obtain q d where "file_read (srv s) (o_file (opentab s i)) (req_count req) (fd_offset (o_fd s i)) = Some (q, d)"
    by (auto simp: bind_eq_Some_conv)
  then show ?case using 1 by (cases q) (auto simp: advance_fd_def split: if_splits)
qed

lemma serve_write_handled: "serve_write s req = Some ((r, req'), s') \<Longrightarrow> handled s req s'"
  unfolding serve_write_def
proof (erule with_file_handled, goal_cases)
  case (1 i r req' s')
  then obtain q d where "file_write (srv s) (o_file (opentab s i)) (\<lambda>k. req (8 + k)) (req_count req) (fd_offset (o_fd s i)) = Some (q, d)"
    by (auto simp: bind_eq_Some_conv)
  then show ?case using 1 by (cases q) (auto simp: advance_fd_def split: if_splits)
qed

lemma other_handlers:
  "serve_set_size s req = Some ((r, req'), s') \<Longrightarrow> o_fd s' = o_fd s \<and> handled s req s'"
  "serve_stat s req = Some ((r, req'), s') \<Longrightarrow> o_fd s' = o_fd s \<and> handled s req s'"
  "serve_flush s req = Some ((r, req'), s') \<Longrightarrow> o_fd s' = o_fd s \<and> handled s req s'"
  "serve_sync s req = Some ((r, req'), s') \<Longrightarrow> o_fd s' = o_fd s \<and> handled s req s'"
  unfolding serve_set_size_def serve_stat_def serve_flush_def serve_sync_def Let_def
  by (auto simp: with_file_def handled_def bind_eq_Some_conv split: option.splits)

lemma handlers_handled:
  assumes "handlers n = Some h" and "n < 9" and "h s req = Some ((r, req'), s')"
  shows "handled s req s' \<and> (n \<noteq> 3 \<and> n \<noteq> 4 \<longrightarrow> o_fd s' = o_fd s)"
proof -
  consider "n = 0" | "n = 1" | "n = 2" | "n = 3" | "n = 4" | "n = 5" | "n = 6" | "n = 7" | "n = 8" using assms(2) by arith
  then show ?thesis using assms(1,3) by cases (auto simp: handlers_def dest: serve_read_handled serve_write_handled other_handlers)
qed

section \<open>Runs of the server\<close>

text \<open>Between requests clients share, duplicate and drop \<^verbatim>\<open>Fd\<close> pages that exist, and write to those shared with them.\<close>

inductive served :: "server \<Rightarrow> bool" where
  start: "\<forall>i. fd_ref s i = 0 \<Longrightarrow> served (serve_init s)"
| request: "served s \<Longrightarrow> serve s req perm pg alloc = Some (rep, s') \<Longrightarrow> served s'"
| share: "served s \<Longrightarrow> 1 \<le> fd_ref s i \<Longrightarrow> 1 \<le> n \<Longrightarrow> served (s\<lparr>fd_ref := (fd_ref s)(i := n)\<rparr>)"
| client: "served s \<Longrightarrow> 2 \<le> fd_ref s i \<Longrightarrow> served (s\<lparr>o_fd := (o_fd s)(i := fd)\<rparr>)"

lemma serve_cases:
  assumes "serve s req perm pg alloc = Some (rep, s')"
  shows "s' = s \<and> (\<forall>r. rep = Some r \<longrightarrow> rep_fd r = None) \<or>
    handled s pg s' \<and> (req \<noteq> 3 \<and> req \<noteq> 4 \<longrightarrow> o_fd s' = o_fd s) \<and> (\<forall>r. rep = Some r \<longrightarrow> rep_fd r = None) \<or>
    (\<exists>i. req = 1 \<and> taken s i s' \<and> (\<forall>r j. rep = Some r \<and> rep_fd r = Some j \<longrightarrow> j = i \<and> rep_value r = 0 \<and> sent s' (word_at pg 1024) i))"
proof -
  consider (none) "perm AND 1 = 0 \<or> perm AND 1 \<noteq> 0 \<and> req \<noteq> 1 \<and> (if unat req < 9 then handlers (unat req) else None) = None"
    | (first) "perm AND 1 \<noteq> 0" "req = 1"
    | (other) h where "perm AND 1 \<noteq> 0" "req \<noteq> 1" "unat req < 9" "handlers (unat req) = Some h"
    by (cases "unat req < 9"; cases "handlers (unat req)") auto
  then show ?thesis
  proof cases
    case none
    then show ?thesis using assms by (auto simp: serve_def)
  next
    case first
    then show ?thesis using assms by (auto simp: serve_def bind_eq_Some_conv dest!: serve_open_cases)
  next
    case other
    then obtain r pg' where h: "h s pg = Some ((r, pg'), s')" "rep = Some \<lparr>rep_value = r, rep_fd = None, rep_page = pg'\<rparr>"
      using assms by (auto simp: serve_def bind_eq_Some_conv)
    have "unat req \<noteq> 3 \<and> unat req \<noteq> 4" if "req \<noteq> 3 \<and> req \<noteq> 4" using that by (auto simp: word_unat_eq_iff)
    then show ?thesis using handlers_handled [OF other(4,3) h(1)] h(2) by auto
  qed
qed

lemma served_ids: "served s \<Longrightarrow> ids_ok s"
proof (induction rule: served.induct)
  case (start s)
  then show ?case by (auto simp: ids_ok_def serve_init_opentab unat_of_nat)
next
  case (request s req perm pg alloc rep s')
  from serve_cases [OF request(2)] show ?case
  proof (elim disjE exE conjE)
    fix i assume "taken s i s'"
    then show ?thesis using request(3) by (auto simp: ids_ok_def taken_def) (metis next_id_mod)
  qed (use request(3) in \<open>simp_all add: ids_ok_def handled_def\<close>)
qed (simp_all add: ids_ok_def)

text \<open>C30. A file identifier names at most one open file: in every run of the server, whatever clients send and write to the pages
  they share, entries of the open file table have distinct identifiers, and a lookup finds entry \<open>i\<close> exactly under the identifier
  that entry \<open>i\<close> has, while a client shares its page.\<close>

theorem file_ids_typed:
  assumes "served s"
  shows "(openfile_lookup s fid = Some i \<longleftrightarrow> i < MAXOPEN \<and> 1 < fd_ref s i \<and> o_fileid (opentab s i) = fid) \<and>
    inj_on (\<lambda>j. o_fileid (opentab s j)) {..<MAXOPEN}"
proof
  have ids: "unat (o_fileid (opentab s j)) mod MAXOPEN = j" if "j < MAXOPEN" for j
    using served_ids [OF assms] that unfolding ids_ok_def by blast
  have "unat fid mod MAXOPEN < MAXOPEN" by (rule mod_less_divisor) simp
  then show "openfile_lookup s fid = Some i \<longleftrightarrow> i < MAXOPEN \<and> 1 < fd_ref s i \<and> o_fileid (opentab s i) = fid"
    using ids [of i] by (auto simp: openfile_lookup_def Let_def)
  show "inj_on (\<lambda>j. o_fileid (opentab s j)) {..<MAXOPEN}" by (rule inj_onI) (metis ids lessThan_iff)
qed

text \<open>A server that has just been started, and the same after a client asked to open the root directory.\<close>

definition boot :: server where
  "boot = serve_init \<lparr>srv = disk_of small_view, opentab = (\<lambda>_. \<lparr>o_fileid = 0, o_file = 0, o_mode = 1\<rparr>), o_fd = (\<lambda>_. zero_Fd), fd_ref = (\<lambda>_. 0)\<rparr>"

lemma boot_simps [simp]:
  "srv boot = disk_of small_view" "opentab boot 0 = \<lparr>o_fileid = 0, o_file = 0, o_mode = 1\<rparr>" "o_fd boot 0 = zero_Fd" "fd_ref boot i = 0"
  unfolding boot_def by (simp_all add: serve_init_opentab serve_init_frame)

lemma boot_served: "served boot"
  unfolding boot_def by (rule served.start) simp

definition open_root :: page where
  "open_root i = (if i = 0 then 47 else 0)"

definition opened :: server where
  "opened = boot\<lparr>fd_ref := (fd_ref boot)(0 := 1),
     opentab := (opentab boot)(0 := \<lparr>o_fileid = 1024, o_file = SUPER + 2, o_mode = 0\<rparr>),
     o_fd := (o_fd boot)(0 := \<lparr>fd_dev_id = DEV_FILE, fd_offset = 0, fd_omode = 0, fd_file_id = 1024\<rparr>)\<rparr>"

lemma upt_first: "0 < n \<Longrightarrow> [0..<n] = 0 # [1..<n]" "1 < n \<Longrightarrow> [0..<n] = 0 # 1 # [2..<n]"
  by (simp_all add: upt_conv_Cons numeral_2_eq_2)

lemma open_root_path: "req_path open_root = [47]"
proof -
  have "takeWhile (\<lambda>c. c \<noteq> 0) (map open_root (0 # 1 # ks)) = [47]" for ks by (simp add: open_root_def)
  moreover have "[0..<1023::nat] = 0 # 1 # [2..<1023]" by (rule upt_first(2)) simp
  ultimately show ?thesis unfolding req_path_def by (simp only:)
qed

lemma boot_alloc: "openfile_alloc boot 0 = (Inr 0, openfile_take (boot\<lparr>fd_ref := (fd_ref boot)(0 := 1)\<rparr>) 0)"
proof -
  have "openfile_alloc_loop boot 0 (0 # is) = (Inr 0, openfile_take (boot\<lparr>fd_ref := (fd_ref boot)(0 := 1)\<rparr>) 0)" for "is" by simp
  then show ?thesis unfolding openfile_alloc_def by (subst upt_first(1)) simp_all
qed

lemma open_root_opens: "serve boot 1 7 open_root 0 = Some (Some \<lparr>rep_value = 0, rep_fd = Some 0, rep_page = open_root\<rparr>, opened)"
proof -
  have "word_at open_root 1024 = 0" by (simp add: word_at_def open_root_def)
  then show ?thesis
    by (simp add: boot_alloc serve_def serve_open_def open_root_path open_path_def open_or_create_def file_open_def walk_path_def skip_slash_def
      openfile_take_def opened_def zero_Fd_def)
qed

lemma opened_served: "served (opened\<lparr>fd_ref := (fd_ref opened)(0 := 2)\<rparr>)"
  by (rule served.share [OF served.request [OF boot_served open_root_opens]]) (simp_all add: opened_def)

theorem file_ids_typed_witness:
  "openfile_lookup (opened\<lparr>fd_ref := (fd_ref opened)(0 := 2)\<rparr>) 1024 = Some 0 \<and>
   openfile_lookup (opened\<lparr>fd_ref := (fd_ref opened)(0 := 2)\<rparr>) 0 \<noteq> Some 0"
  using file_ids_typed [OF opened_served, of 1024 0] file_ids_typed [OF opened_served, of 0 0] by (simp add: opened_def)

text \<open>C29. Clients are isolated: serving a request of any kind leaves the entries of all files that clients have open as they were. Only the
  position of the file named in a read or write request may move. A request to open a file takes an entry that nobody shares, gives it a new
  identifier, and the page sent back holds that identifier, position 0 and the access mode.\<close>

theorem open_files_isolated:
  assumes "serve s req perm pg alloc = Some (rep, s')"
  shows "(\<forall>i. 1 < fd_ref s i \<longrightarrow>
      opentab s' i = opentab s i \<and> fd_ref s' i = fd_ref s i \<and> o_fd s' i = (o_fd s i)\<lparr>fd_offset := fd_offset (o_fd s' i)\<rparr> \<and>
      (o_fd s' i = o_fd s i \<or> req \<in> {3, 4} \<and> openfile_lookup s (word_at pg 0) = Some i)) \<and>
    (\<forall>r i. rep = Some r \<and> rep_fd r = Some i \<longrightarrow>
      req = 1 \<and> i < MAXOPEN \<and> fd_ref s i \<le> 1 \<and> o_fileid (opentab s' i) = o_fileid (opentab s i) + 1024 \<and>
      o_fd s' i = \<lparr>fd_dev_id = DEV_FILE, fd_offset = 0, fd_omode = word_at pg 1024 AND O_ACCMODE, fd_file_id = o_fileid (opentab s' i)\<rparr>)"
  using serve_cases [OF assms]
proof (elim disjE exE conjE)
  fix i assume "taken s i s'" and "req = 1"
    and "\<forall>r j. rep = Some r \<and> rep_fd r = Some j \<longrightarrow> j = i \<and> rep_value r = 0 \<and> sent s' (word_at pg 1024) i"
  then show ?thesis by (auto simp: taken_def sent_def)
qed (auto simp: handled_def)

theorem open_files_isolated_witness:
  "serve boot 1 7 open_root 0 = Some (Some \<lparr>rep_value = 0, rep_fd = Some 0, rep_page = open_root\<rparr>, opened) \<and> fd_file_id (o_fd opened 0) = 1024"
proof -
  have "o_fileid (opentab opened 0) = 1024 \<and> fd_file_id (o_fd opened 0) = o_fileid (opentab opened 0)"
    using open_files_isolated [OF open_root_opens] by simp
  then show ?thesis using open_root_opens by simp
qed

section \<open>Data through the server\<close>


text \<open>A request for file 1024 with count 3, and the bytes \<^verbatim>\<open>ABC\<close>.\<close>

definition abc_request :: page where
  "abc_request k = (if k = 1 then 4 else if k = 4 then 3 else if 8 \<le> k \<and> k < 11 then 57 + of_nat k else 0)"

lemma abc_words: "word_at abc_request 0 = 1024" "word_at abc_request 4 = 3"
  by (simp_all add: word_at_def abc_request_def push_bit_eq_mult)


end
