(* ===== verification/Pipe.thy ===== *)
theory Pipe
  imports Prelude
begin

text \<open>
  Pipes, \<^verbatim>\<open>lib/pipe.c\<close>: the loops of \<^verbatim>\<open>devpipe_write\<close> and \<^verbatim>\<open>devpipe_read\<close>, run by two environments that share the page with the
  ring buffer. They are interleaved at every access to the shared page that matters: the test of the
  positions, the access to the buffer, and the increment of a position are separate steps. What
  \<^verbatim>\<open>_pipeisclosed\<close> answers to the two loops is left open; its own loop, which reads the two reference counts
  again until it was not preempted in between, is \<open>pipeisclosed_loop\<close>.

  Positions are 32 bits wide and signed: \<open>oob\<close> records that the remainder of a negative position was used as
  an index. Shown is that for less than 2 GB the reader receives the bytes written in order, none twice and none
  lost, and that the two never block each other.
\<close>

abbreviation PIPEBUFSIZ :: nat where "PIPEBUFSIZ \<equiv> 32"

datatype wpc = W_test | W_store | W_inc | W_ret nat

datatype rpc = R_test | R_take | R_inc | R_ret nat

record pipe =
  p_rpos :: u32
  p_wpos :: u32
  p_buf :: "nat \<Rightarrow> u8"
  w_pc :: wpc
  w_i :: nat
  r_pc :: rpc
  r_i :: nat
  r_n :: nat
  got :: "u8 list"
  oob :: bool

definition pipe_index :: "u32 \<Rightarrow> nat option" where
  "pipe_index pos = (if sint pos \<ge> 0 then Some (unat (cmod pos PIPEBUFSIZ)) else None)"

definition devpipe_write :: "u8 list \<Rightarrow> bool \<Rightarrow> pipe \<Rightarrow> pipe" where
  "devpipe_write data closed s =
     (case w_pc s of
        W_test \<Rightarrow>
          if w_i s < length data
          then if p_wpos s \<ge> p_rpos s + of_nat PIPEBUFSIZ
               then if closed then s\<lparr>w_pc := W_ret 0\<rparr> else s
               else s\<lparr>w_pc := W_store\<rparr>
          else s\<lparr>w_pc := W_ret (w_i s)\<rparr>
      | W_store \<Rightarrow>
          (case pipe_index (p_wpos s) of
             None \<Rightarrow> s\<lparr>oob := True\<rparr>
           | Some k \<Rightarrow> s\<lparr>p_buf := (p_buf s)(k := data ! w_i s), w_pc := W_inc\<rparr>)
      | W_inc \<Rightarrow> s\<lparr>p_wpos := p_wpos s + 1, w_i := Suc (w_i s), w_pc := W_test\<rparr>
      | W_ret n \<Rightarrow> s)"

text \<open>After a return the reader calls again, with any size.\<close>

definition devpipe_read :: "nat \<Rightarrow> bool \<Rightarrow> pipe \<Rightarrow> pipe" where
  "devpipe_read n closed s =
     (case r_pc s of
        R_test \<Rightarrow>
          if r_i s < r_n s
          then if p_rpos s = p_wpos s
               then if r_i s > 0 then s\<lparr>r_pc := R_ret (r_i s)\<rparr>
                    else if closed then s\<lparr>r_pc := R_ret 0\<rparr> else s
               else s\<lparr>r_pc := R_take\<rparr>
          else s\<lparr>r_pc := R_ret (r_i s)\<rparr>
      | R_take \<Rightarrow>
          (case pipe_index (p_rpos s) of
             None \<Rightarrow> s\<lparr>oob := True\<rparr>
           | Some k \<Rightarrow> s\<lparr>got := got s @ [p_buf s k], r_pc := R_inc\<rparr>)
      | R_inc \<Rightarrow> s\<lparr>p_rpos := p_rpos s + 1, r_i := Suc (r_i s), r_pc := R_test\<rparr>
      | R_ret _ \<Rightarrow> s\<lparr>r_i := 0, r_n := n, r_pc := R_test\<rparr>)"

text \<open>
  The loop of \<^verbatim>\<open>_pipeisclosed\<close> on what it observes in each round: the run count before, the two reference counts, and the run count after.
\<close>

fun pipeisclosed_loop :: "(u32 \<times> u16 \<times> u16 \<times> u32) list \<Rightarrow> bool option" where
  "pipeisclosed_loop [] = None"
| "pipeisclosed_loop ((n, fdref, pref, nn) # rounds) = (if n = nn then Some (fdref = pref) else pipeisclosed_loop rounds)"

definition devpipe_stat_size :: "pipe \<Rightarrow> u32" where
  "devpipe_stat_size s = p_wpos s - p_rpos s"

definition new_pipe :: "(nat \<Rightarrow> u8) \<Rightarrow> pipe" where
  "new_pipe buf = \<lparr>p_rpos = 0, p_wpos = 0, p_buf = buf, w_pc = W_test, w_i = 0, r_pc = R_ret 0, r_i = 0, r_n = 0, got = [], oob = False\<rparr>"

inductive pipe_run :: "u8 list \<Rightarrow> pipe \<Rightarrow> bool" for data where
  start: "pipe_run data (new_pipe buf)"
| writer: "pipe_run data s \<Longrightarrow> pipe_run data (devpipe_write data closed s)"
| reader: "pipe_run data s \<Longrightarrow> pipe_run data (devpipe_read n closed s)"

section \<open>The invariant\<close>

definition taken :: "pipe \<Rightarrow> nat" where
  "taken s = (if r_pc s = R_inc then length (got s) - 1 else length (got s))"

definition pipe_inv :: "u8 list \<Rightarrow> pipe \<Rightarrow> bool" where
  "pipe_inv data s \<longleftrightarrow> \<not> oob s \<and> p_rpos s = of_nat (taken s) \<and> p_wpos s = of_nat (w_i s) \<and>
     taken s \<le> w_i s \<and> w_i s \<le> taken s + PIPEBUFSIZ \<and> w_i s \<le> length data \<and> got s = take (length (got s)) data \<and>
     length (got s) \<le> w_i s \<and> (r_pc s = R_inc \<longrightarrow> got s \<noteq> []) \<and> (r_pc s = R_take \<longrightarrow> taken s < w_i s) \<and>
     (w_pc s = W_store \<or> w_pc s = W_inc \<longrightarrow> w_i s < length data \<and> w_i s < taken s + PIPEBUFSIZ) \<and>
     (\<forall>i. taken s \<le> i \<and> (i < w_i s \<or> i = w_i s \<and> w_pc s = W_inc) \<longrightarrow> p_buf s (i mod PIPEBUFSIZ) = data ! i) \<and>
     (\<forall>n. w_pc s = W_ret n \<longrightarrow> n = 0 \<or> n = length data \<and> w_i s = length data)"

lemma pipe_index_small: "n < 2 ^ 31 \<Longrightarrow> pipe_index (of_nat n) = Some (n mod PIPEBUFSIZ)"
  using cdiv_cmod_small(2) [of "of_nat n" PIPEBUFSIZ] sint_of_small [of n] by (simp add: pipe_index_def unat_of_nat)

lemma slots_differ: "i < w \<Longrightarrow> w < i + PIPEBUFSIZ \<Longrightarrow> i mod PIPEBUFSIZ \<noteq> w mod PIPEBUFSIZ"
  using mod_eq_dvd_iff_nat [of i w PIPEBUFSIZ] by (auto dest: dvd_imp_le)

lemma word_positions:
  assumes "a < 2 ^ 31" and "b < 2 ^ 31"
  shows "(of_nat a :: u32) = of_nat b \<longleftrightarrow> a = b"
    "(of_nat a :: u32) \<ge> of_nat b + of_nat PIPEBUFSIZ \<longleftrightarrow> a \<ge> b + PIPEBUFSIZ"
proof -
  have u: "unat (of_nat a :: u32) = a" "unat (of_nat b :: u32) = b" using assms by (simp_all add: unat_of_nat)
  then show "(of_nat a :: u32) = of_nat b \<longleftrightarrow> a = b" by metis
  have "unat (of_nat b + of_nat PIPEBUFSIZ :: u32) = b + PIPEBUFSIZ" using assms(2) u(2) by (simp add: unat_word_ariths)
  then show "(of_nat a :: u32) \<ge> of_nat b + of_nat PIPEBUFSIZ \<longleftrightarrow> a \<ge> b + PIPEBUFSIZ" using u(1) by (simp add: word_le_nat_alt)
qed

lemma write_inv:
  assumes "pipe_inv data s" and "length data < 2 ^ 31"
  shows "pipe_inv data (devpipe_write data closed s)"
proof -
  have b: "w_i s < 2 ^ 31" "taken s < 2 ^ 31" using assms by (auto simp: pipe_inv_def)
  show ?thesis
  proof (cases "w_pc s")
    case W_test
    have full: "p_wpos s \<ge> p_rpos s + of_nat PIPEBUFSIZ \<longleftrightarrow> w_i s \<ge> taken s + PIPEBUFSIZ"
      using word_positions(2) [OF b] assms(1) by (simp add: pipe_inv_def)
    show ?thesis using W_test assms(1) unfolding devpipe_write_def full by (auto simp: pipe_inv_def taken_def)
  next
    case W_store
    have "pipe_index (p_wpos s) = Some (w_i s mod PIPEBUFSIZ)" using pipe_index_small b assms(1) by (simp add: pipe_inv_def)
    moreover have "i mod PIPEBUFSIZ \<noteq> w_i s mod PIPEBUFSIZ" if "taken s \<le> i" "i < w_i s" for i
      using that W_store assms(1) by (intro slots_differ) (auto simp: pipe_inv_def)
    ultimately show ?thesis using W_store assms(1) unfolding devpipe_write_def by (auto simp: pipe_inv_def taken_def)
  next
    case W_inc
    then show ?thesis using assms(1) unfolding devpipe_write_def by (auto simp: pipe_inv_def taken_def less_Suc_eq)
  next
    case (W_ret n)
    then show ?thesis using assms(1) by (simp add: devpipe_write_def)
  qed
qed

lemma read_inv:
  assumes "pipe_inv data s" and "length data < 2 ^ 31"
  shows "pipe_inv data (devpipe_read n closed s)"
proof -
  have b: "w_i s < 2 ^ 31" "taken s < 2 ^ 31" using assms by (auto simp: pipe_inv_def)
  show ?thesis
  proof (cases "r_pc s")
    case R_test
    have empty: "p_rpos s = p_wpos s \<longleftrightarrow> taken s = w_i s"
      using word_positions(1) [OF b(2,1)] assms(1) by (simp add: pipe_inv_def)
    show ?thesis using R_test assms(1) unfolding devpipe_read_def empty by (auto simp: pipe_inv_def taken_def)
  next
    case R_take
    have t: "taken s = length (got s)" "taken s < w_i s" using R_take assms(1) by (auto simp: pipe_inv_def taken_def)
    have k: "pipe_index (p_rpos s) = Some (taken s mod PIPEBUFSIZ)" using pipe_index_small b assms(1) by (simp add: pipe_inv_def)
    have byte: "p_buf s (taken s mod PIPEBUFSIZ) = data ! taken s" using t assms(1) by (simp add: pipe_inv_def)
    have "got s @ [data ! taken s] = take (Suc (taken s)) data"
      using t assms(1) by (simp add: pipe_inv_def take_Suc_conv_app_nth)
    then show ?thesis using R_take k byte t assms(1) unfolding devpipe_read_def
      by (auto simp: pipe_inv_def taken_def)
  next
    case R_inc
    then show ?thesis using assms(1) unfolding devpipe_read_def by (cases "got s" rule: rev_cases) (auto simp: pipe_inv_def taken_def)
  next
    case (R_ret m)
    then show ?thesis using assms(1) by (auto simp: devpipe_read_def pipe_inv_def taken_def)
  qed
qed

lemma new_pipe_inv: "pipe_inv data (new_pipe buf)"
  by (simp add: pipe_inv_def new_pipe_def taken_def)

lemma run_inv: "pipe_run data s \<Longrightarrow> length data < 2 ^ 31 \<Longrightarrow> pipe_inv data s"
  by (induction rule: pipe_run.induct) (simp_all add: new_pipe_inv write_inv read_inv)

lemma taken_le: "taken s \<le> length (got s)"
  by (simp add: taken_def)

text \<open>A reader that asks for something and a writer that was not told that the pipe is closed cannot both wait.\<close>

lemma some_step:
  assumes inv: "pipe_inv data s" and len: "length data < 2 ^ 31" and more: "length (got s) < length data" and open_pipe: "w_pc s \<noteq> W_ret 0"
    and asks: "r_pc s = R_test \<longrightarrow> 0 < r_n s"
  shows "devpipe_write data False s \<noteq> s \<or> devpipe_read n False s \<noteq> s"
proof (rule ccontr)
  assume "\<not> ?thesis"
  then have w: "devpipe_write data False s = s" and r: "devpipe_read n False s = s" by auto
  have b: "w_i s < 2 ^ 31" "taken s < 2 ^ 31" using inv len by (auto simp: pipe_inv_def)
  have idx: "pipe_index (p_wpos s) = Some (w_i s mod PIPEBUFSIZ)" "pipe_index (p_rpos s) = Some (taken s mod PIPEBUFSIZ)"
    using inv pipe_index_small b by (auto simp: pipe_inv_def)
  have pos: "p_wpos s \<ge> p_rpos s + of_nat PIPEBUFSIZ \<longleftrightarrow> w_i s \<ge> taken s + PIPEBUFSIZ" "p_rpos s = p_wpos s \<longleftrightarrow> taken s = w_i s"
    using word_positions(2) [OF b] word_positions(1) [OF b(2,1)] inv by (simp_all add: pipe_inv_def)
  have rpc: "r_pc s = R_test \<and> taken s = w_i s"
  proof (cases "r_pc s")
    case R_test
    then show ?thesis using r pos(2) asks by (auto simp: devpipe_read_def dest!: arg_cong [of _ s r_pc] split: if_splits)
  qed (use r idx in \<open>auto simp: devpipe_read_def dest!: arg_cong [of _ s r_pc]\<close>)
  show False
  proof (cases "w_pc s")
    case W_test
    then show ?thesis using w rpc more inv unfolding devpipe_write_def pos
      by (auto simp: taken_def pipe_inv_def dest!: arg_cong [of _ s w_pc] split: if_splits)
  next
    case (W_ret k)
    then show ?thesis using open_pipe inv rpc more by (auto simp: pipe_inv_def taken_def)
  qed (use w idx in \<open>auto simp: devpipe_write_def dest!: arg_cong [of _ s w_pc]\<close>)
qed

section \<open>Properties\<close>

text \<open>C26. In every interleaving of a writer of less than 2 GB with a reader that calls \<^verbatim>\<open>devpipe_read\<close> again and again with any sizes, the bytes the
  reader has received are, in order, a prefix of the bytes written, no access is outside the buffer, and never more than the buffer size is in
  flight; the writer returns its size or, when told that the pipe is closed, 0. As long as bytes are missing, the
  writer was not told so and the reader asks for at least one byte, one of the two can go on: they never block each other.
\<close>

theorem pipe_in_order:
  assumes "pipe_run data s" and "length data < 2 ^ 31"
  shows "\<not> oob s \<and> got s = take (length (got s)) data \<and> unat (devpipe_stat_size s) \<le> PIPEBUFSIZ \<and>
    (\<forall>n. w_pc s \<noteq> W_ret n \<or> n = 0 \<or> n = length data) \<and>
    (length (got s) \<ge> length data \<or> w_pc s = W_ret 0 \<or> r_pc s = R_test \<and> r_n s = 0 \<or>
     devpipe_write data False s \<noteq> s \<or> devpipe_read n False s \<noteq> s)"
proof -
  note inv = run_inv [OF assms]
  have "devpipe_stat_size s = of_nat (w_i s - taken s)"
    using inv by (simp add: devpipe_stat_size_def pipe_inv_def of_nat_diff)
  moreover have "w_i s - taken s \<le> PIPEBUFSIZ" using inv unfolding pipe_inv_def by linarith
  ultimately have "unat (devpipe_stat_size s) \<le> PIPEBUFSIZ" by (simp add: unat_of_nat)
  moreover have "\<not> oob s" "got s = take (length (got s)) data" "\<forall>n. w_pc s \<noteq> W_ret n \<or> n = 0 \<or> n = length data"
    using inv unfolding pipe_inv_def by blast+
  ultimately show ?thesis using some_step [OF inv assms(2)] by (metis not_le neq0_conv)
qed

text \<open>One byte through the pipe, the reader asking for four.\<close>

definition one_byte :: pipe where
  "one_byte = ((devpipe_read 4 False ^^ 3) ((devpipe_write [7] False ^^ 3) (new_pipe (\<lambda>_. 0))))"

lemma run_steps: "pipe_run data s \<Longrightarrow> pipe_run data ((devpipe_write data c ^^ k) s)" "pipe_run data s \<Longrightarrow> pipe_run data ((devpipe_read n c ^^ k) s)"
  by (induction k) (auto intro: pipe_run.intros)

lemma one_byte_got: "length (got one_byte) = 1"
proof -
  define s where "s w r g = \<lparr>p_rpos = 0, p_wpos = of_nat w, p_buf = (\<lambda>_. 0)(0 := 7), w_pc = W_test, w_i = w, r_pc = r, r_i = 0, r_n = 4, got = g, oob = False\<rparr>"
    for w r g
  have i: "pipe_index 0 = Some 0" using pipe_index_small [of 0] by simp
  have three: "(f ^^ 3) x = f (f (f x))" for f :: "pipe \<Rightarrow> pipe" and x by (simp add: eval_nat_numeral)
  have w1: "devpipe_write [7] False (new_pipe (\<lambda>_. 0)) = (new_pipe (\<lambda>_. 0))\<lparr>w_pc := W_store\<rparr>"
    by (simp add: devpipe_write_def new_pipe_def)
  have w2: "devpipe_write [7] False ((new_pipe (\<lambda>_. 0))\<lparr>w_pc := W_store\<rparr>) = (new_pipe ((\<lambda>_. 0)(0 := 7)))\<lparr>w_pc := W_inc\<rparr>"
    by (simp add: devpipe_write_def new_pipe_def i)
  have w3: "devpipe_read 4 False (devpipe_write [7] False ((new_pipe ((\<lambda>_. 0)(0 := 7)))\<lparr>w_pc := W_inc\<rparr>)) = s 1 R_test []"
    by (simp add: devpipe_write_def devpipe_read_def new_pipe_def s_def)
  have r2: "devpipe_read 4 False (s 1 R_test []) = s 1 R_take []" by (simp add: devpipe_read_def s_def)
  have r3: "devpipe_read 4 False (s 1 R_take []) = s 1 R_inc [7]" by (simp add: devpipe_read_def s_def i)
  show ?thesis unfolding one_byte_def three w1 w2 w3 r2 r3 by (simp add: s_def)
qed

theorem pipe_in_order_witness:
  "pipe_run [7] one_byte \<and> length [7 :: u8] < 2 ^ 31 \<and> got one_byte = [7] \<and> \<not> oob one_byte"
proof -
  have run: "pipe_run [7] one_byte" unfolding one_byte_def by (intro run_steps pipe_run.start)
  show ?thesis using pipe_in_order [OF run] run one_byte_got by simp
qed

text \<open>
  After 2 GB the position is negative, and so is the index in the buffer: \<open>oob\<close> can happen, and the bound in
  the property above is needed.
\<close>

lemma pipe_index_2GB: "pipe_index 0x80000001 = None"
  by code_simp

end
