(* ===== verification/AddressSpace.thy ===== *)
theory AddressSpace
  imports UserMem
begin

text \<open>
  What the calls of \<^verbatim>\<open>kern/syscall.c\<close> on address spaces promise to a user program that runs: when they succeed, their exact effect on the
  maps, and that they keep the contents of mapped pages. On top of it, the window at
  \<^verbatim>\<open>UVPT\<close> through which a program reads its own page tables, and copies between user pages.
\<close>

unbundle bit_operations_syntax

section \<open>A running environment\<close>

definition pdes_writable :: "nat set \<Rightarrow> kstate \<Rightarrow> bool" where
  "pdes_writable D s \<longleftrightarrow> (\<forall>d \<in> D. \<forall>i < NUPD. \<not> present (frames s d i) \<or> frames s d i AND PTE_W \<noteq> 0)"

text \<open>Environment \<open>c\<close> runs with page directory \<open>d\<close>, which maps itself at \<^verbatim>\<open>UVPT\<close>.\<close>

definition calling :: "kstate \<Rightarrow> nat list \<Rightarrow> nat list \<Rightarrow> nat \<Rightarrow> nat \<Rightarrow> bool" where
  "calling s fs ps c d \<longleftrightarrow> env_inv s fs \<and> vm_inv (dirs s) s ps \<and> curenv s = Some c \<and> c \<in> live s \<and>
     env_pgdir (envs s c) = Some d \<and> cpu_cr3 (cpus s (cpunum s)) = d \<and> pdes_writable (dirs s) s \<and>
     frames s d 957 = mk_pte d PTE_U"

lemma callingD:
  assumes "calling s fs ps c d"
  shows "env_inv s fs" "vm_inv (dirs s) s ps" "curenv s = Some c" "c \<in> live s" "env_pgdir (envs s c) = Some d"
    "cpu_cr3 (cpus s (cpunum s)) = d" "pdes_writable (dirs s) s" "frames s d 957 = mk_pte d PTE_U" "d \<in> dirs s"
  using assms by (auto simp: calling_def dirs_def)

text \<open>A step from \<open>s\<close> to \<open>s'\<close> that leaves the map \<open>m\<close>.\<close>

definition space_step :: "kstate \<Rightarrow> nat list \<Rightarrow> kstate \<Rightarrow> nat list \<Rightarrow> (nat \<times> nat \<times> nat \<Rightarrow> u32 option) \<Rightarrow> bool" where
  "space_step s ps s' ps' m \<longleftrightarrow> mem_frame s s' \<and> vm_inv (dirs s) s' ps' \<and> umap (dirs s) s' = m \<and> user_frame (dirs s) s ps s'"

lemma writable_new: "mk_pte np (PTE_W OR PTE_U) AND PTE_W \<noteq> 0"
proof -
  have "bit (mk_pte np (PTE_W OR PTE_U) AND PTE_W) 1" by (simp add: mk_pte_def bit_simps)
  then show ?thesis by auto
qed

lemma calling_step:
  assumes "calling s fs ps c d" and "space_step s ps s' ps' m"
  shows "calling s' fs ps' c d" and "dirs s' = dirs s" and "envs s' = envs s" and "umap (dirs s') s' = m"
    and "live s' = live s"
proof -
  note st = assms(2) [unfolded space_step_def] and cl = callingD [OF assms(1)]
  note fr = mem_frame_envs [of s s']
  have same: "envs s' = envs s" "cpus s' = cpus s" "cpunum s' = cpunum s" using st by (auto simp: mem_frame_def)
  show d: "dirs s' = dirs s" "envs s' = envs s" "umap (dirs s') s' = m" "live s' = live s" using st fr same by auto
  have uf: "frames s' x i = frames s x i \<or> i < NUPD \<and> (\<exists>np. frames s' x i = mk_pte np (PTE_W OR PTE_U))" if "x \<in> dirs s" for x i
    using st that unfolding user_frame_def by blast
  have "frames s' d 957 = frames s d 957" using uf [OF cl(9), of 957] by (simp add: NUPD_value)
  moreover have "pdes_writable (dirs s) s'"
    using cl(7) uf writable_new unfolding pdes_writable_def by metis
  ultimately show "calling s' fs ps' c d"
    using st fr cl same d by (simp add: calling_def)
qed

lemma mapped_kept:
  assumes "vm_inv (dirs s) s ps" and "space_step s ps s' ps' m" and "umap (dirs s) s x = Some e"
  shows "frames s' (pfn e) = frames s (pfn e)"
  using vm_inv_user [OF assms(1,3)] assms(2) by (simp add: space_step_def user_frame_def user_page_def)

section \<open>Naming environments\<close>

text \<open>What the caller \<open>c\<close> may pass for the environment \<open>e\<close>, itself or a child.\<close>

definition names :: "kstate \<Rightarrow> nat \<Rightarrow> nat \<Rightarrow> u32 \<Rightarrow> bool" where
  "names s c e envid \<longleftrightarrow> e \<in> live s \<and>
     (e = c \<and> (envid = 0 \<or> envid = env_id (envs s c)) \<or>
      envid = env_id (envs s e) \<and> env_parent_id (envs s e) = env_id (envs s c))"

lemma names_self: "calling s fs ps c d \<Longrightarrow> names s c c (env_id (envs s c))" "calling s fs ps c d \<Longrightarrow> names s c c 0"
  by (auto simp: names_def calling_def)

lemma names_cong: "envs s' = envs s \<Longrightarrow> names s' c e envid = names s c e envid"
  by (simp add: names_def live_def)

lemma with_env_names:
  assumes "calling s fs ps c d" and "names s c e envid"
  shows "with_env s envid True err f = f e"
proof (cases "envid = 0")
  case True
  then have "e = c" using assms callingD(1) [OF assms(1)] by (auto simp: names_def env_inv_def)
  then show ?thesis using True callingD(3) [OF assms(1)] by (simp add: with_env_def envid2env_def)
next
  case False
  then have id: "envid = env_id (envs s e)" and e: "e \<in> live s"
    and auth: "e = c \<or> env_parent_id (envs s e) = env_id (envs s c)" using assms(2) by (auto simp: names_def)
  have "ENVX envid = e" using env_inv_id [OF callingD(1) [OF assms(1)] e] id by simp
  then show ?thesis using False id e auth callingD(3) [OF assms(1)] by (auto simp: with_env_def envid2env_def Let_def live_def)
qed

section \<open>When the calls succeed\<close>

lemma sys_page_map_succeeds:
  assumes "calling s fs ps c d" and "names s c e srcid" and "names s c e' dstid"
    and "env_pgdir (envs s e) = Some ds" and "env_pgdir (envs s e') = Some dd"
    and "srcva < UTOP" and "PGOFF srcva = 0" and "dstva < UTOP" and "PGOFF dstva = 0" and "user_perm perm"
    and "umap (dirs s) s (slot ds srcva) = Some pte" and "perm AND PTE_W = 0 \<or> pte AND PTE_W \<noteq> 0"
    and "count (umap (dirs s) s) (pfn pte) < 65535" and "utab s dd (unat (PDX dstva)) \<noteq> None \<or> ps \<noteq> []"
  shows "\<exists>s' ps'. sys_page_map s srcid srcva dstid dstva perm = Ret 0 s' \<and>
    space_step s ps s' ps' ((umap (dirs s) s)(slot dd dstva \<mapsto> mk_pte (pfn pte) perm)) \<and>
    length ps \<le> length ps' + (if utab s dd (unat (PDX dstva)) = None then 1 else 0) \<and>
    (\<forall>x \<in> dirs s. \<forall>i. (x, i) \<noteq> (dd, unat (PDX dstva)) \<longrightarrow> utab s' x i = utab s x i)"
proof -
  note cl = callingD [OF assms(1)]
  have in_dirs: "ds \<in> dirs s" "dd \<in> dirs s" using assms(2-5) by (auto simp: dirs_def names_def)
  have op: "sys_page_map s srcid srcva dstid dstva perm =
      (case page_lookup s (Some ds) srcva of
          None \<Rightarrow> Panic
        | Some None \<Rightarrow> Ret (- E_INVAL) s
        | Some (Some (p, t, j)) \<Rightarrow>
            if perm AND PTE_W \<noteq> 0 \<and> frames s t j AND PTE_W = 0 then Ret (- E_INVAL) s
            else obind (lift (page_insert s (Some dd) p dstva perm)) (\<lambda>r s.
              if r < 0 then Ret (- E_NO_MEM) s else Ret 0 s))"
    using assms(6-10) unfolding sys_page_map_def with_env_names [OF assms(1,2)] with_env_names [OF assms(1,3)] assms(4,5)
    by (auto simp: user_perm_def)
  from cl(2) in_dirs(1) assms(6) show ?thesis
  proof (cases rule: lookup_user)
    case unmapped
    then show ?thesis using assms(11) by simp
  next
    case (mapped pte' t)
    then have [simp]: "pte' = pte" using assms(11) by simp
    have bits: "perm_bits perm" using assms(10) perm_bits_syscall by (simp add: user_perm_def)
    from page_insert_full [OF cl(2) in_dirs(2) assms(8) bits mapped(4) [simplified] assms(13)]
    obtain s' ps' where s': "page_insert s (Some dd) (pfn pte) dstva perm = Some (0, s')" "vm_inv (dirs s) s' ps'"
        "umap (dirs s) s' = (umap (dirs s) s)(slot dd dstva \<mapsto> mk_pte (pfn pte) perm)" "mem_frame s s'"
        "user_frame (dirs s) s ps s'" "length ps \<le> length ps' + (if utab s dd (unat (PDX dstva)) = None then 1 else 0)"
        "\<forall>x \<in> dirs s. \<forall>i. (x, i) \<noteq> (dd, unat (PDX dstva)) \<longrightarrow> utab s' x i = utab s x i"
      using assms(14) by blast
    then show ?thesis
      using op mapped assms(12) by (intro exI [of _ s'] exI [of _ ps']) (auto simp: space_step_def)
  qed
qed

lemma sys_page_unmap_succeeds:
  assumes "calling s fs ps c d" and "names s c e envid" and "env_pgdir (envs s e) = Some de" and "va < UTOP" and "PGOFF va = 0"
  shows "\<exists>s' ps'. sys_page_unmap s envid va = Ret 0 s' \<and> space_step s ps s' ps' ((umap (dirs s) s)(slot de va := None)) \<and>
    length ps \<le> length ps'"
proof -
  have "de \<in> dirs s" using assms(2,3) by (auto simp: dirs_def names_def)
  from page_remove_refines [OF callingD(2) [OF assms(1)] this assms(4)] obtain s' ps' where
    s': "page_remove s (Some de) va = Some s'" "vm_inv (dirs s) s' ps'" "umap (dirs s) s' = (umap (dirs s) s)(slot de va := None)"
      "mem_frame s s'" "user_frame (dirs s) s ps s'"
      "ps' = (case umap (dirs s) s (slot de va) of None \<Rightarrow> ps
           | Some e \<Rightarrow> if count (umap (dirs s) s) (pfn e) = 1 then pfn e # ps else ps)" by blast
  moreover have "sys_page_unmap s envid va = Ret 0 s'"
    using assms(3-5) s'(1) unfolding sys_page_unmap_def with_env_names [OF assms(1,2)] by auto
  ultimately show ?thesis by (intro exI [of _ s'] exI [of _ ps']) (auto simp: space_step_def split: option.splits)
qed

lemma user_frame_start:
  assumes "user_frame D s1 qs s'" and "frames s1 = frames s" and "set qs \<subseteq> set ps"
  shows "user_frame D s ps s'"
  using assms(1,3) unfolding user_frame_def assms(2) frames_cong(2) [OF assms(2)] by blast

lemma sys_page_alloc_succeeds:
  assumes "calling s fs ps c d" and "names s c e envid" and "env_pgdir (envs s e) = Some de" and "va < UTOP" and "user_perm perm"
    and "(if utab s de (unat (PDX va)) = None then 2 else 1) \<le> length ps"
  shows "\<exists>s' ps' p. sys_page_alloc s envid va perm = Ret 0 s' \<and> p \<in> set ps \<and> frames s' p = (\<lambda>_. 0) \<and>
    space_step s ps s' ps' ((umap (dirs s) s)(slot de va \<mapsto> mk_pte p perm)) \<and>
    length ps \<le> length ps' + (if utab s de (unat (PDX va)) = None then 2 else 1) \<and>
    (\<forall>x \<in> dirs s. \<forall>i. (x, i) \<noteq> (de, unat (PDX va)) \<longrightarrow> utab s' x i = utab s x i)"
proof -
  note cl = callingD [OF assms(1)]
  let ?D = "dirs s"
  obtain p qs where Cons: "ps = p # qs" using assms(6) by (cases ps) (auto split: if_splits)
  have fl: "free_list s (p # qs)" using vm_countsD(2) [OF vm_invD(1) [OF cl(2)]] Cons by simp
  obtain s1 where s1: "page_alloc s False = Some (Some p, s1)" "vm_inv ?D s1 qs"
      "umap ?D s1 = umap ?D s" "user_page ?D s1 qs p 0" "mem_frame s s1"
    using alloc_user_page [OF cl(2) [unfolded Cons]] by metis
  have fr1: "frames s1 = frames s" using free_list_alloc(7) [OF fl s1(1)] by simp
  have ut1: "utab s1 = utab s" using frames_cong(1) [OF fr1] .
  have zero: "count (umap ?D s) p = 0" using free_page_unmapped(3) [OF cl(2)] Cons by simp
  have pd: "env_pgdir (envs s1 e) = Some de" "de \<in> ?D"
    using assms(2,3) s1(5) by (auto simp: mem_frame_def dirs_def names_def)
  have small: "p < npages s1" "npages s1 \<le> 65536"
    using s1(4) vm_countsD(2) [OF vm_invD(1) [OF s1(2)]] by (simp_all add: user_page_def free_list_def)
  have bits: "perm_bits perm" using assms(5) perm_bits_syscall by (simp add: user_perm_def)
  have room: "utab s1 de (unat (PDX va)) \<noteq> None \<or> qs \<noteq> []" using assms(6) Cons ut1 by (auto split: if_splits)
  have "user_page ?D s1 qs p (count (umap ?D s1) p)" "count (umap ?D s1) p < 65535" using s1(3,4) zero by simp_all
  from page_insert_full [OF s1(2) pd(2) assms(4) bits this] room obtain s2 rs where
    s2: "page_insert s1 (Some de) p va perm = Some (0, s2)" "vm_inv ?D s2 rs"
      "umap ?D s2 = (umap ?D s)(slot de va \<mapsto> mk_pte p perm)" "mem_frame s1 s2" "user_frame ?D s1 qs s2"
      "length qs \<le> length rs + (if utab s1 de (unat (PDX va)) = None then 1 else 0)"
      "\<forall>x \<in> ?D. \<forall>i. (x, i) \<noteq> (de, unat (PDX va)) \<longrightarrow> utab s2 x i = utab s1 x i"
    unfolding s1(3) by blast
  let ?s3 = "zero_page p s2"
  have "pfn (mk_pte p perm) = p" using small bits by (simp add: pfn_mk_pte)
  then have p: "p \<notin> ?D" "p \<notin> tables ?D s2"
    using vm_inv_user [OF s2(2), of "slot de va"] s2(3) by (simp_all add: user_page_def)
  have fr: "\<And>q. q \<noteq> p \<Longrightarrow> frames ?s3 q = frames s2 q" by simp
  have "npages s2 = npages s1" using s2(4) by (simp add: mem_frame_def)
  then have "sys_page_alloc s envid va perm = Ret 0 ?s3"
    using assms(4,5) s1(1) pd(1) s2(1) small
    unfolding sys_page_alloc_def with_env_names [OF assms(1,2)] user_perm_def PTE_SYSCALL_eq by auto
  moreover have "mem_frame s ?s3" using mem_frame_trans [OF s1(5) mem_frame_trans [OF s2(4)]] by simp
  moreover have "vm_inv ?D ?s3 rs" by (rule other_page_inv [OF s2(2) p fr]) simp_all
  moreover have "umap ?D ?s3 = (umap ?D s)(slot de va \<mapsto> mk_pte p perm)"
    using other_page_umap(3) [OF fr p] s2(3) by simp
  moreover have "user_frame ?D s ps s2" using user_frame_start [OF s2(5) fr1, of ps] Cons by auto
  then have "user_frame ?D s ps ?s3" by (rule user_frame_write [of _ _ _ _ p]) (use p Cons in auto)
  moreover have "length ps \<le> length rs + (if utab s de (unat (PDX va)) = None then 2 else 1)"
    using s2(6) Cons ut1 by auto
  moreover have "utab ?s3 x i = utab s x i" if "x \<in> ?D" "(x, i) \<noteq> (de, unat (PDX va))" for x i
  proof -
    have "x \<noteq> p" using that(1) p(1) by auto
    then have "utab ?s3 x i = utab s2 x i" by (simp add: utab_def)
    then show ?thesis using s2(7) that ut1 by simp
  qed
  ultimately show ?thesis using Cons by (intro exI [of _ ?s3] exI [of _ rs] exI [of _ p]) (simp add: space_step_def)
qed

section \<open>User memory\<close>

text \<open>A copy between two different pages, as \<^verbatim>\<open>memmove\<close> does it for them.\<close>

definition copy_page :: "kstate \<Rightarrow> u32 \<Rightarrow> u32 \<Rightarrow> kstate option" where
  "copy_page s dst src = do { bs \<leftarrow> load_bytes s src 4096; store_bytes s dst bs }"

lemma user_entry:
  assumes "calling s fs ps c d" and "umap (dirs s) s (slot d va) = Some pte"
  obtains t where "frames s d (unat (PDX va)) AND PTE_W \<noteq> 0" "present (frames s d (unat (PDX va)))"
    "pfn (frames s d (unat (PDX va))) = t" "frames s t (unat (PTX va)) = pte" "present pte"
    "user_page (dirs s) s ps (pfn pte) (count (umap (dirs s) s) (pfn pte))" "t \<in> tables (dirs s) s"
proof -
  note cl = callingD [OF assms(1)]
  from assms(2) obtain t where t: "utab s d (unat (PDX va)) = Some t" "frames s t (unat (PTX va)) = pte" "present pte" "unat (PDX va) < NUPD"
    by (auto simp: umap_def split: if_splits option.splits)
  then have "present (frames s d (unat (PDX va)))" "pfn (frames s d (unat (PDX va))) = t" by (auto simp: utab_def split: if_splits)
  moreover have "frames s d (unat (PDX va)) AND PTE_W \<noteq> 0"
    using cl(7,9) t(4) calculation(1) unfolding pdes_writable_def by blast
  moreover have "t \<in> tables (dirs s) s" using t(1,4) cl(9) by (auto simp: tables_def)
  ultimately show ?thesis using that t vm_inv_user [OF cl(2) assms(2)] by blast
qed

lemma user_translate:
  assumes "calling s fs ps c d" and "umap (dirs s) s (slot d base) = Some pte" and "PGOFF base = 0" and "k < 4096"
  shows "translate s (base + of_nat k) False = Some (pfn pte, k)"
  by (rule user_entry [OF assms(1,2)])
    (use page_addr [OF assms(3,4)] callingD(6) [OF assms(1)] in \<open>simp add: translate_def Let_def\<close>)

lemma user_rw_page:
  assumes "calling s fs ps c d" and "umap (dirs s) s (slot d base) = Some pte" and "PGOFF base = 0" and "pte AND PTE_W \<noteq> 0"
  shows "rw_page s base (pfn pte)"
proof (rule user_entry [OF assms(1,2)])
  fix t assume t: "frames s d (unat (PDX base)) AND PTE_W \<noteq> 0" "present (frames s d (unat (PDX base)))"
    "pfn (frames s d (unat (PDX base))) = t" "frames s t (unat (PTX base)) = pte" "present pte"
    "user_page (dirs s) s ps (pfn pte) (count (umap (dirs s) s) (pfn pte))" "t \<in> tables (dirs s) s"
  then have "pfn pte \<noteq> d" "pfn pte \<noteq> t" using callingD(9) [OF assms(1)] by (auto simp: user_page_def)
  then show ?thesis using t(1-5) assms(3,4) callingD(6) [OF assms(1)] by (simp add: rw_page_def Let_def)
qed

lemma load_bytes_user:
  assumes "calling s fs ps c d" and "umap (dirs s) s (slot d base) = Some pte" and "PGOFF base = 0" and "k + n \<le> 4096"
  shows "load_bytes s (base + of_nat k) n = Some (map (page_byte s (pfn pte)) [k..<k + n])"
  using assms(4)
proof (induction n arbitrary: k)
  case (Suc n)
  have "load_byte s (base + of_nat k) = Some (page_byte s (pfn pte) k)"
    using user_translate [OF assms(1-3), of k] Suc.prems by (simp add: load_byte_def)
  moreover have "load_bytes s (base + of_nat (Suc k)) n = Some (map (page_byte s (pfn pte)) [Suc k..<Suc k + n])"
    by (rule Suc.IH) (use Suc.prems in simp)
  moreover have "base + of_nat k + 1 = base + of_nat (Suc k)" by simp
  moreover have "[k..<k + Suc n] = k # [Suc k..<Suc k + n]" by (simp add: upt_conv_Cons)
  ultimately show ?case by (simp only: load_bytes.simps bind.bind_lunit list.map)
qed simp

text \<open>Writing the contents of a user page.\<close>

lemma set_user_frame:
  assumes "calling s fs ps c d" and "umap (dirs s) s x = Some pte"
  shows "calling (set_frame (pfn pte) f s) fs ps c d" and "umap (dirs s) (set_frame (pfn pte) f s) = umap (dirs s) s"
proof -
  note cl = callingD [OF assms(1)]
  have u: "pfn pte \<notin> dirs s" "pfn pte \<notin> tables (dirs s) s" using vm_inv_user [OF cl(2) assms(2)] by (auto simp: user_page_def)
  let ?s = "set_frame (pfn pte) f s"
  have fr: "\<And>q. q \<noteq> pfn pte \<Longrightarrow> frames ?s q = frames s q" by simp
  have same: "envs ?s = envs s" "dirs ?s = dirs s" "live ?s = live s" by (simp_all add: dirs_def live_def)
  show "umap (dirs s) ?s = umap (dirs s) s" by (rule other_page_umap(3) [OF fr u])
  have "vm_inv (dirs s) ?s ps" by (rule other_page_inv [OF cl(2) u fr]) simp_all
  moreover have "env_inv ?s fs" using cl(1) env_inv_cong [of ?s s fs] by simp
  moreover have "pdes_writable (dirs s) ?s" using cl(7) u(1) fr unfolding pdes_writable_def by metis
  moreover have "frames ?s d 957 = frames s d 957" using cl(9) u(1) by auto
  ultimately show "calling ?s fs ps c d" using cl same by (simp add: calling_def curenv_def)
qed

lemma copy_page_user:
  assumes "calling s fs ps c d" and "umap (dirs s) s (slot d src) = Some pte" and "PGOFF src = 0"
    and "umap (dirs s) s (slot d dst) = Some pte'" and "PGOFF dst = 0" and "pte' AND PTE_W \<noteq> 0"
  obtains f where "copy_page s dst src = Some (set_frame (pfn pte') f s)"
    "\<And>k. k < 4096 \<Longrightarrow> page_byte (set_frame (pfn pte') f s) (pfn pte') k = page_byte s (pfn pte) k"
proof -
  define bs where "bs = map (page_byte s (pfn pte)) [0..<4096]"
  have len: "length bs = 4096" by (simp add: bs_def)
  have "load_bytes s src 4096 = Some bs" using load_bytes_user [OF assms(1-3), of 0 4096] by (simp add: bs_def)
  moreover obtain f where f: "store_bytes s dst bs = Some (set_frame (pfn pte') f s)"
      "page_byte (set_frame (pfn pte') f s) (pfn pte') = over 0 bs (page_byte s (pfn pte'))"
    using store_bytes_page [OF user_rw_page [OF assms(1,4-6)], of 0 bs] len by auto
  moreover have "over 0 bs (page_byte s (pfn pte')) k = page_byte s (pfn pte) k" if "k < 4096" for k
    using that len by (simp add: over_def bs_def)
  ultimately show ?thesis using that [of f] by (simp add: copy_page_def)
qed

section \<open>The window on the page tables\<close>

definition uvpt :: "kstate \<Rightarrow> nat \<Rightarrow> u32 option" where
  "uvpt s pn = load_word s (UVPT + 4 * of_nat pn)"

definition uvpd :: "kstate \<Rightarrow> nat \<Rightarrow> u32 option" where
  "uvpd s i = load_word s (UVPT + 4 * (drop_bit 12 UVPT) + 4 * of_nat i)"

lemma load_word_frame:
  assumes "\<And>b. b < 4 \<Longrightarrow> translate s (a + of_nat b) False = Some (p, 4 * j + b)"
  shows "load_word s a = Some (frames s p j)"
proof -
  have byte: "load_byte s (a + of_nat b) = Some (ucast (drop_bit (8 * b) (frames s p j)))" if "b < 4" for b
    using assms [OF that] that by (simp add: load_byte_def page_byte_def)
  have b: "load_byte s a = Some (ucast (frames s p j))" "load_byte s (a + 1) = Some (ucast (drop_bit 8 (frames s p j)))"
    "load_byte s (a + 2) = Some (ucast (drop_bit 16 (frames s p j)))" "load_byte s (a + 3) = Some (ucast (drop_bit 24 (frames s p j)))"
    using byte [of 0] byte [of 1] byte [of 2] byte [of 3] by simp_all
  have "load_byte s (a + 2 + 1) = load_byte s (a + 3)" by (rule arg_cong [of "a + 2 + 1"]) simp
  then show ?thesis unfolding load_word_def load_half_def b using bytes_word [of "frames s p j"] b(4) by simp
qed

lemma uvpt_address:
  assumes "i < 1024" and "j < 1024" and "b < 4"
  shows "unat (UVPT + 4 * of_nat (1024 * i + j) + of_nat b) = 4013948928 + 4096 * i + 4 * j + b"
proof -
  have "unat (4 * of_nat (1024 * i + j) + of_nat b :: u32) = 4096 * i + 4 * j + b"
    using assms by (simp add: unat_word_ariths unat_of_nat)
  then show ?thesis using assms by (simp add: unat_word_ariths layout_values unat_of_nat)
qed

lemma uvpt_entry:
  assumes "calling s fs ps c d" and "i < 1024" and "j < 1024"
  shows "uvpt s (1024 * i + j) = (if present (frames s d i) then Some (frames s (pfn (frames s d i)) j) else None)"
proof -
  note cl = callingD [OF assms(1)]
  let ?a = "UVPT + 4 * of_nat (1024 * i + j)"
  have d: "d < 2 ^ 20" using vm_countsD(1,2) [OF vm_invD(1) [OF cl(2)]] cl(9) by (auto simp: vm_dirs_def owned_def free_list_def)
  have pfn_d: "pfn (frames s d 957) = d" using cl(8) d by (simp add: pfn_mk_pte perm_bits_def)
  have parts: "unat (PDX (?a + of_nat b)) = 957" "unat (PTX (?a + of_nat b)) = i" "unat (PGOFF (?a + of_nat b)) = 4 * j + b" if "b < 4" for b
  proof -
    note u = uvpt_address [OF assms(2,3) that]
    have "(4013948928 + 4096 * i + 4 * j + b) div 4096 = (4 * j + b + 4096 * (979968 + i)) div 4096" by (rule arg_cong [of _ _ "\<lambda>x. x div 4096"]) simp
    also have "\<dots> = 979968 + i" using assms(3) that by (subst div_mult_self2) simp_all
    finally have "(4013948928 + 4096 * i + 4 * j + b) div 4096 = 979968 + i" .
    moreover have "979968 + i = i + 1024 * 957" by simp
    then have "(979968 + i) mod 1024 = i" "(979968 + i) div 1024 = 957" using assms(2) by (simp_all only: mod_mult_self2 div_mult_self2) simp_all
    moreover have "(4013948928 + 4096 * i + 4 * j + b) div 4194304 = (4013948928 + 4096 * i + 4 * j + b) div 4096 div 1024"
      by (simp add: div_mult2_eq [symmetric])
    ultimately show "unat (PDX (?a + of_nat b)) = 957" "unat (PTX (?a + of_nat b)) = i" unfolding unat_PDX unat_PTX u by simp_all
    have "(4013948928 + 4096 * i + 4 * j + b) mod 4096 = (4 * j + b + 4096 * (979968 + i)) mod 4096" by (rule arg_cong [of _ _ "\<lambda>x. x mod 4096"]) simp
    also have "\<dots> = 4 * j + b" using assms(3) that by (subst mod_mult_self2) simp
    finally have "(4013948928 + 4096 * i + 4 * j + b) mod 4096 = 4 * j + b" .
    then show "unat (PGOFF (?a + of_nat b)) = 4 * j + b" unfolding unat_PGOFF u .
  qed
  have tr: "translate s (?a + of_nat b) False = (if present (frames s d i) then Some (pfn (frames s d i), 4 * j + b) else None)"
    if "b < 4" for b
    unfolding translate_def Let_def cl(6) parts [OF that] pfn_d using cl(8) by simp
  show ?thesis
  proof (cases "present (frames s d i)")
    case True
    then show ?thesis using load_word_frame [of s ?a "pfn (frames s d i)" j] tr by (simp add: uvpt_def)
  next
    case False
    then show ?thesis using tr [of 0] by (simp add: uvpt_def load_word_def load_half_def load_byte_def)
  qed
qed

lemma uvpd_entry:
  assumes "calling s fs ps c d" and "i < 1024"
  shows "uvpd s i = Some (frames s d i)"
proof -
  note cl = callingD [OF assms(1)]
  have "d < 2 ^ 20" using vm_countsD(1,2) [OF vm_invD(1) [OF cl(2)]] cl(9) by (auto simp: vm_dirs_def owned_def free_list_def)
  then have "pfn (frames s d 957) = d" "present (frames s d 957)" using cl(8) by (simp_all add: pfn_mk_pte perm_bits_def)
  moreover have "PGNUM UVPT = 979968" unfolding word_unat_eq_iff unat_PGNUM by (simp add: layout_values)
  then have "UVPT + 4 * drop_bit 12 UVPT + 4 * of_nat i = UVPT + 4 * of_nat (1024 * 957 + i)" by (simp add: PGNUM_def)
  then have "uvpd s i = uvpt s (1024 * 957 + i)" unfolding uvpd_def uvpt_def by (rule arg_cong)
  ultimately show ?thesis using uvpt_entry [OF assms(1) _ assms(2), of 957] by simp
qed

end
