(* ===== verification/Fork.thy ===== *)
theory Fork
  imports AddressSpace
begin

text \<open>
  User-level \<^verbatim>\<open>fork\<close> with copy-on-write, \<^verbatim>\<open>lib/fork.c\<close> and \<^verbatim>\<open>lib/pgfault.c\<close>, running on the model of the kernel: every
  call goes through the definitions of \<^verbatim>\<open>kern/syscall.c\<close>, page tables are read through the window at \<^verbatim>\<open>UVPT\<close>, and memory through the loaded
  page directory. A call of the user's \<^verbatim>\<open>panic\<close> is \<open>Panicked\<close>, an access the page tables do not allow is \<open>Faulted\<close>.

  The variables of the functions are values here. In the compiled program they are on the stack, whose page \<^verbatim>\<open>duppage\<close>
  makes copy-on-write like any other: the next push faults, and \<^verbatim>\<open>pgfault\<close> replaces the page by a private copy.
\<close>

unbundle bit_operations_syntax

section \<open>User code\<close>

datatype 'a user_result = Value 'a | Panicked | Faulted

type_synonym 'a user = "'a user_result outcome"

definition ubind :: "'a user \<Rightarrow> ('a \<Rightarrow> kstate \<Rightarrow> 'b user) \<Rightarrow> 'b user" where
  "ubind m f = obind m (\<lambda>r s. case r of Value a \<Rightarrow> f a s | Panicked \<Rightarrow> Ret Panicked s | Faulted \<Rightarrow> Ret Faulted s)"

text \<open>A call whose failure makes the program panic, and an access that may fault.\<close>

definition must :: "int outcome \<Rightarrow> int user" where
  "must m = obind m (\<lambda>r s. if r < 0 then Ret Panicked s else Ret (Value r) s)"

definition access :: "kstate \<Rightarrow> 'a option \<Rightarrow> 'a user" where
  "access s x = (case x of None \<Rightarrow> Ret Faulted s | Some a \<Rightarrow> Ret (Value a) s)"

definition access_upd :: "kstate \<Rightarrow> kstate option \<Rightarrow> unit user" where
  "access_upd s x = (case x of None \<Rightarrow> Ret Faulted s | Some s' \<Rightarrow> Ret (Value ()) s')"

lemma user_simps [simp]:
  "ubind (Ret (Value a) s) f = f a s" "ubind (Ret Panicked s) f = Ret Panicked s" "ubind (Ret Faulted s) f = Ret Faulted s"
  "must (Ret r s) = (if r < 0 then Ret Panicked s else Ret (Value r) s)"
  "access s (Some a) = Ret (Value a) s" "access s None = Ret Faulted s"
  "access_upd s (Some s') = Ret (Value ()) s'" "access_upd s None = Ret Faulted s"
  by (simp_all add: ubind_def must_def access_def access_upd_def)

section \<open>Copy-on-write\<close>

abbreviation PTE_COW :: u32 where "PTE_COW \<equiv> 0x800"
abbreviation PTE_SHARE :: u32 where "PTE_SHARE \<equiv> 0x400"
abbreviation FEC_WR :: u32 where "FEC_WR \<equiv> 0x2"

definition pgfault :: "kstate \<Rightarrow> u32 \<Rightarrow> u32 \<Rightarrow> unit user" where
  "pgfault s va err =
     (if err AND FEC_WR = 0 then Ret Panicked s
      else ubind (access s (uvpt s (unat (PGNUM va)))) (\<lambda>pte s.
        if pte AND PTE_COW = 0 then Ret Panicked s
        else obind (sys_getenvid s) (\<lambda>r s.
          let envid = of_int r in
          ubind (must (sys_page_alloc s envid PFTEMP (PTE_P OR PTE_W OR PTE_U))) (\<lambda>_ s.
          let addr = ROUNDDOWN va PGSIZE in
          ubind (access_upd s (copy_page s PFTEMP addr)) (\<lambda>_ s.
          ubind (must (sys_page_unmap s envid addr)) (\<lambda>_ s.
          ubind (must (sys_page_map s envid PFTEMP envid addr (PTE_P OR PTE_W OR PTE_U))) (\<lambda>_ s.
          ubind (must (sys_page_unmap s envid PFTEMP)) (\<lambda>_ s. Ret (Value ()) s))))))))"

definition duppage :: "kstate \<Rightarrow> nat \<Rightarrow> u32 \<Rightarrow> nat \<Rightarrow> unit user" where
  "duppage s thisenv envid pn =
     (let addr = of_nat pn * PGSIZE; self = env_id (envs s thisenv) in
      ubind (access s (uvpt s pn)) (\<lambda>pte s.
        if pte AND PTE_SHARE \<noteq> 0
        then ubind (must (sys_page_map s self addr envid addr (pte AND PTE_SYSCALL))) (\<lambda>_ s. Ret (Value ()) s)
        else let perm = PTE_P OR PTE_U OR (if pte AND PTE_W \<noteq> 0 \<or> pte AND PTE_COW \<noteq> 0 then PTE_COW else 0) in
          ubind (must (sys_page_map s self addr envid addr perm)) (\<lambda>_ s.
          if perm AND PTE_COW \<noteq> 0
          then ubind (must (sys_page_map s self addr self addr perm)) (\<lambda>_ s. Ret (Value ()) s)
          else Ret (Value ()) s)))"

definition set_pgfault_handler :: "kstate \<Rightarrow> nat \<Rightarrow> u32 \<Rightarrow> bool \<Rightarrow> unit user" where
  "set_pgfault_handler s thisenv upcall handler_set =
     (if \<not> handler_set
      then ubind (must (sys_page_alloc s (env_id (envs s thisenv)) (UXSTACKTOP - PGSIZE) (PTE_P OR PTE_W OR PTE_U))) (\<lambda>_ s.
             obind (sys_env_set_pgfault_upcall s (env_id (envs s thisenv)) upcall) (\<lambda>_ s. Ret (Value ()) s))
      else Ret (Value ()) s)"

fun dup_table :: "nat \<Rightarrow> u32 \<Rightarrow> nat \<Rightarrow> nat list \<Rightarrow> kstate \<Rightarrow> unit user" where
  "dup_table thisenv envid i [] s = Ret (Value ()) s"
| "dup_table thisenv envid i (j # js) s =
     (let pn = 1024 * i + j in
      if pn = unat (PGNUM (UXSTACKTOP - PGSIZE)) then Ret (Value ()) s
      else ubind (access s (uvpt s pn)) (\<lambda>pte s.
        if pte AND PTE_P \<noteq> 0
        then ubind (duppage s thisenv envid pn) (\<lambda>_ s. dup_table thisenv envid i js s)
        else dup_table thisenv envid i js s))"

fun dup_tables :: "nat \<Rightarrow> u32 \<Rightarrow> nat list \<Rightarrow> kstate \<Rightarrow> unit user" where
  "dup_tables thisenv envid [] s = Ret (Value ()) s"
| "dup_tables thisenv envid (i # is) s =
     ubind (access s (uvpd s i)) (\<lambda>pde s.
       if pde AND PTE_P \<noteq> 0
       then ubind (dup_table thisenv envid i [0..<NPTENTRIES] s) (\<lambda>_ s. dup_tables thisenv envid is s)
       else dup_tables thisenv envid is s)"

definition fork_tables :: "nat list" where
  "fork_tables = [unat (PDX UTEXT)..<unat (PDX UXSTACKTOP)]"

definition fork :: "kstate \<Rightarrow> nat \<Rightarrow> u32 \<Rightarrow> bool \<Rightarrow> int user" where
  "fork s thisenv upcall handler_set =
     ubind (set_pgfault_handler s thisenv upcall handler_set) (\<lambda>_ s.
     ubind (must (sys_exofork s)) (\<lambda>r s.
     if r = 0 then Ret (Value 0) s
     else let envid = of_int r in
       ubind (dup_tables thisenv envid fork_tables s) (\<lambda>_ s.
       ubind (must (sys_page_alloc s envid (UXSTACKTOP - PGSIZE) (PTE_P OR PTE_U OR PTE_W))) (\<lambda>_ s.
       ubind (must (sys_page_map s envid (UXSTACKTOP - PGSIZE) (env_id (envs s thisenv)) PFTEMP (PTE_P OR PTE_U OR PTE_W))) (\<lambda>_ s.
       ubind (access_upd s (copy_page s (UXSTACKTOP - PGSIZE) PFTEMP)) (\<lambda>_ s.
       ubind (must (sys_page_unmap s (env_id (envs s thisenv)) PFTEMP)) (\<lambda>_ s.
       obind (sys_env_set_pgfault_upcall s envid upcall) (\<lambda>_ s.
       ubind (must (sys_env_set_status s envid 2)) (\<lambda>_ s. Ret (Value r) s)))))))))"

section \<open>The page fault handler\<close>

lemma rounddown_page:
  "PDX (ROUNDDOWN va PGSIZE) = PDX va" "PTX (ROUNDDOWN va PGSIZE) = PTX va" "PGOFF (ROUNDDOWN va PGSIZE) = 0"
  "va < UTOP \<Longrightarrow> ROUNDDOWN va PGSIZE < UTOP" "unat (PGNUM va) = 1024 * unat (PDX va) + unat (PTX va)"
proof -
  define n where "n = unat va"
  have r: "unat (ROUNDDOWN va PGSIZE) = n div 4096 * 4096" by (simp add: unat_ROUNDDOWN n_def minus_mod_eq_div_mult)
  have d: "m div 4194304 = m div 4096 div 1024" for m :: nat by (simp add: div_mult2_eq [symmetric])
  show p: "PDX (ROUNDDOWN va PGSIZE) = PDX va" "PTX (ROUNDDOWN va PGSIZE) = PTX va" "PGOFF (ROUNDDOWN va PGSIZE) = 0"
    unfolding word_unat_eq_iff unat_PDX unat_PTX unat_PGOFF r n_def [symmetric] d by simp_all
  show "ROUNDDOWN va PGSIZE < UTOP" if "va < UTOP" using that unfolding below_UTOP p .
  show "unat (PGNUM va) = 1024 * unat (PDX va) + unat (PTX va)" unfolding unat_PGNUM unat_PDX unat_PTX d by simp
qed

lemma PFTEMP_page: "PFTEMP < UTOP" "PGOFF PFTEMP = 0"
  unfolding word_less_nat_alt word_unat_eq_iff unat_PGOFF by (simp_all add: layout_values)

lemma user_perm_rw: "user_perm (PTE_P OR PTE_W OR PTE_U)" "user_perm (PTE_P OR PTE_U OR PTE_W)"
  "user_perm (PTE_P OR PTE_U OR PTE_COW)" "user_perm (PTE_P OR PTE_U)"
  by (simp_all add: user_perm_def PTE_SYSCALL_def)

lemma page_byte_cong: "frames s' p = frames s p \<Longrightarrow> page_byte s' p = page_byte s p"
  by (simp add: page_byte_def fun_eq_iff)

lemma uvpt_umap:
  assumes "calling s fs ps c d" and "umap (dirs s) s (d, i, j) = Some pte"
  shows "uvpt s (1024 * i + j) = Some pte"
proof -
  have "i < 1024" "j < 1024" using assms(2) by (auto simp: umap_def NUPD_value split: if_splits)
  then show ?thesis using uvpt_entry [OF assms(1)] assms(2) by (auto simp: umap_def utab_def split: if_splits)
qed

lemma utab_kept:
  assumes "space_step s ps s' ps' m" and "d \<in> dirs s" and "utab s d i \<noteq> None"
  shows "utab s' d i = utab s d i"
proof -
  have "present (frames s d i)" using assms(3) by (auto simp: utab_def split: if_splits)
  then have "frames s' d i = frames s d i" using assms(1,2) unfolding space_step_def user_frame_def by blast
  then show ?thesis by (simp add: utab_def)
qed

lemma umap_utab: "umap D s (d, i, j) = Some e \<Longrightarrow> utab s d i \<noteq> None"
  by (auto simp: umap_def split: if_splits option.splits)

lemma pfn_user_pte:
  assumes "vm_inv D s ps" and "p \<in> set ps" and "user_perm perm"
  shows "pfn (mk_pte p perm) = p"
proof -
  have "p < npages s" "npages s \<le> 65536"
    using assms(2) vm_countsD(2) [OF vm_invD(1) [OF assms(1)]] by (auto simp: free_list_def)
  then show ?thesis using assms(3) perm_bits_syscall by (simp add: pfn_mk_pte user_perm_def)
qed

text \<open>A free page that is mapped only at \<open>x\<close>.\<close>

lemma count_new:
  assumes "vm_inv D s ps" and "q \<in> set ps" and "\<And>y e. m y = Some e \<Longrightarrow> y = x \<or> umap D s y = Some e"
  shows "count m q \<le> 1"
proof -
  have "refs m q \<subseteq> {x}"
  proof
    fix y assume "y \<in> refs m q"
    then obtain e where e: "m y = Some e" "pfn e = q" by (auto simp: refs_def)
    have "pfn e \<notin> set ps" if "umap D s y = Some e" using vm_inv_user [OF assms(1) that] by (simp add: user_page_def)
    then show "y \<in> {x}" using assms(2,3) e by blast
  qed
  then show ?thesis unfolding count_def using card_mono [of "{x}"] by simp
qed

lemma pgfault_spec:
  assumes cl: "calling s fs ps c d" and pte: "umap (dirs s) s (slot d va) = Some pte" and cow: "pte AND PTE_COW \<noteq> 0" "err AND FEC_WR \<noteq> 0"
    and room: "2 \<le> length ps" and not_temp: "ROUNDDOWN va PGSIZE \<noteq> PFTEMP"
  shows "\<exists>s' ps' q. pgfault s va err = Ret (Value ()) s' \<and> calling s' fs ps' c d \<and> dirs s' = dirs s \<and> envs s' = envs s \<and> q \<in> set ps \<and>
    umap (dirs s) s' = (umap (dirs s) s)(slot d PFTEMP := None, slot d va \<mapsto> mk_pte q (PTE_P OR PTE_W OR PTE_U)) \<and>
    (\<forall>k < 4096. page_byte s' q k = page_byte s (pfn pte) k) \<and>
    (\<forall>x e. umap (dirs s) s x = Some e \<and> x \<noteq> slot d va \<and> x \<noteq> slot d PFTEMP \<longrightarrow> frames s' (pfn e) = frames s (pfn e))"
proof -
  let ?D = "dirs s" and ?T = "slot d PFTEMP" and ?X = "slot d va" and ?p7 = "PTE_P OR PTE_W OR PTE_U"
  let ?a = "ROUNDDOWN va PGSIZE" and ?id = "env_id (envs s c)" and ?m = "umap (dirs s) s"
  note c = callingD [OF cl]
  have vaU: "va < UTOP" using pte by (auto simp: below_UTOP umap_def split: if_splits)
  have X: "slot d ?a = ?X" and a: "?a < UTOP" "PGOFF ?a = 0" using rounddown_page [of va] vaU by simp_all
  have TX: "?T \<noteq> ?X"
  proof
    assume "?T = ?X"
    then have "PDX PFTEMP = PDX ?a" "PTX PFTEMP = PTX ?a" "PGOFF PFTEMP = PGOFF ?a"
      using rounddown_page(1-3) [of va] PFTEMP_page by (simp_all add: word_unat_eq_iff)
    then have "PFTEMP = ?a" using PGADDR_parts by metis
    then show False using not_temp by simp
  qed
  have uv: "uvpt s (unat (PGNUM va)) = Some pte" using uvpt_umap [OF cl pte] rounddown_page(5) [of va] by simp
  have idr: "sys_getenvid s = Ret (sint ?id) s" using c(3) by (simp add: sys_getenvid_def)
  have "(if utab s d (unat (PDX PFTEMP)) = None then 2 else 1) \<le> length ps" using room by simp
  from sys_page_alloc_succeeds [OF cl names_self(1) [OF cl] c(5) PFTEMP_page(1) user_perm_rw(1) this] obtain s1 ps1 q where
    s1: "sys_page_alloc s ?id PFTEMP ?p7 = Ret 0 s1" "q \<in> set ps" "space_step s ps s1 ps1 (?m(?T \<mapsto> mk_pte q ?p7))" by blast
  note k1 = calling_step [OF cl s1(3)]
  have q: "pfn (mk_pte q ?p7) = q" by (rule pfn_user_pte [OF c(2) s1(2) user_perm_rw(1)])
  have W: "mk_pte q ?p7 AND PTE_W \<noteq> 0"
  proof -
    have "bit (mk_pte q ?p7 AND PTE_W) 1" by (simp add: mk_pte_def bit_simps)
    then show ?thesis by auto
  qed
  have m1: "umap (dirs s1) s1 (slot d ?a) = Some pte" "umap (dirs s1) s1 ?T = Some (mk_pte q ?p7)"
    unfolding k1(4) X by (subst fun_upd_other [OF TX [symmetric]], rule pte, rule fun_upd_same)
  from copy_page_user [OF k1(1) m1(1) a(2) m1(2) PFTEMP_page(2) W] obtain f where
    cp: "copy_page s1 PFTEMP ?a = Some (set_frame q f s1)"
      "\<And>k. k < 4096 \<Longrightarrow> page_byte (set_frame q f s1) q k = page_byte s1 (pfn pte) k" unfolding q by blast
  define s2 where "s2 = set_frame q f s1"
  have s2: "calling s2 fs ps1 c d" "umap (dirs s1) s2 = umap (dirs s1) s1" "envs s2 = envs s1" "dirs s2 = ?D"
    using set_user_frame [OF k1(1) m1(2), of f] k1(2) unfolding q s2_def by (simp_all add: dirs_def live_def)
  have id2: "env_id (envs s2 c) = ?id" using s2(3) k1(3) by simp
  from sys_page_unmap_succeeds [OF s2(1) names_self(1) [OF s2(1)] callingD(5) [OF s2(1)] a] obtain s3 ps3 where
    s3: "sys_page_unmap s2 ?id ?a = Ret 0 s3" "space_step s2 ps1 s3 ps3 (?m(?T \<mapsto> mk_pte q ?p7, ?X := None))"
    unfolding X id2 s2(4) using s2(2) k1(2,4) by auto
  note k3 = calling_step [OF s2(1) s3(2)]
  have id3: "env_id (envs s3 c) = ?id" using k3(3) id2 by simp
  have m3: "umap (dirs s3) s3 ?T = Some (mk_pte q ?p7)" unfolding k3(4) using TX by simp
  have tab: "utab s3 d (unat (PDX ?a)) \<noteq> None"
  proof -
    have "utab s2 d (unat (PDX ?a)) \<noteq> None" using umap_utab m1(1) s2(2) by metis
    then show ?thesis using utab_kept [OF s3(2)] callingD(9) [OF s2(1)] by simp
  qed
  have "count (umap (dirs s3) s3) q \<le> 1"
    unfolding k3(4) by (rule count_new [OF c(2) s1(2), of _ ?T]) (auto split: if_splits)
  then have small: "count (umap (dirs s3) s3) (pfn (mk_pte q ?p7)) < 65535" unfolding q by simp
  from sys_page_map_succeeds [OF k3(1) names_self(1) [OF k3(1)] names_self(1) [OF k3(1)] callingD(5) [OF k3(1)] callingD(5) [OF k3(1)]
      PFTEMP_page a user_perm_rw(1) m3 _ small] W tab obtain s4 ps4 where
    s4: "sys_page_map s3 ?id PFTEMP ?id ?a ?p7 = Ret 0 s4"
      "space_step s3 ps3 s4 ps4 (?m(?T \<mapsto> mk_pte q ?p7, ?X := None, ?X \<mapsto> mk_pte q ?p7))"
    unfolding X id3 q k3(4) by blast
  note k4 = calling_step [OF k3(1) s4(2)]
  have id4: "env_id (envs s4 c) = ?id" using k4(3) id3 by simp
  from sys_page_unmap_succeeds [OF k4(1) names_self(1) [OF k4(1)] callingD(5) [OF k4(1)] PFTEMP_page] obtain s5 ps5 where
    s5: "sys_page_unmap s4 ?id PFTEMP = Ret 0 s5"
      "space_step s4 ps4 s5 ps5 (?m(?T \<mapsto> mk_pte q ?p7, ?X := None, ?X \<mapsto> mk_pte q ?p7, ?T := None))"
    unfolding id4 k4(4) by blast
  note k5 = calling_step [OF k4(1) s5(2)]
  have op: "pgfault s va err = Ret (Value ()) s5"
    unfolding pgfault_def using cow uv idr s1(1) cp(1) s3(1) s4(1) s5(1) s2_def by (simp add: Let_def)
  note kept = mapped_kept [OF callingD(2)]
  have fq: "frames s5 q = frames s2 q"
    using kept [OF s2(1) s3(2), of ?T "mk_pte q ?p7"] kept [OF k3(1) s4(2) m3] kept [OF k4(1) s5(2), of ?X "mk_pte q ?p7"]
    unfolding k4(4) q using s2 k1 m1(2) by simp
  have fr: "frames s5 (pfn e) = frames s (pfn e)" if "?m x = Some e" "x \<noteq> ?X" "x \<noteq> ?T" for x e
  proof -
    have "pfn e \<noteq> q" using vm_inv_user [OF c(2) that(1)] s1(2) by (auto simp: user_page_def)
    then have "frames s2 (pfn e) = frames s1 (pfn e)" by (simp add: s2_def)
    then show ?thesis
      using kept [OF cl s1(3) that(1)] kept [OF s2(1) s3(2), of x e] kept [OF k3(1) s4(2), of x e] kept [OF k4(1) s5(2), of x e]
        that s2(2,4) k1(2,4) k3(4) k4(4) by simp
  qed
  have "page_byte s5 q k = page_byte s (pfn pte) k" if "k < 4096" for k
    using cp(2) [OF that] page_byte_cong [OF fq] page_byte_cong [OF kept [OF cl s1(3) pte]] by (simp add: s2_def)
  moreover have "umap ?D s5 = ?m(?T := None, ?X \<mapsto> mk_pte q ?p7)"
    using k5(2,4) k4(2) k3(2) s2(4) TX by (auto simp: fun_eq_iff)
  ultimately show ?thesis
    using op k5(1-3) k4(2,3) k3(2,3) s2(3,4) k1(3) s1(2) fr by (intro exI [of _ s5] exI [of _ ps5] exI [of _ q]) auto
qed

section \<open>Duplicating an address space\<close>

text \<open>The permission with which a page is shared, and the entries of the child and of the parent afterwards.\<close>

definition cow :: "u32 \<Rightarrow> bool" where
  "cow pte \<longleftrightarrow> pte AND PTE_SHARE = 0 \<and> (pte AND PTE_W \<noteq> 0 \<or> pte AND PTE_COW \<noteq> 0)"

definition child_pte :: "u32 \<Rightarrow> u32" where
  "child_pte pte = mk_pte (pfn pte)
     (if pte AND PTE_SHARE \<noteq> 0 then pte AND PTE_SYSCALL else if cow pte then PTE_P OR PTE_U OR PTE_COW else PTE_P OR PTE_U)"

definition parent_pte :: "u32 \<Rightarrow> u32" where
  "parent_pte pte = (if cow pte then mk_pte (pfn pte) (PTE_P OR PTE_U OR PTE_COW) else pte)"

text \<open>Mapped pages stay where they are, with their contents, except at \<open>X\<close>.\<close>

definition keeps_pages :: "(nat \<times> nat \<times> nat) set \<Rightarrow> kstate \<Rightarrow> kstate \<Rightarrow> bool" where
  "keeps_pages X s s' \<longleftrightarrow> (\<forall>x e. umap (dirs s) s x = Some e \<and> x \<notin> X \<longrightarrow>
     (\<exists>e'. umap (dirs s') s' x = Some e' \<and> pfn e' = pfn e) \<and> frames s' (pfn e) = frames s (pfn e))"

lemma pages_refl: "keeps_pages X s s"
  by (simp add: keeps_pages_def)

lemma pages_trans: "keeps_pages X s s' \<Longrightarrow> keeps_pages X s' s'' \<Longrightarrow> keeps_pages X s s''"
  unfolding keeps_pages_def by metis

lemma pages_mono: "keeps_pages X s s' \<Longrightarrow> X \<subseteq> Y \<Longrightarrow> keeps_pages Y s s'"
  unfolding keeps_pages_def by blast

lemma pages_step:
  assumes "calling s fs ps c d" and "space_step s ps s' ps' m"
    and "\<And>x e. umap (dirs s) s x = Some e \<Longrightarrow> x \<notin> X \<Longrightarrow> \<exists>e'. m x = Some e' \<and> pfn e' = pfn e"
  shows "keeps_pages X s s'"
  unfolding keeps_pages_def calling_step(4) [OF assms(1,2)]
  using assms(3) mapped_kept [OF callingD(2) [OF assms(1)] assms(2)] by blast

lemma page_va:
  assumes "i < NUPD" and "j < 1024"
  shows "PDX (of_nat (1024 * i + j) * PGSIZE) = of_nat i" and "unat (PDX (of_nat (1024 * i + j) * PGSIZE)) = i"
    and "unat (PTX (of_nat (1024 * i + j) * PGSIZE)) = j" and "PGOFF (of_nat (1024 * i + j) * PGSIZE) = 0"
    and "of_nat (1024 * i + j) * PGSIZE < UTOP"
proof -
  have i: "i < 955" using assms(1) by (simp add: NUPD_value)
  have u: "unat (of_nat (1024 * i + j) * PGSIZE) = (j + 1024 * i) * 4096"
    using i assms(2) by (simp add: unat_word_ariths unat_of_nat)
  have d: "m div 4194304 = m div 4096 div 1024" for m :: nat by (simp add: div_mult2_eq [symmetric])
  have q: "(j + 1024 * i) * 4096 div 4096 = j + 1024 * i" "(j + 1024 * i) div 1024 = i" "(j + 1024 * i) mod 1024 = j" using assms(2) by simp_all
  show p: "unat (PDX (of_nat (1024 * i + j) * PGSIZE)) = i" unfolding unat_PDX d u q ..
  show "PDX (of_nat (1024 * i + j) * PGSIZE) = of_nat i" using p i by (simp add: word_unat_eq_iff unat_of_nat)
  show "unat (PTX (of_nat (1024 * i + j) * PGSIZE)) = j" unfolding unat_PTX u q ..
  show "PGOFF (of_nat (1024 * i + j) * PGSIZE) = 0" unfolding word_unat_eq_iff unat_PGOFF u by simp
  show "of_nat (1024 * i + j) * PGSIZE < UTOP" unfolding below_UTOP p using assms(1) .
qed

lemma share_perm:
  assumes "present pte" and "pte AND PTE_U \<noteq> 0"
  shows "user_perm (pte AND PTE_SYSCALL)" and "(pte AND PTE_SYSCALL) AND PTE_W = pte AND PTE_W"
proof -
  have "(pte AND PTE_SYSCALL) AND PTE_U = pte AND PTE_U" "(pte AND PTE_SYSCALL) AND PTE_P = pte AND PTE_P"
    by (simp_all add: and.assoc PTE_SYSCALL_def)
  moreover have "(pte AND PTE_SYSCALL) AND NOT PTE_SYSCALL = 0" by (simp add: and.assoc)
  ultimately show "user_perm (pte AND PTE_SYSCALL)" using assms by (simp add: user_perm_def present_def)
  show "(pte AND PTE_SYSCALL) AND PTE_W = pte AND PTE_W" by (simp add: and.assoc PTE_SYSCALL_def)
qed

text \<open>One page.\<close>

definition dup1 :: "(nat \<times> nat \<times> nat \<Rightarrow> u32 option) \<Rightarrow> nat \<Rightarrow> nat \<Rightarrow> nat \<Rightarrow> nat \<Rightarrow> nat \<times> nat \<times> nat \<Rightarrow> u32 option" where
  "dup1 m d d' i j = (case m (d, i, j) of None \<Rightarrow> m
     | Some pte \<Rightarrow> m((d', i, j) \<mapsto> child_pte pte, (d, i, j) \<mapsto> parent_pte pte))"

lemma pfn_child:
  assumes "pfn pte < 65536" and "present pte" and "pte AND PTE_U \<noteq> 0"
  shows "pfn (child_pte pte) = pfn pte" and "pfn (parent_pte pte) = pfn pte"
proof -
  have bits: "perm_bits (pte AND PTE_SYSCALL)" "perm_bits (PTE_P OR PTE_U OR PTE_COW)" "perm_bits (PTE_P OR PTE_U)"
    using share_perm(1) [OF assms(2,3)] user_perm_rw perm_bits_syscall by (simp_all add: user_perm_def)
  have "pfn pte < 2 ^ 20" using assms(1) by simp
  then show "pfn (child_pte pte) = pfn pte" "pfn (parent_pte pte) = pfn pte"
    using bits by (simp_all add: child_pte_def parent_pte_def pfn_mk_pte)
qed

lemma duppage_spec:
  assumes cl: "calling s fs ps c d" and child: "names s c e envid" "env_pgdir (envs s e) = Some d'" "d' \<noteq> d"
    and idx: "i < NUPD" "j < 1024" and pte: "umap (dirs s) s (d, i, j) = Some pte" "pte AND PTE_U \<noteq> 0" "umap (dirs s) s (d', i, j) = None"
    and small: "count (umap (dirs s) s) (pfn pte) < 65534" and room: "utab s d' i \<noteq> None \<or> ps \<noteq> []"
  shows "\<exists>s' ps'. duppage s c envid (1024 * i + j) = Ret (Value ()) s' \<and> calling s' fs ps' c d \<and> dirs s' = dirs s \<and> envs s' = envs s \<and>
    umap (dirs s') s' = dup1 (umap (dirs s) s) d d' i j \<and> keeps_pages {} s s' \<and>
    length ps \<le> length ps' + (if utab s d' i = None then 1 else 0) \<and> utab s' d' i \<noteq> None \<and>
    (\<forall>x \<in> dirs s. \<forall>k. (x, k) \<noteq> (d', i) \<longrightarrow> utab s' x k = utab s x k)"
proof -
  let ?a = "of_nat (1024 * i + j) * PGSIZE" and ?id = "env_id (envs s c)" and ?m = "umap (dirs s) s"
  note c = callingD [OF cl] and va = page_va [OF idx]
  have pres: "present pte" using pte(1) by (auto simp: umap_def split: if_splits option.splits)
  have np: "pfn pte < 65536"
    using vm_inv_user [OF c(2) pte(1)] vm_countsD(2) [OF vm_invD(1) [OF c(2)]] by (auto simp: user_page_def free_list_def)
  note pfn = pfn_child [OF np pres pte(2)]
  have uv: "uvpt s (1024 * i + j) = Some pte" by (rule uvpt_umap [OF cl pte(1)])
  have sl: "slot d ?a = (d, i, j)" "slot d' ?a = (d', i, j)" using va by simp_all
  have first: "\<exists>s1 ps1. sys_page_map s ?id ?a envid ?a perm = Ret 0 s1 \<and> space_step s ps s1 ps1 (?m((d', i, j) \<mapsto> mk_pte (pfn pte) perm)) \<and>
      length ps \<le> length ps1 + (if utab s d' i = None then 1 else 0) \<and>
      (\<forall>x \<in> dirs s. \<forall>k. (x, k) \<noteq> (d', i) \<longrightarrow> utab s1 x k = utab s x k)"
    if "user_perm perm" "perm AND PTE_W = 0 \<or> pte AND PTE_W \<noteq> 0" for perm
    using sys_page_map_succeeds [OF cl names_self(1) [OF cl] child(1) c(5) child(2) va(5,4,5,4) that(1) _ that(2)]
      pte(1) small room va(2,3) by simp
  have keep1: "keeps_pages {} s s1" if "space_step s ps s1 ps1 (?m((d', i, j) \<mapsto> v))" for s1 ps1 v
    by (rule pages_step [OF cl that]) (use pte(3) in auto)
  have tab1: "utab s1 d' i \<noteq> None" if "space_step s ps s1 ps1 (?m((d', i, j) \<mapsto> v))" for s1 ps1 v
    using umap_utab [of "dirs s1" s1 d' i j v] calling_step(4) [OF cl that] by simp
  show ?thesis
  proof (cases "cow pte")
    case False
    let ?perm = "if pte AND PTE_SHARE \<noteq> 0 then pte AND PTE_SYSCALL else PTE_P OR PTE_U"
    have "user_perm ?perm" "?perm AND PTE_W = 0 \<or> pte AND PTE_W \<noteq> 0"
      using share_perm [OF pres pte(2)] user_perm_rw by (auto simp: False)
    from first [OF this] obtain s1 ps1 where
      s1: "sys_page_map s ?id ?a envid ?a ?perm = Ret 0 s1" "space_step s ps s1 ps1 (?m((d', i, j) \<mapsto> mk_pte (pfn pte) ?perm))"
        "length ps \<le> length ps1 + (if utab s d' i = None then 1 else 0)"
        "\<forall>x \<in> dirs s. \<forall>k. (x, k) \<noteq> (d', i) \<longrightarrow> utab s1 x k = utab s x k" by blast
    note k1 = calling_step [OF cl s1(2)]
    have "duppage s c envid (1024 * i + j) = Ret (Value ()) s1"
      using uv s1(1) False by (auto simp: duppage_def cow_def split: if_splits)
    moreover have "umap (dirs s1) s1 = dup1 ?m d d' i j"
      unfolding k1(4) using False pte(1) child(3) by (simp add: dup1_def child_pte_def parent_pte_def fun_upd_idem)
    ultimately show ?thesis using k1 s1 keep1 [OF s1(2)] tab1 [OF s1(2)] by blast
  next
    case True
    let ?perm = "PTE_P OR PTE_U OR PTE_COW"
    have "?perm AND PTE_W = 0 \<or> pte AND PTE_W \<noteq> 0" by simp
    from first [OF user_perm_rw(3) this] obtain s1 ps1 where
      s1: "sys_page_map s ?id ?a envid ?a ?perm = Ret 0 s1" "space_step s ps s1 ps1 (?m((d', i, j) \<mapsto> mk_pte (pfn pte) ?perm))"
        "length ps \<le> length ps1 + (if utab s d' i = None then 1 else 0)"
        "\<forall>x \<in> dirs s. \<forall>k. (x, k) \<noteq> (d', i) \<longrightarrow> utab s1 x k = utab s x k" by blast
    note k1 = calling_step [OF cl s1(2)]
    have id1: "env_id (envs s1 c) = ?id" using k1(3) by simp
    have m1: "umap (dirs s1) s1 (slot d ?a) = Some pte" unfolding k1(4) sl using pte(1) child(3) by simp
    have tab: "utab s1 d i \<noteq> None" using umap_utab m1 sl by metis
    have fin: "finite (dom ?m)" by (rule vm_invD(2) [OF c(2)])
    have "pfn (mk_pte (pfn pte) ?perm) = pfn pte" using pfn(1) True by (simp add: child_pte_def cow_def)
    then have "count (umap (dirs s1) s1) (pfn pte) < 65535"
      unfolding k1(4) using count_insert [OF fin pte(3)] small by simp
    from sys_page_map_succeeds [OF k1(1) names_self(1) [OF k1(1)] names_self(1) [OF k1(1)] callingD(5) [OF k1(1)] callingD(5) [OF k1(1)]
        va(5,4,5,4) user_perm_rw(3) m1 _ this] tab obtain s2 ps2 where
      s2: "sys_page_map s1 ?id ?a ?id ?a ?perm = Ret 0 s2"
        "space_step s1 ps1 s2 ps2 (?m((d', i, j) \<mapsto> mk_pte (pfn pte) ?perm, (d, i, j) \<mapsto> mk_pte (pfn pte) ?perm))"
        "length ps1 \<le> length ps2" "\<forall>x \<in> dirs s1. \<forall>k. (x, k) \<noteq> (d, i) \<longrightarrow> utab s2 x k = utab s1 x k"
      unfolding id1 k1(4) va(2,3) by auto
    note k2 = calling_step [OF k1(1) s2(2)]
    have "duppage s c envid (1024 * i + j) = Ret (Value ()) s2"
      using uv s1(1) s2(1) True by (auto simp: duppage_def cow_def)
    moreover have "umap (dirs s2) s2 = dup1 ?m d d' i j"
      unfolding k2(4) using True pte(1) by (simp add: dup1_def child_pte_def parent_pte_def cow_def)
    moreover have "keeps_pages {} s1 s2"
      by (rule pages_step [OF k1(1) s2(2)]) (use m1 sl k1(4) pfn True in \<open>auto simp: parent_pte_def split: if_splits\<close>)
    moreover have "d' \<in> dirs s" using child by (auto simp: dirs_def names_def)
    then have "utab s2 d' i \<noteq> None" using tab1 [OF s1(2)] s2(4) k1(2) child(3) by simp
    moreover have "utab s2 x k = utab s x k" if "x \<in> dirs s" "(x, k) \<noteq> (d', i)" for x k
      using that s1(4) s2(4) k1(2) utab_kept [OF s2(2), of d i] tab c(9) by (cases "(x, k) = (d, i)") auto
    ultimately show ?thesis
      using k2 k1 s1(3) s2(3) pages_trans [OF keep1 [OF s1(2)]] by (intro exI [of _ s2] exI [of _ ps2]) auto
  qed
qed

text \<open>
  The map during the loops, compared with the map \<open>m0\<close> before: the child has a page only where the parent has it, and
  nobody else's pages change.
\<close>

definition copies :: "(nat \<times> nat \<times> nat \<Rightarrow> u32 option) \<Rightarrow> nat \<Rightarrow> nat \<Rightarrow> (nat \<times> nat \<times> nat \<Rightarrow> u32 option) \<Rightarrow> bool" where
  "copies m0 d d' m \<longleftrightarrow> (\<forall>x i j e. m (x, i, j) = Some e \<longrightarrow>
     (\<exists>e0. m0 (if x = d' then d else x, i, j) = Some e0 \<and> pfn e0 = pfn e))"

definition user_entries :: "nat \<Rightarrow> (nat \<times> nat \<times> nat \<Rightarrow> u32 option) \<Rightarrow> bool" where
  "user_entries d m \<longleftrightarrow> (\<forall>i j e. m (d, i, j) = Some e \<longrightarrow> e AND PTE_U \<noteq> 0)"

lemma copiesD: "copies m0 d d' m \<Longrightarrow> m (x, i, j) = Some e \<Longrightarrow> \<exists>e0. m0 (if x = d' then d else x, i, j) = Some e0 \<and> pfn e0 = pfn e"
  unfolding copies_def by blast

lemma copies_count:
  assumes "copies m0 d d' m" and "finite (dom m0)"
  shows "count m p \<le> 2 * count m0 p"
proof -
  let ?f = "\<lambda>(x :: nat, i :: nat, j :: nat). (d', i, j)"
  have "refs m p \<subseteq> refs m0 p \<union> ?f ` refs m0 p"
  proof
    fix x assume "x \<in> refs m p"
    then obtain y i j e where x: "x = (y, i, j)" "m (y, i, j) = Some e" "pfn e = p" by (cases x) (auto simp: refs_def)
    with assms(1) obtain e0 where "m0 (if y = d' then d else y, i, j) = Some e0" "pfn e0 = p" unfolding copies_def by blast
    then have "(if y = d' then d else y, i, j) \<in> refs m0 p" by (auto simp: refs_def)
    then show "x \<in> refs m0 p \<union> ?f ` refs m0 p" using x(1) by (cases "y = d'") (auto intro: rev_image_eqI)
  qed
  moreover have fin: "finite (refs m0 p)" by (rule finite_refs [OF assms(2)])
  ultimately have "card (refs m p) \<le> card (refs m0 p \<union> ?f ` refs m0 p)" by (intro card_mono) auto
  also have "\<dots> \<le> card (refs m0 p) + card (?f ` refs m0 p)" by (rule card_Un_le)
  also have "\<dots> \<le> 2 * card (refs m0 p)" using card_image_le [OF fin, of ?f] by simp
  finally show ?thesis by (simp add: count_def)
qed

lemma parent_user: "pte AND PTE_U \<noteq> 0 \<Longrightarrow> parent_pte pte AND PTE_U \<noteq> 0"
  by (simp add: parent_pte_def mk_pte_flags)

lemma dup1_Some:
  "m (d, i, j) = Some pte \<Longrightarrow> dup1 m d d' i j x =
     (if x = (d, i, j) then Some (parent_pte pte) else if x = (d', i, j) then Some (child_pte pte) else m x)"
  by (simp only: dup1_def option.case fun_upd_apply)

lemma dup1_inv:
  assumes "copies m0 d d' m" and "user_entries d m" and "d' \<noteq> d" and "m (d, i, j) = Some pte"
    and "pfn (child_pte pte) = pfn pte" and "pfn (parent_pte pte) = pfn pte"
  shows "copies m0 d d' (dup1 m d d' i j)" and "user_entries d (dup1 m d d' i j)"
proof -
  obtain e0 where e0: "m0 (d, i, j) = Some e0" "pfn e0 = pfn pte" using copiesD [OF assms(1,4)] assms(3) by auto
  show "copies m0 d d' (dup1 m d d' i j)"
    unfolding copies_def
  proof (intro allI impI)
    fix x k l e assume e: "dup1 m d d' i j (x, k, l) = Some e"
    show "\<exists>e0. m0 (if x = d' then d else x, k, l) = Some e0 \<and> pfn e0 = pfn e"
    proof (cases "k = i \<and> l = j \<and> (x = d \<or> x = d')")
      case True
      then have "pfn e = pfn pte" using e assms(5,6) unfolding dup1_Some [of m d i j pte, OF assms(4)] by (auto split: if_splits)
      then show ?thesis using True e0 by auto
    next
      case False
      then have "m (x, k, l) = Some e" using e unfolding dup1_Some [of m d i j pte, OF assms(4)] by (simp split: if_splits)
      then show ?thesis by (rule copiesD [OF assms(1)])
    qed
  qed
  show "user_entries d (dup1 m d d' i j)"
    using assms(2,4) parent_user unfolding user_entries_def dup1_def by auto
qed

definition dup_row :: "nat \<Rightarrow> nat \<Rightarrow> nat \<Rightarrow> nat list \<Rightarrow> (nat \<times> nat \<times> nat \<Rightarrow> u32 option) \<Rightarrow> nat \<times> nat \<times> nat \<Rightarrow> u32 option" where
  "dup_row d d' i js m = fold (\<lambda>j m. dup1 m d d' i j) (takeWhile (\<lambda>j. 1024 * i + j \<noteq> unat (PGNUM (UXSTACKTOP - PGSIZE))) js) m"

text \<open>A state of the loops: the pages seen before are still there, and only the child got tables, those in \<open>I\<close>.\<close>

definition forking :: "nat list \<Rightarrow> nat \<Rightarrow> nat \<Rightarrow> nat \<Rightarrow> nat set \<Rightarrow> kstate \<Rightarrow> nat list \<Rightarrow> kstate \<Rightarrow> nat list \<Rightarrow> bool" where
  "forking fs c d d' I s ps s' ps' \<longleftrightarrow> calling s' fs ps' c d \<and> dirs s' = dirs s \<and> envs s' = envs s \<and> keeps_pages {} s s' \<and>
     (\<forall>x \<in> dirs s. \<forall>k. (x, k) \<notin> {d'} \<times> I \<longrightarrow> utab s' x k = utab s x k) \<and>
     length ps \<le> length ps' + card {i \<in> I. utab s d' i = None}"

lemma card_singleton_Collect: "card {k \<in> {i}. P k} = (if P i then 1 else 0)"
  by (simp add: Collect_conv_if [of i P])

lemma forking_refl: "calling s fs ps c d \<Longrightarrow> forking fs c d d' I s ps s ps"
  by (simp add: forking_def pages_refl)

lemma dup_table_spec:
  assumes "calling s fs ps c d" and "names s c e envid" and "env_pgdir (envs s e) = Some d'" and "d' \<noteq> d" and "i < NUPD"
    and "set js \<subseteq> {..<1024}" and "distinct js" and "\<And>j. j \<in> set js \<Longrightarrow> umap (dirs s) s (d', i, j) = None" and "utab s d i \<noteq> None"
    and "copies m0 d d' (umap (dirs s) s)" and "user_entries d (umap (dirs s) s)" and "finite (dom m0)" and "\<And>p. 2 * count m0 p < 65534"
    and "utab s d' i \<noteq> None \<or> ps \<noteq> []"
  shows "\<exists>s' ps'. dup_table c envid i js s = Ret (Value ()) s' \<and> forking fs c d d' {i} s ps s' ps' \<and>
    umap (dirs s') s' = dup_row d d' i js (umap (dirs s) s) \<and> copies m0 d d' (umap (dirs s') s') \<and> user_entries d (umap (dirs s') s')"
  using assms
proof (induction js arbitrary: s ps)
  case Nil
  then show ?case by (intro exI [of _ s] exI [of _ ps]) (simp add: forking_refl dup_row_def)
next
  case (Cons j js)
  let ?m = "umap (dirs s) s" and ?x = "unat (PGNUM (UXSTACKTOP - PGSIZE))"
  note cl = Cons.prems(1)
  show ?case
  proof (cases "1024 * i + j = ?x")
    case True
    then show ?thesis using Cons.prems by (intro exI [of _ s] exI [of _ ps]) (simp add: forking_refl dup_row_def Let_def)
  next
    case False
    have j: "j < 1024" using Cons.prems(6) by simp
    obtain t where t: "utab s d i = Some t" using Cons.prems(9) by blast
    then have pde: "present (frames s d i)" "pfn (frames s d i) = t" by (auto simp: utab_def split: if_splits)
    have i: "i < 1024" using Cons.prems(5) by (simp add: NUPD_value)
    have uv: "uvpt s (1024 * i + j) = Some (frames s t j)" using uvpt_entry [OF cl i j] pde by simp
    have um: "?m (d, i, j) = (if present (frames s t j) then Some (frames s t j) else None)"
      using t j Cons.prems(5) callingD(9) [OF cl] by (simp add: umap_def)
    show ?thesis
    proof (cases "present (frames s t j)")
      case absent: False
      have "dup1 ?m d d' i j = ?m" using um absent by (simp add: dup1_def)
      moreover from Cons.IH [OF cl Cons.prems(2-5)] Cons.prems(6-14) obtain s' ps' where
        "dup_table c envid i js s = Ret (Value ()) s'" "forking fs c d d' {i} s ps s' ps'"
        "umap (dirs s') s' = dup_row d d' i js ?m" "copies m0 d d' (umap (dirs s') s')" "user_entries d (umap (dirs s') s')" by auto
      ultimately show ?thesis using uv absent False by (auto simp: dup_row_def Let_def present_def)
    next
      case True
      let ?pte = "frames s t j"
      have pte: "?m (d, i, j) = Some ?pte" "?pte AND PTE_U \<noteq> 0" "?m (d', i, j) = None"
        using um True Cons.prems(8,11) by (auto simp: user_entries_def)
      have np: "pfn ?pte < 65536"
        using vm_inv_user [OF callingD(2) [OF cl] pte(1)] vm_countsD(2) [OF vm_invD(1) [OF callingD(2) [OF cl]]]
        by (auto simp: user_page_def free_list_def)
      have small: "count ?m (pfn ?pte) < 65534"
        using copies_count [OF Cons.prems(10,12), of "pfn ?pte"] Cons.prems(13) [of "pfn ?pte"] by simp
      from duppage_spec [OF cl Cons.prems(2-5) j pte small Cons.prems(14)] obtain s1 ps1 where
        s1: "duppage s c envid (1024 * i + j) = Ret (Value ()) s1" "calling s1 fs ps1 c d" "dirs s1 = dirs s" "envs s1 = envs s"
          "umap (dirs s1) s1 = dup1 ?m d d' i j" "keeps_pages {} s s1" "length ps \<le> length ps1 + (if utab s d' i = None then 1 else 0)"
          "utab s1 d' i \<noteq> None" "\<forall>x \<in> dirs s. \<forall>k. (x, k) \<noteq> (d', i) \<longrightarrow> utab s1 x k = utab s x k" by blast
      note inv1 = dup1_inv [OF Cons.prems(10,11,4) pte(1) pfn_child [OF np True pte(2)]]
      have none: "umap (dirs s1) s1 (d', i, k) = None" if "k \<in> set js" for k
        using that Cons.prems(4,7,8) pte(1) unfolding s1(5) by (auto simp: dup1_def)
      have "names s1 c e envid" "env_pgdir (envs s1 e) = Some d'" "utab s1 d i \<noteq> None"
        using Cons.prems(2-4,9) s1(4,9) callingD(9) [OF cl] names_cong [OF s1(4)] by auto
      from Cons.IH [OF s1(2) this(1,2) Cons.prems(4,5) _ _ none this(3) _ _ Cons.prems(12,13)] Cons.prems(6,7) inv1 s1(5,8) obtain s2 ps2 where
        s2: "dup_table c envid i js s1 = Ret (Value ()) s2" "forking fs c d d' {i} s1 ps1 s2 ps2"
          "umap (dirs s2) s2 = dup_row d d' i js (dup1 ?m d d' i j)" "copies m0 d d' (umap (dirs s2) s2)" "user_entries d (umap (dirs s2) s2)" by auto
      have "forking fs c d d' {i} s ps s2 ps2"
        using s2(2) s1(3,4,7,8,9) pages_trans [OF s1(6)] unfolding forking_def card_singleton_Collect by (auto split: if_splits)
      then show ?thesis
        using s2 uv True False s1(1) by (intro exI [of _ s2] exI [of _ ps2]) (simp add: dup_row_def Let_def present_def)
    qed
  qed
qed

lemma xstack_page: "unat (PGNUM (UXSTACKTOP - PGSIZE)) = 1024 * 954 + 1023"
  by (simp add: unat_PGNUM layout_values)

lemma fold_dup1:
  assumes "distinct js" and "d' \<noteq> d"
  shows "fold (\<lambda>j m. dup1 m d d' i j) js m (x, k, l) = (if k = i \<and> l \<in> set js then dup1 m d d' i l (x, k, l) else m (x, k, l))"
  using assms(1)
proof (induction js arbitrary: m)
  case (Cons j js)
  have other: "dup1 m d d' i j (y, k', l') = m (y, k', l')" if "(k', l') \<noteq> (i, j)" for y k' l'
    using that by (auto simp: dup1_def split: option.splits)
  show ?case
  proof (cases "k = i \<and> l \<in> set js")
    case True
    then have "l \<noteq> j" using Cons.prems by auto
    then have "dup1 (dup1 m d d' i j) d d' i l (x, k, l) = dup1 m d d' i l (x, k, l)"
      using True other [of i l d] other [of k l x] unfolding dup1_def by (auto split: option.splits)
    then show ?thesis using Cons True by simp
  next
    case False
    then show ?thesis using Cons other [of k l x] by auto
  qed
qed simp

lemma takeWhile_last:
  assumes "\<And>j. j < n \<Longrightarrow> P j"
  shows "set (takeWhile P [0..<Suc n]) = {j. j < Suc n \<and> P j}"
proof -
  have "takeWhile P ([0..<n] @ [n]) = [0..<n] @ takeWhile P [n]" by (rule takeWhile_append2) (use assms in simp)
  then show ?thesis using assms by (auto simp: less_Suc_eq)
qed

lemma row_pages:
  assumes "i < 955"
  shows "set (takeWhile (\<lambda>j. 1024 * i + j \<noteq> unat (PGNUM (UXSTACKTOP - PGSIZE))) [0..<1024]) =
    {j. j < 1024 \<and> 1024 * i + j \<noteq> unat (PGNUM (UXSTACKTOP - PGSIZE))}"
proof -
  have no: "1024 * i + j \<noteq> 1024 * 954 + 1023" if "j < 1023" for j
  proof
    assume "1024 * i + j = 1024 * 954 + 1023"
    then have "(1024 * i + j) mod 1024 = (1024 * 954 + 1023) mod 1024" by simp
    then show False using that by simp
  qed
  have suc: "Suc 1023 = 1024" by simp
  show ?thesis unfolding xstack_page by (rule takeWhile_last [of 1023 "\<lambda>j. 1024 * i + j \<noteq> 1024 * 954 + 1023", OF no, unfolded suc])
qed

lemma dup_row_at:
  assumes "i < 955" and "d' \<noteq> d"
  shows "dup_row d d' i [0..<1024] m (x, k, l) =
    (if k = i \<and> l < 1024 \<and> 1024 * i + l \<noteq> unat (PGNUM (UXSTACKTOP - PGSIZE)) then dup1 m d d' i l (x, k, l) else m (x, k, l))"
  unfolding dup_row_def fold_dup1 [OF distinct_takeWhile [OF distinct_upt] assms(2)] row_pages [OF assms(1)] by simp

definition dup_all :: "nat \<Rightarrow> nat \<Rightarrow> nat list \<Rightarrow> (nat \<times> nat \<times> nat \<Rightarrow> u32 option) \<Rightarrow> nat \<times> nat \<times> nat \<Rightarrow> u32 option" where
  "dup_all d d' is m = fold (\<lambda>i m. dup_row d d' i [0..<NPTENTRIES] m) is m"

lemma dup_all_at:
  assumes "set is \<subseteq> {..<955}" and "distinct is" and "d' \<noteq> d"
  shows "dup_all d d' is m (x, k, l) =
    (if k \<in> set is \<and> l < 1024 \<and> 1024 * k + l \<noteq> unat (PGNUM (UXSTACKTOP - PGSIZE)) then dup1 m d d' k l (x, k, l) else m (x, k, l))"
  using assms(1,2)
proof (induction "is" arbitrary: m)
  case (Cons i "is")
  have i: "i < 955" using Cons.prems(1) by simp
  have IH: "dup_all d d' is m' (x, k, l) = (if k \<in> set is \<and> l < 1024 \<and> 1024 * k + l \<noteq> unat (PGNUM (UXSTACKTOP - PGSIZE))
      then dup1 m' d d' k l (x, k, l) else m' (x, k, l))" for m'
    using Cons by simp
  have other: "dup_row d d' i [0..<NPTENTRIES] m (y, k, l) = m (y, k, l)" if "k \<noteq> i" for y
    using dup_row_at [OF i assms(3)] that by simp
  have step: "dup_all d d' (i # is) m = dup_all d d' is (dup_row d d' i [0..<NPTENTRIES] m)" by (simp add: dup_all_def)
  show ?case
  proof (cases "k = i")
    case True
    then have "k \<notin> set is" using Cons.prems by auto
    then show ?thesis unfolding step IH using True dup_row_at [OF i assms(3), of m x k l] by simp
  next
    case False
    have "dup1 (dup_row d d' i [0..<NPTENTRIES] m) d d' k l (x, k, l) = dup1 m d d' k l (x, k, l)"
      using other [OF False] unfolding dup1_def by (auto split: option.splits)
    then show ?thesis unfolding step IH using False other [OF False] by simp
  qed
qed (simp add: dup_all_def)

lemma dup_tables_spec:
  assumes "calling s fs ps c d" and "names s c e envid" and "env_pgdir (envs s e) = Some d'" and "d' \<noteq> d" and "set is \<subseteq> {..<NUPD}" and "distinct is"
    and "\<And>i j. i \<in> set is \<Longrightarrow> umap (dirs s) s (d', i, j) = None"
    and "copies m0 d d' (umap (dirs s) s)" and "user_entries d (umap (dirs s) s)" and "finite (dom m0)" and "\<And>p. 2 * count m0 p < 65534"
    and "card {i \<in> set is. utab s d i \<noteq> None \<and> utab s d' i = None} \<le> length ps"
  shows "\<exists>s' ps'. dup_tables c envid is s = Ret (Value ()) s' \<and> forking fs c d d' {i \<in> set is. utab s d i \<noteq> None} s ps s' ps' \<and>
    umap (dirs s') s' = dup_all d d' is (umap (dirs s) s) \<and> copies m0 d d' (umap (dirs s') s') \<and> user_entries d (umap (dirs s') s')"
  using assms
proof (induction "is" arbitrary: s ps)
  case Nil
  then show ?case by (intro exI [of _ s] exI [of _ ps]) (simp add: forking_refl dup_all_def)
next
  case (Cons i "is")
  let ?m = "umap (dirs s) s"
  note cl = Cons.prems(1)
  have i: "i < NUPD" "i < 955" "i < 1024" "i \<notin> set is" using Cons.prems(5,6) by (auto simp: NUPD_value)
  have uv: "uvpd s i = Some (frames s d i)" by (rule uvpd_entry [OF cl i(3)])
  have d'D: "d' \<in> dirs s" using Cons.prems(2,3) by (auto simp: dirs_def names_def)
  show ?case
  proof (cases "utab s d i")
    case None
    then have np: "\<not> present (frames s d i)" by (auto simp: utab_def split: if_splits)
    have "?m (d, i, j) = None" for j using None by (simp add: umap_def)
    then have "dup_row d d' i [0..<NPTENTRIES] ?m = ?m"
      using dup_row_at [OF i(2) Cons.prems(4), of ?m] by (auto simp: fun_eq_iff dup1_def)
    moreover have I: "{k \<in> set (i # is). utab s d k \<noteq> None} = {k \<in> set is. utab s d k \<noteq> None}"
      "{k \<in> set (i # is). utab s d k \<noteq> None \<and> utab s d' k = None} = {k \<in> set is. utab s d k \<noteq> None \<and> utab s d' k = None}" using None by auto
    moreover from Cons.IH [OF cl Cons.prems(2-4) _ _ _ Cons.prems(8-11)] Cons.prems(5-7,12) obtain s' ps' where
      "dup_tables c envid is s = Ret (Value ()) s'" "forking fs c d d' {i \<in> set is. utab s d i \<noteq> None} s ps s' ps'"
      "umap (dirs s') s' = dup_all d d' is ?m" "copies m0 d d' (umap (dirs s') s')" "user_entries d (umap (dirs s') s')"
      unfolding I by auto
    ultimately show ?thesis
      using uv np unfolding I by (intro exI [of _ s'] exI [of _ ps']) (simp add: dup_all_def present_def)
  next
    case (Some t)
    then have p: "present (frames s d i)" by (auto simp: utab_def split: if_splits)
    let ?I = "{k \<in> set is. utab s d k \<noteq> None}"
    have I: "{k \<in> set (i # is). utab s d k \<noteq> None} = insert i ?I" using Some by auto
    have cards: "card {k \<in> set (i # is). utab s d k \<noteq> None \<and> utab s d' k = None} =
        card {k \<in> ?I. utab s d' k = None} + (if utab s d' i = None then 1 else 0)"
    proof -
      have "{k \<in> set (i # is). utab s d k \<noteq> None \<and> utab s d' k = None} =
          (if utab s d' i = None then insert i {k \<in> ?I. utab s d' k = None} else {k \<in> ?I. utab s d' k = None})" using Some by auto
      then show ?thesis using i(4) by simp
    qed
    have "utab s d' i \<noteq> None \<or> ps \<noteq> []" using Cons.prems(12) unfolding cards by (auto split: if_splits)
    moreover have "set [0..<NPTENTRIES] \<subseteq> {..<1024}" by auto
    ultimately obtain s1 ps1 where
      s1: "dup_table c envid i [0..<NPTENTRIES] s = Ret (Value ()) s1" "forking fs c d d' {i} s ps s1 ps1"
        "umap (dirs s1) s1 = dup_row d d' i [0..<NPTENTRIES] ?m" "copies m0 d d' (umap (dirs s1) s1)" "user_entries d (umap (dirs s1) s1)"
      using dup_table_spec [OF cl Cons.prems(2-4) i(1) _ distinct_upt _ _ Cons.prems(8-11), of 0 NPTENTRIES] Some Cons.prems(7) by fastforce
    note f1 = s1(2) [unfolded forking_def card_singleton_Collect]
    have ut: "utab s1 x k = utab s x k" if "x \<in> dirs s" "(x, k) \<noteq> (d', i)" for x k using f1 that by auto
    have utd: "utab s1 d k = utab s d k" for k using ut [of d k] callingD(9) [OF cl] Cons.prems(4) by simp
    have utd': "utab s1 d' k = utab s d' k" if "k \<in> set is" for k using ut [of d' k] d'D i(4) that by auto
    have J: "{k \<in> set is. utab s1 d k \<noteq> None} = ?I" "{k \<in> set is. utab s1 d k \<noteq> None \<and> utab s1 d' k = None} = {k \<in> ?I. utab s d' k = None}"
      "{k \<in> ?I. utab s1 d' k = None} = {k \<in> ?I. utab s d' k = None}"
      using utd utd' by auto
    have none: "umap (dirs s1) s1 (d', k, j) = None" if "k \<in> set is" for k j
      unfolding s1(3) using that dup_row_at [OF i(2) Cons.prems(4), of ?m d' k j] Cons.prems(7) [of k j] i(4) by auto
    have "card {k \<in> ?I. utab s d' k = None} \<le> length ps1" using Cons.prems(12) f1 unfolding cards by linarith
    moreover have "calling s1 fs ps1 c d" "envs s1 = envs s" "dirs s1 = dirs s" using f1 by blast+
    moreover have "names s1 c e envid" using names_cong Cons.prems(2) f1 by blast
    ultimately obtain s2 ps2 where
      s2: "dup_tables c envid is s1 = Ret (Value ()) s2" "forking fs c d d' ?I s1 ps1 s2 ps2"
        "umap (dirs s2) s2 = dup_all d d' is (umap (dirs s1) s1)" "copies m0 d d' (umap (dirs s2) s2)" "user_entries d (umap (dirs s2) s2)"
      using Cons.IH [of s1 ps1] Cons.prems(3-6,10,11) none s1(4,5) unfolding J by auto
    have "card {k \<in> insert i ?I. utab s d' k = None} = card {k \<in> ?I. utab s d' k = None} + (if utab s d' i = None then 1 else 0)"
      using cards unfolding I [symmetric] by (simp add: conj_assoc)
    then have "forking fs c d d' (insert i ?I) s ps s2 ps2"
      using f1 s2(2) pages_trans [of "{}" s s1 s2] unfolding forking_def J(3) by auto
    then show ?thesis
      using s2 s1(1,3) uv p unfolding I by (intro exI [of _ s2] exI [of _ ps2]) (simp add: dup_all_def present_def)
  qed
qed

section \<open>The whole of fork\<close>

text \<open>Changes to the fields of an environment that the address space calls do not look at.\<close>

lemma calling_upd_env:
  assumes "calling s fs ps c d" and "env_link (f (envs s e)) = env_link (envs s e)" and "env_id (f (envs s e)) = env_id (envs s e)"
    and "env_pgdir (f (envs s e)) = env_pgdir (envs s e)" and "env_status (f (envs s e)) = ENV_FREE \<longleftrightarrow> env_status (envs s e) = ENV_FREE"
  shows "calling (upd_env e f s) fs ps c d" and "dirs (upd_env e f s) = dirs s" and "live (upd_env e f s) = live s"
    and "umap (dirs s) (upd_env e f s) = umap (dirs s) s"
proof -
  note c = callingD [OF assms(1)]
  note u = upd_env_inv [of s fs ps f e, OF c(1,2) assms(2-5)]
  show "dirs (upd_env e f s) = dirs s" "live (upd_env e f s) = live s" "umap (dirs s) (upd_env e f s) = umap (dirs s) s" by (fact u)+
  have "env_pgdir (envs (upd_env e f s) c) = Some d" using c(5) assms(4) by (cases "c = e") simp_all
  then show "calling (upd_env e f s) fs ps c d"
    using c u by (simp add: calling_def pdes_writable_def)
qed

lemma sys_exofork_succeeds:
  assumes cl: "calling s fs ps c d" and "fs \<noteq> []" and "ps \<noteq> []"
  obtains s' e d' envid gs where "sys_exofork s = Ret (sint envid) s'" "0 < sint envid" "calling s' gs (tl ps) c d" "names s' c e envid" "e \<noteq> c"
    "e \<notin> live s" "env_pgdir (envs s' e) = Some d'" "d' \<notin> dirs s" "dirs s' = insert d' (dirs s)" "umap (dirs s') s' = umap (dirs s) s"
    "env_tf (envs s' e) = (env_tf (envs s c))\<lparr>tf_regs := (tf_regs (env_tf (envs s c)))\<lparr>reg_eax := 0\<rparr>\<rparr>"
    "env_status (envs s' e) = ENV_NOT_RUNNABLE" "\<And>x. x \<noteq> e \<Longrightarrow> envs s' x = envs s x"
    "\<And>q. q \<noteq> d' \<Longrightarrow> frames s' q = frames s q" "\<And>i. i < NUPD \<Longrightarrow> utab s' d' i = None" "d' \<in> set ps"
proof -
  note c = callingD [OF cl]
  let ?p = "env_id (envs s c)"
  from c(1,2) show ?thesis
  proof (cases rule: env_alloc_spec [where parent = ?p])
    case (ok e gs d' qs s1)
    define f :: "Env \<Rightarrow> Env" where "f = (\<lambda>en. en\<lparr>env_status := ENV_NOT_RUNNABLE,
      env_tf := (env_tf (envs s1 c))\<lparr>tf_regs := (tf_regs (env_tf (envs s1 c)))\<lparr>reg_eax := 0\<rparr>\<rparr>\<rparr>)"
    have ec: "e \<noteq> c" using ok(20) c(4) by auto
    have dd: "d \<noteq> d'" using ok(19) c(9) by auto
    have "pdes_writable (dirs s1) s1"
      unfolding pdes_writable_def ok(8)
    proof (intro ballI allI impI)
      fix x i assume x: "x \<in> insert d' (dirs s)" "i < NUPD"
      show "\<not> present (frames s1 x i) \<or> frames s1 x i AND PTE_W \<noteq> 0"
      proof (cases "x = d'")
        case True
        then show ?thesis using ok(22) [OF x(2)] by (simp add: utab_def split: if_splits)
      next
        case False
        then show ?thesis using c(7) x ok(21) [of x] unfolding pdes_writable_def by auto
      qed
    qed
    then have cl1: "calling s1 gs qs c d"
      using ok c ec dd by (simp add: calling_def)
    have fe: "env_link (f (envs s1 e)) = env_link (envs s1 e)" "env_id (f (envs s1 e)) = env_id (envs s1 e)"
      "env_pgdir (f (envs s1 e)) = env_pgdir (envs s1 e)" "env_status (f (envs s1 e)) = ENV_FREE \<longleftrightarrow> env_status (envs s1 e) = ENV_FREE"
      using ok(12) by (simp_all add: f_def)
    note u = calling_upd_env [of s1 gs qs c d f e, OF cl1 fe]
    let ?s' = "upd_env e f s1" and ?id = "env_id (envs s1 e)"
    have op: "sys_exofork s = Ret (sint ?id) ?s'"
      using c(3) ok(3) by (simp add: sys_exofork_def f_def Let_def)
    have "id_ok e ?id" "?id \<noteq> 0" using ok(4,6,7) unfolding env_inv_def by auto
    then have pos: "0 < sint ?id" using sint_0 signed_word_eqI [of ?id 0] by (cases "sint ?id = 0") (auto simp: id_ok_def)
    have nm: "names ?s' c e ?id" using ok(6,11,14) ec u(3) by (auto simp: names_def f_def)
    have ut: "utab ?s' d' i = None" if "i < NUPD" for i using frames_cong(1) [of ?s' s1] ok(22) [OF that] by simp
    have cl': "calling ?s' gs (tl ps) c d" using u(1) ok(2) by simp
    show ?thesis
      by (rule that [OF op pos cl' nm ec ok(20) _ ok(19) _ _ _ _ _ _ ut])
        (use ok(2,8,9,14,18,21) u(2,4) ec in \<open>simp_all add: f_def\<close>)
  qed (use assms(2,3) in simp_all)
qed

abbreviation XSTACK :: u32 where "XSTACK \<equiv> UXSTACKTOP - PGSIZE"

lemma XSTACK_page: "XSTACK < UTOP" "PGOFF XSTACK = 0" "unat (PDX XSTACK) = 954" "unat (PTX XSTACK) = 1023"
  "unat (PDX PFTEMP) = 1" "unat (PTX PFTEMP) = 1023" "unat (PDX UTEXT) = 2" "unat (PDX UXSTACKTOP) = 955"
  unfolding word_less_nat_alt word_unat_eq_iff unat_PGOFF unat_PDX unat_PTX by (simp_all add: layout_values)

lemma writable_rw: "mk_pte q (PTE_P OR PTE_U OR PTE_W) AND PTE_W \<noteq> 0"
  by (simp add: mk_pte_flags)

text \<open>The exception stacks: the child gets a page of zeros, which the parent then copies over its own exception stack.\<close>

lemma fork_xstack:
  assumes cl: "calling s fs ps c d" and nm: "names s c e envid" and pg: "env_pgdir (envs s e) = Some d'" and dd: "d' \<noteq> d"
    and px: "umap (dirs s) s (slot d XSTACK) = Some px" "px AND PTE_W \<noteq> 0" and none: "umap (dirs s) s (slot d' XSTACK) = None"
    and room: "3 \<le> length ps"
  obtains s3 s4 s5 s6 ps6 q where "sys_page_alloc s envid XSTACK (PTE_P OR PTE_U OR PTE_W) = Ret 0 s3"
    "sys_page_map s3 envid XSTACK (env_id (envs s3 c)) PFTEMP (PTE_P OR PTE_U OR PTE_W) = Ret 0 s4"
    "copy_page s4 XSTACK PFTEMP = Some s5" "sys_page_unmap s5 (env_id (envs s5 c)) PFTEMP = Ret 0 s6"
    "calling s6 fs ps6 c d" "dirs s6 = dirs s" "envs s6 = envs s" "q \<in> set ps"
    "umap (dirs s6) s6 = (umap (dirs s) s)(slot d' XSTACK \<mapsto> mk_pte q (PTE_P OR PTE_U OR PTE_W), slot d PFTEMP := None)"
    "\<And>k. k < 4096 \<Longrightarrow> page_byte s6 (pfn px) k = 0"
    "\<And>x v. umap (dirs s) s x = Some v \<Longrightarrow> x \<noteq> slot d PFTEMP \<Longrightarrow> pfn v \<noteq> pfn px \<Longrightarrow> frames s6 (pfn v) = frames s (pfn v)"
proof -
  let ?p7 = "PTE_P OR PTE_U OR PTE_W" and ?X = "slot d XSTACK" and ?X' = "slot d' XSTACK" and ?T = "slot d PFTEMP" and ?m = "umap (dirs s) s"
  note c = callingD [OF cl]
  have ne: "?T \<noteq> ?X" "?T \<noteq> ?X'" "?X \<noteq> ?X'" using XSTACK_page dd by auto
  have "(if utab s d' (unat (PDX XSTACK)) = None then 2 else 1) \<le> length ps" using room by simp
  from sys_page_alloc_succeeds [OF cl nm pg XSTACK_page(1) user_perm_rw(2) this] obtain s3 ps3 q where
    s3: "sys_page_alloc s envid XSTACK ?p7 = Ret 0 s3" "q \<in> set ps" "frames s3 q = (\<lambda>_. 0)" "space_step s ps s3 ps3 (?m(?X' \<mapsto> mk_pte q ?p7))"
      "length ps \<le> length ps3 + (if utab s d' (unat (PDX XSTACK)) = None then 2 else 1)" by blast
  note k3 = calling_step [OF cl s3(4)]
  have q: "pfn (mk_pte q ?p7) = q" by (rule pfn_user_pte [OF c(2) s3(2) user_perm_rw(2)])
  have nm3: "names s3 c e envid" "env_pgdir (envs s3 e) = Some d'" using nm pg k3(3) names_cong [OF k3(3)] by simp_all
  have m3: "umap (dirs s3) s3 ?X' = Some (mk_pte q ?p7)" unfolding k3(4) by (rule fun_upd_same)
  have "count (umap (dirs s3) s3) q \<le> 1"
    unfolding k3(4) by (rule count_new [OF c(2) s3(2), of _ ?X']) (auto split: if_splits)
  then have small: "count (umap (dirs s3) s3) (pfn (mk_pte q ?p7)) < 65535" unfolding q by simp
  have "ps3 \<noteq> []" using s3(5) room by (auto split: if_splits)
  with sys_page_map_succeeds [OF k3(1) nm3(1) names_self(1) [OF k3(1)] nm3(2) callingD(5) [OF k3(1)] XSTACK_page(1,2) PFTEMP_page user_perm_rw(2) m3 _ small]
  obtain s4 ps4 where s4: "sys_page_map s3 envid XSTACK (env_id (envs s3 c)) PFTEMP ?p7 = Ret 0 s4"
      "space_step s3 ps3 s4 ps4 (?m(?X' \<mapsto> mk_pte q ?p7, ?T \<mapsto> mk_pte q ?p7))"
    using writable_rw unfolding q k3(4) by blast
  note k4 = calling_step [OF k3(1) s4(2)]
  have m4: "umap (dirs s4) s4 ?T = Some (mk_pte q ?p7)" "umap (dirs s4) s4 ?X = Some px"
    unfolding k4(4) by (rule fun_upd_same, subst fun_upd_other [OF ne(1) [symmetric]], subst fun_upd_other [OF ne(3)], rule px(1))
  from copy_page_user [OF k4(1) m4(1) PFTEMP_page(2) m4(2) XSTACK_page(2) px(2)] obtain f where
    cp: "copy_page s4 XSTACK PFTEMP = Some (set_frame (pfn px) f s4)"
      "\<And>k. k < 4096 \<Longrightarrow> page_byte (set_frame (pfn px) f s4) (pfn px) k = page_byte s4 q k" unfolding q by blast
  define s5 where "s5 = set_frame (pfn px) f s4"
  have s5: "calling s5 fs ps4 c d" "umap (dirs s4) s5 = umap (dirs s4) s4" "envs s5 = envs s4" "dirs s5 = dirs s4"
    using set_user_frame [OF k4(1) m4(2), of f] unfolding s5_def by (simp_all add: dirs_def live_def)
  from sys_page_unmap_succeeds [OF s5(1) names_self(1) [OF s5(1)] callingD(5) [OF s5(1)] PFTEMP_page] obtain s6 ps6 where
    s6: "sys_page_unmap s5 (env_id (envs s5 c)) PFTEMP = Ret 0 s6"
      "space_step s5 ps4 s6 ps6 (?m(?X' \<mapsto> mk_pte q ?p7, ?T \<mapsto> mk_pte q ?p7, ?T := None))"
    unfolding s5(2,4) k4(4) by blast
  note k6 = calling_step [OF s5(1) s6(2)]
  note kept = mapped_kept [OF callingD(2)]
  have zero: "page_byte s6 (pfn px) k = 0" if "k < 4096" for k
  proof -
    have "frames s6 (pfn px) = frames s5 (pfn px)" by (rule kept [OF s5(1) s6(2)]) (use s5(2,4) m4(2) in simp)
    moreover have "frames s4 q = frames s3 q" using kept [OF k3(1) s4(2) m3] unfolding q .
    then have "page_byte s4 q k = 0" using s3(3) by (simp add: page_byte_def)
    ultimately show ?thesis using cp(2) [OF that] page_byte_cong [of s6 "pfn px" s5] by (simp add: s5_def)
  qed
  have content: "frames s6 (pfn v) = frames s (pfn v)" if "?m x = Some v" "x \<noteq> ?T" "pfn v \<noteq> pfn px" for x v
  proof -
    have x: "x \<noteq> ?X'" using that(1) none by auto
    have "frames s5 (pfn v) = frames s4 (pfn v)" using that(3) by (simp add: s5_def)
    moreover have "umap (dirs s3) s3 x = Some v" "umap (dirs s4) s4 x = Some v" unfolding k3(4) k4(4) using that(1,2) x by simp_all
    ultimately show ?thesis
      using kept [OF cl s3(4) that(1)] kept [OF k3(1) s4(2), of x v] kept [OF s5(1) s6(2), of x v] s5(2,4) by simp
  qed
  have fin: "umap (dirs s6) s6 = ?m(?X' \<mapsto> mk_pte q ?p7, ?T := None)" unfolding k6(4) by (rule ext) simp
  show ?thesis
    by (rule that [OF s3(1) s4(1) cp(1) [folded s5_def] s6(1) k6(1) _ _ s3(2) fin zero content]) (use k6 s5 k4 k3 in simp_all)
qed

lemma dup_region:
  assumes "UTEXT \<le> va" and "va < XSTACK"
  shows "unat (PDX va) \<in> {2..<955}" and "1024 * unat (PDX va) + unat (PTX va) \<noteq> unat (PGNUM XSTACK)" and "slot d va \<noteq> (d, 954, 1023)"
    and "slot d va \<noteq> (d, 1, 1023)"
proof -
  have u: "8388608 \<le> unat va" "unat va < 4005556224" using assms by (simp_all add: word_le_nat_alt word_less_nat_alt layout_values)
  have d: "m div 4194304 = m div 4096 div 1024" for m :: nat by (simp add: div_mult2_eq [symmetric])
  have pn: "unat va div 4096 < 977919" "2048 \<le> unat va div 4096" using u by linarith+
  then have "unat va div 4096 div 1024 < 955" "2 \<le> unat va div 4096 div 1024" by linarith+
  then show r: "unat (PDX va) \<in> {2..<955}" unfolding unat_PDX d by simp
  have "1024 * unat (PDX va) + unat (PTX va) = unat va div 4096" unfolding unat_PDX unat_PTX d by simp
  then show n: "1024 * unat (PDX va) + unat (PTX va) \<noteq> unat (PGNUM XSTACK)" unfolding xstack_page using pn by simp
  show "slot d va \<noteq> (d, 954, 1023)" "slot d va \<noteq> (d, 1, 1023)" using n r unfolding xstack_page by auto
qed

lemma fork_tables: "set fork_tables = {2..<955}" "distinct fork_tables"
  unfolding fork_tables_def XSTACK_page by (rule set_upt, rule distinct_upt)

lemma dup_all_tabs:
  assumes "d' \<noteq> d"
  shows "dup_all d d' fork_tables m (x, k, l) =
    (if k \<in> {2..<955} \<and> l < 1024 \<and> 1024 * k + l \<noteq> unat (PGNUM XSTACK) then dup1 m d d' k l (x, k, l) else m (x, k, l))"
  using dup_all_at [OF _ fork_tables(2) assms] by (simp add: fork_tables(1) subset_eq)

text \<open>Up to the end of the loops: the child exists and its address space is the copy.\<close>

lemma fork_dup:
  assumes cl: "calling s fs ps c d" and "fs \<noteq> []" and ue: "user_entries d (umap (dirs s) s)"
    and cnt: "\<And>p. 2 * count (umap (dirs s) s) p < 65534" and room: "card {i \<in> {2..<955}. utab s d i \<noteq> None} + 4 \<le> length ps"
  obtains s1 s2 e d' envid gs ps2 where "sys_exofork s = Ret (sint envid) s1" "0 < sint envid"
    "dup_tables c envid fork_tables s1 = Ret (Value ()) s2" "calling s2 gs ps2 c d" "names s2 c e envid" "e \<noteq> c" "e \<notin> live s"
    "env_pgdir (envs s2 e) = Some d'" "d' \<noteq> d" "d' \<notin> dirs s"
    "env_tf (envs s2 e) = (env_tf (envs s c))\<lparr>tf_regs := (tf_regs (env_tf (envs s c)))\<lparr>reg_eax := 0\<rparr>\<rparr>"
    "env_status (envs s2 e) = ENV_NOT_RUNNABLE" "umap (dirs s2) s2 = dup_all d d' fork_tables (umap (dirs s) s)" "3 \<le> length ps2"
    "\<And>x v. umap (dirs s) s x = Some v \<Longrightarrow> \<exists>v'. umap (dirs s2) s2 x = Some v' \<and> pfn v' = pfn v \<and> frames s2 (pfn v) = frames s (pfn v)"
proof -
  let ?m = "umap (dirs s) s"
  have "ps \<noteq> []" using room by auto
  with cl assms(2) obtain s1 e d' envid gs where
    s1: "sys_exofork s = Ret (sint envid) s1" "0 < sint envid" "calling s1 gs (tl ps) c d" "names s1 c e envid" "e \<noteq> c"
      "e \<notin> live s" "env_pgdir (envs s1 e) = Some d'" "d' \<notin> dirs s" "dirs s1 = insert d' (dirs s)" "umap (dirs s1) s1 = ?m"
      "env_tf (envs s1 e) = (env_tf (envs s c))\<lparr>tf_regs := (tf_regs (env_tf (envs s c)))\<lparr>reg_eax := 0\<rparr>\<rparr>"
      "env_status (envs s1 e) = ENV_NOT_RUNNABLE" "\<And>x. x \<noteq> e \<Longrightarrow> envs s1 x = envs s x"
      "\<And>q. q \<noteq> d' \<Longrightarrow> frames s1 q = frames s q" "\<And>i. i < NUPD \<Longrightarrow> utab s1 d' i = None" "d' \<in> set ps"
    by (rule sys_exofork_succeeds) (rule that)
  have dd: "d' \<noteq> d" using s1(8) callingD(9) [OF cl] by auto
  have fresh: "?m (d', i, j) = None" for i j using s1(8) by (simp add: umap_def)
  have ut: "utab s1 d = utab s d" using s1(14) [of d] dd by (simp add: utab_def fun_eq_iff)
  have I: "{i \<in> set fork_tables. utab s1 d i \<noteq> None \<and> utab s1 d' i = None} = {i \<in> {2..<955}. utab s d i \<noteq> None}"
    "{i \<in> {i \<in> set fork_tables. utab s1 d i \<noteq> None}. utab s1 d' i = None} = {i \<in> {2..<955}. utab s d i \<noteq> None}"
    using s1(15) ut fork_tables(1) by (auto simp: NUPD_value)
  have cop: "copies ?m d d' ?m" unfolding copies_def using fresh by (metis option.distinct(1))
  have fin: "finite (dom ?m)" by (rule vm_invD(2) [OF callingD(2) [OF cl]])
  have sub: "set fork_tables \<subseteq> {..<NUPD}" using fork_tables(1) by (auto simp: NUPD_value)
  have len1: "length (tl ps) = length ps - 1" by simp
  have "card {i \<in> set fork_tables. utab s1 d i \<noteq> None \<and> utab s1 d' i = None} \<le> length (tl ps)" unfolding I len1 using room by linarith
  from dup_tables_spec [OF s1(3,4,7) dd sub fork_tables(2) _ _ _ fin cnt this] obtain s2 ps2 where
    s2: "dup_tables c envid fork_tables s1 = Ret (Value ()) s2" "forking gs c d d' {i \<in> set fork_tables. utab s1 d i \<noteq> None} s1 (tl ps) s2 ps2"
      "umap (dirs s2) s2 = dup_all d d' fork_tables ?m"
    unfolding s1(10) using fresh cop ue by blast
  note f2 = s2(2) [unfolded forking_def I(2)]
  have e2: "envs s2 = envs s1" and len: "3 \<le> length ps2" using f2 room len1 by (blast, linarith)
  have cont: "\<exists>v'. umap (dirs s2) s2 x = Some v' \<and> pfn v' = pfn v \<and> frames s2 (pfn v) = frames s (pfn v)" if "?m x = Some v" for x v
  proof -
    have "pfn v \<noteq> d'" using vm_inv_user [OF callingD(2) [OF cl] that] s1(16) by (auto simp: user_page_def)
    moreover have "keeps_pages {} s1 s2" using f2 by blast
    then have "(\<exists>v'. umap (dirs s2) s2 x = Some v' \<and> pfn v' = pfn v) \<and> frames s2 (pfn v) = frames s1 (pfn v)"
      using that unfolding keeps_pages_def s1(10) by blast
    ultimately show ?thesis using s1(14) by auto
  qed
  have c2: "calling s2 gs ps2 c d" using f2 by blast
  show ?thesis
    by (rule that [OF s1(1,2) s2(1) c2 _ s1(5,6) _ dd s1(8) _ _ s2(3) len cont])
      (use s1(4,7,11,12) e2 names_cong [OF e2] in simp_all)
qed

text \<open>The last two calls make the child runnable.\<close>

lemma fork_start_child:
  assumes "calling s fs ps c d" and "names s c e envid" and "e \<noteq> c" and "env_status (envs s e) \<noteq> ENV_FREE"
  obtains s1 s2 where "sys_env_set_pgfault_upcall s envid upcall = Ret 0 s1" "sys_env_set_status s1 envid 2 = Ret 0 s2" "calling s2 fs ps c d"
    "envs s2 e = (envs s e)\<lparr>env_pgfault_upcall := upcall, env_status := ENV_RUNNABLE\<rparr>" "umap (dirs s2) s2 = umap (dirs s) s" "frames s2 = frames s"
proof -
  let ?f1 = "\<lambda>en. en\<lparr>env_pgfault_upcall := upcall\<rparr>" and ?f2 = "\<lambda>en. en\<lparr>env_status := ENV_RUNNABLE\<rparr>"
  define s1 where "s1 = upd_env e ?f1 s"
  define s2 where "s2 = upd_env e ?f2 s1"
  have u1: "sys_env_set_pgfault_upcall s envid upcall = Ret 0 s1"
    unfolding sys_env_set_pgfault_upcall_def with_env_names [OF assms(1,2)] s1_def ..
  note c1 = calling_upd_env [of s fs ps c d ?f1 e, OF assms(1), folded s1_def, simplified]
  have nm1: "names s1 c e envid" using assms(2,3) by (auto simp: names_def s1_def live_def)
  have u2: "sys_env_set_status s1 envid 2 = Ret 0 s2"
    unfolding sys_env_set_status_def with_env_names [OF c1(1) nm1] by (simp add: s2_def)
  have "env_status (envs s1 e) \<noteq> ENV_FREE" using assms(4) by (simp add: s1_def)
  note c2 = calling_upd_env [of s1 fs ps c d ?f2 e, OF c1(1), folded s2_def, simplified, OF this]
  show ?thesis by (rule that [OF u1 u2 c2(1)]) (use c1 c2 in \<open>simp_all add: s1_def s2_def\<close>)
qed

lemma no_write_sharing:
  assumes "pte AND PTE_SHARE = 0"
  shows "child_pte pte AND PTE_W = 0" and "parent_pte pte AND PTE_W = 0"
proof -
  show "child_pte pte AND PTE_W = 0" using assms by (simp add: child_pte_def mk_pte_flags)
  show "parent_pte pte AND PTE_W = 0" using assms by (auto simp: parent_pte_def mk_pte_flags cow_def)
qed

section \<open>Properties\<close>

text \<open>
  A machine with thirteen free pages, one environment that runs on it, and the same with an exception stack and a copy-on-write page at \<^verbatim>\<open>UTEXT\<close>.
\<close>

definition machine :: kstate where
  "machine = env_init (zero_kernel\<lparr>npages := 16, page_free_list := Some 15,
     pages := (\<lambda>p. \<lparr>pp_link = (if 3 < p \<and> p < 16 then Some (p - 1) else None), pp_ref = 0\<rparr>)\<rparr>)"

definition user0 :: kstate where
  "user0 = (case env_alloc machine 0 of
     Some (_, s) \<Rightarrow> s\<lparr>cpunum := 0, cpus := (\<lambda>_. \<lparr>cpu_status = CPU_STARTED, cpu_env = Some 0, cpu_cr3 = 15\<rparr>)\<rparr> | None \<Rightarrow> machine)"

definition user1 :: kstate where
  "user1 = (case sys_page_alloc user0 0 XSTACK (PTE_P OR PTE_U OR PTE_W) of Ret _ s \<Rightarrow> s | _ \<Rightarrow> user0)"

definition user2 :: kstate where
  "user2 = (case sys_page_alloc user1 0 UTEXT (PTE_P OR PTE_U OR PTE_COW) of Ret _ s \<Rightarrow> s | _ \<Rightarrow> user1)"

lemma machine_inv: "env_inv machine [0..<NENV]" "vm_inv (dirs machine) machine [15, 14, 13, 12, 11, 10, 9, 8, 7, 6, 5, 4, 3]" "live machine = {}"
  "umap (dirs machine) machine = (\<lambda>_. None)"
proof -
  let ?s = "zero_kernel\<lparr>npages := 16, page_free_list := Some 15,
     pages := (\<lambda>p. \<lparr>pp_link = (if 3 < p \<and> p < 16 then Some (p - 1) else None), pp_ref = 0\<rparr>)\<rparr>"
  have none: "env_free_list ?s = None" by (simp add: zero_kernel_def)
  show "env_inv machine [0..<NENV]" "live machine = {}"
    unfolding machine_def by (rule env_init_inv(1,3) [OF none])+
  have "umap {} ?s = (\<lambda>_. None)" by (auto simp: umap_def)
  then have "vm_inv {} ?s [15, 14, 13, 12, 11, 10, 9, 8, 7, 6, 5, 4, 3]"
    by (intro vm_invI) (simp_all add: vm_dirs_def free_list_def zero_kernel_def)
  moreover have "frames machine = frames ?s" "pages machine = pages ?s" "npages machine = npages ?s"
      "page_free_list machine = page_free_list ?s"
    unfolding machine_def env_init_def using env_init_memory by blast+
  ultimately show "vm_inv (dirs machine) machine [15, 14, 13, 12, 11, 10, 9, 8, 7, 6, 5, 4, 3]"
    using vm_inv_cong [of machine ?s] env_init_inv(2) [OF none] unfolding machine_def by simp
  show "umap (dirs machine) machine = (\<lambda>_. None)"
    using env_init_inv(2) [OF none] by (auto simp: machine_def umap_def)
qed

lemma user0_calling: "calling user0 [Suc 0..<NENV] [14, 13, 12, 11, 10, 9, 8, 7, 6, 5, 4, 3] 0 15"
  "umap (dirs user0) user0 = (\<lambda>_. None)" "i < NUPD \<Longrightarrow> utab user0 15 i = None"
proof -
  from machine_inv(1,2) have "calling user0 [Suc 0..<NENV] [14, 13, 12, 11, 10, 9, 8, 7, 6, 5, 4, 3] 0 15 \<and>
      umap (dirs user0) user0 = (\<lambda>_. None) \<and> (\<forall>i < NUPD. utab user0 15 i = None)"
  proof (cases rule: env_alloc_spec [of machine _ _ 0])
    case (ok e gs d qs s')
    then have e: "e = 0" "gs = [Suc 0..<NENV]" "d = 15" "qs = [14, 13, 12, 11, 10, 9, 8, 7, 6, 5, 4, 3]" unfolding upt_NENV by simp_all
    have u: "user0 = s'\<lparr>cpunum := 0, cpus := (\<lambda>_. \<lparr>cpu_status = CPU_STARTED, cpu_env = Some 0, cpu_cr3 = 15\<rparr>)\<rparr>" using ok(3) by (simp add: user0_def)
    have same: "envs user0 = envs s'" "frames user0 = frames s'" "live user0 = live s'" "dirs user0 = dirs s'"
      unfolding u by (simp_all add: live_def dirs_def)
    have "dirs s' = {15}" using ok(8) e machine_inv(3) by (simp add: dirs_def)
    moreover have "env_inv user0 gs" using ok(4) env_inv_cong [of user0 s' gs] by (simp add: u)
    moreover have "vm_inv (dirs s') user0 qs" using ok(5) vm_inv_cong [of user0 s'] by (simp add: u)
    moreover have "utab user0 = utab s'" "umap (dirs s') user0 = umap (dirs s') s'" using frames_cong [OF same(2)] by simp_all
    moreover have "\<forall>i < NUPD. \<not> present (frames s' 15 i)" using ok(22) e unfolding utab_def by (metis option.distinct(1))
    ultimately show ?thesis
      using ok e same machine_inv(4) by (auto simp: calling_def pdes_writable_def curenv_def u)
  qed (simp_all add: upt_NENV)
  then show "calling user0 [Suc 0..<NENV] [14, 13, 12, 11, 10, 9, 8, 7, 6, 5, 4, 3] 0 15"
    "umap (dirs user0) user0 = (\<lambda>_. None)" "i < NUPD \<Longrightarrow> utab user0 15 i = None" by blast+
qed

lemma UTEXT_page: "UTEXT < UTOP" "PGOFF UTEXT = 0" "unat (PTX UTEXT) = 0"
  unfolding word_less_nat_alt word_unat_eq_iff unat_PGOFF unat_PTX by (simp_all add: layout_values)

lemma user2_calling:
  obtains ps q p where "calling user2 [Suc 0..<NENV] ps 0 15" "8 \<le> length ps"
    "umap (dirs user2) user2 = [(15, 954, 1023) \<mapsto> mk_pte q (PTE_P OR PTE_U OR PTE_W), (15, 2, 0) \<mapsto> mk_pte p (PTE_P OR PTE_U OR PTE_COW)]"
    "\<And>i. i < NUPD \<Longrightarrow> i \<noteq> 2 \<Longrightarrow> i \<noteq> 954 \<Longrightarrow> utab user2 15 i = None"
proof -
  note c0 = user0_calling(1)
  let ?ps = "[14, 13, 12, 11, 10, 9, 8, 7, 6, 5, 4, 3 :: nat]"
  have "(if utab user0 15 (unat (PDX XSTACK)) = None then 2 else 1) \<le> length ?ps" by simp
  from sys_page_alloc_succeeds [OF c0 names_self(2) [OF c0] callingD(5) [OF c0] XSTACK_page(1) user_perm_rw(2) this] obtain s1 ps1 q where
    s1: "sys_page_alloc user0 0 XSTACK (PTE_P OR PTE_U OR PTE_W) = Ret 0 s1"
      "space_step user0 ?ps s1 ps1 ((umap (dirs user0) user0)(slot 15 XSTACK \<mapsto> mk_pte q (PTE_P OR PTE_U OR PTE_W)))"
      "length ?ps \<le> length ps1 + (if utab user0 15 (unat (PDX XSTACK)) = None then 2 else 1)"
      "\<forall>x \<in> dirs user0. \<forall>i. (x, i) \<noteq> (15, unat (PDX XSTACK)) \<longrightarrow> utab s1 x i = utab user0 x i" by blast
  note c1 = calling_step [OF c0 s1(2)]
  have u1: "user1 = s1" using s1(1) by (simp add: user1_def)
  have len: "10 \<le> length ps1" using s1(3) by (auto split: if_splits)
  then have "(if utab s1 15 (unat (PDX UTEXT)) = None then 2 else 1) \<le> length ps1" by simp
  from sys_page_alloc_succeeds [OF c1(1) names_self(2) [OF c1(1)] callingD(5) [OF c1(1)] UTEXT_page(1) user_perm_rw(3) this] obtain s2 ps2 p where
    s2: "sys_page_alloc s1 0 UTEXT (PTE_P OR PTE_U OR PTE_COW) = Ret 0 s2"
      "space_step s1 ps1 s2 ps2 ((umap (dirs s1) s1)(slot 15 UTEXT \<mapsto> mk_pte p (PTE_P OR PTE_U OR PTE_COW)))"
      "length ps1 \<le> length ps2 + (if utab s1 15 (unat (PDX UTEXT)) = None then 2 else 1)"
      "\<forall>x \<in> dirs s1. \<forall>i. (x, i) \<noteq> (15, unat (PDX UTEXT)) \<longrightarrow> utab s2 x i = utab s1 x i" by blast
  note c2 = calling_step [OF c1(1) s2(2)]
  have u2: "user2 = s2" using s2(1) u1 by (simp add: user2_def)
  have "umap (dirs s2) s2 = [(15, 954, 1023) \<mapsto> mk_pte q (PTE_P OR PTE_U OR PTE_W), (15, 2, 0) \<mapsto> mk_pte p (PTE_P OR PTE_U OR PTE_COW)]"
    unfolding c2(4) c1(4) user0_calling(2) XSTACK_page UTEXT_page ..
  moreover have "8 \<le> length ps2" using s2(3) len by (auto split: if_splits)
  moreover have "utab s2 15 i = None" if "i < NUPD" "i \<noteq> 2" "i \<noteq> 954" for i
    using s2(4) s1(4) user0_calling(3) [OF that(1)] that callingD(9) [OF c0] callingD(9) [OF c1(1)] by (simp add: XSTACK_page)
  ultimately show ?thesis using that c2(1) unfolding u2 by blast
qed

text \<open>C5. A write fault on a copy-on-write page, with two free pages, is repaired by \<^verbatim>\<open>pgfault\<close>: the faulting page is then mapped writable to a page that
  was free and holds a copy of the bytes, the temporary mapping is gone, and no other mapping of any environment and the contents of no other mapped
  page change.
\<close>

theorem pgfault_private_copy:
  assumes "calling s fs ps c d" and "umap (dirs s) s (slot d va) = Some pte" and "pte AND PTE_COW \<noteq> 0" and "err AND FEC_WR \<noteq> 0"
    and "2 \<le> length ps" and "ROUNDDOWN va PGSIZE \<noteq> PFTEMP"
  shows "\<exists>s' q. pgfault s va err = Ret (Value ()) s' \<and> kernel_inv s' \<and> envs s' = envs s \<and> q \<in> set ps \<and>
    umap (dirs s') s' = (umap (dirs s) s)(slot d PFTEMP := None, slot d va \<mapsto> mk_pte q (PTE_P OR PTE_W OR PTE_U)) \<and>
    (\<forall>k < 4096. page_byte s' q k = page_byte s (pfn pte) k) \<and>
    (\<forall>x e. umap (dirs s) s x = Some e \<and> x \<noteq> slot d va \<and> x \<noteq> slot d PFTEMP \<longrightarrow> frames s' (pfn e) = frames s (pfn e))"
proof -
  obtain s' ps' q where s': "pgfault s va err = Ret (Value ()) s'" "calling s' fs ps' c d" "dirs s' = dirs s" "envs s' = envs s" "q \<in> set ps"
    "umap (dirs s) s' = (umap (dirs s) s)(slot d PFTEMP := None, slot d va \<mapsto> mk_pte q (PTE_P OR PTE_W OR PTE_U))"
    "\<forall>k < 4096. page_byte s' q k = page_byte s (pfn pte) k"
    "\<forall>x e. umap (dirs s) s x = Some e \<and> x \<noteq> slot d va \<and> x \<noteq> slot d PFTEMP \<longrightarrow> frames s' (pfn e) = frames s (pfn e)"
    using pgfault_spec [OF assms] by blast
  have "kernel_inv s'" using callingD(1,2) [OF s'(2)] unfolding kernel_inv_def by blast
  then show ?thesis using s' by (intro exI [of _ s'] exI [of _ q]) simp
qed

theorem pgfault_private_copy_witness:
  "\<exists>s' q. pgfault user2 UTEXT 2 = Ret (Value ()) s' \<and> kernel_inv s' \<and> umap (dirs s') s' (15, 2, 0) = Some (mk_pte q (PTE_P OR PTE_W OR PTE_U))"
proof -
  obtain ps q p where u: "calling user2 [Suc 0..<NENV] ps 0 15" "8 \<le> length ps"
    "umap (dirs user2) user2 = [(15, 954, 1023) \<mapsto> mk_pte q (PTE_P OR PTE_U OR PTE_W), (15, 2, 0) \<mapsto> mk_pte p (PTE_P OR PTE_U OR PTE_COW)]"
    by (rule user2_calling)
  have "umap (dirs user2) user2 (slot 15 UTEXT) = Some (mk_pte p (PTE_P OR PTE_U OR PTE_COW))"
    unfolding u(3) XSTACK_page UTEXT_page by simp
  moreover have "mk_pte p (PTE_P OR PTE_U OR PTE_COW) AND PTE_COW \<noteq> 0" by (simp add: mk_pte_flags)
  moreover have "(2 :: u32) AND FEC_WR \<noteq> 0" "2 \<le> length ps" using u(2) by simp_all
  moreover have "ROUNDDOWN UTEXT PGSIZE \<noteq> PFTEMP" by (simp add: word_unat_eq_iff unat_ROUNDDOWN layout_values)
  ultimately have "\<exists>s' q. pgfault user2 UTEXT 2 = Ret (Value ()) s' \<and> kernel_inv s' \<and>
      umap (dirs s') s' (slot 15 UTEXT) = Some (mk_pte q (PTE_P OR PTE_W OR PTE_U))"
    using pgfault_private_copy [OF u(1)] by fastforce
  then show ?thesis unfolding XSTACK_page UTEXT_page .
qed



end
