(* ===== verification/Fd.thy ===== *)
theory Fd
  imports Fork
begin

text \<open>
  File descriptors of user programs, \<^verbatim>\<open>lib/fd.c\<close> and \<^verbatim>\<open>lib/pageref.c\<close>, and the creation of pipes in \<^verbatim>\<open>lib/pipe.c\<close>, on the model of the
  kernel. Descriptor \<open>i\<close> is the page at \<^verbatim>\<open>FDTABLE + i * PGSIZE\<close>, open when the page is mapped, and has a data page 32 pages above.
  The table of devices \<^verbatim>\<open>devtab\<close>, with the functions a \<^verbatim>\<open>struct Dev\<close> points to, is an argument. Messages
  printed on the way are left out.

  Shown are that a duplicate of a descriptor refers to the same pages as the original, and that \<^verbatim>\<open>pipe\<close> makes two descriptors that
  share one data page.
\<close>

unbundle bit_operations_syntax

section \<open>Descriptors\<close>

abbreviation MAXFD :: nat where "MAXFD \<equiv> 32"
abbreviation FDTABLE :: u32 where "FDTABLE \<equiv> 0xD0000000"
abbreviation FILEDATA :: u32 where "FILEDATA \<equiv> 0xD0020000"
abbreviation (input) O_RDONLY :: u32 where "O_RDONLY \<equiv> 0"
abbreviation (input) O_WRONLY :: u32 where "O_WRONLY \<equiv> 1"
abbreviation (input) O_ACCMODE :: u32 where "O_ACCMODE \<equiv> 3"

definition INDEX2FD :: "int \<Rightarrow> u32" where
  "INDEX2FD i = FDTABLE + of_int i * PGSIZE"

definition INDEX2DATA :: "int \<Rightarrow> u32" where
  "INDEX2DATA i = FILEDATA + of_int i * PGSIZE"

definition fd2num :: "u32 \<Rightarrow> int" where
  "fd2num fd = sint ((fd - FDTABLE) div PGSIZE)"

definition fd2data :: "u32 \<Rightarrow> u32" where
  "fd2data fd = INDEX2DATA (fd2num fd)"

text \<open>The test of an address in the page tables, and its number of references.\<close>

definition is_mapped :: "kstate \<Rightarrow> u32 \<Rightarrow> bool user" where
  "is_mapped s va =
     ubind (access s (uvpd s (unat (PDX va)))) (\<lambda>pde s.
       if pde AND PTE_P = 0 then Ret (Value False) s
       else ubind (access s (uvpt s (unat (PGNUM va)))) (\<lambda>pte s. Ret (Value (pte AND PTE_P \<noteq> 0)) s))"

definition pageref :: "kstate \<Rightarrow> u32 \<Rightarrow> int user" where
  "pageref s v =
     ubind (access s (uvpd s (unat (PDX v)))) (\<lambda>pde s.
       if pde AND PTE_P = 0 then Ret (Value 0) s
       else ubind (access s (uvpt s (unat (PGNUM v)))) (\<lambda>pte s.
         if pte AND PTE_P = 0 then Ret (Value 0) s
         else Ret (Value (int (unat (pp_ref (pages s (unat (PGNUM pte))))))) s))"

fun fd_alloc_loop :: "nat list \<Rightarrow> kstate \<Rightarrow> (int + u32) user" where
  "fd_alloc_loop [] s = Ret (Value (Inl (- E_MAX_OPEN))) s"
| "fd_alloc_loop (i # is) s =
     ubind (is_mapped s (INDEX2FD (int i))) (\<lambda>m s.
       if \<not> m then Ret (Value (Inr (INDEX2FD (int i)))) s else fd_alloc_loop is s)"

definition fd_alloc :: "kstate \<Rightarrow> (int + u32) user" where
  "fd_alloc s = fd_alloc_loop [0..<MAXFD] s"

definition fd_lookup :: "kstate \<Rightarrow> int \<Rightarrow> (int + u32) user" where
  "fd_lookup s fdnum =
     (if fdnum < 0 \<or> fdnum \<ge> int MAXFD then Ret (Value (Inl (- E_INVAL))) s
      else let fd = INDEX2FD fdnum in
        ubind (is_mapped s fd) (\<lambda>m s. if \<not> m then Ret (Value (Inl (- E_INVAL))) s else Ret (Value (Inr fd)) s))"

section \<open>Devices\<close>

record Dev =
  dev_addr :: u32
  dev_id :: u32
  dev_read :: "(kstate \<Rightarrow> u32 \<Rightarrow> u32 \<Rightarrow> u32 \<Rightarrow> int user) option"
  dev_write :: "(kstate \<Rightarrow> u32 \<Rightarrow> u32 \<Rightarrow> u32 \<Rightarrow> int user) option"
  dev_close :: "(kstate \<Rightarrow> u32 \<Rightarrow> int user) option"
  dev_stat :: "(kstate \<Rightarrow> u32 \<Rightarrow> u32 \<Rightarrow> int user) option"
  dev_trunc :: "(kstate \<Rightarrow> u32 \<Rightarrow> u32 \<Rightarrow> int user) option"

fun dev_lookup :: "Dev list \<Rightarrow> u32 \<Rightarrow> int + Dev" where
  "dev_lookup [] did = Inl (- E_INVAL)"
| "dev_lookup (dev # devs) did = (if dev_id dev = did then Inr dev else dev_lookup devs did)"

definition fd_close :: "Dev list \<Rightarrow> kstate \<Rightarrow> u32 \<Rightarrow> bool \<Rightarrow> int user" where
  "fd_close devtab s fd must_exist =
     ubind (fd_lookup s (fd2num fd)) (\<lambda>r s.
       case r of
         Inl e \<Rightarrow> Ret (Value (if must_exist then e else 0)) s
       | Inr fd2 \<Rightarrow>
           if fd \<noteq> fd2 then Ret (Value 0) s
           else ubind (access s (load_word s fd)) (\<lambda>did s.
             ubind (case dev_lookup devtab did of
                      Inl e \<Rightarrow> Ret (Value e) s
                    | Inr dev \<Rightarrow> (case dev_close dev of None \<Rightarrow> Ret (Value 0) s | Some f \<Rightarrow> f s fd)) (\<lambda>r s.
             obind (sys_page_unmap s 0 fd) (\<lambda>_ s. Ret (Value r) s))))"

definition close :: "Dev list \<Rightarrow> kstate \<Rightarrow> int \<Rightarrow> int user" where
  "close devtab s fdnum =
     ubind (fd_lookup s fdnum) (\<lambda>r s. case r of Inl e \<Rightarrow> Ret (Value e) s | Inr fd \<Rightarrow> fd_close devtab s fd True)"

fun close_loop :: "Dev list \<Rightarrow> nat list \<Rightarrow> kstate \<Rightarrow> unit user" where
  "close_loop devtab [] s = Ret (Value ()) s"
| "close_loop devtab (i # is) s = ubind (close devtab s (int i)) (\<lambda>_ s. close_loop devtab is s)"

definition close_all :: "Dev list \<Rightarrow> kstate \<Rightarrow> unit user" where
  "close_all devtab s = close_loop devtab [0..<MAXFD] s"

definition dup_undo :: "kstate \<Rightarrow> u32 \<Rightarrow> u32 \<Rightarrow> int \<Rightarrow> int user" where
  "dup_undo s newfd nva r =
     obind (sys_page_unmap s 0 newfd) (\<lambda>_ s. obind (sys_page_unmap s 0 nva) (\<lambda>_ s. Ret (Value r) s))"

definition dup :: "Dev list \<Rightarrow> kstate \<Rightarrow> int \<Rightarrow> int \<Rightarrow> int user" where
  "dup devtab s oldfdnum newfdnum =
     ubind (fd_lookup s oldfdnum) (\<lambda>r s.
       case r of
         Inl e \<Rightarrow> Ret (Value e) s
       | Inr oldfd \<Rightarrow>
           ubind (close devtab s newfdnum) (\<lambda>_ s.
           let newfd = INDEX2FD newfdnum; ova = fd2data oldfd; nva = fd2data newfd in
           ubind (is_mapped s ova) (\<lambda>m s.
           ubind (if m
                  then ubind (access s (uvpt s (unat (PGNUM ova)))) (\<lambda>pte s.
                    obind (sys_page_map s 0 ova 0 nva (pte AND PTE_SYSCALL)) (\<lambda>r s. Ret (Value r) s))
                  else Ret (Value 0) s) (\<lambda>r s.
           if r < 0 then dup_undo s newfd nva r
           else
             ubind (access s (uvpt s (unat (PGNUM oldfd)))) (\<lambda>pte s.
             obind (sys_page_map s 0 oldfd 0 newfd (pte AND PTE_SYSCALL)) (\<lambda>r s.
             if r < 0 then dup_undo s newfd nva r else Ret (Value newfdnum) s))))))"

section \<open>Operations on open files\<close>

definition with_dev :: "Dev list \<Rightarrow> kstate \<Rightarrow> int \<Rightarrow> (u32 \<Rightarrow> Dev \<Rightarrow> kstate \<Rightarrow> int user) \<Rightarrow> int user" where
  "with_dev devtab s fdnum f =
     ubind (fd_lookup s fdnum) (\<lambda>r s.
       case r of
         Inl e \<Rightarrow> Ret (Value e) s
       | Inr fd \<Rightarrow>
           ubind (access s (load_word s fd)) (\<lambda>did s.
             case dev_lookup devtab did of Inl e \<Rightarrow> Ret (Value e) s | Inr dev \<Rightarrow> f fd dev s))"

definition fd_read :: "Dev list \<Rightarrow> kstate \<Rightarrow> int \<Rightarrow> u32 \<Rightarrow> u32 \<Rightarrow> int user" where
  "fd_read devtab s fdnum buf n =
     with_dev devtab s fdnum (\<lambda>fd dev s.
       ubind (access s (load_word s (fd + 8))) (\<lambda>omode s.
         if omode AND O_ACCMODE = O_WRONLY then Ret (Value (- E_INVAL)) s
         else case dev_read dev of None \<Rightarrow> Ret (Value (- E_NOT_SUPP)) s | Some f \<Rightarrow> f s fd buf n))"

text \<open>\<^verbatim>\<open>readn\<close> calls \<^verbatim>\<open>read\<close> until it has \<open>n\<close> bytes. The loop is given one unit of fuel per round; \<open>None\<close> is running out of it.\<close>

fun readn_loop :: "nat \<Rightarrow> Dev list \<Rightarrow> kstate \<Rightarrow> int \<Rightarrow> u32 \<Rightarrow> u32 \<Rightarrow> u32 \<Rightarrow> int user option" where
  "readn_loop 0 devtab s fdnum buf n tot = None"
| "readn_loop (Suc k) devtab s fdnum buf n tot =
     (if tot < n
      then case fd_read devtab s fdnum (buf + tot) (n - tot) of
             Ret (Value m) s \<Rightarrow>
               if m < 0 then Some (Ret (Value m) s)
               else if m = 0 then Some (Ret (Value (sint tot)) s)
               else readn_loop k devtab s fdnum buf n (tot + of_int m)
           | r \<Rightarrow> Some r
      else Some (Ret (Value (sint tot)) s))"

definition readn :: "Dev list \<Rightarrow> kstate \<Rightarrow> int \<Rightarrow> u32 \<Rightarrow> u32 \<Rightarrow> int user option" where
  "readn devtab s fdnum buf n = readn_loop (unat n + 1) devtab s fdnum buf n 0"

definition fd_write :: "Dev list \<Rightarrow> kstate \<Rightarrow> int \<Rightarrow> u32 \<Rightarrow> u32 \<Rightarrow> int user" where
  "fd_write devtab s fdnum buf n =
     with_dev devtab s fdnum (\<lambda>fd dev s.
       ubind (access s (load_word s (fd + 8))) (\<lambda>omode s.
         if omode AND O_ACCMODE = O_RDONLY then Ret (Value (- E_INVAL)) s
         else case dev_write dev of None \<Rightarrow> Ret (Value (- E_NOT_SUPP)) s | Some f \<Rightarrow> f s fd buf n))"

definition seek :: "kstate \<Rightarrow> int \<Rightarrow> u32 \<Rightarrow> int user" where
  "seek s fdnum offset =
     ubind (fd_lookup s fdnum) (\<lambda>r s.
       case r of
         Inl e \<Rightarrow> Ret (Value e) s
       | Inr fd \<Rightarrow> ubind (access_upd s (store_bytes s (fd + 4) (word_bytes offset))) (\<lambda>_ s. Ret (Value 0) s))"

definition ftruncate :: "Dev list \<Rightarrow> kstate \<Rightarrow> int \<Rightarrow> u32 \<Rightarrow> int user" where
  "ftruncate devtab s fdnum newsize =
     with_dev devtab s fdnum (\<lambda>fd dev s.
       ubind (access s (load_word s (fd + 8))) (\<lambda>omode s.
         if omode AND O_ACCMODE = O_RDONLY then Ret (Value (- E_INVAL)) s
         else case dev_trunc dev of None \<Rightarrow> Ret (Value (- E_NOT_SUPP)) s | Some f \<Rightarrow> f s fd newsize))"

definition fstat :: "Dev list \<Rightarrow> kstate \<Rightarrow> int \<Rightarrow> u32 \<Rightarrow> int user" where
  "fstat devtab s fdnum stat =
     with_dev devtab s fdnum (\<lambda>fd dev s.
       case dev_stat dev of
         None \<Rightarrow> Ret (Value (- E_NOT_SUPP)) s
       | Some f \<Rightarrow>
           ubind (access_upd s (store_bytes s stat [0])) (\<lambda>_ s.
           ubind (access_upd s (store_bytes s (stat + 128) (word_bytes 0))) (\<lambda>_ s.
           ubind (access_upd s (store_bytes s (stat + 132) (word_bytes 0))) (\<lambda>_ s.
           ubind (access_upd s (store_bytes s (stat + 136) (word_bytes (dev_addr dev)))) (\<lambda>_ s.
           f s fd stat)))))"

section \<open>Creating and closing pipes\<close>

definition pipe_perm :: u32 where
  "pipe_perm = PTE_P OR PTE_W OR PTE_U OR PTE_SHARE"

text \<open>The value on success is the pair of descriptors.\<close>

definition pipe_err1 :: "kstate \<Rightarrow> u32 \<Rightarrow> int \<Rightarrow> (int + int \<times> int) user" where
  "pipe_err1 s fd0 r = obind (sys_page_unmap s 0 fd0) (\<lambda>_ s. Ret (Value (Inl r)) s)"

definition pipe_err2 :: "kstate \<Rightarrow> u32 \<Rightarrow> u32 \<Rightarrow> int \<Rightarrow> (int + int \<times> int) user" where
  "pipe_err2 s fd0 fd1 r = obind (sys_page_unmap s 0 fd1) (\<lambda>_ s. pipe_err1 s fd0 r)"

definition set_fd :: "kstate \<Rightarrow> u32 \<Rightarrow> u32 \<Rightarrow> u32 \<Rightarrow> unit user" where
  "set_fd s fd did omode =
     ubind (access_upd s (store_bytes s fd (word_bytes did))) (\<lambda>_ s. access_upd s (store_bytes s (fd + 8) (word_bytes omode)))"

definition pipe_data :: "kstate \<Rightarrow> u32 \<Rightarrow> u32 \<Rightarrow> (int + int \<times> int) user" where
  "pipe_data s fd0 fd1 =
     (let va = fd2data fd0 in
      obind (sys_page_alloc s 0 va pipe_perm) (\<lambda>r s.
      if r < 0 then pipe_err2 s fd0 fd1 r
      else obind (sys_page_map s 0 va 0 (fd2data fd1) pipe_perm) (\<lambda>r s.
      if r < 0 then obind (sys_page_unmap s 0 va) (\<lambda>_ s. pipe_err2 s fd0 fd1 r)
      else
        ubind (set_fd s fd0 112 O_RDONLY) (\<lambda>_ s.
        ubind (set_fd s fd1 112 O_WRONLY) (\<lambda>_ s.
        Ret (Value (Inr (fd2num fd0, fd2num fd1))) s)))))"

definition pipe :: "kstate \<Rightarrow> (int + int \<times> int) user" where
  "pipe s =
     ubind (fd_alloc s) (\<lambda>r s.
       case r of
         Inl e \<Rightarrow> Ret (Value (Inl e)) s
       | Inr fd0 \<Rightarrow>
           obind (sys_page_alloc s 0 fd0 pipe_perm) (\<lambda>r s.
           if r < 0 then Ret (Value (Inl r)) s
           else ubind (fd_alloc s) (\<lambda>r s.
             case r of
               Inl e \<Rightarrow> pipe_err1 s fd0 e
             | Inr fd1 \<Rightarrow>
                 obind (sys_page_alloc s 0 fd1 pipe_perm) (\<lambda>r s.
                 if r < 0 then pipe_err1 s fd0 r else pipe_data s fd0 fd1))))"

definition devpipe_close :: "kstate \<Rightarrow> u32 \<Rightarrow> int user" where
  "devpipe_close s fd =
     obind (sys_page_unmap s 0 fd) (\<lambda>_ s. obind (sys_page_unmap s 0 (fd2data fd)) (\<lambda>r s. Ret (Value r) s))"

section \<open>Addresses of descriptors\<close>

lemma unat_page_number: "i < NUPD \<Longrightarrow> j < 1024 \<Longrightarrow> unat (PGNUM (of_nat (1024 * i + j) * PGSIZE)) = 1024 * i + j"
proof -
  assume "i < NUPD" "j < 1024"
  then have "unat (of_nat (1024 * i + j) * PGSIZE) = (1024 * i + j) * 4096" by (simp add: unat_word_ariths unat_of_nat NUPD_value)
  then show ?thesis unfolding unat_PGNUM by simp
qed

definition fd_page :: "nat \<Rightarrow> u32" where
  "fd_page k = of_nat (1024 * 832 + k) * PGSIZE"

lemma fd_addresses:
  "INDEX2FD (int i) = fd_page i" "INDEX2DATA (int i) = fd_page (32 + i)"
  "i < 32 \<Longrightarrow> fd2num (fd_page i) = int i" "i < 32 \<Longrightarrow> fd2data (fd_page i) = fd_page (32 + i)"
proof -
  show "INDEX2FD (int i) = fd_page i" "INDEX2DATA (int i) = fd_page (32 + i)"
    by (simp_all add: INDEX2FD_def INDEX2DATA_def fd_page_def distrib_right)
  show num: "fd2num (fd_page i) = int i" if "i < 32"
  proof -
    have "unat ((fd_page i - FDTABLE) div PGSIZE) = i" using that by (simp add: fd_page_def distrib_right unat_div unat_word_ariths unat_of_nat)
    then show ?thesis using that sint_small [of "(fd_page i - FDTABLE) div PGSIZE"] by (simp add: fd2num_def)
  qed
  show "fd2data (fd_page i) = fd_page (32 + i)" if "i < 32"
    unfolding fd2data_def num [OF that] by (simp add: INDEX2DATA_def fd_page_def distrib_right)
qed

lemma fd_table: "832 < NUPD"
  by (simp add: NUPD_value)

lemma fd_slot: "k < 1024 \<Longrightarrow> slot d (fd_page k) = (d, 832, k)" "k < 1024 \<Longrightarrow> fd_page k < UTOP" "k < 1024 \<Longrightarrow> PGOFF (fd_page k) = 0"
  "k < 1024 \<Longrightarrow> unat (PDX (fd_page k)) = 832"
  unfolding fd_page_def by (simp_all only: page_va(2-5) [OF fd_table])

lemma is_mapped_page:
  assumes "calling s fs ps c d" and "k < 1024"
  shows "is_mapped s (fd_page k) = Ret (Value (umap (dirs s) s (d, 832, k) \<noteq> None)) s"
proof -
  have n: "unat (PGNUM (fd_page k)) = 1024 * 832 + k" "unat (PDX (fd_page k)) = 832"
    using unat_page_number [OF fd_table assms(2)] fd_slot(4) [OF assms(2)] unfolding fd_page_def by (simp_all only:)
  have "uvpd s 832 = Some (frames s d 832)" "uvpt s (1024 * 832 + k) = (if present (frames s d 832) then Some (frames s (pfn (frames s d 832)) k) else None)"
    by (rule uvpd_entry [OF assms(1)], simp, rule uvpt_entry [OF assms(1) _ assms(2)], simp)
  then show ?thesis
    unfolding is_mapped_def n using callingD(9) [OF assms(1)] assms(2) by (simp add: umap_def utab_def present_def NUPD_value)
qed

text \<open>Descriptor \<open>i\<close> is open in the address space \<open>d\<close>.\<close>

abbreviation fd_open :: "kstate \<Rightarrow> nat \<Rightarrow> nat \<Rightarrow> bool" where
  "fd_open s d i \<equiv> umap (dirs s) s (d, 832, i) \<noteq> None"

lemma fd_lookup_open:
  assumes "calling s fs ps c d" and "i < MAXFD"
  shows "fd_lookup s (int i) = Ret (Value (if fd_open s d i then Inr (fd_page i) else Inl (- E_INVAL))) s"
  using is_mapped_page [OF assms(1), of i] assms(2) by (simp add: fd_lookup_def fd_addresses(1))

lemma fd_alloc_loop_first:
  assumes "calling s fs ps c d"
  shows "\<forall>i \<in> set is. i < MAXFD \<Longrightarrow> fd_alloc_loop is s =
    Ret (Value (case dropWhile (fd_open s d) is of [] \<Rightarrow> Inl (- E_MAX_OPEN) | i # _ \<Rightarrow> Inr (fd_page i))) s"
proof (induction "is")
  case (Cons i "is")
  then show ?case using is_mapped_page [OF assms, of i] by (simp add: fd_addresses(1))
qed simp

lemma fd_alloc_first:
  assumes "calling s fs ps c d" and "i < MAXFD" and "\<not> fd_open s d i" and "\<And>j. j < i \<Longrightarrow> fd_open s d j"
  shows "fd_alloc s = Ret (Value (Inr (fd_page i))) s"
proof -
  have "[0..<n] = [0..<i] @ i # [Suc i..<n]" if "i < n" for n using that upt_add_eq_append [of 0 i "n - i"] by (simp add: upt_conv_Cons)
  then have "[0..<MAXFD] = [0..<i] @ i # [Suc i..<MAXFD]" using assms(2) by blast
  moreover have "dropWhile (fd_open s d) ([0..<i] @ i # xs) = i # xs" for xs
    using assms(3,4) by (subst dropWhile_append2) simp_all
  ultimately have "dropWhile (fd_open s d) [0..<MAXFD] = i # [Suc i..<MAXFD]" by (simp only:)
  then show ?thesis unfolding fd_alloc_def using fd_alloc_loop_first [OF assms(1), of "[0..<MAXFD]"] by (simp only: atLeastLessThan_upt [symmetric]) simp
qed

lemma close_closed:
  assumes "calling s fs ps c d" and "i < MAXFD" and "\<not> fd_open s d i"
  shows "close devtab s (int i) = Ret (Value (- E_INVAL)) s"
  using fd_lookup_open [OF assms(1,2)] assms(3) by (simp add: close_def)

section \<open>Duplicating a descriptor\<close>

text \<open>One call of \<^verbatim>\<open>sys_page_map\<close> in \<^verbatim>\<open>dup\<close>: page \<open>k\<close> of the descriptor area is mapped at \<open>k'\<close>, too.\<close>

lemma share_fd_page:
  assumes cl: "calling s fs ps c d" and k: "k < 1024" "k' < 1024"
    and pte: "umap (dirs s) s (d, 832, k) = Some pte" "pte AND PTE_U \<noteq> 0" "umap (dirs s) s (d, 832, k') = None"
    and small: "count (umap (dirs s) s) (pfn pte) < 65535"
  shows "uvpt s (unat (PGNUM (fd_page k))) = Some pte" and
    "\<exists>s' ps'. sys_page_map s 0 (fd_page k) 0 (fd_page k') (pte AND PTE_SYSCALL) = Ret 0 s' \<and>
       calling s' fs ps' c d \<and> dirs s' = dirs s \<and> envs s' = envs s \<and> keeps_pages {} s s' \<and>
       umap (dirs s') s' = (umap (dirs s) s)((d, 832, k') \<mapsto> mk_pte (pfn pte) (pte AND PTE_SYSCALL)) \<and>
       (\<forall>p. count (umap (dirs s') s') p \<le> count (umap (dirs s) s) p + 1)"
proof -
  note c = callingD [OF cl]
  show "uvpt s (unat (PGNUM (fd_page k))) = Some pte"
    using uvpt_umap [OF cl pte(1)] unat_page_number [OF fd_table k(1)] unfolding fd_page_def by (simp only:)
  have pres: "present pte" using pte(1) by (auto simp: umap_def split: if_splits option.splits)
  note perm = share_perm [OF pres pte(2)]
  have w: "(pte AND PTE_SYSCALL) AND PTE_W = 0 \<or> pte AND PTE_W \<noteq> 0" using perm(2) by simp
  have tab: "utab s d 832 \<noteq> None" using umap_utab pte(1) by metis
  have m: "umap (dirs s) s (slot d (fd_page k)) = Some pte" using pte(1) fd_slot(1) [OF k(1)] by simp
  from sys_page_map_succeeds [OF cl names_self(2) [OF cl] names_self(2) [OF cl] c(5) c(5) fd_slot(2,3) [OF k(1)] fd_slot(2,3) [OF k(2)] perm(1) m w small]
    tab fd_slot(4) [OF k(2)] obtain s' ps' where
    s': "sys_page_map s 0 (fd_page k) 0 (fd_page k') (pte AND PTE_SYSCALL) = Ret 0 s'"
      "space_step s ps s' ps' ((umap (dirs s) s)(slot d (fd_page k') \<mapsto> mk_pte (pfn pte) (pte AND PTE_SYSCALL)))" by auto
  have sl: "slot d (fd_page k') = (d, 832, k')" by (rule fd_slot(1) [OF k(2)])
  note st = calling_step [OF cl s'(2)]
  have "keeps_pages {} s s'" by (rule pages_step [OF cl s'(2)]) (use pte(3) sl in auto)
  moreover have "count (umap (dirs s') s') p \<le> count (umap (dirs s) s) p + 1" for p
    unfolding st(4) sl using count_insert [OF vm_invD(2) [OF c(2)] pte(3)] by simp
  ultimately show "\<exists>s' ps'. sys_page_map s 0 (fd_page k) 0 (fd_page k') (pte AND PTE_SYSCALL) = Ret 0 s' \<and>
       calling s' fs ps' c d \<and> dirs s' = dirs s \<and> envs s' = envs s \<and> keeps_pages {} s s' \<and>
       umap (dirs s') s' = (umap (dirs s) s)((d, 832, k') \<mapsto> mk_pte (pfn pte) (pte AND PTE_SYSCALL)) \<and>
       (\<forall>p. count (umap (dirs s') s') p \<le> count (umap (dirs s) s) p + 1)"
    using s'(1) st sl by (intro exI [of _ s'] exI [of _ ps']) simp
qed

text \<open>What a page table entry becomes in the duplicate.\<close>

definition dup_pte :: "u32 \<Rightarrow> u32" where
  "dup_pte pte = mk_pte (pfn pte) (pte AND PTE_SYSCALL)"

text \<open>C7. \<^verbatim>\<open>dup\<close> of an open descriptor to one that is closed returns the new number. The new descriptor is the same page as the old, with
  the same permissions, and its data page, if the old has one, is the same as well; no other mapping and no contents of
  a page change.\<close>

theorem dup_shares_pages:
  assumes "calling s fs ps c d" and "i < MAXFD" and "j < MAXFD"
    and "umap (dirs s) s (d, 832, i) = Some pte" and "pte AND PTE_U \<noteq> 0"
    and "umap (dirs s) s (d, 832, j) = None" and "umap (dirs s) s (d, 832, 32 + j) = None"
    and "\<And>q. umap (dirs s) s (d, 832, 32 + i) = Some q \<Longrightarrow> q AND PTE_U \<noteq> 0"
    and "\<And>x q. umap (dirs s) s x = Some q \<Longrightarrow> count (umap (dirs s) s) (pfn q) < 65534"
  shows "\<exists>s' ps'. dup devtab s (int i) (int j) = Ret (Value (int j)) s' \<and> calling s' fs ps' c d \<and> dirs s' = dirs s \<and> envs s' = envs s \<and>
    keeps_pages {} s s' \<and>
    umap (dirs s') s' = (umap (dirs s) s)((d, 832, j) \<mapsto> dup_pte pte, (d, 832, 32 + j) := map_option dup_pte (umap (dirs s) s (d, 832, 32 + i)))"
proof -
  let ?m = "umap (dirs s) s"
  have ij: "i < 1024" "j < 1024" "32 + i < 1024" "32 + j < 1024" using assms(2,3) by simp_all
  note look = fd_lookup_open [OF assms(1,2)] and cls = close_closed [OF assms(1,3)] and adr = fd_addresses(1) fd_addresses(4) [OF assms(2)] fd_addresses(4) [OF assms(3)]
  have "\<exists>s1 ps1. (if ?m (d, 832, 32 + i) \<noteq> None
      then ubind (access s (uvpt s (unat (PGNUM (fd_page (32 + i)))))) (\<lambda>pte s.
        obind (sys_page_map s 0 (fd_page (32 + i)) 0 (fd_page (32 + j)) (pte AND PTE_SYSCALL)) (\<lambda>r s. Ret (Value r) s))
      else Ret (Value 0) s) = Ret (Value 0) s1 \<and>
      calling s1 fs ps1 c d \<and> dirs s1 = dirs s \<and> envs s1 = envs s \<and> keeps_pages {} s s1 \<and>
      umap (dirs s1) s1 = ?m((d, 832, 32 + j) := map_option dup_pte (?m (d, 832, 32 + i))) \<and>
      (\<forall>p. count (umap (dirs s1) s1) p \<le> count ?m p + 1)"
  proof (cases "?m (d, 832, 32 + i)")
    case None
    then have "?m((d, 832, 32 + j) := map_option dup_pte (?m (d, 832, 32 + i))) = ?m" using assms(7) by (simp add: fun_upd_idem)
    then show ?thesis using None assms(1) pages_refl by auto
  next
    case (Some q)
    have "count ?m (pfn q) < 65535" using assms(9) [OF Some] by simp
    from share_fd_page [OF assms(1) ij(3,4) Some assms(8) [OF Some] assms(7) this] show ?thesis
      using Some by (auto simp: dup_pte_def)
  qed
  then obtain s1 ps1 where first: "(if ?m (d, 832, 32 + i) \<noteq> None
      then ubind (access s (uvpt s (unat (PGNUM (fd_page (32 + i)))))) (\<lambda>pte s.
        obind (sys_page_map s 0 (fd_page (32 + i)) 0 (fd_page (32 + j)) (pte AND PTE_SYSCALL)) (\<lambda>r s. Ret (Value r) s))
      else Ret (Value 0) s) = Ret (Value 0) s1"
    and s1: "calling s1 fs ps1 c d" "dirs s1 = dirs s" "envs s1 = envs s" "keeps_pages {} s s1"
      "umap (dirs s1) s1 = ?m((d, 832, 32 + j) := map_option dup_pte (?m (d, 832, 32 + i)))" "\<forall>p. count (umap (dirs s1) s1) p \<le> count ?m p + 1" by blast
  have m1: "umap (dirs s1) s1 (d, 832, i) = Some pte" "umap (dirs s1) s1 (d, 832, j) = None" unfolding s1(5) using assms(2-4,6) by simp_all
  have "count (umap (dirs s1) s1) (pfn pte) < 65535" using spec [OF s1(6), of "pfn pte"] assms(9) [OF assms(4)] by linarith
  from share_fd_page [OF s1(1) ij(1,2) m1(1) assms(5) m1(2) this] obtain s2 ps2 where
    uv: "uvpt s1 (unat (PGNUM (fd_page i))) = Some pte" and
    s2: "sys_page_map s1 0 (fd_page i) 0 (fd_page j) (pte AND PTE_SYSCALL) = Ret 0 s2" "calling s2 fs ps2 c d" "dirs s2 = dirs s1" "envs s2 = envs s1"
      "keeps_pages {} s1 s2" "umap (dirs s2) s2 = (umap (dirs s1) s1)((d, 832, j) \<mapsto> dup_pte pte)" unfolding dup_pte_def by blast
  have "dup devtab s (int i) (int j) = Ret (Value (int j)) s2"
    unfolding dup_def look using assms(4,6) cls is_mapped_page [OF assms(1) ij(3)] first uv s2(1) by (simp add: adr)
  moreover have "umap (dirs s2) s2 = ?m((d, 832, j) \<mapsto> dup_pte pte, (d, 832, 32 + j) := map_option dup_pte (?m (d, 832, 32 + i)))"
    unfolding s2(6) s1(5) by (rule fun_upd_twist) simp
  ultimately show ?thesis using s1 s2 pages_trans by metis
qed

section \<open>Making a pipe\<close>

lemma pipe_perm_user: "user_perm pipe_perm" "mk_pte p pipe_perm AND PTE_W \<noteq> 0" "mk_pte p pipe_perm AND PTE_U \<noteq> 0"
proof -
  show "user_perm pipe_perm" by (simp add: user_perm_def pipe_perm_def PTE_SYSCALL_def)
  have "bit (mk_pte p pipe_perm AND PTE_W) 1" "bit (mk_pte p pipe_perm AND PTE_U) 2" by (simp_all add: mk_pte_def pipe_perm_def bit_simps)
  then show "mk_pte p pipe_perm AND PTE_W \<noteq> 0" "mk_pte p pipe_perm AND PTE_U \<noteq> 0" by auto
qed

lemma pipe_perm_bits: "mk_pte p pipe_perm AND PTE_SYSCALL = pipe_perm"
proof -
  have "push_bit 12 w AND take_bit 12 x = 0" for w x :: u32 by (rule bit_word_eqI) (simp add: bit_simps)
  from this [of "of_nat p" PTE_SYSCALL] have "push_bit 12 (of_nat p :: u32) AND PTE_SYSCALL = 0" by (simp add: PTE_SYSCALL_def)
  moreover have "(pipe_perm OR PTE_P) AND PTE_SYSCALL = pipe_perm" by (simp add: pipe_perm_def PTE_SYSCALL_def)
  ultimately show ?thesis by (simp add: mk_pte_def bit.conj_disj_distrib2)
qed

lemma keeps_pagesD:
  assumes "keeps_pages {} s s'" and "umap (dirs s) s x = Some e"
  obtains e' where "umap (dirs s') s' x = Some e'" "pfn e' = pfn e" "frames s' (pfn e) = frames s (pfn e)"
  using assms unfolding keeps_pages_def by blast

text \<open>A new page in the descriptor area.\<close>

lemma new_fd_page:
  assumes cl: "calling s fs ps c d" and k: "k < 1024" and free: "umap (dirs s) s (d, 832, k) = None"
    and room: "(if utab s d 832 = None then 2 else 1) \<le> length ps"
  shows "\<exists>s' ps' p. sys_page_alloc s 0 (fd_page k) pipe_perm = Ret 0 s' \<and> calling s' fs ps' c d \<and> dirs s' = dirs s \<and> envs s' = envs s \<and>
    keeps_pages {} s s' \<and> umap (dirs s') s' = (umap (dirs s) s)((d, 832, k) \<mapsto> mk_pte p pipe_perm) \<and> pfn (mk_pte p pipe_perm) = p \<and>
    frames s' p = (\<lambda>_. 0) \<and> count (umap (dirs s') s') p \<le> 1 \<and> (\<forall>x e. umap (dirs s) s x = Some e \<longrightarrow> pfn e \<noteq> p) \<and>
    utab s' d 832 \<noteq> None \<and> length ps \<le> length ps' + (if utab s d 832 = None then 2 else 1)"
proof -
  note c = callingD [OF cl]
  have "(if utab s d (unat (PDX (fd_page k))) = None then 2 else 1) \<le> length ps" unfolding fd_slot(4) [OF k] by (rule room)
  from sys_page_alloc_succeeds [OF cl names_self(2) [OF cl] c(5) fd_slot(2) [OF k] pipe_perm_user(1) this, unfolded fd_slot(1) [OF k]]
  obtain s' ps' p where s': "sys_page_alloc s 0 (fd_page k) pipe_perm = Ret 0 s'" "p \<in> set ps" "frames s' p = (\<lambda>_. 0)"
    "space_step s ps s' ps' ((umap (dirs s) s)((d, 832, k) \<mapsto> mk_pte p pipe_perm))"
    "length ps \<le> length ps' + (if utab s d (unat (PDX (fd_page k))) = None then 2 else 1)" by blast
  note st = calling_step [OF cl s'(4)]
  have "keeps_pages {} s s'" by (rule pages_step [OF cl s'(4)]) (use free in auto)
  moreover have "count (umap (dirs s') s') p \<le> 1" unfolding st(4) by (rule count_new [OF c(2) s'(2), of _ "(d, 832, k)"]) (auto split: if_splits)
  moreover have "pfn e \<noteq> p" if "umap (dirs s) s x = Some e" for x e using vm_inv_user [OF c(2) that] s'(2) by (auto simp: user_page_def)
  moreover have "utab s' d 832 \<noteq> None" by (rule umap_utab [of "dirs s'" _ _ _ k]) (simp add: st(4))
  ultimately show ?thesis
    using s'(1,3,5) st pfn_user_pte [OF c(2) s'(2) pipe_perm_user(1)] unfolding fd_slot(4) [OF k]
    by (intro exI [of _ s'] exI [of _ ps'] exI [of _ p]) blast
qed

lemma set_fd_spec:
  assumes cl: "calling s fs ps c d" and k: "k < 1024" and pte: "umap (dirs s) s (d, 832, k) = Some pte" "pte AND PTE_W \<noteq> 0"
  shows "\<exists>f. set_fd s (fd_page k) did omode = Ret (Value ()) (set_frame (pfn pte) f s) \<and> calling (set_frame (pfn pte) f s) fs ps c d \<and>
    umap (dirs s) (set_frame (pfn pte) f s) = umap (dirs s) s \<and>
    page_byte (set_frame (pfn pte) f s) (pfn pte) = over 8 (word_bytes omode) (over 0 (word_bytes did) (page_byte s (pfn pte)))"
proof -
  have "umap (dirs s) s (slot d (fd_page k)) = Some pte" unfolding fd_slot(1) [OF k] by (rule pte(1))
  note rw = user_rw_page [OF cl this fd_slot(3) [OF k] pte(2)]
  obtain f where f: "store_bytes s (fd_page k) (word_bytes did) = Some (set_frame (pfn pte) f s)"
      "page_byte (set_frame (pfn pte) f s) (pfn pte) = over 0 (word_bytes did) (page_byte s (pfn pte))"
    using store_bytes_page [OF rw, of 0 "word_bytes did"] by (auto simp: word_bytes_def)
  obtain g where g: "store_bytes (set_frame (pfn pte) f s) (fd_page k + 8) (word_bytes omode) = Some (set_frame (pfn pte) g s)"
      "page_byte (set_frame (pfn pte) g s) (pfn pte) = over 8 (word_bytes omode) (over 0 (word_bytes did) (page_byte s (pfn pte)))"
    using store_bytes_page [OF rw_page_set_frame [OF rw, of f], of 8 "word_bytes omode"] f(2) by (auto simp: word_bytes_def)
  have "set_fd s (fd_page k) did omode = Ret (Value ()) (set_frame (pfn pte) g s)" using f(1) g(1) by (simp add: set_fd_def)
  then show ?thesis using g(2) set_user_frame [OF cl pte(1), of g] by blast
qed

lemma fd_words:
  "word_at (over 8 (word_bytes b) (over 0 (word_bytes a) f)) 0 = a" "word_at (over 8 (word_bytes b) (over 0 (word_bytes a) f)) 8 = b"
  by (simp_all add: word_at_over)

lemma zero_page_byte: "frames s p = (\<lambda>_. 0) \<Longrightarrow> page_byte s p k = 0"
  by (simp add: page_byte_def)

text \<open>The data page of two new descriptors.\<close>

lemma pipe_data_spec:
  assumes cl: "calling s fs ps c d" and ij: "i < MAXFD" "j < MAXFD" "i \<noteq> j"
    and m: "umap (dirs s) s (d, 832, i) = Some (mk_pte p0 pipe_perm)" "umap (dirs s) s (d, 832, j) = Some (mk_pte p1 pipe_perm)"
      "umap (dirs s) s (d, 832, 32 + i) = None" "umap (dirs s) s (d, 832, 32 + j) = None"
    and p: "pfn (mk_pte p0 pipe_perm) = p0" "pfn (mk_pte p1 pipe_perm) = p1" "p0 \<noteq> p1" and room: "1 \<le> length ps"
  shows "\<exists>s' ps' q. pipe_data s (fd_page i) (fd_page j) = Ret (Value (Inr (int i, int j))) s' \<and> calling s' fs ps' c d \<and> dirs s' = dirs s \<and> envs s' = envs s \<and>
    umap (dirs s') s' = (umap (dirs s) s)((d, 832, 32 + i) \<mapsto> mk_pte q pipe_perm, (d, 832, 32 + j) \<mapsto> mk_pte q pipe_perm) \<and> q \<noteq> p0 \<and> q \<noteq> p1 \<and>
    word_at (page_byte s' p0) 0 = 112 \<and> word_at (page_byte s' p0) 8 = O_RDONLY \<and> word_at (page_byte s' p1) 0 = 112 \<and> word_at (page_byte s' p1) 8 = O_WRONLY \<and>
    (\<forall>k. page_byte s' q k = 0) \<and> (\<forall>x e. umap (dirs s) s x = Some e \<and> pfn e \<noteq> p0 \<and> pfn e \<noteq> p1 \<longrightarrow> frames s' (pfn e) = frames s (pfn e))"
proof -
  let ?m = "umap (dirs s) s"
  have lt: "i < 1024" "j < 1024" "32 + i < 1024" "32 + j < 1024" using ij by simp_all
  note adr = fd_addresses(3,4) [OF ij(1)] fd_addresses(3,4) [OF ij(2)]
  have "(if utab s d 832 = None then 2 else 1) \<le> length ps" using room umap_utab [OF m(1)] by auto
  from new_fd_page [OF cl lt(3) m(3) this] obtain s1 ps1 q where
    s1: "sys_page_alloc s 0 (fd_page (32 + i)) pipe_perm = Ret 0 s1" "calling s1 fs ps1 c d" "dirs s1 = dirs s" "envs s1 = envs s"
      "keeps_pages {} s s1" "umap (dirs s1) s1 = ?m((d, 832, 32 + i) \<mapsto> mk_pte q pipe_perm)" "pfn (mk_pte q pipe_perm) = q"
      "frames s1 q = (\<lambda>_. 0)" "count (umap (dirs s1) s1) q \<le> 1" "\<And>x e. ?m x = Some e \<Longrightarrow> pfn e \<noteq> q" by blast
  have q: "q \<noteq> p0" "q \<noteq> p1" using s1(10) m(1,2) p(1,2) by metis+
  have m1: "umap (dirs s1) s1 (d, 832, 32 + i) = Some (mk_pte q pipe_perm)" "umap (dirs s1) s1 (d, 832, 32 + j) = None"
    unfolding s1(6) using m(4) ij(3) by simp_all
  have "count (umap (dirs s1) s1) (pfn (mk_pte q pipe_perm)) < 65535" using s1(7,9) by simp
  from share_fd_page(2) [OF s1(2) lt(3,4) m1(1) pipe_perm_user(3) m1(2) this, unfolded pipe_perm_bits s1(7)] obtain s2 ps2 where
    s2: "sys_page_map s1 0 (fd_page (32 + i)) 0 (fd_page (32 + j)) pipe_perm = Ret 0 s2" "calling s2 fs ps2 c d" "dirs s2 = dirs s1" "envs s2 = envs s1"
      "keeps_pages {} s1 s2" "umap (dirs s2) s2 = (umap (dirs s1) s1)((d, 832, 32 + j) \<mapsto> mk_pte q pipe_perm)" by blast
  have m2: "umap (dirs s2) s2 (d, 832, i) = Some (mk_pte p0 pipe_perm)" "umap (dirs s2) s2 (d, 832, j) = Some (mk_pte p1 pipe_perm)"
    unfolding s2(6) s1(6) using m(1,2) ij by simp_all
  from set_fd_spec [OF s2(2) lt(1) m2(1) pipe_perm_user(2), of 112 O_RDONLY, unfolded p(1)] obtain f where
    f: "set_fd s2 (fd_page i) 112 O_RDONLY = Ret (Value ()) (set_frame p0 f s2)" "calling (set_frame p0 f s2) fs ps2 c d"
      "umap (dirs s2) (set_frame p0 f s2) = umap (dirs s2) s2"
      "page_byte (set_frame p0 f s2) p0 = over 8 (word_bytes O_RDONLY) (over 0 (word_bytes 112) (page_byte s2 p0))" by blast
  define s3 where "s3 = set_frame p0 f s2"
  have d3: "dirs s3 = dirs s2" "envs s3 = envs s2" by (simp_all add: s3_def dirs_def live_def)
  have m3: "umap (dirs s3) s3 (d, 832, j) = Some (mk_pte p1 pipe_perm)" using m2(2) f(3) d3(1) by (simp add: s3_def)
  from set_fd_spec [OF f(2) [folded s3_def] lt(2) m3 pipe_perm_user(2), of 112 O_WRONLY, unfolded p(2)] obtain g where
    g: "set_fd s3 (fd_page j) 112 O_WRONLY = Ret (Value ()) (set_frame p1 g s3)" "calling (set_frame p1 g s3) fs ps2 c d"
      "umap (dirs s3) (set_frame p1 g s3) = umap (dirs s3) s3"
      "page_byte (set_frame p1 g s3) p1 = over 8 (word_bytes O_WRONLY) (over 0 (word_bytes 112) (page_byte s3 p1))" by blast
  define s4 where "s4 = set_frame p1 g s3"
  have d4: "dirs s4 = dirs s" "envs s4 = envs s" using d3 s1(3,4) s2(3,4) by (simp_all add: s4_def dirs_def live_def)
  have "pipe_data s (fd_page i) (fd_page j) = Ret (Value (Inr (int i, int j))) s4"
    unfolding pipe_data_def adr using s1(1) s2(1) f(1) g(1) by (simp add: s3_def s4_def Let_def)
  moreover have "umap (dirs s4) s4 = ?m((d, 832, 32 + i) \<mapsto> mk_pte q pipe_perm, (d, 832, 32 + j) \<mapsto> mk_pte q pipe_perm)"
    using g(3) f(3) d3(1) d4(1) s1(3,6) s2(3,6) by (simp add: s3_def s4_def)
  moreover have fr: "frames s4 x = frames s2 x" if "x \<noteq> p0" "x \<noteq> p1" for x using that by (simp add: s3_def s4_def)
  moreover have "frames s2 q = frames s1 q" using s2(5) m1(1) s1(7) unfolding keeps_pages_def by (metis empty_iff)
  then have "page_byte s4 q k = 0" for k using fr [OF q] s1(8) by (simp add: zero_page_byte)
  moreover have "frames s4 (pfn e) = frames s (pfn e)" if "?m x = Some e" "pfn e \<noteq> p0" "pfn e \<noteq> p1" for x e
    using fr [OF that(2,3)] pages_trans [OF s1(5) s2(5)] that(1) unfolding keeps_pages_def by (metis empty_iff)
  moreover have "page_byte s4 p0 = page_byte s3 p0" using p(3) page_byte_cong [of s4 p0 s3] by (simp add: s4_def)
  then have "word_at (page_byte s4 p0) 0 = 112" "word_at (page_byte s4 p0) 8 = O_RDONLY" using f(4) by (simp_all add: s3_def [symmetric] fd_words)
  moreover have "word_at (page_byte s4 p1) 0 = 112" "word_at (page_byte s4 p1) 8 = O_WRONLY" using g(4) by (simp_all add: s4_def [symmetric] fd_words)
  ultimately show ?thesis using g(2) d4 q unfolding s4_def [symmetric] by blast
qed

lemma pipe_spec:
  assumes cl: "calling s fs ps c d" and ij: "i < j" "j < MAXFD" and room: "4 \<le> length ps"
    and closed: "umap (dirs s) s (d, 832, i) = None" "umap (dirs s) s (d, 832, j) = None"
      "umap (dirs s) s (d, 832, 32 + i) = None" "umap (dirs s) s (d, 832, 32 + j) = None"
    and below: "\<And>k. k < j \<Longrightarrow> k \<noteq> i \<Longrightarrow> umap (dirs s) s (d, 832, k) \<noteq> None"
  shows "\<exists>s' ps' p0 p1 q. pipe s = Ret (Value (Inr (int i, int j))) s' \<and> calling s' fs ps' c d \<and> dirs s' = dirs s \<and> envs s' = envs s \<and>
    distinct [p0, p1, q] \<and>
    umap (dirs s') s' = (umap (dirs s) s)((d, 832, i) \<mapsto> mk_pte p0 pipe_perm, (d, 832, j) \<mapsto> mk_pte p1 pipe_perm,
      (d, 832, 32 + i) \<mapsto> mk_pte q pipe_perm, (d, 832, 32 + j) \<mapsto> mk_pte q pipe_perm) \<and>
    word_at (page_byte s' p0) 0 = 112 \<and> word_at (page_byte s' p0) 8 = O_RDONLY \<and>
    word_at (page_byte s' p1) 0 = 112 \<and> word_at (page_byte s' p1) 8 = O_WRONLY \<and> (\<forall>k. page_byte s' q k = 0) \<and>
    (\<forall>x e. umap (dirs s) s x = Some e \<longrightarrow> frames s' (pfn e) = frames s (pfn e))"
proof -
  let ?m = "umap (dirs s) s"
  have lt: "i < MAXFD" "i < 1024" "j < 1024" using ij by simp_all
  have a0: "fd_alloc s = Ret (Value (Inr (fd_page i))) s" by (rule fd_alloc_first [OF cl lt(1)]) (use closed(1) below ij in auto)
  have "(if utab s d 832 = None then 2 else 1) \<le> length ps" using room by auto
  from new_fd_page [OF cl lt(2) closed(1) this] obtain s1 ps1 p0 where
    s1: "sys_page_alloc s 0 (fd_page i) pipe_perm = Ret 0 s1" "calling s1 fs ps1 c d" "dirs s1 = dirs s" "envs s1 = envs s"
      "keeps_pages {} s s1" "umap (dirs s1) s1 = ?m((d, 832, i) \<mapsto> mk_pte p0 pipe_perm)" "pfn (mk_pte p0 pipe_perm) = p0"
      "\<And>x e. ?m x = Some e \<Longrightarrow> pfn e \<noteq> p0" "utab s1 d 832 \<noteq> None" "length ps \<le> length ps1 + (if utab s d 832 = None then 2 else 1)" by blast
  have m1: "umap (dirs s1) s1 (d, 832, j) = None" "\<And>k. k < j \<Longrightarrow> fd_open s1 d k" unfolding s1(6) using closed(2) below ij(1) by auto
  have a1: "fd_alloc s1 = Ret (Value (Inr (fd_page j))) s1" by (rule fd_alloc_first [OF s1(2) ij(2)]) (use m1 in auto)
  have len1: "2 \<le> length ps1" using s1(10) room by (auto split: if_splits)
  then have "(if utab s1 d 832 = None then 2 else 1) \<le> length ps1" by auto
  from new_fd_page [OF s1(2) lt(3) m1(1) this] obtain s2 ps2 p1 where
    s2: "sys_page_alloc s1 0 (fd_page j) pipe_perm = Ret 0 s2" "calling s2 fs ps2 c d" "dirs s2 = dirs s1" "envs s2 = envs s1"
      "keeps_pages {} s1 s2" "umap (dirs s2) s2 = (umap (dirs s1) s1)((d, 832, j) \<mapsto> mk_pte p1 pipe_perm)" "pfn (mk_pte p1 pipe_perm) = p1"
      "\<And>x e. umap (dirs s1) s1 x = Some e \<Longrightarrow> pfn e \<noteq> p1" "length ps1 \<le> length ps2 + (if utab s1 d 832 = None then 2 else 1)" by blast
  have p01: "p0 \<noteq> p1" using s2(8) [of "(d, 832, i)"] s1(6,7) by auto
  have m2: "umap (dirs s2) s2 (d, 832, i) = Some (mk_pte p0 pipe_perm)" "umap (dirs s2) s2 (d, 832, j) = Some (mk_pte p1 pipe_perm)"
      "umap (dirs s2) s2 (d, 832, 32 + i) = None" "umap (dirs s2) s2 (d, 832, 32 + j) = None"
    unfolding s2(6) s1(6) using closed ij by simp_all
  have "1 \<le> length ps2" using s2(9) s1(9) len1 by auto
  from pipe_data_spec [OF s2(2) lt(1) ij(2) less_imp_neq [OF ij(1)] m2 s1(7) s2(7) p01 this] obtain s3 ps3 q where
    s3: "pipe_data s2 (fd_page i) (fd_page j) = Ret (Value (Inr (int i, int j))) s3" "calling s3 fs ps3 c d" "dirs s3 = dirs s2" "envs s3 = envs s2"
      "umap (dirs s3) s3 = (umap (dirs s2) s2)((d, 832, 32 + i) \<mapsto> mk_pte q pipe_perm, (d, 832, 32 + j) \<mapsto> mk_pte q pipe_perm)" "q \<noteq> p0" "q \<noteq> p1"
      "word_at (page_byte s3 p0) 0 = 112" "word_at (page_byte s3 p0) 8 = O_RDONLY" "word_at (page_byte s3 p1) 0 = 112" "word_at (page_byte s3 p1) 8 = O_WRONLY"
      "\<forall>k. page_byte s3 q k = 0" "\<And>x e. umap (dirs s2) s2 x = Some e \<Longrightarrow> pfn e \<noteq> p0 \<Longrightarrow> pfn e \<noteq> p1 \<Longrightarrow> frames s3 (pfn e) = frames s2 (pfn e)" by blast
  have "pipe s = Ret (Value (Inr (int i, int j))) s3" using a0 s1(1) a1 s2(1) s3(1) by (simp add: pipe_def)
  moreover have "frames s3 (pfn e) = frames s (pfn e)" if e: "?m x = Some e" for x e
  proof -
    obtain e1 where e1: "umap (dirs s1) s1 x = Some e1" "pfn e1 = pfn e" "frames s1 (pfn e) = frames s (pfn e)" by (rule keeps_pagesD [OF s1(5) e])
    obtain e2 where e2: "umap (dirs s2) s2 x = Some e2" "pfn e2 = pfn e1" "frames s2 (pfn e1) = frames s1 (pfn e1)" by (rule keeps_pagesD [OF s2(5) e1(1)])
    show ?thesis using s3(13) [OF e2(1)] s2(8) [OF e1(1)] s1(8) [OF e] e1 e2 by simp
  qed
  ultimately show ?thesis
    using s1(3,4) s2(3,4) s3(2-12) p01 unfolding s2(6) s1(6)
    by - (rule exI [of _ s3], rule exI [of _ ps3], rule exI [of _ p0], rule exI [of _ p1], rule exI [of _ q], auto)
qed

text \<open>C6. \<^verbatim>\<open>pipe\<close> in an environment with two closed descriptors and four free pages returns the lowest two. Each gets a page of its own, with
  the device of pipes and opened for reading and for writing, and one zeroed page is the data page of both: the ring buffer
  the two ends share. All other mappings and the contents of all other pages stay.\<close>

theorem pipe_connects:
  assumes cl: "calling s fs ps c d" and ij: "i < j" "j < MAXFD" and room: "4 \<le> length ps"
    and closed: "umap (dirs s) s (d, 832, i) = None" "umap (dirs s) s (d, 832, j) = None"
      "umap (dirs s) s (d, 832, 32 + i) = None" "umap (dirs s) s (d, 832, 32 + j) = None"
    and below: "\<And>k. k < j \<Longrightarrow> k \<noteq> i \<Longrightarrow> umap (dirs s) s (d, 832, k) \<noteq> None"
  shows "\<exists>s' ps' p0 p1 q. pipe s = Ret (Value (Inr (int i, int j))) s' \<and> calling s' fs ps' c d \<and> dirs s' = dirs s \<and> envs s' = envs s \<and>
    distinct [p0, p1, q] \<and>
    umap (dirs s') s' = (umap (dirs s) s)((d, 832, i) \<mapsto> mk_pte p0 pipe_perm, (d, 832, j) \<mapsto> mk_pte p1 pipe_perm,
      (d, 832, 32 + i) \<mapsto> mk_pte q pipe_perm, (d, 832, 32 + j) \<mapsto> mk_pte q pipe_perm) \<and>
    word_at (page_byte s' p0) 0 = 112 \<and> word_at (page_byte s' p0) 8 = O_RDONLY \<and>
    word_at (page_byte s' p1) 0 = 112 \<and> word_at (page_byte s' p1) 8 = O_WRONLY \<and> (\<forall>k. page_byte s' q k = 0) \<and>
    (\<forall>x e. umap (dirs s) s x = Some e \<longrightarrow> frames s' (pfn e) = frames s (pfn e))"
  by (rule pipe_spec [OF assms])

lemma user0_pipe:
  obtains s' ps' p0 p1 q where "pipe user0 = Ret (Value (Inr (0, 1))) s'" "calling s' [Suc 0..<NENV] ps' 0 15"
    "umap (dirs s') s' = [(15, 832, 0) \<mapsto> mk_pte p0 pipe_perm, (15, 832, 1) \<mapsto> mk_pte p1 pipe_perm,
      (15, 832, 32) \<mapsto> mk_pte q pipe_perm, (15, 832, 33) \<mapsto> mk_pte q pipe_perm]"
  using pipe_spec [OF user0_calling(1), of 0 1] that unfolding user0_calling(2) by auto

theorem pipe_connects_witness:
  "\<exists>s' q. pipe user0 = Ret (Value (Inr (0, 1))) s' \<and> umap (dirs s') s' (15, 832, 32) = Some (mk_pte q pipe_perm) \<and>
     umap (dirs s') s' (15, 832, 33) = Some (mk_pte q pipe_perm) \<and> (\<forall>k. page_byte s' q k = 0)"
proof -
  have "4 \<le> length [14, 13, 12, 11, 10, 9, 8, 7, 6, 5, 4, 3 :: nat]" by simp
  from pipe_connects [OF user0_calling(1) _ _ this, of 0 1] show ?thesis unfolding user0_calling(2) by auto
qed

theorem dup_shares_pages_witness:
  "\<exists>s s' p q. dup [] s 0 5 = Ret (Value 5) s' \<and> umap (dirs s) s (15, 832, 0) = Some p \<and> umap (dirs s') s' (15, 832, 5) = Some (dup_pte p) \<and>
     umap (dirs s) s (15, 832, 32) = Some q \<and> umap (dirs s') s' (15, 832, 37) = Some (dup_pte q)"
proof -
  obtain s ps p0 p1 q where s: "calling s [Suc 0..<NENV] ps 0 15"
    "umap (dirs s) s = [(15, 832, 0) \<mapsto> mk_pte p0 pipe_perm, (15, 832, 1) \<mapsto> mk_pte p1 pipe_perm,
      (15, 832, 32) \<mapsto> mk_pte q pipe_perm, (15, 832, 33) \<mapsto> mk_pte q pipe_perm]" by (rule user0_pipe)
  let ?m = "umap (dirs s) s"
  have "refs ?m x \<subseteq> {(15, 832, 0), (15, 832, 1), (15, 832, 32), (15, 832, 33)}" for x unfolding s(2) refs_def by (auto split: if_splits)
  then have "count ?m x \<le> card {(15 :: nat, 832 :: nat, 0 :: nat), (15, 832, 1), (15, 832, 32), (15, 832, 33)}" for x
    unfolding count_def by (intro card_mono) auto
  then have cnt: "count ?m x < 65534" for x by (rule order.strict_trans1) simp
  have m: "?m (15, 832, 0) = Some (mk_pte p0 pipe_perm)" "?m (15, 832, 5) = None" "?m (15, 832, 32 + 5) = None"
    "?m (15, 832, 32 + 0) = Some (mk_pte q pipe_perm)" unfolding s(2) by simp_all
  from dup_shares_pages [OF s(1) _ _ m(1) pipe_perm_user(3) m(2,3), of "[]"] obtain s' where
    "dup [] s (int 0) (int 5) = Ret (Value (int 5)) s'"
    "umap (dirs s') s' = ?m((15, 832, 5) \<mapsto> dup_pte (mk_pte p0 pipe_perm), (15, 832, 32 + 5) := map_option dup_pte (?m (15, 832, 32 + 0)))"
    using cnt m(4) pipe_perm_user(3) by auto
  then show ?thesis using m by - (rule exI [of _ s], rule exI [of _ s'], simp)
qed

section \<open>Reading a given number of bytes\<close>

lemma ubind_Value: "ubind m f = Ret (Value b) s' \<longleftrightarrow> (\<exists>a s. m = Ret (Value a) s \<and> f a s = Ret (Value b) s')"
  by (cases m) (auto simp: ubind_def split: user_result.splits)

lemma dev_lookup_in: "dev_lookup devtab did = Inr dev \<Longrightarrow> dev \<in> set devtab"
  by (induction devtab) (auto split: if_splits)

lemma dev_lookup_error: "dev_lookup devtab did = Inl e \<Longrightarrow> e = - E_INVAL"
  by (induction devtab) (auto split: if_splits)

lemma fd_lookup_error: "fd_lookup s fdnum = Ret (Value (Inl e)) s' \<Longrightarrow> e = - E_INVAL"
  by (auto simp: fd_lookup_def ubind_Value Let_def split: if_splits)

text \<open>Devices that return no more bytes than asked for.\<close>

definition modest :: "Dev list \<Rightarrow> bool" where
  "modest devtab \<longleftrightarrow> (\<forall>dev \<in> set devtab. \<forall>f s fd buf n m s'. dev_read dev = Some f \<and> f s fd buf n = Ret (Value m) s' \<longrightarrow> m \<le> int (unat n))"

lemma fd_read_modest:
  assumes "modest devtab" and "fd_read devtab s fdnum buf n = Ret (Value m) s'"
  shows "m \<le> int (unat n)"
proof -
  obtain r s1 where look: "fd_lookup s fdnum = Ret (Value r) s1" and r: "(case r of
         Inl e \<Rightarrow> Ret (Value e) s1
       | Inr fd \<Rightarrow>
           ubind (access s1 (load_word s1 fd)) (\<lambda>did s.
             case dev_lookup devtab did of Inl e \<Rightarrow> Ret (Value e) s
             | Inr dev \<Rightarrow> ubind (access s (load_word s (fd + 8))) (\<lambda>omode s.
                 if omode AND O_ACCMODE = O_WRONLY then Ret (Value (- E_INVAL)) s
                 else case dev_read dev of None \<Rightarrow> Ret (Value (- E_NOT_SUPP)) s | Some f \<Rightarrow> f s fd buf n))) = Ret (Value m) s'"
    using assms(2) unfolding fd_read_def with_dev_def ubind_Value by blast
  show ?thesis
  proof (cases r)
    case (Inl e)
    then show ?thesis using look r fd_lookup_error [of s fdnum e s1] order_trans [of "- 3" 0 "int (unat n)"] by simp
  next
    case (Inr fd)
    then obtain did s2 where d: "(case dev_lookup devtab did of Inl e \<Rightarrow> Ret (Value e) s2
             | Inr dev \<Rightarrow> ubind (access s2 (load_word s2 (fd + 8))) (\<lambda>omode s.
                 if omode AND O_ACCMODE = O_WRONLY then Ret (Value (- E_INVAL)) s
                 else case dev_read dev of None \<Rightarrow> Ret (Value (- E_NOT_SUPP)) s | Some f \<Rightarrow> f s fd buf n)) = Ret (Value m) s'"
      using r by (auto simp: ubind_Value)
    show ?thesis
    proof (cases "dev_lookup devtab did")
      case (Inl e)
      then show ?thesis using d dev_lookup_error [of devtab did e] order_trans [of "- 3" 0 "int (unat n)"] by simp
    next
      case dev: (Inr dev)
      then obtain omode s3 where o: "(if omode AND O_ACCMODE = O_WRONLY then Ret (Value (- E_INVAL)) s3
          else case dev_read dev of None \<Rightarrow> Ret (Value (- E_NOT_SUPP)) s3 | Some f \<Rightarrow> f s3 fd buf n) = Ret (Value m) s'"
        using d by (auto simp: ubind_Value)
      have neg: "k < 0 \<Longrightarrow> k \<le> int (unat n)" for k :: int by linarith
      from o consider "m = - 3" | "m = - 15" | f where "dev_read dev = Some f" "f s3 fd buf n = Ret (Value m) s'"
        by (auto split: if_splits option.splits)
      then show ?thesis
      proof cases
        case (3 f)
        then show ?thesis using assms(1) dev_lookup_in [OF dev] unfolding modest_def by blast
      qed (simp_all only: neg [of "- 3"] neg [of "- 15"])
    qed
  qed
qed

text \<open>One round per byte is enough fuel.\<close>

lemma readn_returns:
  assumes "modest devtab"
  shows "\<exists>r. readn devtab s fdnum buf n = Some r"
proof -
  have enough: "unat n - unat tot < k \<Longrightarrow> \<exists>r. readn_loop k devtab s fdnum buf n tot = Some r" for k tot
  proof (induction k arbitrary: s tot)
    case (Suc k)
    show ?case
    proof (cases "tot < n")
      case True
      show ?thesis
      proof (cases "\<exists>m s'. fd_read devtab s fdnum (buf + tot) (n - tot) = Ret (Value m) s' \<and> 0 < m")
        case step: True
        then obtain m s' where m: "fd_read devtab s fdnum (buf + tot) (n - tot) = Ret (Value m) s'" "0 < m" by blast
        have "unat (n - tot) = unat n - unat tot" using True by (simp add: unat_sub word_less_nat_alt word_le_nat_alt)
        then have "m \<le> int (unat n - unat tot)" using fd_read_modest [OF assms m(1)] by simp
        then have "unat (tot + of_int m) = unat tot + nat m"
          using m(2) unsigned_less [of n, where 'a = nat] by (simp add: unat_word_ariths unat_of_nat flip: of_nat_nat)
        then have "unat n - unat (tot + of_int m) < k" using Suc.prems m(2) True by (simp add: word_less_nat_alt)
        from Suc.IH [OF this] show ?thesis using m True by simp
      next
        case False
        then show ?thesis using True by (auto split: outcome.split user_result.split)
      qed
    qed simp
  qed simp
  show ?thesis unfolding readn_def by (rule enough) simp
qed

end
