(* ===== verification/LwipMem.thy ===== *)
theory LwipMem
  imports Prelude
begin

text \<open>
  The heap of the TCP/IP stack, \<^verbatim>\<open>net/lwip/core/mem.c\<close>, as the network server configures it (\<^verbatim>\<open>net/lwip/jos/lwipopts.h\<close>): blocks of four-byte aligned
  size, each behind a \<^verbatim>\<open>struct mem\<close> that links it to its neighbours. Pointers are offsets from \<^verbatim>\<open>ram\<close> and the headers are a function
  from offsets; the bytes of the blocks belong to the clients. A failed \<^verbatim>\<open>LWIP_ASSERT\<close>, which panics, is \<open>None\<close>. The semaphore that keeps out other threads is left
  out: a call runs as a whole.

  Shown is that the allocator never fails an assertion, that blocks handed out are disjoint, aligned and inside the heap whatever the order of calls, and
  that free neighbours are always merged, so that the whole heap is available again when everything was returned.
\<close>

unbundle bit_operations_syntax

section \<open>The heap\<close>

definition MEM_SIZE_ALIGNED :: nat where
  "MEM_SIZE_ALIGNED = 16 * 4096 * 32 + 4096 * 32"

abbreviation SIZEOF_STRUCT_MEM :: nat where "SIZEOF_STRUCT_MEM \<equiv> 12"
abbreviation MIN_SIZE_ALIGNED :: nat where "MIN_SIZE_ALIGNED \<equiv> 12"

record mem =
  m_next :: nat
  m_prev :: nat
  m_used :: bool

record heap =
  hdr :: "nat \<Rightarrow> mem"
  lfree :: nat

abbreviation nxt :: "heap \<Rightarrow> nat \<Rightarrow> nat" where "nxt h p \<equiv> m_next (hdr h p)"
abbreviation prv :: "heap \<Rightarrow> nat \<Rightarrow> nat" where "prv h p \<equiv> m_prev (hdr h p)"
abbreviation usd :: "heap \<Rightarrow> nat \<Rightarrow> bool" where "usd h p \<equiv> m_used (hdr h p)"

definition set_mem :: "nat \<Rightarrow> (mem \<Rightarrow> mem) \<Rightarrow> heap \<Rightarrow> heap" where
  "set_mem p f h = h\<lparr>hdr := (hdr h)(p := f (hdr h p))\<rparr>"

text \<open>Subtraction of 32-bit offsets, and the rounding of sizes.\<close>

definition sub32 :: "nat \<Rightarrow> nat \<Rightarrow> nat" where
  "sub32 a b = (a + 2 ^ 32 - b) mod 2 ^ 32"

definition LWIP_MEM_ALIGN_SIZE :: "u32 \<Rightarrow> u32" where
  "LWIP_MEM_ALIGN_SIZE sz = (sz + 3) AND NOT 3"

definition block_size :: "u32 \<Rightarrow> nat" where
  "block_size sz = max MIN_SIZE_ALIGNED (unat (LWIP_MEM_ALIGN_SIZE sz))"

definition plug_forward :: "heap \<Rightarrow> nat \<Rightarrow> heap" where
  "plug_forward h mem =
     (let nmem = nxt h mem in
      if mem \<noteq> nmem \<and> \<not> usd h nmem \<and> nmem \<noteq> MEM_SIZE_ALIGNED
      then let h = (if lfree h = nmem then h\<lparr>lfree := mem\<rparr> else h);
               h = set_mem mem (m_next_update (\<lambda>_. nxt h nmem)) h
           in set_mem (nxt h nmem) (m_prev_update (\<lambda>_. mem)) h
      else h)"

definition plug_backward :: "heap \<Rightarrow> nat \<Rightarrow> heap" where
  "plug_backward h mem =
     (let pmem = prv h mem in
      if pmem \<noteq> mem \<and> \<not> usd h pmem
      then let h = (if lfree h = mem then h\<lparr>lfree := pmem\<rparr> else h);
               h = set_mem pmem (m_next_update (\<lambda>_. nxt h mem)) h
           in set_mem (nxt h mem) (m_prev_update (\<lambda>_. pmem)) h
      else h)"

definition plug_holes :: "heap \<Rightarrow> nat \<Rightarrow> heap option" where
  "plug_holes h mem =
     (if mem < MEM_SIZE_ALIGNED \<and> \<not> usd h mem \<and> nxt h mem \<le> MEM_SIZE_ALIGNED
      then Some (plug_backward (plug_forward h mem) mem) else None)"

definition mem_init :: heap where
  "mem_init =
     \<lparr>hdr = (\<lambda>_. \<lparr>m_next = 0, m_prev = 0, m_used = False\<rparr>)
        (0 := \<lparr>m_next = MEM_SIZE_ALIGNED, m_prev = 0, m_used = False\<rparr>,
         MEM_SIZE_ALIGNED := \<lparr>m_next = MEM_SIZE_ALIGNED, m_prev = MEM_SIZE_ALIGNED, m_used = True\<rparr>),
      lfree = 0\<rparr>"

definition mem_free :: "heap \<Rightarrow> nat option \<Rightarrow> heap option" where
  "mem_free h p =
     (case p of
        None \<Rightarrow> Some h
      | Some rmem \<Rightarrow>
          if rmem mod 4 \<noteq> 0 \<or> rmem \<ge> MEM_SIZE_ALIGNED \<or> rmem < SIZEOF_STRUCT_MEM then None
          else let mem = rmem - SIZEOF_STRUCT_MEM in
            if \<not> usd h mem then None
            else let h = set_mem mem (m_used_update (\<lambda>_. False)) h;
                     h = (if mem < lfree h then h\<lparr>lfree := mem\<rparr> else h)
                 in plug_holes h mem)"

text \<open>The new block \<open>mem2\<close> at \<open>ptr2\<close> between \<open>ptr\<close> and \<open>next\<close>.\<close>

definition link_new :: "heap \<Rightarrow> nat \<Rightarrow> nat \<Rightarrow> nat \<Rightarrow> heap" where
  "link_new h ptr ptr2 nx =
     (let h = set_mem ptr2 (\<lambda>_. \<lparr>m_next = nx, m_prev = ptr, m_used = False\<rparr>) h;
          h = set_mem ptr (m_next_update (\<lambda>_. ptr2)) h
      in if nx \<noteq> MEM_SIZE_ALIGNED then set_mem nx (m_prev_update (\<lambda>_. ptr2)) h else h)"

definition mem_realloc :: "heap \<Rightarrow> nat \<Rightarrow> u32 \<Rightarrow> (nat option \<times> heap) option" where
  "mem_realloc h rmem newsize =
     (let newsize = block_size newsize in
      if newsize > MEM_SIZE_ALIGNED then Some (None, h)
      else if rmem \<ge> MEM_SIZE_ALIGNED \<or> rmem < SIZEOF_STRUCT_MEM then None
      else let ptr = rmem - SIZEOF_STRUCT_MEM; sz = sub32 (sub32 (nxt h ptr) ptr) SIZEOF_STRUCT_MEM in
        if newsize > sz then None
        else if newsize = sz then Some (Some rmem, h)
        else let mem2 = nxt h ptr; ptr2 = ptr + SIZEOF_STRUCT_MEM + newsize in
          if \<not> usd h mem2
          then let nx = nxt h mem2; h = (if lfree h = mem2 then h\<lparr>lfree := ptr2\<rparr> else h)
               in Some (Some rmem, link_new h ptr ptr2 nx)
          else if newsize + SIZEOF_STRUCT_MEM + MIN_SIZE_ALIGNED \<le> sz
          then let h = (if ptr2 < lfree h then h\<lparr>lfree := ptr2\<rparr> else h)
               in Some (Some rmem, link_new h ptr ptr2 mem2)
          else Some (Some rmem, h))"

partial_function (option) lfree_scan :: "heap \<Rightarrow> nat \<Rightarrow> nat option" where
  "lfree_scan h p = (if usd h p \<and> p \<noteq> MEM_SIZE_ALIGNED then lfree_scan h (nxt h p) else Some p)"

text \<open>The body of the loop of \<^verbatim>\<open>mem_malloc\<close> for a block that is big enough.\<close>

definition malloc_take :: "heap \<Rightarrow> nat \<Rightarrow> nat \<Rightarrow> (nat option \<times> heap) option" where
  "malloc_take h sz ptr =
     (let h = (if sub32 (nxt h ptr) (ptr + SIZEOF_STRUCT_MEM) \<ge> sz + SIZEOF_STRUCT_MEM + MIN_SIZE_ALIGNED
               then set_mem ptr (m_used_update (\<lambda>_. True)) (link_new h ptr (ptr + SIZEOF_STRUCT_MEM + sz) (nxt h ptr))
               else set_mem ptr (m_used_update (\<lambda>_. True)) h)
      in do { h \<leftarrow> (if ptr = lfree h
                    then do { p \<leftarrow> lfree_scan h ptr;
                              if p = MEM_SIZE_ALIGNED \<or> \<not> usd h p then Some (h\<lparr>lfree := p\<rparr>) else None }
                    else Some h);
              if ptr + SIZEOF_STRUCT_MEM + sz \<le> MEM_SIZE_ALIGNED \<and> (ptr + SIZEOF_STRUCT_MEM) mod 4 = 0 \<and> ptr mod 4 = 0
              then Some (Some (ptr + SIZEOF_STRUCT_MEM), h) else None })"

partial_function (option) malloc_loop :: "heap \<Rightarrow> nat \<Rightarrow> nat \<Rightarrow> (nat option \<times> heap) option" where
  "malloc_loop h sz ptr =
     (if ptr < MEM_SIZE_ALIGNED - sz
      then if \<not> usd h ptr \<and> sub32 (nxt h ptr) (ptr + SIZEOF_STRUCT_MEM) \<ge> sz then malloc_take h sz ptr
           else malloc_loop h sz (nxt h ptr)
      else Some (None, h))"

definition mem_malloc :: "heap \<Rightarrow> u32 \<Rightarrow> (nat option \<times> heap) option" where
  "mem_malloc h sz =
     (if sz = 0 then Some (None, h)
      else if block_size sz > MEM_SIZE_ALIGNED then Some (None, h)
      else malloc_loop h (block_size sz) (lfree h))"

text \<open>The block of \<^verbatim>\<open>mem_calloc\<close>; zeroing it concerns its bytes only.\<close>

definition mem_calloc :: "heap \<Rightarrow> u32 \<Rightarrow> u32 \<Rightarrow> (nat option \<times> heap) option" where
  "mem_calloc h count sz = mem_malloc h (count * sz)"

section \<open>The list of blocks\<close>

definition link :: "heap \<Rightarrow> nat \<Rightarrow> nat \<Rightarrow> bool" where
  "link h b c \<longleftrightarrow> nxt h b = c \<and> (c \<noteq> MEM_SIZE_ALIGNED \<longrightarrow> prv h c = b) \<and> b + 24 \<le> c"

definition tight :: "heap \<Rightarrow> nat list \<Rightarrow> bool" where
  "tight h = successively (\<lambda>b c. usd h b \<or> usd h c)"

text \<open>\<open>bs\<close> are the blocks, in order of address, up to \<^verbatim>\<open>ram_end\<close>.\<close>

definition blocks :: "heap \<Rightarrow> nat list \<Rightarrow> bool" where
  "blocks h bs \<longleftrightarrow> bs \<noteq> [] \<and> hd bs = 0 \<and> prv h 0 = 0 \<and> successively (link h) (bs @ [MEM_SIZE_ALIGNED]) \<and>
     (\<forall>b \<in> set bs. b mod 4 = 0) \<and> usd h MEM_SIZE_ALIGNED"

definition lowest_free :: "heap \<Rightarrow> nat list \<Rightarrow> bool" where
  "lowest_free h bs \<longleftrightarrow> lfree h \<in> set (bs @ [MEM_SIZE_ALIGNED]) \<and> (lfree h = MEM_SIZE_ALIGNED \<or> \<not> usd h (lfree h)) \<and>
     (\<forall>b \<in> set bs. b < lfree h \<longrightarrow> usd h b)"

definition heap_inv :: "heap \<Rightarrow> nat list \<Rightarrow> bool" where
  "heap_inv h bs \<longleftrightarrow> blocks h bs \<and> tight h (bs @ [MEM_SIZE_ALIGNED]) \<and> lowest_free h bs"

lemma link_increasing: "successively (link h) cs \<Longrightarrow> sorted_wrt (\<lambda>b c. b + 24 \<le> c) cs"
proof -
  assume "successively (link h) cs"
  then have "successively (\<lambda>b c. b + 24 \<le> c) cs" by (rule successively_mono) (simp add: link_def)
  then show ?thesis by (subst (asm) successively_conv_sorted_wrt) (auto intro!: transpI)
qed

lemma blocks_below:
  assumes "blocks h bs" and "b \<in> set bs"
  shows "b + 24 \<le> MEM_SIZE_ALIGNED"
  using link_increasing [of h "bs @ [MEM_SIZE_ALIGNED]"] assms by (auto simp: blocks_def sorted_wrt_append)

lemma blocks_distinct: "blocks h bs \<Longrightarrow> sorted_wrt (\<lambda>b c. b + 24 \<le> c) bs" "blocks h bs \<Longrightarrow> distinct bs"
proof -
  assume b: "blocks h bs"
  then show s: "sorted_wrt (\<lambda>b c. b + 24 \<le> c) bs"
    using link_increasing [of h "bs @ [MEM_SIZE_ALIGNED]"] by (auto simp: blocks_def sorted_wrt_append)
  have "sorted_wrt (<) bs" by (rule sorted_wrt_mono_rel [OF _ s]) simp
  then show "distinct bs" by (simp add: strict_sorted_iff)
qed

lemma size_bound: "MEM_SIZE_ALIGNED = 2228224"
  by (simp add: MEM_SIZE_ALIGNED_def)

lemma sub32_less:
  assumes "b \<le> a" and "a \<le> MEM_SIZE_ALIGNED"
  shows "sub32 a b = a - b"
proof -
  have less: "a - b < 2 ^ 32" by (rule le_less_trans [of _ MEM_SIZE_ALIGNED]) (use assms(2) in \<open>simp_all add: size_bound\<close>)
  show ?thesis unfolding sub32_def Nat.diff_add_assoc2 [OF assms(1)] mod_add_self2 by (rule mod_less [OF less])
qed

text \<open>A part of the list is linked as before if the pointers inside it are.\<close>

lemma links_cong:
  "(\<And>x. x \<in> set (butlast xs) \<Longrightarrow> nxt h' x = nxt h x) \<Longrightarrow> (\<And>x. x \<in> set (tl xs) \<Longrightarrow> x \<noteq> MEM_SIZE_ALIGNED \<Longrightarrow> prv h' x = prv h x) \<Longrightarrow>
   successively (link h) xs \<Longrightarrow> successively (link h') xs"
proof (induction xs)
  case (Cons x xs)
  show ?case
  proof (cases xs)
    case Nil
    then show ?thesis by simp
  next
    case (Cons y ys)
    have "successively (link h') xs"
      by (rule Cons.IH) (use Cons.prems Cons in \<open>auto split: if_splits\<close>)
    moreover have "link h' x y" using Cons.prems Cons by (auto simp: link_def)
    ultimately show ?thesis using Cons by simp
  qed
qed simp

lemma link_pieces:
  "successively (link h) (xs @ b # ys) \<longleftrightarrow> successively (link h) (xs @ [b]) \<and> successively (link h) (b # ys)"
  by (auto simp: successively_append_iff)

lemma links_below:
  assumes "successively (link h) (xs @ [b])" and "\<And>x. x < b \<Longrightarrow> nxt h' x = nxt h x" and "\<And>x. x \<le> b \<Longrightarrow> prv h' x = prv h x"
  shows "successively (link h') (xs @ [b])"
proof (rule links_cong [OF _ _ assms(1)])
  have less: "x < b" if "x \<in> set xs" for x using link_increasing [OF assms(1)] that by (auto simp: sorted_wrt_append)
  show "nxt h' x = nxt h x" if "x \<in> set (butlast (xs @ [b]))" for x using that less assms(2) by simp
  show "prv h' x = prv h x" if "x \<in> set (tl (xs @ [b]))" for x
    by (rule assms(3)) (use that less in \<open>cases xs; fastforce\<close>)
qed

lemma links_above:
  assumes "successively (link h) (d # ys)" and "\<And>x. d \<le> x \<Longrightarrow> nxt h' x = nxt h x" and "\<And>x. d < x \<Longrightarrow> prv h' x = prv h x"
  shows "successively (link h') (d # ys)"
proof (rule links_cong [OF _ _ assms(1)])
  have less: "d < x" if "x \<in> set ys" for x using link_increasing [OF assms(1)] that by auto
  show "nxt h' x = nxt h x" if "x \<in> set (butlast (d # ys))" for x
    by (rule assms(2)) (use in_set_butlastD [OF that] less in fastforce)
  show "prv h' x = prv h x" if "x \<in> set (tl (d # ys))" for x using that less assms(3) by simp
qed

text \<open>What linking in a block, and merging a block \<open>c\<close> into its left neighbour \<open>b\<close>, do to the headers.\<close>

lemma link_new_hdr:
  assumes "b \<noteq> p" and "p \<noteq> d"
  shows "nxt (link_new h b p d) x = (if x = b then p else if x = p then d else nxt h x)"
    and "prv (link_new h b p d) x = (if x = d \<and> d \<noteq> MEM_SIZE_ALIGNED then p else if x = p then b else prv h x)"
    and "usd (link_new h b p d) x = (x \<noteq> p \<and> usd h x)"
    and "lfree (link_new h b p d) = lfree h"
  using assms by (auto simp: link_new_def set_mem_def Let_def)

definition unlink :: "heap \<Rightarrow> nat \<Rightarrow> nat \<Rightarrow> heap" where
  "unlink h b c = set_mem (nxt h c) (m_prev_update (\<lambda>_. b)) (set_mem b (m_next_update (\<lambda>_. nxt h c)) h)"

lemma unlink_hdr [simp]:
  "nxt (unlink h b c) x = (if x = b then nxt h c else nxt h x)"
  "prv (unlink h b c) x = (if x = nxt h c then b else prv h x)"
  "usd (unlink h b c) x = usd h x"
  "lfree (unlink h b c) = lfree h"
  by (auto simp: unlink_def set_mem_def)

lemma link_new_chain:
  assumes "successively (link h) (xs @ [b])" and "successively (link h) (d # ys)" and "b + 24 \<le> p" and "p + 24 \<le> d"
  shows "successively (link (link_new h b p d)) (xs @ b # p # d # ys)"
proof -
  have ne: "b \<noteq> p" "p \<noteq> d" using assms by auto
  have "successively (link (link_new h b p d)) (xs @ [b])"
    by (rule links_below [OF assms(1)]) (use assms in \<open>auto simp: link_new_hdr [OF ne]\<close>)
  moreover have "successively (link (link_new h b p d)) (d # ys)"
    by (rule links_above [OF assms(2)]) (use assms in \<open>auto simp: link_new_hdr [OF ne]\<close>)
  moreover have "link (link_new h b p d) b p" "link (link_new h b p d) p d"
    using assms ne by (auto simp: link_def link_new_hdr)
  ultimately show ?thesis by (simp add: link_pieces [of _ xs b "p # d # ys"])
qed

lemma unlink_chain:
  assumes "successively (link h) (xs @ b # c # d # ys)"
  shows "successively (link (unlink h b c)) (xs @ b # d # ys)"
proof -
  have p: "successively (link h) (xs @ [b])" "link h b c" "link h c d" "successively (link h) (d # ys)"
    using assms by (auto simp: link_pieces [of _ xs b "c # d # ys"])
  then have d: "nxt h c = d" "b + 48 \<le> d" by (auto simp: link_def)
  have "successively (link (unlink h b c)) (xs @ [b])"
    by (rule links_below [OF p(1)]) (use d in auto)
  moreover have "successively (link (unlink h b c)) (d # ys)"
    by (rule links_above [OF p(4)]) (use d in auto)
  moreover have "link (unlink h b c) b d" using d by (auto simp: link_def)
  ultimately show ?thesis by (simp add: link_pieces [of _ xs b "d # ys"])
qed

lemma blocks_link_new:
  assumes "successively (link h) (xs @ [b])" and "successively (link h) (ys @ [MEM_SIZE_ALIGNED])" and "hd (ys @ [MEM_SIZE_ALIGNED]) = d"
    and "b + 24 \<le> p" and "p + 24 \<le> d" and "hd (xs @ [b]) = 0" and "prv h 0 = 0" and "\<forall>x \<in> set (xs @ b # p # ys). x mod 4 = 0"
    and "usd h MEM_SIZE_ALIGNED"
  shows "blocks (link_new h b p d) (xs @ b # p # ys)"
proof -
  obtain zs where zs: "ys @ [MEM_SIZE_ALIGNED] = d # zs" using assms(3) by (cases ys) auto
  have ne: "b \<noteq> p" "p \<noteq> d" using assms by auto
  have "sorted_wrt (\<lambda>b c. b + 24 \<le> c) (d # zs)" using link_increasing [OF assms(2)] zs by simp
  then have "d \<le> MEM_SIZE_ALIGNED" using zs by (metis append_eq_Cons_conv le_add1 last_in_set last_snoc list.distinct(1) set_ConsD sorted_wrt.simps(2) dual_order.refl order_trans)
  then have "p \<noteq> MEM_SIZE_ALIGNED" using assms(5) by auto
  moreover have "hd (xs @ b # p # ys) = 0" using assms(6) by (cases xs) auto
  moreover have "successively (link (link_new h b p d)) ((xs @ b # p # ys) @ [MEM_SIZE_ALIGNED])"
    using link_new_chain [OF assms(1) _ assms(4) assms(5), of zs] assms(2) zs by simp
  ultimately show ?thesis
    using assms ne by (simp add: blocks_def link_new_hdr [OF ne])
qed

lemma blocks_unlink:
  assumes "blocks h (xs @ b # c # ys)"
  shows "blocks (unlink h b c) (xs @ b # ys)"
proof -
  obtain d zs where zs: "ys @ [MEM_SIZE_ALIGNED] = d # zs" by (cases ys) auto
  have chain: "successively (link h) (xs @ b # c # d # zs)" using assms zs by (simp add: blocks_def)
  then have "link h c d" by (simp add: link_pieces [of _ xs b "c # d # zs"])
  then have "nxt h c \<noteq> 0" by (auto simp: link_def)
  moreover have "hd (xs @ b # ys) = 0" using assms by (cases xs) (auto simp: blocks_def)
  moreover have "successively (link (unlink h b c)) ((xs @ b # ys) @ [MEM_SIZE_ALIGNED])"
    using unlink_chain [OF chain] zs by simp
  ultimately show ?thesis using assms by (simp add: blocks_def)
qed

section \<open>Returning a block\<close>

lemma tight_cong: "(\<And>x. x \<in> set cs \<Longrightarrow> usd h' x = usd h x) \<Longrightarrow> tight h' cs = tight h cs"
  unfolding tight_def by (rule successively_cong) auto

lemma tight_mono: "tight h cs \<Longrightarrow> (\<And>x. x \<in> set cs \<Longrightarrow> usd h x \<Longrightarrow> usd h' x) \<Longrightarrow> tight h' cs"
  unfolding tight_def by (erule successively_mono) auto

lemma tight_pieces: "tight h (xs @ b # ys) \<longleftrightarrow> tight h (xs @ [b]) \<and> tight h (b # ys)"
  by (auto simp: tight_def successively_append_iff)

lemma tight_Cons [simp]: "tight h (b # c # ys) \<longleftrightarrow> (usd h b \<or> usd h c) \<and> tight h (c # ys)" "tight h [b]" "tight h []"
  by (auto simp: tight_def)

lemma tight_snoc: "tight h (xs @ [b]) \<longleftrightarrow> tight h xs \<and> (xs = [] \<or> usd h (last xs) \<or> usd h b)"
  by (auto simp: tight_def successively_append_iff)

text \<open>The blocks around a block.\<close>

lemma blocks_next:
  assumes "blocks h (xs @ b # ys)"
  shows "nxt h b = hd (ys @ [MEM_SIZE_ALIGNED])" and "b + 24 \<le> hd (ys @ [MEM_SIZE_ALIGNED])" and "hd (ys @ [MEM_SIZE_ALIGNED]) \<le> MEM_SIZE_ALIGNED"
    and "b + 24 \<le> MEM_SIZE_ALIGNED"
proof -
  obtain d zs where zs: "ys @ [MEM_SIZE_ALIGNED] = d # zs" by (cases ys) auto
  have "successively (link h) (xs @ b # d # zs)" using assms zs by (simp add: blocks_def)
  then have "link h b d" by (simp add: link_pieces [of _ xs b "d # zs"])
  then show "nxt h b = hd (ys @ [MEM_SIZE_ALIGNED])" "b + 24 \<le> hd (ys @ [MEM_SIZE_ALIGNED])" using zs by (auto simp: link_def)
  show "b + 24 \<le> MEM_SIZE_ALIGNED" by (rule blocks_below [OF assms]) simp
  show "hd (ys @ [MEM_SIZE_ALIGNED]) \<le> MEM_SIZE_ALIGNED" using blocks_below [OF assms, of "hd ys"] by (cases ys) auto
qed

lemma blocks_prev:
  assumes "blocks h (xs @ b # ys)"
  shows "prv h b = (if xs = [] then b else last xs)"
proof (cases xs rule: rev_cases)
  case Nil
  then show ?thesis using assms by (simp add: blocks_def)
next
  case (snoc zs a)
  have "successively (link h) (zs @ a # b # ys @ [MEM_SIZE_ALIGNED])" using assms snoc by (simp add: blocks_def)
  then have "link h a b" by (simp add: link_pieces [of _ zs a "b # ys @ [MEM_SIZE_ALIGNED]"])
  moreover have "b \<noteq> MEM_SIZE_ALIGNED" using blocks_next(4) [OF assms] by simp
  ultimately show ?thesis using snoc by (simp add: link_def)
qed

lemma lowest_free_unlink:
  assumes "blocks h (xs @ b # c # ys)" and "lowest_free h (xs @ b # c # ys)" and "\<not> usd h b"
  shows "lfree h \<noteq> c" and "lowest_free (unlink h b c) (xs @ b # ys)"
proof -
  have "b < c" using blocks_distinct(1) [OF assms(1)] by (auto simp: sorted_wrt_append)
  moreover have "\<not> b < lfree h" using assms by (auto simp: lowest_free_def)
  ultimately show "lfree h \<noteq> c" by simp
  then show "lowest_free (unlink h b c) (xs @ b # ys)" using assms(2) by (auto simp: lowest_free_def)
qed

text \<open>Merging a free block with the block above and with the block below.\<close>

lemma plug_forward_inv:
  assumes "blocks h (xs @ b # ys)" and "lowest_free h (xs @ b # ys)" and "\<not> usd h b" and "tight h (ys @ [MEM_SIZE_ALIGNED])"
  obtains ys' where "blocks (plug_forward h b) (xs @ b # ys')" and "lowest_free (plug_forward h b) (xs @ b # ys')"
    and "tight h (b # ys' @ [MEM_SIZE_ALIGNED])" and "\<And>x. usd (plug_forward h b) x = usd h x" and "\<And>x. x \<noteq> b \<Longrightarrow> nxt (plug_forward h b) x = nxt h x"
    and "{x \<in> set ys'. usd h x} = {x \<in> set ys. usd h x}"
proof (cases ys)
  case Nil
  have same: "plug_forward h b = h" using blocks_next(1) [OF assms(1)] Nil by (simp add: plug_forward_def)
  show ?thesis by (rule that [of ys]) (use assms Nil same in \<open>auto simp: blocks_def\<close>)
next
  case (Cons c zs)
  have c: "nxt h b = c" "b \<noteq> c" "c \<noteq> MEM_SIZE_ALIGNED"
    using blocks_next [OF assms(1)] blocks_next(4) [of h "xs @ [b]" c zs] assms(1) Cons by auto
  show ?thesis
  proof (cases "usd h c")
    case True
    then have same: "plug_forward h b = h" using c by (simp add: plug_forward_def)
    show ?thesis by (rule that [of ys]) (use assms Cons same True in auto)
  next
    case False
    have bl: "blocks h (xs @ b # c # zs)" "lowest_free h (xs @ b # c # zs)" using assms Cons by auto
    have merged: "plug_forward h b = unlink h b c"
      using c False lowest_free_unlink(1) [OF bl assms(3)] by (simp add: plug_forward_def unlink_def Let_def set_mem_def)
    have "tight h (b # zs @ [MEM_SIZE_ALIGNED])" using assms(4) Cons False by (cases zs) auto
    then show ?thesis
      by - (rule that [of zs], use assms merged blocks_unlink [OF bl(1)] lowest_free_unlink(2) [OF bl assms(3)] Cons False in auto)
  qed
qed

lemma plug_backward_inv:
  assumes "blocks h (xs @ b # ys)" and "lowest_free h (xs @ b # ys)" and "\<not> usd h b" and "tight h xs" and "tight h (b # ys @ [MEM_SIZE_ALIGNED])"
  obtains bs where "heap_inv (plug_backward h b) bs" and "\<And>x. usd (plug_backward h b) x = usd h x"
    and "\<And>x. usd h x \<Longrightarrow> nxt (plug_backward h b) x = nxt h x" and "{x \<in> set bs. usd h x} = {x \<in> set (xs @ ys). usd h x}"
proof (cases xs rule: rev_cases)
  case Nil
  have same: "plug_backward h b = h" using blocks_prev [OF assms(1)] Nil by (simp add: plug_backward_def)
  show ?thesis by (rule that [of "xs @ b # ys"]) (use assms Nil same in \<open>auto simp: heap_inv_def\<close>)
next
  case (snoc zs a)
  have a: "prv h b = a" "a \<noteq> b"
    using blocks_prev [OF assms(1)] blocks_next [of h zs a "b # ys"] assms(1) snoc by auto
  show ?thesis
  proof (cases "usd h a")
    case True
    have same: "plug_backward h b = h" using a True by (simp add: plug_backward_def)
    have "tight h (xs @ b # ys @ [MEM_SIZE_ALIGNED])" 
      using assms(4,5) snoc True by (simp add: tight_pieces [of _ zs a "b # ys @ [MEM_SIZE_ALIGNED]"])
    then show ?thesis
      by - (rule that [of "xs @ b # ys"], use assms same in \<open>auto simp: heap_inv_def\<close>)
  next
    case False
    have bl: "blocks h (zs @ a # b # ys)" "lowest_free h (zs @ a # b # ys)" using assms snoc by auto
    have merged: "plug_backward h b = unlink h a b"
      using a False lowest_free_unlink(1) [OF bl False] by (simp add: plug_backward_def unlink_def Let_def set_mem_def)
    have "tight h (a # ys @ [MEM_SIZE_ALIGNED])" using assms(3,5) by (cases ys) auto
    then have "tight (unlink h a b) (zs @ a # ys @ [MEM_SIZE_ALIGNED])"
      using assms(4) snoc by (simp add: tight_pieces [of _ zs a "ys @ [MEM_SIZE_ALIGNED]"] tight_cong [of _ "unlink h a b" h])
    then show ?thesis
      by - (rule that [of "zs @ a # ys"],
        use assms merged blocks_unlink [OF bl(1)] lowest_free_unlink(2) [OF bl False] snoc False in \<open>auto simp: heap_inv_def\<close>)
  qed
qed

text \<open>A header change that keeps the pointers keeps the list.\<close>

lemma blocks_cong:
  assumes "\<And>x. nxt h' x = nxt h x" and "\<And>x. prv h' x = prv h x" and "usd h' MEM_SIZE_ALIGNED = usd h MEM_SIZE_ALIGNED"
  shows "blocks h' bs = blocks h bs"
proof -
  have "link h' = link h" using assms by (intro ext) (simp add: link_def)
  then show ?thesis using assms by (simp add: blocks_def)
qed

text \<open>\<^verbatim>\<open>mem_free\<close> before the holes are plugged.\<close>

definition unuse :: "heap \<Rightarrow> nat \<Rightarrow> heap" where
  "unuse h b = (let h = set_mem b (m_used_update (\<lambda>_. False)) h in if b < lfree h then h\<lparr>lfree := b\<rparr> else h)"

lemma unuse_hdr [simp]:
  "nxt (unuse h b) x = nxt h x" "prv (unuse h b) x = prv h x" "usd (unuse h b) x \<longleftrightarrow> usd h x \<and> x \<noteq> b" "lfree (unuse h b) = min b (lfree h)"
  by (auto simp: unuse_def set_mem_def Let_def)

lemma mem_free_inv:
  assumes inv: "heap_inv h bs" and "b \<in> set bs" and "usd h b"
  obtains h' bs' where "mem_free h (Some (b + SIZEOF_STRUCT_MEM)) = Some h'" and "heap_inv h' bs'"
    and "{x \<in> set bs'. usd h' x} = {x \<in> set bs. usd h x} - {b}" and "\<And>x. usd h' x \<Longrightarrow> nxt h' x = nxt h x"
proof -
  obtain xs ys where bs: "bs = xs @ b # ys" using assms(2) by (auto simp: in_set_conv_decomp)
  have bl: "blocks h (xs @ b # ys)" and low: "lowest_free h (xs @ b # ys)" and t: "tight h (xs @ b # ys @ [MEM_SIZE_ALIGNED])"
    using inv bs by (auto simp: heap_inv_def)
  have nM: "b \<noteq> MEM_SIZE_ALIGNED" using blocks_next(4) [OF bl] by simp
  have dist: "b \<notin> set xs" "b \<notin> set ys" using blocks_distinct(2) [OF bl] by auto
  let ?h = "unuse h b"
  have bl1: "blocks ?h (xs @ b # ys)" using bl nM blocks_cong [of ?h h] by simp
  have low1: "lowest_free ?h (xs @ b # ys)" using low by (auto simp: lowest_free_def min_def)
  have ts: "tight h xs" "tight h (ys @ [MEM_SIZE_ALIGNED])"
    using t by (auto simp: tight_def successively_append_iff successively_Cons)
  have t1: "tight ?h xs" "tight ?h (ys @ [MEM_SIZE_ALIGNED])"
    using ts dist nM by (auto elim!: tight_mono)
  obtain ys' where fw: "blocks (plug_forward ?h b) (xs @ b # ys')" "lowest_free (plug_forward ?h b) (xs @ b # ys')"
    "tight ?h (b # ys' @ [MEM_SIZE_ALIGNED])" "\<And>x. usd (plug_forward ?h b) x = usd ?h x" "\<And>x. x \<noteq> b \<Longrightarrow> nxt (plug_forward ?h b) x = nxt ?h x"
    "{x \<in> set ys'. usd ?h x} = {x \<in> set ys. usd ?h x}"
    by (rule plug_forward_inv [OF bl1 low1 _ t1(2)]) auto
  let ?f = "plug_forward ?h b"
  have ts2: "tight ?f xs" "tight ?f (b # ys' @ [MEM_SIZE_ALIGNED])" "\<not> usd ?f b"
    using t1(1) fw(3) by (auto simp: fw(4) tight_cong [of _ ?f ?h])
  obtain bs' where bw: "heap_inv (plug_backward ?f b) bs'" "\<And>x. usd (plug_backward ?f b) x = usd ?f x"
    "\<And>x. usd ?f x \<Longrightarrow> nxt (plug_backward ?f b) x = nxt ?f x" "{x \<in> set bs'. usd ?f x} = {x \<in> set (xs @ ys'). usd ?f x}"
    by (rule plug_backward_inv [OF fw(1,2) ts2(3,1,2)]) auto
  have "b mod 4 = 0" using bl by (simp add: blocks_def)
  then have "mem_free h (Some (b + SIZEOF_STRUCT_MEM)) = Some (plug_backward ?f b)"
    using blocks_next [OF bl] assms(3) by (simp add: mem_free_def plug_holes_def mod_add_left_eq [symmetric] unuse_def [symmetric, unfolded Let_def])
  moreover have "{x \<in> set bs'. usd (plug_backward ?f b) x} = {x \<in> set bs. usd h x} - {b}"
    using bw(4) fw(6) dist bs unfolding bw(2) fw(4) by auto
  ultimately show ?thesis
    by - (rule that [of "plug_backward ?f b" bs'], use bw fw in auto)
qed

section \<open>Taking a block\<close>

lemma unat_align: "unat (LWIP_MEM_ALIGN_SIZE sz) = unat (sz + 3) div 4 * 4"
proof -
  have "(3 :: u32) = mask 2" by (simp add: mask_eq_exp_minus_1)
  then show ?thesis using unat_clear_low [of "sz + 3" 2] by (simp add: LWIP_MEM_ALIGN_SIZE_def)
qed

lemma block_size_facts: "block_size sz mod 4 = 0" "12 \<le> block_size sz"
  by (auto simp: block_size_def max_def unat_align)

lemma block_size_covers:
  assumes "unat sz < 2 ^ 32 - 3"
  shows "unat sz \<le> block_size sz"
proof -
  have "unat (sz + 3) = unat sz + 3" 
    by (subst unat_add_lem [THEN iffD1]) (use assms in simp_all)
  then show ?thesis unfolding block_size_def unat_align by simp
qed

text \<open>In a list that ends with \<^verbatim>\<open>ram_end\<close> all blocks are below it, and so are the ends of the blocks.\<close>

lemma chain_le: "successively (link h) cs \<Longrightarrow> x \<in> set cs \<Longrightarrow> x \<le> last cs"
  using link_increasing [of h cs] by (cases cs rule: rev_cases) (auto simp: sorted_wrt_append)

lemma chain_next:
  assumes "successively (link h) cs" and "x \<in> set cs" and "x \<noteq> last cs"
  shows "nxt h x \<in> set cs"
proof -
  obtain xs ys where cs: "cs = xs @ x # ys" using assms(2) by (auto simp: in_set_conv_decomp)
  then obtain d zs where "ys = d # zs" using assms(3) by (cases ys) auto
  then have "link h x d" "d \<in> set cs" using assms(1) cs by (simp_all add: link_pieces [of _ xs x "d # zs"])
  then show ?thesis by (simp add: link_def)
qed

lemma lfree_scan_stops:
  assumes "successively (link h) (b # ys)" and "last (b # ys) = MEM_SIZE_ALIGNED"
  shows "\<exists>p \<in> set (b # ys). lfree_scan h b = Some p \<and> (p = MEM_SIZE_ALIGNED \<or> \<not> usd h p) \<and> (\<forall>x \<in> set (b # ys). x < p \<longrightarrow> usd h x)"
  using assms
proof (induction ys arbitrary: b)
  case Nil
  then show ?case by (simp add: lfree_scan.simps)
next
  case (Cons c ys)
  have less: "b < x" if "x \<in> set (c # ys)" for x using link_increasing [OF Cons.prems(1)] that by auto
  show ?case
  proof (cases "usd h b")
    case True
    have "b \<noteq> MEM_SIZE_ALIGNED" using less [OF last_in_set [of "c # ys"]] Cons.prems(2) by simp
    then have "lfree_scan h b = lfree_scan h c"
      using Cons.prems True by (subst lfree_scan.simps) (auto simp: link_def)
    then show ?thesis using Cons.IH [of c] Cons.prems True by auto
  next
    case False
    then show ?thesis using less by (subst lfree_scan.simps) (auto dest: less_asym)
  qed
qed

definition fits :: "heap \<Rightarrow> nat \<Rightarrow> nat \<Rightarrow> bool" where
  "fits h sz x \<longleftrightarrow> x \<noteq> MEM_SIZE_ALIGNED \<and> \<not> usd h x \<and> x + SIZEOF_STRUCT_MEM + sz \<le> nxt h x"

lemma malloc_loop_finds:
  assumes "successively (link h) (b # ys)" and "last (b # ys) = MEM_SIZE_ALIGNED" and "12 \<le> sz" and "sz \<le> MEM_SIZE_ALIGNED"
  shows "(\<exists>x \<in> set (b # ys). fits h sz x \<and> malloc_loop h sz b = malloc_take h sz x) \<or>
     (\<forall>x \<in> set (b # ys). \<not> fits h sz x) \<and> malloc_loop h sz b = Some (None, h)"
  using assms(1,2)
proof (induction ys arbitrary: b)
  case Nil
  then show ?case using assms by (subst (1 2) malloc_loop.simps) (auto simp: fits_def)
next
  case (Cons c ys)
  have le: "x \<le> MEM_SIZE_ALIGNED" if "x \<in> set (b # c # ys)" for x
    using chain_le [OF Cons.prems(1) that] Cons.prems(2) by simp
  have bc: "nxt h b = c" "b + 24 \<le> c" using Cons.prems by (auto simp: link_def)
  have sub: "sub32 (nxt h b) (b + SIZEOF_STRUCT_MEM) = c - (b + SIZEOF_STRUCT_MEM)"
    using bc le [of c] by (simp add: sub32_less)
  have test: "(\<not> usd h b \<and> sz \<le> sub32 (nxt h b) (b + SIZEOF_STRUCT_MEM)) = fits h sz b"
    unfolding sub using bc le [of c] by (auto simp: fits_def)
  show ?case
  proof (cases "b < MEM_SIZE_ALIGNED - sz")
    case True
    then have step: "malloc_loop h sz b = (if fits h sz b then malloc_take h sz b else malloc_loop h sz c)"
      unfolding test [symmetric] by (subst malloc_loop.simps) (simp add: bc)
    then show ?thesis using Cons.IH [of c] Cons.prems by auto
  next
    case False
    have "\<not> fits h sz x" if x: "x \<in> set (b # c # ys)" for x
    proof (cases "x = MEM_SIZE_ALIGNED")
      case xM: False
      then have "nxt h x \<le> MEM_SIZE_ALIGNED" by (intro le chain_next [OF Cons.prems(1) x]) (use Cons.prems(2) in simp)
      moreover have "b \<le> x" using link_increasing [OF Cons.prems(1)] x by auto
      ultimately show ?thesis using False assms(4) by (auto simp: fits_def)
    qed (simp add: fits_def)
    then show ?thesis using False by (subst (2) malloc_loop.simps) simp
  qed
qed

text \<open>\<^verbatim>\<open>mem_malloc\<close> after it has found a block and before it has moved the pointer to the lowest free one.\<close>

definition taken :: "heap \<Rightarrow> nat \<Rightarrow> nat \<Rightarrow> heap" where
  "taken h sz b =
     set_mem b (m_used_update (\<lambda>_. True))
       (if sub32 (nxt h b) (b + SIZEOF_STRUCT_MEM) \<ge> sz + SIZEOF_STRUCT_MEM + MIN_SIZE_ALIGNED
        then link_new h b (b + SIZEOF_STRUCT_MEM + sz) (nxt h b) else h)"

definition takes :: "heap \<Rightarrow> nat list \<Rightarrow> nat \<Rightarrow> nat \<Rightarrow> heap \<Rightarrow> nat list \<Rightarrow> bool" where
  "takes h bs b sz h' bs' \<longleftrightarrow> blocks h' bs' \<and> tight h' (bs' @ [MEM_SIZE_ALIGNED]) \<and> set bs \<subseteq> set bs' \<and>
     (\<forall>x \<in> set bs'. x \<in> set bs \<or> b < x \<and> \<not> usd h' x) \<and> (\<forall>x \<in> set bs. usd h' x \<longleftrightarrow> x = b \<or> usd h x) \<and>
     (\<forall>x \<in> set bs - {b}. nxt h' x = nxt h x) \<and> b + SIZEOF_STRUCT_MEM + sz \<le> nxt h' b"

lemma taken_eq:
  "(if sub32 (nxt h b) (b + SIZEOF_STRUCT_MEM) \<ge> sz + SIZEOF_STRUCT_MEM + MIN_SIZE_ALIGNED
    then set_mem b (m_used_update (\<lambda>_. True)) (link_new h b (b + SIZEOF_STRUCT_MEM + sz) (nxt h b))
    else set_mem b (m_used_update (\<lambda>_. True)) h) = taken h sz b"
  by (simp add: taken_def)

lemma mark_used_hdr [simp]:
  "nxt (set_mem b (m_used_update (\<lambda>_. True)) h) x = nxt h x" "prv (set_mem b (m_used_update (\<lambda>_. True)) h) x = prv h x"
  "usd (set_mem b (m_used_update (\<lambda>_. True)) h) x \<longleftrightarrow> x = b \<or> usd h x" "lfree (set_mem b f h) = lfree h"
  by (auto simp: set_mem_def)

text \<open>A new free block at \<open>p\<close> behind a used block \<open>b\<close>, in place of the blocks \<open>cs\<close>.\<close>

lemma link_new_inv:
  assumes "blocks h (xs @ b # cs @ ys)" and "tight h (xs @ b # cs @ ys @ [MEM_SIZE_ALIGNED])" and "usd h b"
    and "hd (ys @ [MEM_SIZE_ALIGNED]) = d" and "usd h d" and "b + 24 \<le> p" and "p + 24 \<le> d" and "p mod 4 = 0"
  shows "blocks (link_new h b p d) (xs @ b # p # ys)" and "tight (link_new h b p d) ((xs @ b # p # ys) @ [MEM_SIZE_ALIGNED])"
    and "p \<notin> set (xs @ b # ys @ [MEM_SIZE_ALIGNED])"
proof -
  obtain zs where zs: "ys @ [MEM_SIZE_ALIGNED] = d # zs" using assms(4) by (cases ys) auto
  have ne: "b \<noteq> p" "p \<noteq> d" using assms by auto
  have "successively (link h) (xs @ b # cs @ ys @ [MEM_SIZE_ALIGNED])" using assms(1) by (simp add: blocks_def)
  then have ch: "successively (link h) (xs @ [b])" "successively (link h) (ys @ [MEM_SIZE_ALIGNED])"
    by (auto simp: successively_append_iff successively_Cons)
  have "hd (xs @ [b]) = 0" using assms(1) by (cases xs) (auto simp: blocks_def)
  then show "blocks (link_new h b p d) (xs @ b # p # ys)"
    by - (rule blocks_link_new [OF ch assms(4,6,7)], use assms(1,8) in \<open>auto simp: blocks_def\<close>)
  have "x \<le> b" if "x \<in> set (xs @ [b])" for x using chain_le [OF ch(1) that] by simp
  moreover have "d \<le> x" if "x \<in> set (ys @ [MEM_SIZE_ALIGNED])" for x using link_increasing [OF ch(2)] that by (auto simp: zs)
  ultimately show new: "p \<notin> set (xs @ b # ys @ [MEM_SIZE_ALIGNED])" using assms(6,7) by fastforce
  have "tight h (xs @ [b])" "tight h (ys @ [MEM_SIZE_ALIGNED])"
    using assms(2) by (auto simp: tight_def successively_append_iff successively_Cons)
  then have "tight (link_new h b p d) (xs @ [b])" "tight (link_new h b p d) (d # zs)"
    using new unfolding zs [symmetric] by (auto simp: link_new_hdr [OF ne] elim!: tight_mono)
  then have "tight (link_new h b p d) (xs @ b # p # d # zs)"
    using assms(3,5) ne by (simp add: tight_pieces [of _ xs b "p # d # zs"] link_new_hdr [OF ne])
  then show "tight (link_new h b p d) ((xs @ b # p # ys) @ [MEM_SIZE_ALIGNED])" using zs by simp
qed

lemma taken_inv:
  assumes inv: "heap_inv h bs" and b: "b \<in> set bs" and fits: "fits h sz b" and sz: "sz mod 4 = 0" "12 \<le> sz"
  obtains bs' where "takes h bs b sz (taken h sz b) bs'" and "lfree (taken h sz b) = lfree h"
proof -
  obtain xs ys where bs: "bs = xs @ b # ys" using b by (auto simp: in_set_conv_decomp)
  let ?u = "set_mem b (m_used_update (\<lambda>_. True)) h"
  define d where "d = hd (ys @ [MEM_SIZE_ALIGNED])"
  define p where "p = b + SIZEOF_STRUCT_MEM + sz"
  have bl: "blocks h (xs @ b # ys)" and t: "tight h (xs @ b # ys @ [MEM_SIZE_ALIGNED])" using inv bs by (auto simp: heap_inv_def)
  have d: "nxt h b = d" "b + 24 \<le> d" "d \<le> MEM_SIZE_ALIGNED" using blocks_next [OF bl] by (auto simp: d_def)
  have nM: "b \<noteq> MEM_SIZE_ALIGNED" using blocks_next(4) [OF bl] by simp
  have blu: "blocks ?u (xs @ b # ys)" using bl nM blocks_cong [of ?u h] by simp
  have tu: "tight ?u (xs @ b # ys @ [MEM_SIZE_ALIGNED])" using t by (auto elim!: tight_mono)
  show ?thesis
  proof (cases "sz + SIZEOF_STRUCT_MEM + MIN_SIZE_ALIGNED \<le> sub32 (nxt h b) (b + SIZEOF_STRUCT_MEM)")
    case False
    then have eq: "taken h sz b = ?u" by (simp add: taken_def)
    show ?thesis by (rule that [of bs]) (use fits bs blu tu in \<open>auto simp: eq takes_def fits_def\<close>)
  next
    case True
    have room: "b + 24 \<le> p" "p + 24 \<le> d" using True sz d by (auto simp: p_def sub32_less)
    have ne: "b \<noteq> p" "p \<noteq> d" using room by auto
    have swap: "r\<lparr>m_next := p, m_used := True\<rparr> = r\<lparr>m_used := True, m_next := p\<rparr>" for r :: mem by (cases r) simp
    have eq: "taken h sz b = link_new ?u b p d"
      using True ne d by (auto simp: swap taken_def p_def [symmetric] link_new_def set_mem_def Let_def fun_upd_twist)
    obtain zs where zs: "ys @ [MEM_SIZE_ALIGNED] = d # zs" unfolding d_def by (cases ys) auto
    have "usd ?u d" using t fits by (simp add: zs tight_pieces [of _ xs b "d # zs"] fits_def)
    moreover have "p mod 4 = 0" using sz bl by (auto simp: p_def blocks_def mod_0_imp_dvd)
    ultimately
    have new: "blocks (link_new ?u b p d) (xs @ b # p # ys)" "tight (link_new ?u b p d) ((xs @ b # p # ys) @ [MEM_SIZE_ALIGNED])"
      "p \<notin> set (xs @ b # ys @ [MEM_SIZE_ALIGNED])"
      using link_new_inv [of ?u xs b "[]" ys d p] blu tu room by (simp_all add: d_def)
    show ?thesis
      by (rule that [of "xs @ b # p # ys"]) (use bs new room in \<open>auto simp: eq takes_def link_new_hdr [OF ne] p_def [symmetric]\<close>)
  qed
qed

lemma malloc_take_inv:
  assumes inv: "heap_inv h bs" and b: "b \<in> set bs" and fits: "fits h sz b" and sz: "sz mod 4 = 0" "12 \<le> sz"
  obtains h' bs' where "malloc_take h sz b = Some (Some (b + SIZEOF_STRUCT_MEM), h')" and "takes h bs b sz h' bs'" and "heap_inv h' bs'"
proof -
  obtain bs' where tk: "takes h bs b sz (taken h sz b) bs'" and lf: "lfree (taken h sz b) = lfree h"
    by (rule taken_inv [OF assms]) blast
  let ?t = "taken h sz b"
  have bl: "blocks h bs" and low: "lowest_free h bs" and bl': "blocks ?t bs'" and in': "b \<in> set bs'"
    using inv tk b by (auto simp: heap_inv_def takes_def)
  have le: "lfree h \<le> b" using low b fits by (auto simp: lowest_free_def fits_def not_less [symmetric])
  have al: "b mod 4 = 0" "(b + SIZEOF_STRUCT_MEM) mod 4 = 0" using bl b by (auto simp: blocks_def mod_add_left_eq [symmetric])
  have "nxt h b \<in> set (bs @ [MEM_SIZE_ALIGNED])"
    by (rule chain_next [of h]) (use bl b fits in \<open>auto simp: blocks_def fits_def\<close>)
  then have end': "b + SIZEOF_STRUCT_MEM + sz \<le> MEM_SIZE_ALIGNED" using fits blocks_below [OF bl, of "nxt h b"] by (auto simp: fits_def)
  have result: "malloc_take h sz b =
    (if b = lfree h then do { p \<leftarrow> lfree_scan ?t b; if p = MEM_SIZE_ALIGNED \<or> \<not> usd ?t p then Some (Some (b + SIZEOF_STRUCT_MEM), ?t\<lparr>lfree := p\<rparr>) else None }
     else Some (Some (b + SIZEOF_STRUCT_MEM), ?t))"
    unfolding malloc_take_def taken_eq Let_def lf using al end' by (cases "b = lfree h"; cases "lfree_scan ?t b") simp_all
  have below: "usd ?t x" if "x \<in> set bs'" "x < lfree h" for x
  proof -
    have "x \<in> set bs" using tk that le by (auto simp: takes_def)
    then show ?thesis using tk low that(2) by (auto simp: takes_def lowest_free_def)
  qed
  show ?thesis
  proof (cases "b = lfree h")
    case False
    have "lowest_free ?t bs'" using low False tk below by (auto simp: lowest_free_def lf takes_def)
    then show ?thesis by - (rule that [of ?t bs'], use result False tk in \<open>auto simp: heap_inv_def takes_def\<close>)
  next
    case True
    obtain xs ys where ys: "bs' = xs @ b # ys" using in' by (auto simp: in_set_conv_decomp)
    then have "successively (link ?t) (b # ys @ [MEM_SIZE_ALIGNED])" using bl' by (auto simp: blocks_def successively_append_iff)
    from lfree_scan_stops [OF this] obtain q where q: "q \<in> set (b # ys @ [MEM_SIZE_ALIGNED])" "lfree_scan ?t b = Some q"
      "q = MEM_SIZE_ALIGNED \<or> \<not> usd ?t q" "\<forall>x \<in> set (b # ys @ [MEM_SIZE_ALIGNED]). x < q \<longrightarrow> usd ?t x" by auto
    have "\<forall>x \<in> set xs. x < lfree h" using blocks_distinct(1) [OF bl'] by (auto simp: ys True sorted_wrt_append)
    then have "lowest_free (?t\<lparr>lfree := q\<rparr>) bs'" using q below by (auto simp: lowest_free_def ys)
    moreover have "takes h bs b sz (?t\<lparr>lfree := q\<rparr>) bs'" using tk by (simp add: takes_def blocks_def link_def tight_def)
    ultimately show ?thesis
      by - (rule that [of "?t\<lparr>lfree := q\<rparr>" bs'], use result True q in \<open>auto simp: heap_inv_def takes_def\<close>)
  qed
qed

lemma mem_malloc_inv:
  assumes inv: "heap_inv h bs"
  obtains (none) "mem_malloc h n = Some (None, h)" and "n = 0 \<or> block_size n > MEM_SIZE_ALIGNED \<or> (\<forall>b \<in> set bs. \<not> fits h (block_size n) b)"
  | (some) b h' bs' where "mem_malloc h n = Some (Some (b + SIZEOF_STRUCT_MEM), h')" and "b \<in> set bs" and "\<not> usd h b"
      and "takes h bs b (block_size n) h' bs'" and "heap_inv h' bs'"
proof (cases "n = 0 \<or> block_size n > MEM_SIZE_ALIGNED")
  case True
  then show ?thesis by (intro none) (auto simp: mem_malloc_def)
next
  case False
  let ?sz = "block_size n"
  have bl: "blocks h bs" and low: "lowest_free h bs" using inv by (auto simp: heap_inv_def)
  obtain xs ys where cs: "bs @ [MEM_SIZE_ALIGNED] = xs @ lfree h # ys"
    using low unfolding lowest_free_def by (auto simp: in_set_conv_decomp)
  have ch: "successively (link h) (xs @ lfree h # ys)" using bl unfolding blocks_def cs by simp
  have ch1: "successively (link h) (lfree h # ys)" using ch by (simp add: successively_append_iff)
  have last: "last (lfree h # ys) = MEM_SIZE_ALIGNED" using arg_cong [OF cs, of last] by simp
  have call: "mem_malloc h n = malloc_loop h ?sz (lfree h)" using False by (simp add: mem_malloc_def)
  have mem: "x \<in> set bs" if "x \<in> set (lfree h # ys)" "fits h ?sz x" for x
    using that arg_cong [OF cs, of set] by (auto simp: fits_def)
  consider x where "x \<in> set (lfree h # ys)" "fits h ?sz x" "malloc_loop h ?sz (lfree h) = malloc_take h ?sz x"
    | "\<forall>x \<in> set (lfree h # ys). \<not> fits h ?sz x" "malloc_loop h ?sz (lfree h) = Some (None, h)"
    using malloc_loop_finds [OF ch1 last block_size_facts(2) [of n]] False by (auto simp: not_less)
  then show ?thesis
  proof cases
    case (1 x)
    obtain h' bs' where "malloc_take h ?sz x = Some (Some (x + SIZEOF_STRUCT_MEM), h')" "takes h bs x ?sz h' bs'" "heap_inv h' bs'"
      by (rule malloc_take_inv [OF inv mem [OF 1(1,2)] 1(2) block_size_facts [of n]]) blast
    then show ?thesis using 1 call mem [OF 1(1,2)] by - (rule some [of x h' bs'], auto simp: fits_def)
  next
    case 2
    have "\<not> fits h ?sz b" if b: "b \<in> set bs" for b
    proof (cases "b \<in> set (lfree h # ys)")
      case False
      then have "b \<in> set xs" using b arg_cong [OF cs, of set] by auto
      then have "b < lfree h" using link_increasing [OF ch] by (auto simp: sorted_wrt_append)
      then show ?thesis using low b by (auto simp: lowest_free_def fits_def)
    qed (use 2 in blast)
    then show ?thesis using 2 call by (intro none) auto
  qed
qed

section \<open>Shrinking a block\<close>

lemma blocks_order:
  assumes "blocks h (xs @ b # ys)"
  shows "x \<in> set xs \<Longrightarrow> x < b" and "x \<in> set (ys @ [MEM_SIZE_ALIGNED]) \<Longrightarrow> hd (ys @ [MEM_SIZE_ALIGNED]) \<le> x"
proof -
  have "sorted_wrt (\<lambda>b c. b + 24 \<le> c) (xs @ b # ys @ [MEM_SIZE_ALIGNED])" using assms link_increasing by (auto simp: blocks_def)
  then have s: "\<forall>x \<in> set xs. x < b" "sorted_wrt (\<lambda>b c. b + 24 \<le> c) (ys @ [MEM_SIZE_ALIGNED])" by (auto simp: sorted_wrt_append)
  show "x < b" if "x \<in> set xs" using s that by blast
  show "hd (ys @ [MEM_SIZE_ALIGNED]) \<le> x" if "x \<in> set (ys @ [MEM_SIZE_ALIGNED])" using s(2) that by (cases ys) auto
qed

lemma lowest_free_new:
  assumes bl: "blocks h (xs @ b # cs @ ys)" and low: "lowest_free h (xs @ b # cs @ ys)"
    and "usd h b" and p: "b < p" "p < hd (cs @ ys @ [MEM_SIZE_ALIGNED])" "p < d"
  shows "lowest_free ((link_new h b p d)\<lparr>lfree := if lfree h \<le> b then lfree h else p\<rparr>) (xs @ b # p # ys)"
proof -
  have ne: "b \<noteq> p" "p \<noteq> d" using p by auto
  have xs: "x < b" if "x \<in> set xs" for x by (rule blocks_order(1) [OF bl that])
  have ys: "p < x" if "x \<in> set (cs @ ys @ [MEM_SIZE_ALIGNED])" for x
    using blocks_order(2) [OF bl, of x] that p(2) by simp
  show ?thesis
  proof (cases "lfree h \<le> b")
    case True
    then have "lfree h \<in> set (xs @ [b])" "lfree h \<noteq> MEM_SIZE_ALIGNED" using low ys p(1) by (fastforce simp: lowest_free_def)+
    then show ?thesis using low True p(1) ys by (fastforce simp: lowest_free_def link_new_hdr [OF ne])
  next
    case False
    then have "usd h x" if "x \<in> set (xs @ [b])" for x using low that xs by (fastforce simp: lowest_free_def)
    then show ?thesis using False p(1) xs ys by (fastforce simp: lowest_free_def link_new_hdr [OF ne])
  qed
qed

lemma shrink_inv:
  assumes inv: "heap_inv h (xs @ b # cs @ ys)" and "usd h b" and "\<forall>c \<in> set cs. \<not> usd h c"
    and d: "hd (ys @ [MEM_SIZE_ALIGNED]) = d" "usd h d" and p: "b + 24 \<le> p" "p + 24 \<le> d" "p mod 4 = 0" "p < hd (cs @ ys @ [MEM_SIZE_ALIGNED])"
    and h': "h' = (link_new h b p d)\<lparr>lfree := if lfree h \<le> b then lfree h else p\<rparr>"
  shows "heap_inv h' (xs @ b # p # ys)" and "{x \<in> set (xs @ b # p # ys). usd h' x} = {x \<in> set (xs @ b # cs @ ys). usd h x}"
    and "\<And>x. x \<in> set (xs @ b # cs @ ys) \<Longrightarrow> usd h x \<Longrightarrow> x \<noteq> b \<Longrightarrow> nxt h' x = nxt h x" and "nxt h' b = p"
proof -
  have bl: "blocks h (xs @ b # cs @ ys)" and t: "tight h (xs @ b # cs @ ys @ [MEM_SIZE_ALIGNED])" and low: "lowest_free h (xs @ b # cs @ ys)"
    using inv by (auto simp: heap_inv_def)
  have ne: "b \<noteq> p" "p \<noteq> d" using p by auto
  note new = link_new_inv [OF bl t assms(2) d p(1,2,3)]
  have "lowest_free h' (xs @ b # p # ys)" unfolding h' by (rule lowest_free_new [OF bl low assms(2)]) (use p in auto)
  then show "heap_inv h' (xs @ b # p # ys)" using new by (simp add: heap_inv_def h' blocks_def link_def tight_def)
  show "{x \<in> set (xs @ b # p # ys). usd h' x} = {x \<in> set (xs @ b # cs @ ys). usd h x}"
    using assms(3) new(3) by (auto simp: h' link_new_hdr [OF ne])
  show "nxt h' x = nxt h x" if "x \<in> set (xs @ b # cs @ ys)" "usd h x" "x \<noteq> b" for x
    using that new(3) assms(3) by (auto simp: h' link_new_hdr [OF ne])
  show "nxt h' b = p" by (simp add: h' link_new_hdr [OF ne])
qed

lemma link_new_lfree: "link_new (h\<lparr>lfree := l\<rparr>) b p d = (link_new h b p d)\<lparr>lfree := l\<rparr>"
  by (simp add: link_new_def set_mem_def Let_def)

lemma lfree_of_if: "(if c then h\<lparr>lfree := l\<rparr> else h) = h\<lparr>lfree := if c then l else lfree h\<rparr>"
  by simp

definition shrinks :: "heap \<Rightarrow> nat list \<Rightarrow> nat \<Rightarrow> nat \<Rightarrow> heap \<Rightarrow> nat list \<Rightarrow> bool" where
  "shrinks h bs b sz h' bs' \<longleftrightarrow> heap_inv h' bs' \<and> {x \<in> set bs'. usd h' x} = {x \<in> set bs. usd h x} \<and>
     (\<forall>x \<in> set bs. usd h x \<and> x \<noteq> b \<longrightarrow> nxt h' x = nxt h x) \<and> b + SIZEOF_STRUCT_MEM + sz \<le> nxt h' b"

lemma lfree_gap:
  assumes bl: "blocks h (xs @ b # ys)" and low: "lowest_free h (xs @ b # ys)"
  shows "lfree h \<le> b \<or> hd (ys @ [MEM_SIZE_ALIGNED]) \<le> lfree h"
proof (cases "lfree h \<in> set (ys @ [MEM_SIZE_ALIGNED])")
  case True
  then show ?thesis using blocks_order(2) [OF bl] by blast
next
  case False
  then have "lfree h \<in> set xs \<or> lfree h = b" using low by (auto simp: lowest_free_def)
  then show ?thesis using blocks_order(1) [OF bl, of "lfree h"] by auto
qed

text \<open>The next block is free, and moves down; or it is in use, and the rest becomes a block of its own.\<close>

lemma shrink_move:
  assumes inv: "heap_inv h (xs @ b # ys)" and b: "usd h b" and c: "hd (ys @ [MEM_SIZE_ALIGNED]) = c" "\<not> usd h c"
    and p: "b + SIZEOF_STRUCT_MEM + sz = p" "b + 24 \<le> p" "p < c" "p mod 4 = 0"
  obtains bs' where "shrinks h (xs @ b # ys) b sz ((link_new h b p (nxt h c))\<lparr>lfree := if lfree h = c then p else lfree h\<rparr>) bs'"
proof -
  have bl: "blocks h (xs @ b # ys)" and t: "tight h (xs @ b # ys @ [MEM_SIZE_ALIGNED])" and low: "lowest_free h (xs @ b # ys)"
    using inv by (auto simp: heap_inv_def)
  obtain zs where ys: "ys = c # zs" using bl c by (cases ys) (auto simp: blocks_def)
  obtain d ws where ws: "zs @ [MEM_SIZE_ALIGNED] = d # ws" by (cases zs) auto
  have "blocks h ((xs @ [b]) @ c # zs)" using bl ys by simp
  from blocks_next [OF this] have d: "nxt h c = d" "c + 24 \<le> d" by (auto simp: ws)
  have "usd h d" using t c(2) ys ws by (simp add: tight_pieces [of _ xs b "c # d # ws"])
  have "\<not> c < lfree h" using low c(2) ys by (auto simp: lowest_free_def)
  with lfree_gap [OF bl low] have "lfree h \<le> b \<or> lfree h = c" by (auto simp: c)
  then have eq: "(if lfree h = c then p else lfree h) = (if lfree h \<le> b then lfree h else p)" using p by auto
  have "heap_inv h (xs @ b # [c] @ zs)" "\<forall>c \<in> set [c]. \<not> usd h c" "hd (zs @ [MEM_SIZE_ALIGNED]) = d" "p + 24 \<le> d"
    "p < hd ([c] @ zs @ [MEM_SIZE_ALIGNED])" using inv ys ws c d p by auto
  note s = shrink_inv [OF this(1) b this(2,3) \<open>usd h d\<close> p(2) this(4) p(4) this(5) refl]
  show ?thesis
    by (rule that [of "xs @ b # p # zs"], unfold d(1) eq shrinks_def ys append_Cons [of c, symmetric])
      (use s p(1) in auto)
qed

lemma shrink_split:
  assumes inv: "heap_inv h (xs @ b # ys)" and b: "usd h b" and c: "hd (ys @ [MEM_SIZE_ALIGNED]) = c" "usd h c"
    and p: "b + SIZEOF_STRUCT_MEM + sz = p" "b + 24 \<le> p" "p + 24 \<le> c" "p mod 4 = 0"
  obtains bs' where "shrinks h (xs @ b # ys) b sz ((link_new h b p c)\<lparr>lfree := if p < lfree h then p else lfree h\<rparr>) bs'"
proof -
  have bl: "blocks h (xs @ b # ys)" and low: "lowest_free h (xs @ b # ys)" using inv by (auto simp: heap_inv_def)
  have eq: "(if p < lfree h then p else lfree h) = (if lfree h \<le> b then lfree h else p)" using lfree_gap [OF bl low] c p by auto
  note s = shrink_inv [where cs = "[]" and ys = ys and d = c and p = p and b = b and h = h and xs = xs, OF _ b _ c p(2,3,4) _ refl]
  show ?thesis
    by (rule that [of "xs @ b # p # ys"], unfold eq) (use s inv c p in \<open>simp add: shrinks_def\<close>)
qed

lemma mem_realloc_inv:
  assumes inv: "heap_inv h bs" and b: "b \<in> set bs" "usd h b" and fit: "b + SIZEOF_STRUCT_MEM + block_size n \<le> nxt h b"
  obtains h' bs' where "mem_realloc h (b + SIZEOF_STRUCT_MEM) n = Some (Some (b + SIZEOF_STRUCT_MEM), h')" and "shrinks h bs b (block_size n) h' bs'"
proof -
  define sz where "sz = block_size n"
  define p where "p = b + SIZEOF_STRUCT_MEM + sz"
  define c where "c = nxt h b"
  obtain xs ys where bs: "bs = xs @ b # ys" using b by (auto simp: in_set_conv_decomp)
  have bl: "blocks h (xs @ b # ys)" using inv bs by (auto simp: heap_inv_def)
  have c: "hd (ys @ [MEM_SIZE_ALIGNED]) = c" "b + 24 \<le> c" "c \<le> MEM_SIZE_ALIGNED" "b + 24 \<le> MEM_SIZE_ALIGNED"
    using blocks_next [OF bl] by (auto simp: c_def)
  have p: "b + 24 \<le> p" "p mod 4 = 0" using block_size_facts [of n] bl by (auto simp: p_def sz_def blocks_def mod_0_imp_dvd)
  have size: "sub32 (sub32 c b) SIZEOF_STRUCT_MEM = c - b - SIZEOF_STRUCT_MEM" using c by (simp add: sub32_less)
  have call: "mem_realloc h (b + SIZEOF_STRUCT_MEM) n =
    (if c = p then Some (Some (b + SIZEOF_STRUCT_MEM), h)
     else if \<not> usd h c then Some (Some (b + SIZEOF_STRUCT_MEM), (link_new h b p (nxt h c))\<lparr>lfree := if lfree h = c then p else lfree h\<rparr>)
     else if p + 24 \<le> c then Some (Some (b + SIZEOF_STRUCT_MEM), (link_new h b p c)\<lparr>lfree := if p < lfree h then p else lfree h\<rparr>)
     else Some (Some (b + SIZEOF_STRUCT_MEM), h))"
    using fit c unfolding mem_realloc_def Let_def sz_def [symmetric] add_diff_cancel_right' c_def [symmetric] size lfree_of_if link_new_lfree p_def [symmetric]
    by (auto simp: p_def)
  have same: "shrinks h bs b (block_size n) h bs" using inv fit by (simp add: shrinks_def)
  have le: "p \<le> c" using fit by (simp add: p_def sz_def c_def)
  consider "c = p \<or> usd h c \<and> \<not> p + 24 \<le> c" | "c \<noteq> p" "\<not> usd h c" | "c \<noteq> p" "usd h c" "p + 24 \<le> c" by auto
  then show ?thesis
  proof cases
    case 1
    then show ?thesis by (intro that [of h bs]) (use call same in auto)
  next
    case 2
    then show ?thesis
      by - (rule shrink_move [OF inv [unfolded bs] b(2) c(1) 2(2) p_def [symmetric] p(1) _ p(2)],
        use le call that in \<open>auto simp: bs sz_def\<close>)
  next
    case 3
    then show ?thesis
      by - (rule shrink_split [OF inv [unfolded bs] b(2) c(1) 3(2) p_def [symmetric] p(1) 3(3) p(2)],
        use le call that in \<open>auto simp: bs sz_def\<close>)
  qed
qed

section \<open>Every sequence of calls\<close>

text \<open>A client's calls: it asks for less than $2^{32} - 3$ bytes, returns and shrinks only what it holds. \<open>al\<close> records the size of what it holds.\<close>

inductive heap_run :: "heap \<Rightarrow> (nat \<rightharpoonup> u32) \<Rightarrow> bool" where
  init: "heap_run mem_init Map.empty"
| malloc: "heap_run h al \<Longrightarrow> unat n < 2 ^ 32 - 3 \<Longrightarrow> mem_malloc h n = Some (Some p, h') \<Longrightarrow> heap_run h' (al(p \<mapsto> n))"
| malloc_null: "heap_run h al \<Longrightarrow> mem_malloc h n = Some (None, h') \<Longrightarrow> heap_run h' al"
| free: "heap_run h al \<Longrightarrow> al p = Some n \<Longrightarrow> mem_free h (Some p) = Some h' \<Longrightarrow> heap_run h' (al(p := None))"
| realloc: "heap_run h al \<Longrightarrow> al p = Some m \<Longrightarrow> n \<le> m \<Longrightarrow> mem_realloc h p n = Some (Some p, h') \<Longrightarrow> heap_run h' (al(p \<mapsto> n))"

definition owned :: "heap \<Rightarrow> nat list \<Rightarrow> (nat \<rightharpoonup> u32) \<Rightarrow> bool" where
  "owned h bs al \<longleftrightarrow> heap_inv h bs \<and> dom al = (\<lambda>b. b + SIZEOF_STRUCT_MEM) ` {b \<in> set bs. usd h b} \<and>
     (\<forall>p n. al p = Some n \<longrightarrow> unat n < 2 ^ 32 - 3 \<and> p + block_size n \<le> nxt h (p - SIZEOF_STRUCT_MEM))"

lemma block_size_mono:
  assumes "n \<le> m" and "unat m < 2 ^ 32 - 3"
  shows "block_size n \<le> block_size m"
proof -
  have le: "unat n \<le> unat m" using assms(1) by (simp add: word_le_nat_alt)
  have "unat (n + 3) = unat n + 3" "unat (m + 3) = unat m + 3"
    by (subst unat_add_lem [THEN iffD1]; use assms le in simp)+
  then have "unat (n + 3) div 4 \<le> unat (m + 3) div 4" using le by (simp add: div_le_mono)
  then show ?thesis unfolding block_size_def unat_align by auto
qed

lemma owned_block:
  assumes "owned h bs al" and "al p = Some n"
  obtains b where "p = b + SIZEOF_STRUCT_MEM" and "b \<in> set bs" and "usd h b" and "unat n < 2 ^ 32 - 3" and "p + block_size n \<le> nxt h b"
proof -
  have "p \<in> dom al" using assms(2) by auto
  then obtain b where b: "p = b + SIZEOF_STRUCT_MEM" "b \<in> set bs" "usd h b" using assms(1) by (auto simp: owned_def)
  moreover have "unat n < 2 ^ 32 - 3 \<and> p + block_size n \<le> nxt h (p - SIZEOF_STRUCT_MEM)" using assms by (auto simp: owned_def)
  ultimately show ?thesis by - (rule that [of b], auto)
qed

lemma owned_init: "owned mem_init [0] Map.empty"
  by (simp add: owned_def heap_inv_def blocks_def tight_def lowest_free_def link_def mem_init_def size_bound)

lemma owned_malloc:
  assumes o: "owned h bs al" and n: "unat n < 2 ^ 32 - 3" and call: "mem_malloc h n = Some (Some p, h')"
  obtains bs' where "owned h' bs' (al(p \<mapsto> n))"
proof -
  have inv: "heap_inv h bs" using o by (simp add: owned_def)
  from inv show ?thesis
  proof (cases rule: mem_malloc_inv [where n = n])
    case none
    then show ?thesis using call by simp
  next
    case (some b h1 bs')
    then have eq: "p = b + SIZEOF_STRUCT_MEM" "h1 = h'" using call by auto
    have tk: "takes h bs b (block_size n) h' bs'" and inv': "heap_inv h' bs'" using some eq by auto
    have "{x \<in> set bs'. usd h' x} = insert b {x \<in> set bs. usd h x}"
      using tk some(2) by (auto simp: takes_def)
    then have "dom (al(p \<mapsto> n)) = (\<lambda>b. b + SIZEOF_STRUCT_MEM) ` {b \<in> set bs'. usd h' b}"
      using o eq by (simp add: owned_def)
    moreover have "unat m < 2 ^ 32 - 3 \<and> q + block_size m \<le> nxt h' (q - SIZEOF_STRUCT_MEM)" if q: "(al(p \<mapsto> n)) q = Some m" for q m
    proof (cases "q = p")
      case True
      then show ?thesis using q n tk eq by (auto simp: takes_def)
    next
      case False
      then have "al q = Some m" using q by simp
      then obtain c where "q = c + SIZEOF_STRUCT_MEM" "c \<in> set bs" "unat m < 2 ^ 32 - 3" "q + block_size m \<le> nxt h c"
        by (rule owned_block [OF o]) blast
      then show ?thesis using tk False eq by (auto simp: takes_def)
    qed
    ultimately show ?thesis by - (rule that [of bs'], use inv' in \<open>auto simp: owned_def\<close>)
  qed
qed

lemma owned_free:
  assumes o: "owned h bs al" and p: "al p = Some n" and call: "mem_free h (Some p) = Some h'"
  obtains bs' where "owned h' bs' (al(p := None))"
proof -
  have inv: "heap_inv h bs" using o by (simp add: owned_def)
  obtain b where b: "p = b + SIZEOF_STRUCT_MEM" "b \<in> set bs" "usd h b" by (rule owned_block [OF o p]) blast
  obtain h1 bs' where "mem_free h (Some p) = Some h1" and inv': "heap_inv h1 bs'" and
    us: "{x \<in> set bs'. usd h1 x} = {x \<in> set bs. usd h x} - {b}" and nx: "\<And>x. usd h1 x \<Longrightarrow> nxt h1 x = nxt h x"
    unfolding b(1) by (rule mem_free_inv [OF inv b(2,3)]) auto
  then have eq: "h1 = h'" using call by simp
  have "dom (al(p := None)) = (\<lambda>b. b + SIZEOF_STRUCT_MEM) ` {b \<in> set bs'. usd h1 b}"
    unfolding us using o b(1) by (auto simp: owned_def)
  moreover have "unat m < 2 ^ 32 - 3 \<and> q + block_size m \<le> nxt h1 (q - SIZEOF_STRUCT_MEM)" if q: "(al(p := None)) q = Some m" for q m
  proof -
    have aq: "al q = Some m" "q \<noteq> p" using q by (auto split: if_splits)
    from o aq(1) obtain c where c: "q = c + SIZEOF_STRUCT_MEM" "c \<in> set bs" "usd h c" "unat m < 2 ^ 32 - 3" "q + block_size m \<le> nxt h c"
      by (rule owned_block) blast
    then have "c \<in> {x \<in> set bs'. usd h1 x}" unfolding us using aq(2) b(1) by auto
    then show ?thesis using c nx by simp
  qed
  ultimately show ?thesis by - (rule that [of bs'], use inv' eq in \<open>auto simp: owned_def\<close>)
qed

lemma owned_realloc:
  assumes o: "owned h bs al" and p: "al p = Some m" and n: "n \<le> m" and call: "mem_realloc h p n = Some (Some p, h')"
  obtains bs' where "owned h' bs' (al(p \<mapsto> n))"
proof -
  have inv: "heap_inv h bs" using o by (simp add: owned_def)
  obtain b where b: "p = b + SIZEOF_STRUCT_MEM" "b \<in> set bs" "usd h b" "unat m < 2 ^ 32 - 3" "p + block_size m \<le> nxt h b"
    by (rule owned_block [OF o p]) blast
  have fit: "b + SIZEOF_STRUCT_MEM + block_size n \<le> nxt h b" using block_size_mono [OF n b(4)] b(1,5) by simp
  obtain h1 bs' where "mem_realloc h p n = Some (Some p, h1)" and sh: "shrinks h bs b (block_size n) h1 bs'"
    unfolding b(1) by (rule mem_realloc_inv [OF inv b(2,3) fit]) auto
  then have eq: "h1 = h'" using call by simp
  have "dom (al(p \<mapsto> n)) = (\<lambda>b. b + SIZEOF_STRUCT_MEM) ` {b \<in> set bs'. usd h1 b}"
    using o p sh by (auto simp: owned_def shrinks_def)
  moreover have "unat k < 2 ^ 32 - 3 \<and> q + block_size k \<le> nxt h1 (q - SIZEOF_STRUCT_MEM)" if q: "(al(p \<mapsto> n)) q = Some k" for q k
  proof (cases "q = p")
    case True
    then show ?thesis using q n b sh by (auto simp: shrinks_def word_le_nat_alt)
  next
    case False
    then have "al q = Some k" using q by simp
    then obtain c where "q = c + SIZEOF_STRUCT_MEM" "c \<in> set bs" "usd h c" "unat k < 2 ^ 32 - 3" "q + block_size k \<le> nxt h c"
      by (rule owned_block [OF o]) blast
    then show ?thesis using sh False b(1) by (auto simp: shrinks_def)
  qed
  ultimately show ?thesis by - (rule that [of bs'], use sh eq in \<open>auto simp: owned_def shrinks_def\<close>)
qed

lemma heap_run_owned: "heap_run h al \<Longrightarrow> \<exists>bs. owned h bs al"
proof (induction rule: heap_run.induct)
  case init
  then show ?case using owned_init by blast
next
  case (malloc h al n p h')
  then show ?case using owned_malloc by metis
next
  case (malloc_null h al n h')
  then obtain bs where o: "owned h bs al" by blast
  then have "heap_inv h bs" by (simp add: owned_def)
  then have "h' = h" by (cases rule: mem_malloc_inv [where n = n]) (use malloc_null in auto)
  then show ?case using o by blast
next
  case (free h al p n h')
  then show ?case using owned_free by metis
next
  case (realloc h al p m n h')
  then show ?case using owned_realloc by metis
qed

lemma owned_bounds:
  assumes "owned h bs al" and "al p = Some n"
  shows "p mod 4 = 0" and "SIZEOF_STRUCT_MEM \<le> p" and "p + unat n \<le> MEM_SIZE_ALIGNED"
    and "al q = Some m \<Longrightarrow> p < q \<Longrightarrow> p + unat n + SIZEOF_STRUCT_MEM \<le> q"
proof -
  obtain b where b: "p = b + SIZEOF_STRUCT_MEM" "b \<in> set bs" "unat n < 2 ^ 32 - 3" "p + block_size n \<le> nxt h b"
    by (rule owned_block [OF assms]) blast
  have bl: "blocks h bs" using assms by (simp add: owned_def heap_inv_def)
  obtain xs ys where bs: "bs = xs @ b # ys" using b(2) by (auto simp: in_set_conv_decomp)
  have nx: "p + unat n \<le> hd (ys @ [MEM_SIZE_ALIGNED])" "hd (ys @ [MEM_SIZE_ALIGNED]) \<le> MEM_SIZE_ALIGNED"
    using blocks_next [OF bl [unfolded bs]] block_size_covers [OF b(3)] b(4) by auto
  then show "p + unat n \<le> MEM_SIZE_ALIGNED" by simp
  have "b mod 4 = 0" using bl b(2) by (simp add: blocks_def)
  then show "p mod 4 = 0" "SIZEOF_STRUCT_MEM \<le> p" using b(1) by (auto simp: mod_0_imp_dvd)
  show "p + unat n + SIZEOF_STRUCT_MEM \<le> q" if q: "al q = Some m" "p < q"
  proof -
    obtain c where c: "q = c + SIZEOF_STRUCT_MEM" "c \<in> set bs" by (rule owned_block [OF assms(1) q(1)]) blast
    have "c \<notin> set xs" "c \<noteq> b" using blocks_order(1) [OF bl [unfolded bs], of c] q(2) b(1) c(1) by auto
    then have "c \<in> set (ys @ [MEM_SIZE_ALIGNED])" using c(2) bs by auto
    from blocks_order(2) [OF bl [unfolded bs] this] show ?thesis using nx(1) c(1) by simp
  qed
qed

text \<open>With nothing in use there is one block.\<close>

lemma owned_nothing:
  assumes "owned h bs Map.empty"
  shows "bs = [0]" and "fits h sz 0 \<longleftrightarrow> SIZEOF_STRUCT_MEM + sz \<le> MEM_SIZE_ALIGNED"
proof -
  have inv: "blocks h bs" "tight h (bs @ [MEM_SIZE_ALIGNED])" and free: "\<forall>b \<in> set bs. \<not> usd h b"
    using assms by (auto simp: owned_def heap_inv_def)
  obtain ys where ys: "bs = 0 # ys" using inv(1) by (cases bs) (auto simp: blocks_def)
  then show bs: "bs = [0]" using inv(2) free by (cases ys) auto
  show "fits h sz 0 \<longleftrightarrow> SIZEOF_STRUCT_MEM + sz \<le> MEM_SIZE_ALIGNED"
    using inv(1) free by (auto simp: fits_def blocks_def link_def bs)
qed

lemma block_size_fits:
  assumes "unat n \<le> MEM_SIZE_ALIGNED - SIZEOF_STRUCT_MEM"
  shows "SIZEOF_STRUCT_MEM + block_size n \<le> MEM_SIZE_ALIGNED"
proof -
  have "unat (n + 3) = unat n + 3" by (subst unat_add_lem [THEN iffD1]) (use assms in \<open>simp_all add: size_bound\<close>)
  then show ?thesis unfolding block_size_def unat_align using assms by (simp add: size_bound)
qed

text \<open>What happens to requests of almost $2^{32}$ bytes: rounding them up wraps, and the client gets the smallest block.\<close>

lemma block_size_wraps:
  assumes "2 ^ 32 - 3 \<le> unat n"
  shows "block_size n = MIN_SIZE_ALIGNED"
proof -
  have "unat n < 4294967296" using unsigned_less [of n] by simp
  then have "unat n = unat (0xFFFFFFFD :: u32) \<or> unat n = unat (0xFFFFFFFE :: u32) \<or> unat n = unat (0xFFFFFFFF :: u32)" using assms by auto
  then have "n = 0xFFFFFFFD \<or> n = 0xFFFFFFFE \<or> n = 0xFFFFFFFF" unfolding word_unat_eq_iff .
  then show ?thesis unfolding block_size_def LWIP_MEM_ALIGN_SIZE_def by (elim disjE) simp_all
qed

text \<open>A heap with one and with two allocations.\<close>

definition heap1 :: heap where
  "heap1 = \<lparr>hdr = (hdr mem_init)(0 := \<lparr>m_next = 112, m_prev = 0, m_used = True\<rparr>, 112 := \<lparr>m_next = MEM_SIZE_ALIGNED, m_prev = 0, m_used = False\<rparr>), lfree = 112\<rparr>"

definition heap2 :: heap where
  "heap2 = \<lparr>hdr = (hdr heap1)(112 := \<lparr>m_next = 144, m_prev = 0, m_used = True\<rparr>, 144 := \<lparr>m_next = MEM_SIZE_ALIGNED, m_prev = 112, m_used = False\<rparr>), lfree = 144\<rparr>"

lemmas heap_eval = block_size_def LWIP_MEM_ALIGN_SIZE_def size_bound sub32_def mem_malloc_def malloc_take_def link_new_def set_mem_def Let_def

lemma heap1_eval: "mem_malloc mem_init 100 = Some (Some 12, heap1)"
  by (simp add: heap_eval malloc_loop.simps lfree_scan.simps mem_init_def heap1_def fun_eq_iff)

lemma heap2_eval: "mem_malloc heap1 20 = Some (Some 124, heap2)"
  by (simp add: heap_eval malloc_loop.simps lfree_scan.simps heap1_def mem_init_def heap2_def fun_eq_iff)

text \<open>C37. Whatever sequence of allocations, shrinkings and releases a client of the heap runs, each pointer it holds is aligned to four bytes, the bytes it asked for lie
  behind it within the heap, and they end, with room for a header, before the next pointer it holds: no two allocations overlap each other or a header between them.\<close>

theorem heap_no_overlap:
  assumes "heap_run h al" and "al p = Some n"
  shows "p mod 4 = 0 \<and> SIZEOF_STRUCT_MEM \<le> p \<and> p + unat n \<le> MEM_SIZE_ALIGNED \<and>
    (\<forall>q m. al q = Some m \<and> p < q \<longrightarrow> p + unat n + SIZEOF_STRUCT_MEM \<le> q)"
proof -
  obtain bs where "owned h bs al" using heap_run_owned [OF assms(1)] by blast
  from owned_bounds [OF this assms(2)] show ?thesis by blast
qed

theorem heap_no_overlap_witness:
  "heap_run heap2 [12 \<mapsto> 100, 124 \<mapsto> 20] \<and> 12 + unat (100 :: u32) + SIZEOF_STRUCT_MEM \<le> 124"
proof -
  have "heap_run heap1 [12 \<mapsto> 100]" by (rule heap_run.malloc [OF heap_run.init _ heap1_eval]) simp
  from heap_run.malloc [OF this _ heap2_eval] have run: "heap_run heap2 [12 \<mapsto> 100, 124 \<mapsto> 20]" by simp
  from heap_no_overlap [OF this, of 12 100] have "12 + unat (100 :: u32) + SIZEOF_STRUCT_MEM \<le> 124" by auto
  with run show ?thesis by blast
qed

text \<open>C38. On every heap that a sequence of calls leads to, no assertion of the allocator fails and none of its loops runs forever: \<^verbatim>\<open>mem_malloc\<close> answers every request,
  \<^verbatim>\<open>mem_free\<close> accepts every pointer the client holds, and \<^verbatim>\<open>mem_realloc\<close> shrinks it to every smaller size. When the client holds nothing, the holes have all been
  merged, and a request for anything up to the whole heap less one header succeeds.\<close>

theorem heap_calls_succeed:
  assumes "heap_run h al"
  shows "(\<exists>r h'. mem_malloc h n = Some (r, h')) \<and>
    (\<forall>p m. al p = Some m \<longrightarrow> (\<exists>h'. mem_free h (Some p) = Some h') \<and> (\<forall>k \<le> m. \<exists>h'. mem_realloc h p k = Some (Some p, h'))) \<and>
    (al = Map.empty \<and> n \<noteq> 0 \<and> unat n \<le> MEM_SIZE_ALIGNED - SIZEOF_STRUCT_MEM \<longrightarrow> (\<exists>p h'. mem_malloc h n = Some (Some p, h')))"
proof (intro conjI allI impI)
  obtain bs where o: "owned h bs al" using heap_run_owned [OF assms(1)] by blast
  then have inv: "heap_inv h bs" by (simp add: owned_def)
  show "\<exists>r h'. mem_malloc h n = Some (r, h')" using inv by (cases rule: mem_malloc_inv [where n = n]) auto
  fix p m
  assume p: "al p = Some m"
  obtain b where b: "p = b + SIZEOF_STRUCT_MEM" "b \<in> set bs" "usd h b" "unat m < 2 ^ 32 - 3" "p + block_size m \<le> nxt h b"
    by (rule owned_block [OF o p]) blast
  show "\<exists>h'. mem_free h (Some p) = Some h'" unfolding b(1) by (rule mem_free_inv [OF inv b(2,3)]) auto
  fix k :: u32
  assume "k \<le> m"
  then have "b + SIZEOF_STRUCT_MEM + block_size k \<le> nxt h b" using block_size_mono [OF _ b(4)] b(1,5) by fastforce
  then show "\<exists>h'. mem_realloc h p k = Some (Some p, h')" unfolding b(1) by (rule mem_realloc_inv [OF inv b(2,3)]) auto
next
  assume n: "al = Map.empty \<and> n \<noteq> 0 \<and> unat n \<le> MEM_SIZE_ALIGNED - SIZEOF_STRUCT_MEM"
  obtain bs where o: "owned h bs Map.empty" using heap_run_owned [OF assms(1)] n by blast
  then have inv: "heap_inv h bs" by (simp add: owned_def)
  from inv show "\<exists>p h'. mem_malloc h n = Some (Some p, h')"
    by (cases rule: mem_malloc_inv [where n = n]) (use n block_size_fits [of n] owned_nothing [OF o] in auto)
qed

theorem heap_calls_succeed_witness:
  "heap_run mem_init Map.empty \<and> (\<exists>p h'. mem_malloc mem_init 2000000 = Some (Some p, h'))"
  using heap_calls_succeed [OF heap_run.init, of 2000000] heap_run.init by (simp add: size_bound)

end
