(* ===== verification/Inet.thy ===== *)
theory Inet
  imports Prelude
begin

text \<open>
  Checksums and addresses of the TCP/IP stack: \<^verbatim>\<open>net/lwip/core/ipv4/inet_chksum.c\<close>, in the version of the algorithm that is compiled, and
  \<^verbatim>\<open>net/lwip/core/ipv4/inet.c\<close>. A buffer is the list of its bytes, a chain of packet buffers the list of their buffers, and a string the list of its
  characters before the terminating zero.

  The checksum is arithmetic modulo $2^{16} - 1$ in disguise: \<open>ones\<close> is the reference definition. Shown are that a packet with its checksum filled in verifies and that
  no single changed byte goes unnoticed, that the checksum of a chain does not depend on how the bytes are divided, and that addresses are read back as
  they are printed.
\<close>

unbundle bit_operations_syntax

section \<open>Byte order\<close>

definition htons :: "u16 \<Rightarrow> u16" where
  "htons n = push_bit 8 (n AND 0xff) OR drop_bit 8 (n AND 0xff00)"

definition ntohs :: "u16 \<Rightarrow> u16" where
  "ntohs n = htons n"

definition htonl :: "u32 \<Rightarrow> u32" where
  "htonl n = push_bit 24 (n AND 0xff) OR push_bit 8 (n AND 0xff00) OR drop_bit 8 (n AND 0xff0000) OR drop_bit 24 (n AND 0xff000000)"

definition ntohl :: "u32 \<Rightarrow> u32" where
  "ntohl n = htonl n"

section \<open>Checksums\<close>

definition SWAP_BYTES_IN_WORD :: "u32 \<Rightarrow> u32" where
  "SWAP_BYTES_IN_WORD w = push_bit 8 (w AND 0xff) OR drop_bit 8 (w AND 0xff00)"

definition FOLD_U32T :: "u32 \<Rightarrow> u32" where
  "FOLD_U32T u = drop_bit 16 u + (u AND 0x0000ffff)"

fun chksum_loop :: "u8 list \<Rightarrow> u32 \<Rightarrow> u32" where
  "chksum_loop (a # b # data) acc =
     (let src = push_bit 8 (ucast a :: u16); src = src OR ucast b in chksum_loop data (acc + ucast src))"
| "chksum_loop [a] acc = (let src = push_bit 8 (ucast a :: u16) in acc + ucast src)"
| "chksum_loop [] acc = acc"

definition lwip_standard_chksum :: "u8 list \<Rightarrow> u16" where
  "lwip_standard_chksum data =
     (let acc = chksum_loop data 0;
          acc = drop_bit 16 acc + (acc AND 0x0000ffff);
          acc = (if acc AND 0xffff0000 \<noteq> 0 then drop_bit 16 acc + (acc AND 0x0000ffff) else acc)
      in htons (ucast acc))"

definition inet_chksum :: "u8 list \<Rightarrow> u16" where
  "inet_chksum data = NOT (lwip_standard_chksum data)"

text \<open>The loop over a chain, with the accumulator and the flag \<^verbatim>\<open>swapped\<close>.\<close>

fun chain_loop :: "u8 list list \<Rightarrow> u32 \<Rightarrow> bool \<Rightarrow> u32 \<times> bool" where
  "chain_loop [] acc swapped = (acc, swapped)"
| "chain_loop (q # qs) acc swapped =
     (let acc = acc + ucast (lwip_standard_chksum q); acc = FOLD_U32T acc
      in if length q mod 2 \<noteq> 0 then chain_loop qs (SWAP_BYTES_IN_WORD acc) (\<not> swapped) else chain_loop qs acc swapped)"

definition inet_chksum_pbuf :: "u8 list list \<Rightarrow> u16" where
  "inet_chksum_pbuf p =
     (let (acc, swapped) = chain_loop p 0 False;
          acc = (if swapped then SWAP_BYTES_IN_WORD acc else acc)
      in ucast (NOT (acc AND 0xffff)))"

text \<open>The part after the loop of the two functions with a pseudo header.\<close>

definition pseudo_sum :: "u32 \<Rightarrow> bool \<Rightarrow> u32 \<Rightarrow> u32 \<Rightarrow> u8 \<Rightarrow> u16 \<Rightarrow> u16" where
  "pseudo_sum acc swapped src dest proto proto_len =
     (let acc = (if swapped then SWAP_BYTES_IN_WORD acc else acc);
          acc = acc + (src AND 0xffff);
          acc = acc + (drop_bit 16 src AND 0xffff);
          acc = acc + (dest AND 0xffff);
          acc = acc + (drop_bit 16 dest AND 0xffff);
          acc = acc + ucast (htons (ucast proto));
          acc = acc + ucast (htons proto_len);
          acc = FOLD_U32T acc;
          acc = FOLD_U32T acc
      in ucast (NOT (acc AND 0xffff)))"

definition inet_chksum_pseudo :: "u8 list list \<Rightarrow> u32 \<Rightarrow> u32 \<Rightarrow> u8 \<Rightarrow> u16 \<Rightarrow> u16" where
  "inet_chksum_pseudo p src dest proto proto_len = (let (acc, swapped) = chain_loop p 0 False in pseudo_sum acc swapped src dest proto proto_len)"

text \<open>The loop of the partial version looks at the first \<open>n\<close> bytes; it swaps if the length of the buffer is odd, and fails an assertion if \<open>n\<close> stays large.\<close>

fun partial_loop :: "u8 list list \<Rightarrow> nat \<Rightarrow> u32 \<Rightarrow> bool \<Rightarrow> (u32 \<times> bool) option" where
  "partial_loop [] n acc swapped = Some (acc, swapped)"
| "partial_loop (q # qs) n acc swapped =
     (if n = 0 then Some (acc, swapped)
      else let chklen = min (length q) n;
               acc = acc + ucast (lwip_standard_chksum (take chklen q));
               n = n - chklen
           in if \<not> n < 0x7fff then None
              else let acc = FOLD_U32T acc
                   in if length q mod 2 \<noteq> 0 then partial_loop qs n (SWAP_BYTES_IN_WORD acc) (\<not> swapped) else partial_loop qs n acc swapped)"

definition inet_chksum_pseudo_partial :: "u8 list list \<Rightarrow> u32 \<Rightarrow> u32 \<Rightarrow> u8 \<Rightarrow> u16 \<Rightarrow> u16 \<Rightarrow> u16 option" where
  "inet_chksum_pseudo_partial p src dest proto proto_len chksum_len =
     map_option (\<lambda>(acc, swapped). pseudo_sum acc swapped src dest proto proto_len) (partial_loop p (unat chksum_len) 0 False)"

section \<open>Addresses as strings\<close>

definition isprint :: "u8 \<Rightarrow> bool" where "isprint c \<longleftrightarrow> 0x20 \<le> c \<and> c \<le> 0x7f"
definition isdigit :: "u8 \<Rightarrow> bool" where "isdigit c \<longleftrightarrow> 48 \<le> c \<and> c \<le> 57"
definition isxdigit :: "u8 \<Rightarrow> bool" where "isxdigit c \<longleftrightarrow> isdigit c \<or> 97 \<le> c \<and> c \<le> 102 \<or> 65 \<le> c \<and> c \<le> 70"
definition islower :: "u8 \<Rightarrow> bool" where "islower c \<longleftrightarrow> 97 \<le> c \<and> c \<le> 122"
definition isspace :: "u8 \<Rightarrow> bool" where "isspace c \<longleftrightarrow> c = 32 \<or> c = 12 \<or> c = 10 \<or> c = 13 \<or> c = 9 \<or> c = 11"

text \<open>The character \<^verbatim>\<open>*cp\<close>, zero at the end of the string.\<close>

definition peek :: "u8 list \<Rightarrow> u8" where
  "peek cp = (case cp of [] \<Rightarrow> 0 | c # _ \<Rightarrow> c)"

fun number_loop :: "u32 \<Rightarrow> u32 \<Rightarrow> u8 list \<Rightarrow> u32 \<times> u8 list" where
  "number_loop bs v [] = (v, [])"
| "number_loop bs v (c # cp) =
     (if isdigit c then number_loop bs (v * bs + ucast (c - 48)) cp
      else if bs = 16 \<and> isxdigit c then number_loop bs (push_bit 4 v OR ucast (c + 10 - (if islower c then 97 else 65))) cp
      else (v, c # cp))"

definition get_number :: "u8 list \<Rightarrow> u32 \<times> u8 list" where
  "get_number cp =
     (if peek cp = 48
      then let cp = tl cp in if peek cp = 120 \<or> peek cp = 88 then number_loop 16 0 (tl cp) else number_loop 8 0 cp
      else number_loop 10 0 cp)"

function aton_parts :: "u32 list \<Rightarrow> u8 list \<Rightarrow> (u32 list \<times> u32 \<times> u8 list) option" where
  "aton_parts parts cp =
     (if \<not> isdigit (peek cp) then None
      else let (v, cp) = get_number cp in
        if peek cp = 46
        then if length parts \<ge> 3 then None else aton_parts (parts @ [v]) (tl cp)
        else Some (parts, v, cp))"
  by pat_completeness auto
termination by (relation "measure (\<lambda>(parts, cp). 4 - length parts)") auto

definition inet_aton :: "u8 list \<Rightarrow> u32 option" where
  "inet_aton cp =
     do { (parts, v, cp) \<leftarrow> aton_parts [] cp;
          let c = peek cp;
          if c \<noteq> 0 \<and> (\<not> isprint c \<or> \<not> isspace c) then None
          else (case parts of
              [] \<Rightarrow> Some (htonl v)
            | [p0] \<Rightarrow> if v > 0xffffff then None else Some (htonl (v OR push_bit 24 p0))
            | [p0, p1] \<Rightarrow> if v > 0xffff then None else Some (htonl (v OR (push_bit 24 p0 OR push_bit 16 p1)))
            | p0 # p1 # p2 # _ \<Rightarrow> if v > 0xff then None else Some (htonl (v OR (push_bit 24 p0 OR push_bit 16 p1 OR push_bit 8 p2)))) }"

definition inet_addr :: "u8 list \<Rightarrow> u32" where
  "inet_addr cp = (case inet_aton cp of Some v \<Rightarrow> v | None \<Rightarrow> 0xffffffff)"

text \<open>The bytes of a number as it lies in memory.\<close>

definition le_bytes :: "u32 \<Rightarrow> u8 list" where
  "le_bytes w = [ucast w, ucast (drop_bit 8 w), ucast (drop_bit 16 w), ucast (drop_bit 24 w)]"

text \<open>The digits in \<^verbatim>\<open>inv\<close>, last digit first.\<close>

function inv_loop :: "u8 \<Rightarrow> u8 list \<Rightarrow> u8 list" where
  "inv_loop x ds = (let ds = ds @ [48 + x mod 10]; x = x div 10 in if x \<noteq> 0 then inv_loop x ds else ds)"
  by pat_completeness auto
termination
proof (relation "measure (\<lambda>(x, ds). unat x)")
  fix x :: u8 and ds y z
  assume "z = x div 10" and "z \<noteq> 0"
  then have "0 < unat x div 10" by (simp add: unat_gt_0 [symmetric] unat_div)
  then have "unat x div 10 < unat x" by (intro div_less_dividend) auto
  then show "((z, y), (x, ds)) \<in> measure (\<lambda>(x, ds). unat x)" using \<open>z = x div 10\<close> by (simp add: unat_div)
qed simp

definition inet_ntoa :: "u32 \<Rightarrow> u8 list" where
  "inet_ntoa addr = butlast (concat (map (\<lambda>x. rev (inv_loop x []) @ [46]) (le_bytes addr)))"

section \<open>Arithmetic modulo 65535\<close>

definition ones :: "nat \<Rightarrow> nat" where
  "ones n = (if n = 0 then 0 else (n - 1) mod 65535 + 1)"

definition eqv :: "nat \<Rightarrow> nat \<Rightarrow> bool" where
  "eqv a b \<longleftrightarrow> a mod 65535 = b mod 65535 \<and> (a = 0 \<longleftrightarrow> b = 0)"

lemma ones_bounds: "ones n \<le> 65535" "ones n = 0 \<longleftrightarrow> n = 0"
  by (auto simp: ones_def)

lemma ones_mod: "ones n mod 65535 = n mod 65535"
  by (auto simp: ones_def mod_Suc_eq)

lemma ones_eqv: "eqv (ones n) n"
  by (simp add: eqv_def ones_mod ones_bounds)

lemma ones_unique:
  assumes "eqv a n" and "a \<le> 65535"
  shows "ones n = a"
proof (cases "n = 0")
  case False
  then have a: "0 < a" "a mod 65535 = ones n mod 65535" "0 < ones n" using assms ones_bounds(2) [of n] by (auto simp: eqv_def ones_mod)
  have small: "x mod 65535 = (if x = 65535 then 0 else x)" if "x \<le> 65535" for x :: nat using that by auto
  show ?thesis using a small [OF assms(2)] small [OF ones_bounds(1) [of n]] by (auto split: if_splits)
qed (use assms in \<open>simp add: eqv_def ones_def\<close>)

lemma ones_cong: "eqv a b \<Longrightarrow> ones a = ones b"
  by (rule ones_unique [symmetric]) (use ones_eqv [of a] ones_bounds in \<open>auto simp: eqv_def\<close>)

lemma eqv_add: "eqv a b \<Longrightarrow> eqv c d \<Longrightarrow> eqv (a + c) (b + d)"
  by (auto simp: eqv_def intro: mod_add_cong)

lemma eqv_mult: "eqv a b \<Longrightarrow> eqv (k * a) (k * b)"
  by (auto simp: eqv_def intro: mod_mult_cong)

lemma eqv_trans: "eqv a b \<Longrightarrow> eqv b c \<Longrightarrow> eqv a c" and eqv_sym: "eqv a b \<Longrightarrow> eqv b a" and eqv_refl [simp]: "eqv a a"
  by (auto simp: eqv_def)

lemma eqv_square: "eqv (256 * (256 * a)) a"
proof -
  have "(256 * (256 * a)) mod 65535 = (a + 65535 * a) mod 65535" by simp
  then show ?thesis unfolding mod_mult_self2 by (simp add: eqv_def)
qed

lemma ones_small [simp]: "n \<le> 65535 \<Longrightarrow> ones n = n"
  by (rule ones_unique) simp_all

text \<open>Folding once keeps the residue, and is enough for small sums.\<close>

definition fold1 :: "nat \<Rightarrow> nat" where
  "fold1 n = n div 65536 + n mod 65536"

lemma fold1_eqv: "eqv (fold1 n) n"
proof -
  have "n = fold1 n + 65535 * (n div 65536)" using mult_div_mod_eq [of 65536 n] unfolding fold1_def by linarith
  then have "n mod 65535 = fold1 n mod 65535" by (metis mod_mult_self2)
  moreover have "fold1 n = 0 \<longleftrightarrow> n = 0" by (auto simp: fold1_def)
  ultimately show ?thesis by (simp add: eqv_def)
qed

lemma fold1_once: "n \<le> 131070 \<Longrightarrow> fold1 n = ones n"
  by (rule ones_unique [symmetric, OF fold1_eqv]) (cases "n < 65536"; auto simp: fold1_def modulo_nat_def div_nat_eqI)

lemma fold1_twice:
  assumes "n < 2 ^ 32"
  shows "fold1 n \<le> 131070" and "fold1 (fold1 n) = ones n"
proof -
  have "n div 65536 < 65536" using assms by (simp add: less_mult_imp_div_less)
  moreover have "n mod 65536 < 65536" by simp
  ultimately show "fold1 n \<le> 131070" unfolding fold1_def by linarith
  then show "fold1 (fold1 n) = ones n" by (simp add: fold1_once ones_cong [OF fold1_eqv])
qed

lemma fold1_idle: "n < 65536 \<Longrightarrow> fold1 n = n"
  by (simp add: fold1_def)

section \<open>Sums of bytes\<close>

text \<open>The value of a buffer: a byte has weight 256 at even and 1 at odd positions, up to the residue.\<close>

fun val :: "u8 list \<Rightarrow> nat" where
  "val [] = 0"
| "val (b # bs) = 256 * unat b + 256 * val bs"

fun words :: "u8 list \<Rightarrow> nat" where
  "words (a # b # bs) = 256 * unat a + unat b + words bs"
| "words [a] = 256 * unat a"
| "words [] = 0"

lemma words_val: "eqv (words bs) (val bs)"
proof (induction bs rule: words.induct)
  case (1 a b bs)
  have "eqv (256 * unat a + unat b + words bs) (256 * unat a + 256 * (256 * unat b) + 256 * (256 * val bs))"
    by (intro eqv_add eqv_refl eqv_sym [OF eqv_square]) (rule eqv_trans [OF 1 eqv_sym [OF eqv_square]])
  then show ?case by (simp add: distrib_left add.assoc)
qed simp_all

lemma byte_bound: "unat (b :: u8) \<le> 255"
proof -
  have "unat b < 2 ^ LENGTH(8)" by (rule unsigned_less)
  then show ?thesis by simp
qed

lemma words_bound: "words bs \<le> 65535 * ((length bs + 1) div 2)"
proof (induction bs rule: words.induct)
  case (1 a b bs)
  then show ?case using byte_bound [of a] byte_bound [of b] by simp
next
  case (2 a)
  then show ?case using byte_bound [of a] by simp
qed simp

lemma val_append: "val (xs @ ys) = val xs + 256 ^ length xs * val ys"
  by (induction xs) (simp_all add: algebra_simps)

lemma byte_pair:
  "unat (push_bit 8 (ucast a) :: u16) = 256 * unat a" "unat (push_bit 8 (ucast a) OR ucast b :: u16) = 256 * unat a + unat b" for a b :: u8
proof -
  show hi: "unat (push_bit 8 (ucast a) :: u16) = 256 * unat a"
    unfolding unsigned_push_bit_eq unsigned_ucast_eq using byte_bound [of a]
    by (simp add: take_bit_nat_eq_self push_bit_nat_def)
  have "(push_bit 8 (ucast a) :: u16) AND ucast b = 0"
    by (rule bit_word_eqI) (auto simp: bit_simps dest: bit_imp_le_length)
  then have "push_bit 8 (ucast a) OR ucast b = push_bit 8 (ucast a) + (ucast b :: u16)"
    using word_plus_and_or [of "push_bit 8 (ucast a) :: u16" "ucast b"] by simp
  moreover have "unat (push_bit 8 (ucast a) + ucast b :: u16) = 256 * unat a + unat b"
    by (subst unat_add_lem [THEN iffD1]) (use hi byte_bound [of a] byte_bound [of b] in \<open>simp_all add: unsigned_ucast_eq take_bit_nat_eq_self\<close>)
  ultimately show "unat (push_bit 8 (ucast a) OR ucast b :: u16) = 256 * unat a + unat b" by simp
qed

lemma unat_ucast16: "unat (ucast (x :: u16) :: u32) = unat x"
  by (simp add: unsigned_ucast_eq take_bit_nat_eq_self order.strict_trans [OF unsigned_less])

lemma chksum_loop_words:
  assumes "unat acc + words bs < 2 ^ 32"
  shows "unat (chksum_loop bs acc) = unat acc + words bs"
  using assms
proof (induction bs acc rule: chksum_loop.induct)
  case (1 a b bs acc)
  have "unat (acc + ucast (push_bit 8 (ucast a) OR ucast b :: u16)) = unat acc + (256 * unat a + unat b)"
    by (subst unat_add_lem [THEN iffD1]) (use 1(2) in \<open>simp_all add: unat_ucast16 byte_pair\<close>)
  then show ?case using 1 by (simp add: Let_def)
next
  case (2 a acc)
  have "unat (acc + ucast (push_bit 8 (ucast a) :: u16)) = unat acc + 256 * unat a"
    by (subst unat_add_lem [THEN iffD1]) (use 2 in \<open>simp_all add: unat_ucast16 byte_pair\<close>)
  then show ?case by (simp add: Let_def)
qed simp

lemma unat_fold: "unat (drop_bit 16 u + (u AND 0xffff)) = fold1 (unat u)" for u :: u32
proof -
  have parts: "unat (drop_bit 16 u) = unat u div 65536" "unat (u AND 0xffff) = unat u mod 65536"
  proof -
    show "unat (drop_bit 16 u) = unat u div 65536" by (simp add: drop_bit_eq_div unat_div)
    have "u AND 0xffff = take_bit 16 u" by (simp add: take_bit_eq_mask mask_eq_exp_minus_1)
    then show "unat (u AND 0xffff) = unat u mod 65536" using unsigned_take_bit_eq [of 16 u, where 'a = nat] by (simp add: take_bit_eq_mod)
  qed
  have "fold1 (unat u) \<le> 131070" by (rule fold1_twice(1)) (use unsigned_less [of u] in simp)
  then show ?thesis unfolding fold1_def by (subst unat_add_lem [THEN iffD1]) (simp_all add: parts)
qed

lemma unat_FOLD: "unat (FOLD_U32T u) = fold1 (unat u)"
  unfolding FOLD_U32T_def by (rule unat_fold)

text \<open>Swapping the two bytes multiplies by 256.\<close>

definition swap16 :: "nat \<Rightarrow> nat" where
  "swap16 n = 256 * (n mod 256) + n div 256"

lemma swap16_ones:
  assumes "n \<le> 65535"
  shows "swap16 n = ones (256 * n)"
proof (rule ones_unique [symmetric])
  have n: "n = 256 * (n div 256) + n mod 256" by simp
  have "eqv (256 * (n mod 256) + n div 256) (256 * (n mod 256) + 256 * (256 * (n div 256)))"
    by (intro eqv_add eqv_refl eqv_sym [OF eqv_square])
  moreover have "256 * (n mod 256) + 256 * (256 * (n div 256)) = 256 * n" using n by linarith
  ultimately show "eqv (swap16 n) (256 * n)" by (simp add: swap16_def)
  have "n div 256 \<le> 255" "n mod 256 \<le> 255" using assms by (auto simp: less_Suc_eq_le [symmetric] less_mult_imp_div_less)
  then show "swap16 n \<le> 65535" unfolding swap16_def by linarith
qed

lemma byte_masks: "(0xff :: 'a :: len word) = mask 8" "(0xff00 :: 'a word) = push_bit 8 (mask 8)"
  by (simp_all add: mask_eq_exp_minus_1 push_bit_eq_mult)

lemma unat_byte_of: "unat (ucast n :: u8) = unat n mod 256" for n :: "'a :: len word"
  by (simp add: unsigned_ucast_eq take_bit_eq_mod)

lemma unat_htons: "unat (htons n) = swap16 (unat n)"
proof -
  have "htons n = push_bit 8 (ucast (ucast n :: u8)) OR ucast (ucast (drop_bit 8 n) :: u8)"
    unfolding htons_def byte_masks by (rule bit_word_eqI) (auto simp: bit_simps)
  then have "unat (htons n) = 256 * unat (ucast n :: u8) + unat (ucast (drop_bit 8 n) :: u8)" by (simp add: byte_pair)
  moreover have "unat (drop_bit 8 n) = unat n div 256" by (simp add: drop_bit_eq_div unat_div)
  moreover have "unat n < 2 ^ LENGTH(16)" by (rule unsigned_less)
  then have "unat n div 256 < 256" by (simp add: less_mult_imp_div_less)
  ultimately show ?thesis by (simp add: swap16_def unat_byte_of)
qed

lemma unat_SWAP:
  assumes "unat w \<le> 65535"
  shows "unat (SWAP_BYTES_IN_WORD w) = swap16 (unat w)"
proof -
  have "SWAP_BYTES_IN_WORD w = ucast (htons (ucast w))"
    unfolding SWAP_BYTES_IN_WORD_def htons_def byte_masks by (rule bit_word_eqI) (auto simp: bit_simps)
  moreover have "unat (ucast w :: u16) = unat w" using assms by (simp add: unsigned_ucast_eq take_bit_nat_eq_self)
  ultimately show ?thesis by (simp add: unat_ucast16 unat_htons)
qed

text \<open>The sum of a buffer, in the order in which the bytes are in memory.\<close>

lemma unat_standard_chksum:
  assumes "length data \<le> 65535"
  shows "unat (lwip_standard_chksum data) = ones (256 * val data)"
proof -
  let ?acc = "chksum_loop data 0"
  have "(length data + 1) div 2 \<le> 32768" using assms by simp
  then have "words data < 2 ^ 32" using words_bound [of data] by simp
  then have acc: "unat ?acc = words data" and w: "words data < 2 ^ 32" using chksum_loop_words [of 0 data] by auto
  let ?f = "drop_bit 16 ?acc + (?acc AND 0xffff)"
  have f: "unat ?f = fold1 (words data)" by (simp only: unat_fold acc)
  define r where "r = (if ?f AND 0xffff0000 \<noteq> 0 then drop_bit 16 ?f + (?f AND 0xffff) else ?f)"
  have "unat r = fold1 (unat ?f)"
  proof (cases "?f AND 0xffff0000 = 0")
    case True
    have "(0xffff0000 :: u32) = NOT (mask 16)" by (simp add: mask_eq_exp_minus_1 not_eq_complement)
    then have "unat ?f div 2 ^ 16 * 2 ^ 16 = 0" using True unat_clear_low [of ?f 16] by simp
    then have "unat ?f < 65536" by (simp add: div_eq_0_iff)
    then show ?thesis using True by (simp add: r_def fold1_idle)
  next
    case False
    then show ?thesis by (simp add: r_def unat_fold)
  qed
  then have r: "unat r = ones (words data)" using fold1_twice(2) [OF w] by (simp add: f)
  have "unat (ucast r :: u16) = unat r" using ones_bounds(1) [of "words data"] r by (simp add: unsigned_ucast_eq take_bit_nat_eq_self)
  then have "unat (lwip_standard_chksum data) = swap16 (ones (words data))"
    by (simp add: lwip_standard_chksum_def Let_def r_def [symmetric] unat_htons r)
  also have "\<dots> = ones (256 * ones (words data))" by (rule swap16_ones) (rule ones_bounds)
  also have "\<dots> = ones (256 * val data)" by (intro ones_cong eqv_mult eqv_trans [OF ones_eqv words_val])
  finally show ?thesis .
qed

lemma half_bound: "unat (x :: u16) \<le> 65535"
proof -
  have "unat x < 2 ^ LENGTH(16)" by (rule unsigned_less)
  then show ?thesis by simp
qed

lemma unat_not16: "unat (NOT x) = 65535 - unat x" for x :: u16
proof -
  have "NOT x = 65535 - x" by (simp add: not_eq_complement)
  moreover have "unat (65535 - x) = unat (65535 :: u16) - unat x" by (rule unat_sub) (simp add: word_le_nat_alt half_bound)
  ultimately show ?thesis by simp
qed

lemma unat_inet_chksum: "length data \<le> 65535 \<Longrightarrow> unat (inet_chksum data) = 65535 - ones (256 * val data)"
  by (simp add: inet_chksum_def unat_not16 unat_standard_chksum)

section \<open>Chains\<close>

lemma eqv_power: "eqv (256 ^ (2 * n) * a) a"
proof (induction n)
  case (Suc n)
  have "256 ^ (2 * Suc n) * a = 256 * (256 * (256 ^ (2 * n) * a))" by simp
  then show ?case using eqv_trans [OF eqv_square Suc] by metis
qed simp

lemma eqv_even: "even n \<Longrightarrow> eqv (256 ^ n * a) a" and eqv_odd: "odd n \<Longrightarrow> eqv (256 ^ n * a) (256 * a)"
proof -
  show "eqv (256 ^ n * a) a" if "even n" using that eqv_power by (auto elim!: evenE)
  show "eqv (256 ^ n * a) (256 * a)" if "odd n" using that eqv_mult [OF eqv_power, of 256] by (auto elim!: oddE simp: mult.assoc)
qed

text \<open>After the buffers \<open>c\<close> the accumulator is the sum of all their bytes, swapped if their number is odd.\<close>

definition chain_acc :: "u8 list \<Rightarrow> nat" where
  "chain_acc c = ones (256 ^ (1 + length c) * val c)"

lemma chain_acc_append:
  "chain_acc (c @ q) = ones (256 ^ length q * (chain_acc c + 256 * val q))"
proof (unfold chain_acc_def, rule ones_cong)
  have "256 ^ (2 * length c) = 256 ^ length c * (256 :: nat) ^ length c" by (simp only: mult_2 power_add)
  then have "256 ^ (1 + length (c @ q)) * val (c @ q) =
    256 ^ length q * (256 ^ (1 + length c) * val c) + 256 ^ (2 * length c) * (256 ^ length q * (256 * val q))"
    by (simp only: val_append length_append power_add distrib_left power_one_right ac_simps)
  moreover have "eqv (256 ^ length q * (256 ^ (1 + length c) * val c) + 256 ^ (2 * length c) * (256 ^ length q * (256 * val q)))
    (256 ^ length q * ones (256 ^ (1 + length c) * val c) + 256 ^ length q * (256 * val q))"
    by (intro eqv_add eqv_power eqv_mult eqv_sym [OF ones_eqv])
  ultimately show "eqv (256 ^ (1 + length (c @ q)) * val (c @ q)) (256 ^ length q * (ones (256 ^ (1 + length c) * val c) + 256 * val q))"
    by (simp only: distrib_left)
qed

lemma chain_step:
  "even (length q) \<Longrightarrow> ones (chain_acc c + ones (256 * val q)) = chain_acc (c @ q)"
  "odd (length q) \<Longrightarrow> ones (256 * ones (chain_acc c + ones (256 * val q))) = chain_acc (c @ q)"
proof -
  have add: "eqv (chain_acc c + ones (256 * val q)) (chain_acc c + 256 * val q)" by (intro eqv_add eqv_refl ones_eqv)
  show "ones (chain_acc c + ones (256 * val q)) = chain_acc (c @ q)" if "even (length q)"
    unfolding chain_acc_append by (intro ones_cong eqv_trans [OF add] eqv_sym [OF eqv_even] that)
  show "ones (256 * ones (chain_acc c + ones (256 * val q))) = chain_acc (c @ q)" if "odd (length q)"
    unfolding chain_acc_append by (intro ones_cong eqv_trans [OF eqv_mult [OF eqv_trans [OF ones_eqv add]]] eqv_sym [OF eqv_odd] that)
qed

lemma chain_end:
  "(if odd (length c) then ones (256 * chain_acc c) else chain_acc c) = ones (256 * val c)"
proof (cases "odd (length c)")
  case True
  have "eqv (256 * ones (256 ^ (1 + length c) * val c)) (256 * (256 ^ (1 + length c) * val c))" by (intro eqv_mult ones_eqv)
  moreover have "eqv (256 * (256 ^ (1 + length c) * val c)) (256 * val c)" using True by (intro eqv_mult eqv_even) simp
  ultimately show ?thesis using True unfolding chain_acc_def by (auto intro: ones_cong eqv_trans)
next
  case False
  then show ?thesis unfolding chain_acc_def using ones_cong [OF eqv_odd [of "1 + length c" "val c"]] by simp
qed

lemma chain_acc_step:
  assumes "unat acc = chain_acc c" and "length q \<le> 65535"
  shows "unat (FOLD_U32T (acc + ucast (lwip_standard_chksum q))) = ones (chain_acc c + ones (256 * val q))"
proof -
  have "chain_acc c \<le> 65535" "ones (256 * val q) \<le> 65535" by (simp_all add: chain_acc_def ones_bounds)
  moreover from this have "unat (acc + ucast (lwip_standard_chksum q)) = chain_acc c + ones (256 * val q)"
    by (subst unat_add_lem [THEN iffD1]) (simp_all add: assms unat_ucast16 unat_standard_chksum)
  ultimately show ?thesis by (simp add: unat_FOLD fold1_once)
qed

lemma chain_loop_sum:
  assumes "unat acc = chain_acc c" and "swapped = odd (length c)" and "\<forall>q \<in> set qs. length q \<le> 65535"
  shows "\<exists>acc'. chain_loop qs acc swapped = (acc', odd (length (c @ concat qs))) \<and> unat acc' = chain_acc (c @ concat qs)"
  using assms
proof (induction qs arbitrary: acc swapped c)
  case (Cons q qs)
  have q: "length q \<le> 65535" using Cons.prems by simp
  let ?a = "FOLD_U32T (acc + ucast (lwip_standard_chksum q))"
  have a: "unat ?a = ones (chain_acc c + ones (256 * val q))" by (rule chain_acc_step [OF Cons.prems(1) q])
  show ?case
  proof (cases "odd (length q)")
    case True
    have "unat (SWAP_BYTES_IN_WORD ?a) = chain_acc (c @ q)"
      using a by (simp add: unat_SWAP swap16_ones ones_bounds chain_step(2) [OF True])
    from Cons.IH [OF this, of "\<not> swapped"] show ?thesis using Cons.prems True by (auto simp: Let_def odd_iff_mod_2_eq_one)
  next
    case False
    then have "unat ?a = chain_acc (c @ q)" using a by (simp add: chain_step(1))
    from Cons.IH [OF this, of swapped] show ?thesis using Cons.prems False by (auto simp: Let_def odd_iff_mod_2_eq_one)
  qed
qed simp

lemma unat_inverted:
  assumes "unat (acc :: u32) \<le> 65535"
  shows "unat (ucast (NOT (acc AND 0xffff)) :: u16) = 65535 - unat acc"
proof -
  have m: "(0xffff :: u32) = mask 16" by (simp add: mask_eq_exp_minus_1)
  have "(ucast (NOT (acc AND 0xffff)) :: u16) = NOT (ucast acc)" unfolding m by (rule bit_word_eqI) (auto simp: bit_simps)
  moreover have "unat (ucast acc :: u16) = unat acc" using assms by (simp add: unsigned_ucast_eq take_bit_nat_eq_self)
  ultimately show ?thesis by (simp add: unat_not16)
qed

lemma chain_total:
  assumes "length (concat p) \<le> 65535"
  obtains acc where "chain_loop p 0 False = (acc, odd (length (concat p)))" and "unat acc = chain_acc (concat p)"
    and "unat (if odd (length (concat p)) then SWAP_BYTES_IN_WORD acc else acc) = ones (256 * val (concat p))"
proof -
  have "length q \<le> 65535" if "q \<in> set p" for q 
    using that member_le_sum_list [of "length q" "map length p"] assms by (simp add: length_concat)
  then obtain acc where acc: "chain_loop p 0 False = (acc, odd (length (concat p)))" "unat acc = chain_acc (concat p)"
    using chain_loop_sum [of 0 "[]" False p] by (auto simp: chain_acc_def)
  then have "unat (if odd (length (concat p)) then SWAP_BYTES_IN_WORD acc else acc) = ones (256 * val (concat p))"
    using chain_end [of "concat p"] by (auto simp: unat_SWAP swap16_ones chain_acc_def ones_bounds)
  with acc show ?thesis by (rule that)
qed

lemma pbuf_chksum:
  assumes "length (concat p) \<le> 65535"
  shows "unat (inet_chksum_pbuf p) = 65535 - ones (256 * val (concat p))"
proof -
  obtain acc where acc: "chain_loop p 0 False = (acc, odd (length (concat p)))"
    "unat (if odd (length (concat p)) then SWAP_BYTES_IN_WORD acc else acc) = ones (256 * val (concat p))"
    by (rule chain_total [OF assms]) blast
  show ?thesis unfolding inet_chksum_pbuf_def acc(1) Let_def prod.case
    by (subst unat_inverted) (simp_all only: acc(2) ones_bounds)
qed

text \<open>The pseudo header in front of the data.\<close>

definition pseudo_header :: "u32 \<Rightarrow> u32 \<Rightarrow> u8 \<Rightarrow> u16 \<Rightarrow> u8 list" where
  "pseudo_header src dest proto proto_len =
     le_bytes src @ le_bytes dest @ [0, proto, ucast (drop_bit 8 proto_len), ucast proto_len]"

lemma val_pair: "eqv (256 * val (a # b # bs)) (unat a + 256 * unat b + 256 * val bs)"
proof -
  have "256 * val (a # b # bs) = 256 * (256 * (unat a + 256 * unat b)) + 256 * (256 * (256 * val bs))" by (simp add: distrib_left)
  then show ?thesis using eqv_add [OF eqv_square eqv_square] by metis
qed

lemma low_half: "unat (w AND 0xffff) = unat (ucast w :: u8) + 256 * unat (ucast (drop_bit 8 w) :: u8)" for w :: u32
proof -
  have "w AND 0xffff = take_bit 16 w" by (simp add: take_bit_eq_mask mask_eq_exp_minus_1)
  then have "unat (w AND 0xffff) = unat w mod 65536" using unsigned_take_bit_eq [of 16 w, where 'a = nat] by (simp add: take_bit_eq_mod)
  also have "\<dots> = unat w mod 256 + 256 * (unat w div 256 mod 256)" using mod_mult2_eq [of "unat w" 256 256] by simp
  finally show ?thesis by (simp add: unat_byte_of drop_bit_eq_div unat_div)
qed

lemma val_le_bytes:
  "eqv (256 * val (le_bytes w @ bs)) (unat (w AND 0xffff) + unat (drop_bit 16 w AND 0xffff) + 256 * val bs)"
proof -
  have "drop_bit 8 (drop_bit 16 w) = drop_bit 24 w" by simp
  then have halves: "unat (drop_bit 16 w AND 0xffff) = unat (ucast (drop_bit 16 w) :: u8) + 256 * unat (ucast (drop_bit 24 w) :: u8)"
    using low_half [of "drop_bit 16 w"] by simp
  have "eqv (256 * val (ucast w # ucast (drop_bit 8 w) # ucast (drop_bit 16 w) # ucast (drop_bit 24 w) # bs))
    (unat (w AND 0xffff) + (unat (drop_bit 16 w AND 0xffff) + 256 * val bs))"
    unfolding low_half [of w] halves by (rule eqv_trans [OF val_pair]) (intro eqv_add eqv_refl val_pair)
  then show ?thesis by (simp only: le_bytes_def append.simps add.assoc)
qed

definition pseudo_fields :: "u32 \<Rightarrow> u32 \<Rightarrow> u8 \<Rightarrow> u16 \<Rightarrow> nat" where
  "pseudo_fields src dest proto len =
     unat (src AND 0xffff) + unat (drop_bit 16 src AND 0xffff) + unat (dest AND 0xffff) + unat (drop_bit 16 dest AND 0xffff) +
     unat (htons (ucast proto)) + unat (htons len)"

lemma pseudo_header_val:
  "eqv (256 * val (pseudo_header src dest proto len @ bs)) (256 * val bs + pseudo_fields src dest proto len)"
proof -
  have proto: "unat (htons (ucast proto)) = unat (0 :: u8) + 256 * unat proto"
    using byte_bound [of proto] by (simp add: unat_htons swap16_def unsigned_ucast_eq take_bit_nat_eq_self)
  have "unat len div 256 < 256" using half_bound [of len] by (simp add: less_mult_imp_div_less)
  then have len: "unat (htons len) = unat (ucast (drop_bit 8 len) :: u8) + 256 * unat (ucast len :: u8)"
    by (simp add: unat_htons swap16_def unat_byte_of drop_bit_eq_div unat_div)
  have "eqv (256 * val ([0, proto, ucast (drop_bit 8 len), ucast len] @ bs)) (unat (htons (ucast proto)) + (unat (htons len) + 256 * val bs))"
    unfolding proto len append.simps by (rule eqv_trans [OF val_pair]) (intro eqv_add eqv_refl val_pair)
  then have "eqv (256 * val (le_bytes src @ le_bytes dest @ [0, proto, ucast (drop_bit 8 len), ucast len] @ bs))
    (unat (src AND 0xffff) + unat (drop_bit 16 src AND 0xffff) + (unat (dest AND 0xffff) + unat (drop_bit 16 dest AND 0xffff) +
      (unat (htons (ucast proto)) + (unat (htons len) + 256 * val bs))))"
    by (intro eqv_trans [OF val_le_bytes] eqv_add eqv_refl)
  then show ?thesis by (simp add: pseudo_header_def pseudo_fields_def algebra_simps)
qed

lemma pseudo_fields_bound: "pseudo_fields src dest proto len \<le> 6 * 65535"
proof -
  have "unat (x AND 0xffff) \<le> 65535" for x :: u32
    using byte_bound [of "ucast x"] byte_bound [of "ucast (drop_bit 8 x)"] by (simp add: low_half)
  from this [of src] this [of "drop_bit 16 src"] this [of dest] this [of "drop_bit 16 dest"] half_bound [of "htons (ucast proto)"] half_bound [of "htons len"]
  show ?thesis unfolding pseudo_fields_def by linarith
qed

lemma pseudo_sum_spec:
  assumes "unat (if swapped then SWAP_BYTES_IN_WORD acc else acc) = ones (256 * val bs)"
  shows "unat (pseudo_sum acc swapped src dest proto len) = 65535 - ones (256 * val (pseudo_header src dest proto len @ bs))"
proof -
  let ?a = "if swapped then SWAP_BYTES_IN_WORD acc else acc"
  let ?s = "?a + (src AND 0xffff) + (drop_bit 16 src AND 0xffff) + (dest AND 0xffff) + (drop_bit 16 dest AND 0xffff) + ucast (htons (ucast proto)) + ucast (htons len)"
  have "?s = of_nat (ones (256 * val bs) + pseudo_fields src dest proto len)"
    unfolding pseudo_fields_def of_nat_add assms [symmetric] unat_ucast16 [symmetric] by (simp add: ac_simps)
  moreover have lt: "ones (256 * val bs) + pseudo_fields src dest proto len < 2 ^ 32"
    using pseudo_fields_bound [of src dest proto len] ones_bounds(1) [of "256 * val bs"] by simp
  ultimately have s: "unat ?s = ones (256 * val bs) + pseudo_fields src dest proto len" by (simp add: unat_of_nat del: of_nat_add)
  have "unat (FOLD_U32T (FOLD_U32T ?s)) = ones (ones (256 * val bs) + pseudo_fields src dest proto len)"
    by (simp only: unat_FOLD s fold1_twice(2) [OF lt])
  also have "\<dots> = ones (256 * val (pseudo_header src dest proto len @ bs))"
    by (intro ones_cong eqv_trans [OF eqv_add [OF ones_eqv eqv_refl]] eqv_sym [OF pseudo_header_val])
  finally have "unat (FOLD_U32T (FOLD_U32T ?s)) = ones (256 * val (pseudo_header src dest proto len @ bs))" .
  then show ?thesis unfolding pseudo_sum_def Let_def by (subst unat_inverted) (simp_all only: ones_bounds)
qed

section \<open>Partial checksums\<close>

text \<open>What the accumulator and the flag stand for.\<close>

definition meaning :: "u32 \<Rightarrow> bool \<Rightarrow> nat" where
  "meaning acc swapped = unat (if swapped then SWAP_BYTES_IN_WORD acc else acc)"

lemma ones_twice: "n \<le> 65535 \<Longrightarrow> ones (256 * ones (256 * n)) = n"
  by (rule ones_unique [OF eqv_sym [OF eqv_trans [OF eqv_mult [OF ones_eqv] eqv_square]]])

lemma meaning_chain: "unat acc = chain_acc c \<Longrightarrow> meaning acc (odd (length c)) = ones (256 * val c)"
  using chain_end [of c] by (auto simp: meaning_def unat_SWAP swap16_ones chain_acc_def ones_bounds)

lemma meaning_swapped:
  "unat acc \<le> 65535 \<Longrightarrow> meaning (SWAP_BYTES_IN_WORD acc) (\<not> swapped) = meaning acc swapped"
  by (simp add: meaning_def unat_SWAP swap16_ones ones_bounds ones_twice)

lemma chain_acc_meaning:
  assumes "unat acc = chain_acc c" and "length q \<le> 65535"
  shows "meaning (FOLD_U32T (acc + ucast (lwip_standard_chksum q))) (odd (length c)) = ones (256 * val (c @ q))"
proof -
  let ?a = "FOLD_U32T (acc + ucast (lwip_standard_chksum q))"
  have a: "unat ?a = ones (chain_acc c + ones (256 * val q))" by (rule chain_acc_step [OF assms])
  show ?thesis
  proof (cases "odd (length q)")
    case True
    have "unat (SWAP_BYTES_IN_WORD ?a) = chain_acc (c @ q)" using a by (simp add: unat_SWAP swap16_ones ones_bounds chain_step(2) [OF True])
    from meaning_chain [OF this] show ?thesis using True a meaning_swapped [of ?a "odd (length c)"] by (simp add: ones_bounds)
  next
    case False
    then have "unat ?a = chain_acc (c @ q)" using a by (simp add: chain_step(1))
    from meaning_chain [OF this] show ?thesis using False by simp
  qed
qed

lemma partial_loop_sum:
  assumes "unat acc = chain_acc c" and "swapped = odd (length c)" and "\<forall>q \<in> set qs. length q \<le> 65535" and "n < 0x7fff"
  shows "\<exists>acc' swapped'. partial_loop qs n acc swapped = Some (acc', swapped') \<and> meaning acc' swapped' = ones (256 * val (c @ take n (concat qs)))"
  using assms
proof (induction qs arbitrary: n acc swapped c)
  case (Cons q qs)
  have q: "length q \<le> 65535" "length (take n q) \<le> 65535" using Cons.prems by simp_all
  let ?a = "\<lambda>q. FOLD_U32T (acc + ucast (lwip_standard_chksum q))"
  consider "n = 0" | "0 < n" "n < length q" | "0 < n" "length q \<le> n" by linarith
  then show ?case
  proof cases
    case 1
    then show ?thesis using meaning_chain [OF Cons.prems(1)] Cons.prems(2) by simp
  next
    case 2
    have small: "unat (?a (take n q)) \<le> 65535" by (simp add: chain_acc_step [OF Cons.prems(1) q(2)] ones_bounds)
    have stop: "partial_loop qs 0 x y = Some (x, y)" for x y by (cases qs) simp_all
    show ?thesis
      using 2 chain_acc_meaning [OF Cons.prems(1) q(2)] Cons.prems(2) meaning_swapped [OF small, of "odd (length c)"]
      by (simp add: Let_def stop min_def)
  next
    case 3
    have a: "unat (?a q) = ones (chain_acc c + ones (256 * val q))" by (rule chain_acc_step [OF Cons.prems(1) q(1)])
    show ?thesis
    proof (cases "odd (length q)")
      case True
      have "unat (SWAP_BYTES_IN_WORD (?a q)) = chain_acc (c @ q)" using a by (simp add: unat_SWAP swap16_ones ones_bounds chain_step(2) [OF True])
      from Cons.IH [OF this, of "\<not> swapped" "n - length q"] show ?thesis using Cons.prems True 3 by (auto simp: Let_def odd_iff_mod_2_eq_one min_def)
    next
      case False
      then have "unat (?a q) = chain_acc (c @ q)" using a by (simp add: chain_step(1))
      from Cons.IH [OF this, of swapped "n - length q"] show ?thesis using Cons.prems False 3 by (auto simp: Let_def odd_iff_mod_2_eq_one min_def)
    qed
  qed
next
  case Nil
  then show ?case using meaning_chain [OF Nil(1)] by simp
qed

text \<open>C32. Dividing the bytes of a packet into a chain of buffers does not change its checksum, whatever the lengths of the buffers, and the checksum with a pseudo header,
  also over part of the data only, is the checksum of the data behind the twelve bytes of the pseudo header.\<close>

theorem chksum_of_chain:
  assumes "length (concat p) + 12 \<le> 65535" and "unat n < 0x7fff"
  shows "inet_chksum_pbuf p = inet_chksum (concat p) \<and>
    inet_chksum_pseudo p src dest proto len = inet_chksum (pseudo_header src dest proto len @ concat p) \<and>
    inet_chksum_pseudo_partial p src dest proto len n = Some (inet_chksum (pseudo_header src dest proto len @ take (unat n) (concat p)))"
proof -
  have p: "length (concat p) \<le> 65535" using assms(1) by simp
  have q: "\<forall>q \<in> set p. length q \<le> 65535"
    using member_le_sum_list [of _ "map length p"] p by (fastforce simp: length_concat)
  have chk: "unat (inet_chksum (pseudo_header src dest proto len @ bs)) = 65535 - ones (256 * val (pseudo_header src dest proto len @ bs))"
    if "length bs \<le> length (concat p)" for bs
    by (rule unat_inet_chksum) (use assms(1) that in \<open>simp add: pseudo_header_def le_bytes_def\<close>)
  obtain acc where acc: "chain_loop p 0 False = (acc, odd (length (concat p)))"
    "unat (if odd (length (concat p)) then SWAP_BYTES_IN_WORD acc else acc) = ones (256 * val (concat p))"
    by (rule chain_total [OF p]) blast
  obtain a s where part: "partial_loop p (unat n) 0 False = Some (a, s)" "meaning a s = ones (256 * val (take (unat n) (concat p)))"
    using partial_loop_sum [of 0 "[]" False p "unat n"] q assms(2) by (auto simp: chain_acc_def)
  show ?thesis
    unfolding word_unat_eq_iff inet_chksum_pseudo_partial_def part
    using assms(1) pbuf_chksum [OF p] pseudo_sum_spec [OF acc(2), of src dest proto len] pseudo_sum_spec [OF part(2) [unfolded meaning_def], of src dest proto len]
    by (simp add: inet_chksum_pseudo_def acc(1) unat_inet_chksum [OF p] chk word_unat_eq_iff)
qed

theorem chksum_of_chain_witness:
  "inet_chksum_pbuf [[1, 2, 3], [4, 5]] = inet_chksum [1, 2, 3, 4, 5] \<and>
   inet_chksum_pseudo_partial [[1, 2, 3], [4, 5]] 0x0100007f 0x0200007f 17 5 4 = Some (inet_chksum (pseudo_header 0x0100007f 0x0200007f 17 5 @ [1, 2, 3, 4]))"
  using chksum_of_chain [of "[[1, 2, 3], [4, 5]]" 4 "0x0100007f" "0x0200007f" 17 5] by simp

section \<open>Verifying a packet\<close>

lemma coprime_256: "coprime (65535 :: nat) 256"
proof (rule coprimeI)
  fix c :: nat
  assume "c dvd 65535" and "c dvd 256"
  then have "c dvd 256 * 256 - 65535" by (intro dvd_diff_nat dvd_mult)
  then show "is_unit c" by simp
qed

lemma chksum_zero:
  assumes "length bs \<le> 65535"
  shows "inet_chksum bs = 0 \<longleftrightarrow> 0 < val bs \<and> 65535 dvd val bs"
proof -
  have "inet_chksum bs = 0 \<longleftrightarrow> ones (256 * val bs) = 65535"
    using unat_inet_chksum [OF assms] ones_bounds(1) [of "256 * val bs"] by (auto simp: word_unat_eq_iff)
  also have "\<dots> \<longleftrightarrow> 0 < val bs \<and> 65535 dvd 256 * val bs"
  proof
    assume o: "ones (256 * val bs) = 65535"
    then show "0 < val bs \<and> 65535 dvd 256 * val bs" using ones_mod [of "256 * val bs"] ones_bounds(2) [of "256 * val bs"] by (auto simp: mod_eq_0_iff_dvd)
  next
    assume "0 < val bs \<and> 65535 dvd 256 * val bs"
    then show "ones (256 * val bs) = 65535" by (intro ones_unique) (auto simp: eqv_def)
  qed
  also have "65535 dvd 256 * val bs \<longleftrightarrow> 65535 dvd val bs"
    by (rule coprime_dvd_mult_right_iff [OF coprime_256])
  finally show ?thesis .
qed

lemma val_update: "i < length bs \<Longrightarrow> val (bs[i := b]) + 256 ^ Suc i * unat (bs ! i) = val bs + 256 ^ Suc i * unat b"
proof (induction bs arbitrary: i)
  case (Cons a bs)
  show ?case
  proof (cases i)
    case (Suc k)
    have "256 * (val (bs[k := b]) + 256 ^ Suc k * unat (bs ! k)) = 256 * (val bs + 256 ^ Suc k * unat b)" using Cons.IH [of k] Cons.prems Suc by simp
    then show ?thesis using Suc by (simp add: algebra_simps)
  qed simp
qed simp

lemma changed_byte:
  assumes "i < length bs" and "65535 dvd val bs" and "65535 dvd val (bs[i := b])"
  shows "bs ! i = b"
proof -
  let ?k = "256 ^ Suc i :: nat"
  have cop: "coprime 65535 ?k" by (rule coprime_power_right_iff [THEN iffD2]) (simp add: coprime_256)
  have eq: "val (bs[i := b]) + ?k * unat (bs ! i) = val bs + ?k * unat b" by (rule val_update [OF assms(1)])
  have "(?k * unat (bs ! i)) mod 65535 = (val (bs[i := b]) + ?k * unat (bs ! i)) mod 65535" using assms(3) by (auto elim!: dvdE)
  also have "\<dots> = (?k * unat b) mod 65535" unfolding eq using assms(2) by (auto elim!: dvdE)
  finally have same: "(?k * unat (bs ! i)) mod 65535 = (?k * unat b) mod 65535" .
  have "x = y" if "x \<le> y" "y \<le> 255" "(?k * x) mod 65535 = (?k * y) mod 65535" for x y
  proof -
    have "65535 dvd ?k * y - ?k * x" using that by (subst mod_eq_dvd_iff_nat [symmetric]) (simp_all del: power_Suc)
    then have "65535 dvd ?k * (y - x)" by (simp only: diff_mult_distrib2)
    then have "65535 dvd y - x" using coprime_dvd_mult_right_iff [OF cop] by blast
    then show ?thesis using that by (auto dest!: dvd_imp_le)
  qed
  from this [of "unat (bs ! i)" "unat b"] this [of "unat b" "unat (bs ! i)"] show ?thesis
    using same byte_bound [of b] byte_bound [of "bs ! i"] by (cases "unat (bs ! i) \<le> unat b") (auto simp: word_unat_eq_iff simp del: power_Suc)
qed

lemma stored_chksum:
  assumes "even (length xs)" and "length xs + 2 + length ys \<le> 65535" and c: "c = inet_chksum (xs @ [0, 0] @ ys)"
  shows "inet_chksum (xs @ [ucast c, ucast (drop_bit 8 c)] @ ys) = 0"
proof -
  let ?z = "xs @ [0, 0] @ ys" and ?p = "xs @ [ucast c, ucast (drop_bit 8 c)] @ ys"
  have r: "unat c = 65535 - ones (256 * val ?z)" unfolding c by (rule unat_inet_chksum) (use assms(2) in simp)
  have "unat c div 256 < 256" using half_bound [of c] by (simp add: less_mult_imp_div_less)
  then have bytes: "unat (ucast c :: u8) + 256 * unat (ucast (drop_bit 8 c) :: u8) = unat c"
    by (simp add: unat_byte_of drop_bit_eq_div unat_div)
  have "val ?p = val ?z + 256 ^ length xs * (256 * unat (ucast c :: u8) + 256 * (256 * unat (ucast (drop_bit 8 c) :: u8)))"
    by (simp add: val_append algebra_simps)
  also have "256 * unat (ucast c :: u8) + 256 * (256 * unat (ucast (drop_bit 8 c) :: u8)) = 256 * unat c" using bytes by simp
  finally have val: "val ?p = val ?z + 256 ^ length xs * (256 * unat c)" .
  have "eqv (256 * val ?p) (ones (256 * val ?z) + unat c)"
  proof -
    have "256 * val ?p = 256 * val ?z + 256 ^ length xs * (256 * (256 * unat c))" unfolding val distrib_left by (simp only: mult.left_commute [of 256 "256 ^ length xs"])
    moreover have "eqv (256 * val ?z + 256 ^ length xs * (256 * (256 * unat c))) (ones (256 * val ?z) + unat c)"
      by (intro eqv_add eqv_sym [OF ones_eqv] eqv_trans [OF eqv_even [OF assms(1)]] eqv_square)
    ultimately show ?thesis by simp
  qed
  moreover have "ones (256 * val ?z) + unat c = 65535" using r ones_bounds(1) [of "256 * val ?z"] by simp
  ultimately have "ones (256 * val ?p) = 65535" using ones_unique [OF eqv_sym, of "256 * val ?p" 65535] by simp
  moreover have "unat (inet_chksum ?p) = 65535 - ones (256 * val ?p)" by (rule unat_inet_chksum) (use assms(2) in simp)
  ultimately show ?thesis by (simp add: word_unat_eq_iff)
qed

text \<open>C31. A packet verifies once its checksum, computed with zeros in its place, has been stored at an even position: the checksum of the whole packet is then zero, which is what
  the receiver tests. If any one byte of it arrives with another value, the receiver notices.\<close>

theorem chksum_verifies:
  assumes "even (length xs)" and "length xs + 2 + length ys \<le> 65535" and c: "c = inet_chksum (xs @ [0, 0] @ ys)"
    and p: "p = xs @ [ucast c, ucast (drop_bit 8 c)] @ ys"
  shows "inet_chksum p = 0 \<and> (\<forall>i < length p. \<forall>b. b \<noteq> p ! i \<longrightarrow> inet_chksum (p[i := b]) \<noteq> 0)"
proof (intro conjI allI impI)
  show zero: "inet_chksum p = 0" unfolding p by (rule stored_chksum [OF assms(1-3)])
  fix i b
  assume i: "i < length p" and b: "b \<noteq> p ! i"
  have len: "length p \<le> 65535" using assms(2) by (simp add: p)
  show "inet_chksum (p[i := b]) \<noteq> 0"
    using zero changed_byte [OF i, of b] b chksum_zero [OF len] chksum_zero [of "p[i := b]"] len by auto
qed

theorem chksum_verifies_witness:
  "inet_chksum [69, 0, 0, 0, 10, 20, 30] = 0xEB92 \<and> inet_chksum [69, 0, 0x92, 0xEB, 10, 20, 30] = 0 \<and> inet_chksum [69, 0, 0x92, 0xEB, 10, 21, 30] \<noteq> 0"
proof -
  have c: "0xEB92 = inet_chksum ([69, 0] @ [0, 0] @ [10, 20, 30])" by (simp add: inet_chksum_def lwip_standard_chksum_def htons_def Let_def)
  have p: "[69, 0, 0x92, 0xEB, 10, 20, 30] = [69, 0] @ [ucast (0xEB92 :: u16), ucast (drop_bit 8 (0xEB92 :: u16))] @ [10, 20, 30 :: u8]"
    by (simp add: drop_bit_eq_div)
  have "inet_chksum [69, 0, 0x92, 0xEB, 10, 20, 30] = 0 \<and>
    (\<forall>i < length [69, 0, 0x92, 0xEB, 10, 20, 30 :: u8]. \<forall>b. b \<noteq> [69, 0, 0x92, 0xEB, 10, 20, 30] ! i \<longrightarrow> inet_chksum ([69, 0, 0x92, 0xEB, 10, 20, 30][i := b]) \<noteq> 0)"
    by (rule chksum_verifies [OF _ _ c p]) simp_all
  note both = conjunct1 [OF this] conjunct2 [OF this, rule_format, of 5 21]
  then show ?thesis using c by simp
qed

section \<open>Printing and reading addresses\<close>

declare aton_parts.simps [simp del] inv_loop.simps [simp del]

lemma aton_accepts_256: "inet_aton [50, 53, 54, 46, 48, 46, 48, 46, 49] = Some 0x01000000"
  by (simp add: inet_aton_def aton_parts.simps get_number_def peek_def isdigit_def htonl_def)

lemma inv_loop_digits:
  "rev (inv_loop x []) =
    (if x < 10 then [48 + x] else if x < 100 then [48 + x div 10, 48 + x mod 10] else [48 + x div 100, 48 + x div 10 mod 10, 48 + x mod 10])"
proof -
  have q: "x div 10 = 0 \<longleftrightarrow> x < 10" "x div 10 div 10 = x div 100" "x div 100 = 0 \<longleftrightarrow> x < 100" "x div 100 div 10 = 0"
    using byte_bound [of x] by (auto simp: word_unat_eq_iff word_less_nat_alt unat_div div_mult2_eq [symmetric] div_eq_0_iff)
  have small: "x mod 10 = x" if "x < 10" using that by (simp add: word_unat_eq_iff word_less_nat_alt unat_mod)
  have mid: "x div 10 mod 10 = x div 10" if "x < 100"
    using that by (simp add: word_unat_eq_iff word_less_nat_alt unat_mod unat_div less_mult_imp_div_less)
  have top: "x div 100 mod 10 = x div 100"
    using byte_bound [of x] by (simp add: word_unat_eq_iff word_less_nat_alt unat_mod unat_div less_mult_imp_div_less)
  show ?thesis
    using small mid top by (simp add: inv_loop.simps [of x] inv_loop.simps [of "x div 10"] inv_loop.simps [of "x div 100"] Let_def q)
qed

lemma digit: 
  assumes "d < (10 :: u8)"
  shows "isdigit (48 + d)" and "48 + d - 48 = d" and "48 + d = 48 \<longleftrightarrow> d = 0"
proof -
  have "unat (48 + d) = 48 + unat d" by (subst unat_add_lem [THEN iffD1]) (use assms in \<open>simp_all add: word_less_nat_alt\<close>)
  then show "isdigit (48 + d)" using assms by (simp add: isdigit_def word_le_nat_alt word_less_nat_alt)
qed simp_all

lemma number_loop_digit: "d < 10 \<Longrightarrow> number_loop bs v ((48 + d) # cp) = number_loop bs (v * bs + ucast d) cp"
  using digit [of d] by simp

lemma number_loop_stops: "\<not> isdigit (peek cp) \<Longrightarrow> bs \<noteq> 16 \<Longrightarrow> number_loop bs v cp = (v, cp)"
  by (cases cp) (simp_all add: peek_def)

lemma ucast_of_unat: "(ucast (y :: u8) :: u32) = of_nat (unat y)"
  by (simp add: word_unat_eq_iff unsigned_ucast_eq unat_of_nat take_bit_eq_mod)

lemma decimal_value:
  "ucast (x div 10) * 10 + ucast (x mod 10) = (ucast x :: u32)" "(ucast (x div 100) * 10 + ucast (x div 10 mod 10)) * 10 + ucast (x mod 10) = (ucast x :: u32)"
  for x :: u8
proof -
  have "(ucast (x div 10) * 10 + ucast (x mod 10) :: u32) = of_nat (unat x div 10 * 10 + unat x mod 10)"
    unfolding ucast_of_unat unat_div unat_mod of_nat_add of_nat_mult by simp
  then show ten: "ucast (x div 10) * 10 + ucast (x mod 10) = (ucast x :: u32)" by (simp only: div_mult_mod_eq ucast_of_unat)
  have "(ucast (x div 100) * 10 + ucast (x div 10 mod 10) :: u32) = of_nat (unat x div 10 div 10 * 10 + unat x div 10 mod 10)"
    unfolding ucast_of_unat unat_div unat_mod of_nat_add of_nat_mult by (simp add: div_mult2_eq [symmetric])
  also have "\<dots> = ucast (x div 10)" by (simp add: ucast_of_unat unat_div)
  finally show "(ucast (x div 100) * 10 + ucast (x div 10 mod 10)) * 10 + ucast (x mod 10) = (ucast x :: u32)" using ten by simp
qed

lemma mod_ten: "x mod 10 < (10 :: u8)" and div_ten: "x < 100 \<Longrightarrow> x div 10 < (10 :: u8)" and div_hundred: "x div 100 < (10 :: u8)"
  using byte_bound [of x] by (auto simp: word_less_nat_alt unat_mod unat_div less_mult_imp_div_less)

lemma get_number_digits:
  assumes "\<not> isdigit (peek cp)" and "peek cp \<noteq> 120" and "peek cp \<noteq> 88"
  shows "get_number (rev (inv_loop x []) @ cp) = (ucast x, cp)" and "isdigit (peek (rev (inv_loop x []) @ cp))"
proof -
  have nz: "x div 10 \<noteq> 0" if "\<not> x < 10" using that by (simp add: word_unat_eq_iff word_less_nat_alt unat_div div_eq_0_iff)
  have nz': "x div 100 \<noteq> 0" if "\<not> x < 100" using that by (simp add: word_unat_eq_iff word_less_nat_alt unat_div div_eq_0_iff)
  have stops: "number_loop 10 v cp = (v, cp)" "number_loop 8 v cp = (v, cp)" for v using assms(1) by (simp_all add: number_loop_stops)
  consider "x < 10" | "\<not> x < 10" "x < 100" | "\<not> x < 100" "\<not> x < 10" by force
  then show "get_number (rev (inv_loop x []) @ cp) = (ucast x, cp)"
  proof cases
    case 1
    then show ?thesis using assms(2,3) digit [of x] by (cases "x = 0") (simp_all add: inv_loop_digits get_number_def peek_def number_loop_digit stops)
  next
    case 2
    then show ?thesis using digit [OF div_ten, of x] digit [OF mod_ten, of x] nz
      by (simp add: inv_loop_digits get_number_def peek_def stops decimal_value(1))
  next
    case 3
    then show ?thesis using digit [OF div_hundred, of x] digit [OF mod_ten, of x] digit [OF mod_ten, of "x div 10"] nz' decimal_value(2) [of x]
      by (simp add: inv_loop_digits get_number_def peek_def stops distrib_right)
  qed
  show "isdigit (peek (rev (inv_loop x []) @ cp))"
    using digit(1) [of x] digit(1) [OF div_ten, of x] digit(1) [OF div_hundred, of x] by (simp add: inv_loop_digits peek_def)
qed

lemma dot: "\<not> isdigit (peek (46 # cp))" "peek (46 # cp) \<noteq> 120" "peek (46 # cp) \<noteq> 88" "\<not> isdigit (peek [])" "peek [] \<noteq> 120" "peek [] \<noteq> 88"
  by (simp_all add: peek_def isdigit_def)

lemma aton_parts_step:
  assumes "length parts < 3"
  shows "aton_parts parts (rev (inv_loop x []) @ 46 # cp) = aton_parts (parts @ [ucast x]) cp"
proof -
  have "peek (46 # cp) = 46" by (simp add: peek_def)
  then show ?thesis using assms dot(1-3) [of cp] get_number_digits [of "46 # cp" x] by (subst aton_parts.simps) simp
qed

lemma aton_parts_last: "aton_parts parts (rev (inv_loop x [])) = Some (parts, ucast x, [])"
proof -
  have "peek [] = 0" by (simp add: peek_def)
  then show ?thesis using dot(4-6) get_number_digits [of "[]" x] by (subst aton_parts.simps) simp
qed

lemma assembled:
  "htonl (ucast (ucast (drop_bit 24 a) :: u8) OR (push_bit 24 (ucast (ucast a :: u8)) OR push_bit 16 (ucast (ucast (drop_bit 8 a) :: u8)) OR
     push_bit 8 (ucast (ucast (drop_bit 16 a) :: u8)))) = a" for a :: u32
proof -
  have m: "(0xff :: u32) = mask 8" "(0xff00 :: u32) = push_bit 8 (mask 8)" "(0xff0000 :: u32) = push_bit 16 (mask 8)" "(0xff000000 :: u32) = push_bit 24 (mask 8)"
    by (simp_all add: mask_eq_exp_minus_1 push_bit_eq_mult)
  show ?thesis unfolding htonl_def m
  proof (rule bit_word_eqI, goal_cases)
    case (1 n)
    then have "n < 8 \<or> 8 \<le> n \<and> n < 16 \<or> 16 \<le> n \<and> n < 24 \<or> 24 \<le> n \<and> n < 32" by auto
    then show ?case by (elim disjE) (auto simp: bit_simps)
  qed
qed

text \<open>C33. An address that is printed in dotted notation and read again is the same address, and what is printed fits, with its terminating zero, into the sixteen bytes of the buffer.\<close>

theorem aton_reads_ntoa: "inet_aton (inet_ntoa a) = Some a \<and> length (inet_ntoa a) < 16"
proof
  let ?d = "\<lambda>x. rev (inv_loop x [])"
  have str: "inet_ntoa a = ?d (ucast a) @ 46 # ?d (ucast (drop_bit 8 a)) @ 46 # ?d (ucast (drop_bit 16 a)) @ 46 # ?d (ucast (drop_bit 24 a))"
    by (simp add: inet_ntoa_def le_bytes_def butlast_append)
  have "(ucast x :: u32) \<le> 0xff" for x :: u8 using byte_bound [of x] by (simp add: word_le_nat_alt unsigned_ucast_eq take_bit_nat_eq_self)
  then have small: "\<not> (ucast (ucast (drop_bit 24 a) :: u8) :: u32) > 0xff" by (simp only: not_less)
  have "aton_parts [] (inet_ntoa a) =
    Some ([ucast (ucast a :: u8), ucast (ucast (drop_bit 8 a) :: u8), ucast (ucast (drop_bit 16 a) :: u8)], ucast (ucast (drop_bit 24 a) :: u8), [])"
    unfolding str by (simp add: aton_parts_step aton_parts_last)
  moreover have "peek [] = 0" by (simp add: peek_def)
  ultimately show "inet_aton (inet_ntoa a) = Some a"
    unfolding inet_aton_def by (simp only: bind.bind_lunit prod.case Let_def list.case small if_False assembled simp_thms)
  have "length (?d x) \<le> 3" for x by (simp add: inv_loop_digits)
  from this [of "ucast a"] this [of "ucast (drop_bit 8 a)"] this [of "ucast (drop_bit 16 a)"] this [of "ucast (drop_bit 24 a)"]
  show "length (inet_ntoa a) < 16" unfolding str by simp
qed

end
