(* ===== verification/Boot.thy ===== *)
theory Boot
  imports Env
begin

text \<open>
  From the boot sector to the first instruction of the kernel: \<^verbatim>\<open>boot/main.c\<close>, which reads the kernel from the disk, and the page
  directory of \<^verbatim>\<open>kern/entrypgdir.c\<close>, with which the kernel turns on paging. Paging is still off in the boot loader, so its memory is
  physical memory, a function from addresses to bytes. The disk controller is a parameter: the bytes it delivers for a sector.

  Shown is that the loader puts every segment of a well-formed image where its header says, in spite of reading whole sectors, and which addresses
  the first page directory translates.
\<close>

unbundle bit_operations_syntax

section \<open>Reading from the disk\<close>

abbreviation SECTSIZE :: nat where "SECTSIZE \<equiv> 512"
abbreviation ELFHDR :: u32 where "ELFHDR \<equiv> 0x10000"

text \<open>The sector a controller addresses by four registers.\<close>

definition lba28 :: "u8 \<Rightarrow> u8 \<Rightarrow> u8 \<Rightarrow> u8 \<Rightarrow> nat" where
  "lba28 r3 r4 r5 r6 = unat r3 + 2 ^ 8 * unat r4 + 2 ^ 16 * unat r5 + 2 ^ 24 * (unat r6 mod 16)"

definition readsect :: "(nat \<Rightarrow> nat \<Rightarrow> u8) \<Rightarrow> (nat \<Rightarrow> u8) \<Rightarrow> u32 \<Rightarrow> u32 \<Rightarrow> (nat \<Rightarrow> u8)" where
  "readsect disk m dst offset =
     over (unat dst)
       (map (disk (lba28 (ucast offset) (ucast (drop_bit 8 offset)) (ucast (drop_bit 16 offset)) (ucast (drop_bit 24 offset) OR 0xE0))) [0..<SECTSIZE]) m"

partial_function (option) readseg_loop :: "(nat \<Rightarrow> nat \<Rightarrow> u8) \<Rightarrow> (nat \<Rightarrow> u8) \<Rightarrow> u32 \<Rightarrow> u32 \<Rightarrow> u32 \<Rightarrow> (nat \<Rightarrow> u8) option" where
  "readseg_loop disk m pa end_pa offset =
     (if pa < end_pa then readseg_loop disk (readsect disk m pa offset) (pa + 512) end_pa (offset + 1) else Some m)"

definition readseg :: "(nat \<Rightarrow> nat \<Rightarrow> u8) \<Rightarrow> (nat \<Rightarrow> u8) \<Rightarrow> u32 \<Rightarrow> u32 \<Rightarrow> u32 \<Rightarrow> (nat \<Rightarrow> u8) option" where
  "readseg disk m pa cnt offset =
     (let end_pa = pa + cnt; pa = pa AND NOT (512 - 1); offset = offset div 512 + 1
      in readseg_loop disk m pa end_pa offset)"

section \<open>Loading the kernel\<close>

definition ld32 :: "(nat \<Rightarrow> u8) \<Rightarrow> u32 \<Rightarrow> u32" where
  "ld32 m a = rd32 (\<lambda>k. m (unat (a + of_nat k))) 0"

definition ld16 :: "(nat \<Rightarrow> u8) \<Rightarrow> u32 \<Rightarrow> u16" where
  "ld16 m a = rd16 (\<lambda>k. m (unat (a + of_nat k))) 0"

text \<open>The fields of the program header at an address.\<close>

abbreviation ph_offset :: "(nat \<Rightarrow> u8) \<Rightarrow> u32 \<Rightarrow> u32" where "ph_offset m ph \<equiv> ld32 m (ph + 4)"
abbreviation ph_pa :: "(nat \<Rightarrow> u8) \<Rightarrow> u32 \<Rightarrow> u32" where "ph_pa m ph \<equiv> ld32 m (ph + 12)"
abbreviation ph_filesz :: "(nat \<Rightarrow> u8) \<Rightarrow> u32 \<Rightarrow> u32" where "ph_filesz m ph \<equiv> ld32 m (ph + 16)"
abbreviation ph_memsz :: "(nat \<Rightarrow> u8) \<Rightarrow> u32 \<Rightarrow> u32" where "ph_memsz m ph \<equiv> ld32 m (ph + 20)"

partial_function (option) zero_loop :: "(nat \<Rightarrow> u8) \<Rightarrow> u32 \<Rightarrow> u32 \<Rightarrow> (nat \<Rightarrow> u8) option" where
  "zero_loop m ph i =
     (if i < ph_memsz m ph - ph_filesz m ph
      then zero_loop (m(unat (ph_pa m ph + ph_filesz m ph + i) := 0)) ph (i + 1) else Some m)"

partial_function (option) load_loop :: "(nat \<Rightarrow> nat \<Rightarrow> u8) \<Rightarrow> (nat \<Rightarrow> u8) \<Rightarrow> u32 \<Rightarrow> u32 \<Rightarrow> (nat \<Rightarrow> u8) option" where
  "load_loop disk m ph eph =
     (if ph < eph
      then do { m \<leftarrow> readseg disk m (ph_pa m ph) (ph_memsz m ph) (ph_offset m ph);
                m \<leftarrow> zero_loop m ph 0;
                load_loop disk m (ph + 32) eph }
      else Some m)"

text \<open>The boot loader ends with a jump to the entry point, or hangs at the label \<^verbatim>\<open>bad\<close>.\<close>

datatype booting = Jump u32 "nat \<Rightarrow> u8" | Bad

definition bootmain :: "(nat \<Rightarrow> nat \<Rightarrow> u8) \<Rightarrow> (nat \<Rightarrow> u8) \<Rightarrow> booting option" where
  "bootmain disk m =
     do { m \<leftarrow> readseg disk m ELFHDR (512 * 8) 0;
          if ld32 m ELFHDR \<noteq> ELF_MAGIC then Some Bad
          else do { let ph = ELFHDR + ld32 m (ELFHDR + 28);
                    let eph = ph + 32 * ucast (ld16 m (ELFHDR + 44));
                    m \<leftarrow> load_loop disk m ph eph;
                    Some (Jump (ld32 m (ELFHDR + 24)) m) } }"

section \<open>Whole sectors\<close>

text \<open>The byte of the kernel image at an offset: the image starts at sector 1.\<close>

definition kimage :: "(nat \<Rightarrow> nat \<Rightarrow> u8) \<Rightarrow> nat \<Rightarrow> u8" where
  "kimage disk x = disk (x div SECTSIZE + 1) (x mod SECTSIZE)"

lemma kimage_at: "t < SECTSIZE \<Longrightarrow> kimage disk (SECTSIZE * q + t) = disk (q + 1) t"
  by (simp add: kimage_def)

lemma lba28_sector:
  assumes "unat offset < 2 ^ 28"
  shows "lba28 (ucast offset) (ucast (drop_bit 8 offset)) (ucast (drop_bit 16 offset)) (ucast (drop_bit 24 offset) OR 0xE0) = unat offset"
proof -
  have byte: "unat (ucast (drop_bit k offset) :: u8) = unat offset div 2 ^ k mod 2 ^ 8" for k
    unfolding unsigned_ucast_eq unsigned_drop_bit_eq unfolding take_bit_eq_mod drop_bit_eq_div
    by (simp add: unsigned_less [of offset, simplified])
  have "unat (x OR 0xE0 :: u8) mod 16 = unat x mod 16" for x :: u8
  proof -
    have "unat (take_bit 4 (x OR 0xE0)) = unat (take_bit 4 x)" by (simp add: take_bit_or)
    then show ?thesis unfolding unsigned_take_bit_eq unfolding take_bit_eq_mod by simp
  qed
  then have "unat (ucast (drop_bit 24 offset) OR 0xE0 :: u8) mod 16 = unat offset div 2 ^ 24"
    using assms byte [of 24] by simp
  moreover have "n div 65536 = n div 256 div 256" "n div 16777216 = n div 256 div 256 div 256" for n :: nat
    by (simp_all flip: div_mult2_eq)
  moreover have "n = n mod 256 + 256 * (n div 256 mod 256) + 65536 * (n div 256 div 256 mod 256) + 16777216 * (n div 256 div 256 div 256)" for n :: nat
    using mult_div_mod_eq [of 256 n] mult_div_mod_eq [of 256 "n div 256"] mult_div_mod_eq [of 256 "n div 256 div 256"] by linarith
  ultimately show ?thesis
    using byte [of 0] byte [of 8] byte [of 16] unfolding lba28_def by simp
qed

lemma readsect_at:
  assumes "unat dst = SECTSIZE * b" and "unat off < 2 ^ 28"
  shows "readsect disk m dst off x = (if x div SECTSIZE = b then disk (unat off) (x mod SECTSIZE) else m x)"
proof -
  have "SECTSIZE * b \<le> x \<and> x < SECTSIZE * b + SECTSIZE \<longleftrightarrow> x div SECTSIZE = b"
    by (metis add.commute div_nat_eqI div_times_less_eq_dividend dividend_less_times_div mult.commute mult_Suc_right zero_less_numeral)
  moreover have "x - SECTSIZE * b = x mod SECTSIZE" if "x div SECTSIZE = b" using that by (simp add: modulo_nat_def mult.commute)
  ultimately show ?thesis unfolding readsect_def lba28_sector [OF assms(2)] over_def assms(1) by auto
qed

text \<open>The sectors from \<open>b\<close> on up to the address \<open>e\<close>, on natural numbers.\<close>

lemma readseg_loop_spec:
  assumes "e + SECTSIZE \<le> 2 ^ 32" and "SECTSIZE * b < e + SECTSIZE" and "k + e div SECTSIZE + 1 < 2 ^ 28 + b"
  shows "\<exists>m'. readseg_loop disk m (of_nat (SECTSIZE * b)) (of_nat e) (of_nat k) = Some m' \<and>
    (\<forall>x. m' x = (if b \<le> x div SECTSIZE \<and> SECTSIZE * (x div SECTSIZE) < e then disk (k + (x div SECTSIZE - b)) (x mod SECTSIZE) else m x))"
  using assms
proof (induction "e - SECTSIZE * b" arbitrary: b k m rule: less_induct)
  case less
  have e: "unat (of_nat e :: u32) = e" "unat (of_nat (SECTSIZE * b) :: u32) = SECTSIZE * b"
    using less.prems by (simp_all add: unat_of_nat del: of_nat_mult)
  show ?case
  proof (cases "SECTSIZE * b < e")
    case False
    then have "readseg_loop disk m (of_nat (SECTSIZE * b)) (of_nat e) (of_nat k) = Some m"
      using e by (subst readseg_loop.simps) (simp add: word_less_nat_alt del: of_nat_mult)
    moreover have "\<not> (b \<le> x div SECTSIZE \<and> SECTSIZE * (x div SECTSIZE) < e)" for x
      using False by (meson le_less_trans mult_le_mono2 not_le)
    ultimately show ?thesis by auto
  next
    case True
    have "b \<le> e div SECTSIZE" using True by (simp add: less_eq_div_iff_mult_less_eq mult.commute)
    then have k: "k < 2 ^ 28" "unat (of_nat k :: u32) = k" using less.prems(3) by (auto simp: unat_of_nat)
    let ?m = "readsect disk m (of_nat (SECTSIZE * b)) (of_nat k)"
    have step: "readseg_loop disk m (of_nat (SECTSIZE * b)) (of_nat e) (of_nat k) = readseg_loop disk ?m (of_nat (SECTSIZE * (b + 1))) (of_nat e) (of_nat (k + 1))"
      using True e by (subst readseg_loop.simps) (simp add: word_less_nat_alt algebra_simps)
    have lt: "e - SECTSIZE * (b + 1) < e - SECTSIZE * b" using True by simp
    have "SECTSIZE * (b + 1) < e + SECTSIZE" "k + 1 + e div SECTSIZE + 1 < 2 ^ 28 + (b + 1)" using True less.prems by auto
    from less.hyps [OF lt less.prems(1) this, of ?m] obtain m'
      where m': "readseg_loop disk ?m (of_nat (SECTSIZE * (b + 1))) (of_nat e) (of_nat (k + 1)) = Some m'"
      "\<And>x. m' x = (if b + 1 \<le> x div SECTSIZE \<and> SECTSIZE * (x div SECTSIZE) < e then disk (k + 1 + (x div SECTSIZE - (b + 1))) (x mod SECTSIZE) else ?m x)"
      by blast
    have "?m x = (if x div SECTSIZE = b then disk k (x mod SECTSIZE) else m x)" for x
      using readsect_at [OF e(2), of "of_nat k"] k by simp
    moreover have "k + 1 + (y - (b + 1)) = k + (y - b)" if "b + 1 \<le> y" for y using that by simp
    ultimately have "m' x = (if b \<le> x div SECTSIZE \<and> SECTSIZE * (x div SECTSIZE) < e then disk (k + (x div SECTSIZE - b)) (x mod SECTSIZE) else m x)" for x
      using True unfolding m'(2) by (cases "x div SECTSIZE" b rule: linorder_cases) auto
    then show ?thesis using step m'(1) by (metis (no_types, lifting))
  qed
qed

lemma sector_shift:
  "i = n * q + r \<Longrightarrow> a = n * b + r \<Longrightarrow> x = n * (b + d) + t \<Longrightarrow> i + x - a = n * (q + d) + t" for i a x n q b d r t :: nat
  by (simp add: distrib_left)

lemma readseg_spec:
  assumes "unat pa + unat cnt + SECTSIZE \<le> 2 ^ 32" and "unat pa mod SECTSIZE = unat off mod SECTSIZE"
  shows "\<exists>m'. readseg disk m pa cnt off = Some m' \<and>
    (\<forall>x. m' x = (if unat pa div SECTSIZE \<le> x div SECTSIZE \<and> SECTSIZE * (x div SECTSIZE) < unat pa + unat cnt
                 then kimage disk (unat off + x - unat pa) else m x))"
proof -
  let ?b = "unat pa div SECTSIZE" and ?e = "unat pa + unat cnt" and ?k = "unat off div SECTSIZE + 1"
  have b: "pa AND NOT (512 - 1) = of_nat (SECTSIZE * ?b)"
  proof (rule word_unat_eq_iff [THEN iffD2])
    have "(512 - 1 :: u32) = mask 9" by (simp add: mask_eq_exp_minus_1)
    moreover have "SECTSIZE * ?b < 2 ^ 32" by (rule le_less_trans [OF times_div_less_eq_dividend]) (use unsigned_less [of pa] in simp)
    ultimately show "unat (pa AND NOT (512 - 1)) = unat (of_nat (SECTSIZE * ?b) :: u32)"
      using unat_clear_low [of pa 9] by (simp add: unat_of_nat mult.commute del: of_nat_mult)
  qed
  have e: "pa + cnt = of_nat ?e" by simp
  have k: "off div 512 + 1 = of_nat ?k"
    by (simp add: word_arith_nat_div)
  have pre: "?e + SECTSIZE \<le> 2 ^ 32" "SECTSIZE * ?b < ?e + SECTSIZE" "?k + ?e div SECTSIZE + 1 < 2 ^ 28 + ?b"
  proof -
    have off: "unat off < 2 ^ 32" using unsigned_less [of off] by simp
    have "?e div SECTSIZE \<le> 2 ^ 32 div SECTSIZE" "unat off div SECTSIZE \<le> 2 ^ 32 div SECTSIZE"
      using assms(1) off by (intro div_le_mono; simp)+
    then show "?k + ?e div SECTSIZE + 1 < 2 ^ 28 + ?b" by simp
    have "SECTSIZE * ?b \<le> unat pa" by simp
    then show "SECTSIZE * ?b < ?e + SECTSIZE" by simp
  qed (rule assms(1))
  have at: "disk (?k + (x div SECTSIZE - ?b)) (x mod SECTSIZE) = kimage disk (unat off + x - unat pa)" if le: "?b \<le> x div SECTSIZE" for x
  proof -
    obtain d where d: "x div SECTSIZE = ?b + d" using le_Suc_ex [OF le] by auto
    have "unat pa = SECTSIZE * ?b + unat off mod SECTSIZE" unfolding assms(2) [symmetric] by (rule mult_div_mod_eq [symmetric])
    moreover have "x = SECTSIZE * (?b + d) + x mod SECTSIZE" unfolding d [symmetric] by (rule mult_div_mod_eq [symmetric])
    ultimately have "unat off + x - unat pa = SECTSIZE * (unat off div SECTSIZE + d) + x mod SECTSIZE"
      by (rule sector_shift [OF mult_div_mod_eq [symmetric]])
    then have "unat off + x - unat pa = SECTSIZE * (unat off div SECTSIZE + (x div SECTSIZE - ?b)) + x mod SECTSIZE" by (simp add: d)
    then show ?thesis by (simp only: kimage_at mod_less_divisor zero_less_numeral) (simp add: add.commute add.left_commute)
  qed
  obtain m' where m': "readseg_loop disk m (of_nat (SECTSIZE * ?b)) (of_nat ?e) (of_nat ?k) = Some m'"
    "\<And>x. m' x = (if ?b \<le> x div SECTSIZE \<and> SECTSIZE * (x div SECTSIZE) < ?e then disk (?k + (x div SECTSIZE - ?b)) (x mod SECTSIZE) else m x)"
    using readseg_loop_spec [OF pre, of disk m] by blast
  have "readseg disk m pa cnt off = Some m'" unfolding readseg_def Let_def b e k by (rule m'(1))
  then show ?thesis using m'(2) at by (intro exI [of _ m']) simp
qed

section \<open>Well-formed kernels\<close>

text \<open>The header of the image and of its segments, as numbers.\<close>

definition img_phoff :: "(nat \<Rightarrow> u8) \<Rightarrow> nat" where "img_phoff img = unat (rd32 img 28)"
definition img_phnum :: "(nat \<Rightarrow> u8) \<Rightarrow> nat" where "img_phnum img = unat (rd16 img 44)"
definition seg_offset :: "(nat \<Rightarrow> u8) \<Rightarrow> nat \<Rightarrow> nat" where "seg_offset img k = unat (rd32 img (img_phoff img + 32 * k + 4))"
definition seg_pa :: "(nat \<Rightarrow> u8) \<Rightarrow> nat \<Rightarrow> nat" where "seg_pa img k = unat (rd32 img (img_phoff img + 32 * k + 12))"
definition seg_filesz :: "(nat \<Rightarrow> u8) \<Rightarrow> nat \<Rightarrow> nat" where "seg_filesz img k = unat (rd32 img (img_phoff img + 32 * k + 16))"
definition seg_memsz :: "(nat \<Rightarrow> u8) \<Rightarrow> nat \<Rightarrow> nat" where "seg_memsz img k = unat (rd32 img (img_phoff img + 32 * k + 20))"

text \<open>All headers are in the first page, segments are above the page that holds them, have the same position in a sector on the disk and in memory, and
  are in increasing order without sharing a sector.\<close>

definition bootable :: "(nat \<Rightarrow> u8) \<Rightarrow> bool" where
  "bootable img \<longleftrightarrow> rd32 img 0 = ELF_MAGIC \<and> img_phoff img + 32 * img_phnum img \<le> 4096 \<and>
     (\<forall>k < img_phnum img. seg_pa img k mod SECTSIZE = seg_offset img k mod SECTSIZE \<and> seg_filesz img k \<le> seg_memsz img k \<and>
        0x11000 \<le> seg_pa img k \<and> seg_pa img k + seg_memsz img k + SECTSIZE \<le> 2 ^ 32 \<and>
        (\<forall>i < k. seg_pa img i + seg_memsz img i \<le> SECTSIZE * (seg_pa img k div SECTSIZE)))"

definition loaded :: "(nat \<Rightarrow> u8) \<Rightarrow> (nat \<Rightarrow> u8) \<Rightarrow> nat \<Rightarrow> bool" where
  "loaded img m k \<longleftrightarrow>
     (\<forall>j < seg_memsz img k. m (seg_pa img k + j) = (if j < seg_filesz img k then img (seg_offset img k + j) else 0))"

text \<open>The first page of the image is in memory.\<close>

definition header_in :: "(nat \<Rightarrow> u8) \<Rightarrow> (nat \<Rightarrow> u8) \<Rightarrow> bool" where
  "header_in img m \<longleftrightarrow> (\<forall>x < 4096. m (0x10000 + x) = img x)"

lemma header_ld:
  assumes "header_in img m"
  shows "unat a = 0x10000 + x \<Longrightarrow> x + 4 \<le> 4096 \<Longrightarrow> ld32 m a = rd32 img x" "unat a = 0x10000 + x \<Longrightarrow> x + 2 \<le> 4096 \<Longrightarrow> ld16 m a = rd16 img x"
proof -
  have at: "m (unat (a + of_nat k)) = img (x + k)" if "unat a = 0x10000 + x" "x + k < 4096" for k
  proof -
    have "unat (of_nat k :: u32) = k" using that by (simp add: unat_of_nat)
    then have "unat (a + of_nat k) = 0x10000 + (x + k)" by (subst unat_add_lem [THEN iffD1]) (use that in simp_all)
    then show ?thesis using assms that by (simp add: header_in_def)
  qed
  show "ld32 m a = rd32 img x" if "unat a = 0x10000 + x" "x + 4 \<le> 4096"
    using at [of 0] at [of 1] at [of 2] at [of 3] that by (simp add: ld32_def rd32_def)
  show "ld16 m a = rd16 img x" if "unat a = 0x10000 + x" "x + 2 \<le> 4096"
    using at [of 0] at [of 1] that by (simp add: ld16_def rd16_def)
qed

lemma header_field:
  assumes "header_in img m" and "unat ph = 0x10000 + x" and "x + c + 4 \<le> 4096"
  shows "ld32 m (ph + of_nat c) = rd32 img (x + c)"
proof (rule header_ld(1) [OF assms(1)])
  have "unat (of_nat c :: u32) = c" using assms(3) by (simp add: unat_of_nat)
  then show "unat (ph + of_nat c) = 0x10000 + (x + c)" by (subst unat_add_lem [THEN iffD1]) (use assms in simp_all)
qed (use assms in simp)

lemma header_fields:
  assumes "header_in img m" and "unat ph = 0x10000 + x" and "x + 32 \<le> 4096"
  shows "ph_offset m ph = rd32 img (x + 4)" "ph_pa m ph = rd32 img (x + 12)" "ph_filesz m ph = rd32 img (x + 16)" "ph_memsz m ph = rd32 img (x + 20)"
  using header_field [OF assms(1,2), of 4] header_field [OF assms(1,2), of 12] header_field [OF assms(1,2), of 16] header_field [OF assms(1,2), of 20] assms(3)
  by simp_all

lemma zero_loop_spec:
  assumes "header_in img m" and ph: "unat ph = 0x10000 + x" "x + 32 \<le> 4096"
    and p: "p = unat (rd32 img (x + 12))" and f: "f = unat (rd32 img (x + 16))" and z: "z = unat (rd32 img (x + 20))"
    and bounds: "0x11000 \<le> p" "p + z < 2 ^ 32" "f \<le> z" and "i \<le> z - f"
  shows "\<exists>m'. zero_loop m ph (of_nat i) = Some m' \<and> (\<forall>y. m' y = (if p + f + i \<le> y \<and> y < p + z then 0 else m y))"
  using assms(1,10)
proof (induction "z - f - i" arbitrary: i m)
  case (0 i m)
  have "unat (of_nat i :: u32) = i" using 0 bounds by (simp add: unat_of_nat)
  moreover have "unat (rd32 img (x + 20) - rd32 img (x + 16)) = z - f" using bounds(3) by (simp add: unat_sub word_le_nat_alt f z)
  moreover have "\<not> i < z - f" using 0(1) by simp
  ultimately have "zero_loop m ph (of_nat i) = Some m"
    by (subst zero_loop.simps) (simp add: header_fields [OF 0(2) ph] word_less_nat_alt)
  then show ?case using 0 bounds by auto
next
  case (Suc n i m)
  have i: "unat (of_nat i :: u32) = i" using Suc bounds by (simp add: unat_of_nat)
  have less: "unat (rd32 img (x + 20) - rd32 img (x + 16)) = z - f" using bounds(3) by (simp add: unat_sub word_le_nat_alt f z)
  have "rd32 img (x + 12) + rd32 img (x + 16) + of_nat i = of_nat (p + f + i)" by (simp add: p f)
  moreover have "p + f + i < 2 ^ 32" using Suc bounds by simp
  ultimately have at: "unat (rd32 img (x + 12) + rd32 img (x + 16) + of_nat i) = p + f + i" by (simp add: unat_of_nat del: of_nat_add)
  let ?m = "m(p + f + i := 0)"
  have "header_in img ?m" using Suc(3) bounds(1) by (simp add: header_in_def)
  moreover have n: "n = z - f - Suc i" "Suc i \<le> z - f" using Suc(2) by auto
  ultimately obtain m'
    where m': "zero_loop ?m ph (of_nat (Suc i)) = Some m'" "\<forall>y. m' y = (if p + f + Suc i \<le> y \<and> y < p + z then 0 else ?m y)" using Suc(1) by blast
  have "zero_loop m ph (of_nat i) = zero_loop ?m ph (of_nat (Suc i))"
    using n(2) i less unfolding of_nat_Suc add.commute [of 1] by (subst zero_loop.simps) (simp add: header_fields [OF Suc(3) ph] word_less_nat_alt at)
  moreover have "m' y = (if p + f + i \<le> y \<and> y < p + z then 0 else m y)" for y using m'(2) Suc(2) by auto
  ultimately show ?case using m'(1) by auto
qed

lemma load_step:
  assumes good: "bootable img" and k: "k < img_phnum img" and hd: "header_in img m" and img: "img = kimage disk"
    and ph: "unat ph = 0x10000 + img_phoff img + 32 * k"
  obtains m1 m2 where "readseg disk m (ph_pa m ph) (ph_memsz m ph) (ph_offset m ph) = Some m1" and "zero_loop m1 ph 0 = Some m2"
    and "header_in img m2" and "loaded img m2 k" and "\<And>x. x < SECTSIZE * (seg_pa img k div SECTSIZE) \<Longrightarrow> m2 x = m x"
proof -
  let ?p = "seg_pa img k" and ?z = "seg_memsz img k" and ?f = "seg_filesz img k" and ?o = "seg_offset img k"
  let ?x = "img_phoff img + 32 * k"
  have g: "?p mod SECTSIZE = ?o mod SECTSIZE" "?f \<le> ?z" "0x11000 \<le> ?p" "?p + ?z + SECTSIZE \<le> 2 ^ 32" "?x + 32 \<le> 4096"
    using good k by (auto simp: bootable_def)
  have ph': "unat ph = 0x10000 + ?x" using ph by simp
  note fields = header_fields [OF hd ph' g(5)]
  obtain m1 where m1: "readseg disk m (ph_pa m ph) (ph_memsz m ph) (ph_offset m ph) = Some m1"
    "\<And>x. m1 x = (if ?p div SECTSIZE \<le> x div SECTSIZE \<and> SECTSIZE * (x div SECTSIZE) < ?p + ?z then img (?o + x - ?p) else m x)"
    using readseg_spec [of "ph_pa m ph" "ph_memsz m ph" "ph_offset m ph" disk m] g
    unfolding fields by (auto simp: seg_pa_def seg_memsz_def seg_offset_def img)
  have low: "m1 x = m x" if "x < SECTSIZE * (?p div SECTSIZE)" for x
    using that by (auto simp: m1(2) less_mult_imp_div_less mult.commute not_le)
  have page: "0x11000 \<le> SECTSIZE * (?p div SECTSIZE)" using div_le_mono [OF g(3), of SECTSIZE] by simp
  have hd1: "header_in img m1" using hd low page by (simp add: header_in_def)
  obtain m2 where m2: "zero_loop m1 ph (of_nat 0) = Some m2" "\<And>y. m2 y = (if ?p + ?f + 0 \<le> y \<and> y < ?p + ?z then 0 else m1 y)"
    using zero_loop_spec [OF hd1 ph' g(5) seg_pa_def seg_filesz_def seg_memsz_def g(3) _ g(2), of 0] g(4) by auto
  have "m1 (?p + j) = img (?o + j)" if "j < ?z" for j
  proof -
    have "?p div SECTSIZE \<le> (?p + j) div SECTSIZE" by (simp add: div_le_mono)
    moreover have "SECTSIZE * ((?p + j) div SECTSIZE) \<le> ?p + j" by simp
    then have "SECTSIZE * ((?p + j) div SECTSIZE) < ?p + ?z" using that by linarith
    ultimately show ?thesis by (simp add: m1(2))
  qed
  then have "loaded img m2 k" by (auto simp: loaded_def m2(2))
  moreover have "m2 x = m x" if "x < SECTSIZE * (?p div SECTSIZE)" for x
  proof -
    have "x < ?p" by (rule less_le_trans [OF that]) simp
    then show ?thesis using low [OF that] by (simp add: m2(2))
  qed
  moreover have "header_in img m2" using hd1 g(3) by (auto simp: header_in_def m2(2))
  ultimately show ?thesis using m1(1) m2(1) by - (rule that [of m1 m2], auto)
qed

lemma load_loop_spec:
  assumes good: "bootable img" and img: "img = kimage disk" and "k \<le> img_phnum img" and "header_in img m" and "\<forall>i < k. loaded img m i"
  shows "\<exists>m'. load_loop disk m (of_nat (0x10000 + img_phoff img + 32 * k)) (of_nat (0x10000 + img_phoff img + 32 * img_phnum img)) = Some m' \<and>
    header_in img m' \<and> (\<forall>i < img_phnum img. loaded img m' i)"
  using assms(3-5)
proof (induction "img_phnum img - k" arbitrary: k m)
  case (0 k m)
  then show ?case by (subst load_loop.simps) simp
next
  case (Suc n k m)
  let ?ph = "of_nat (0x10000 + img_phoff img + 32 * k) :: u32" and ?eph = "of_nat (0x10000 + img_phoff img + 32 * img_phnum img) :: u32"
  have page: "img_phoff img + 32 * img_phnum img \<le> 4096" and k: "k < img_phnum img" using good Suc(2) by (auto simp: bootable_def)
  have ph: "unat ?ph = 0x10000 + img_phoff img + 32 * k" "unat ?eph = 0x10000 + img_phoff img + 32 * img_phnum img"
    using page k by (simp_all add: unat_of_nat del: of_nat_add of_nat_mult)
  obtain m1 m2 where m: "readseg disk m (ph_pa m ?ph) (ph_memsz m ?ph) (ph_offset m ?ph) = Some m1" "zero_loop m1 ?ph 0 = Some m2"
    "header_in img m2" "loaded img m2 k" "\<And>x. x < SECTSIZE * (seg_pa img k div SECTSIZE) \<Longrightarrow> m2 x = m x"
    by (rule load_step [OF good k Suc(4) img ph(1)]) blast
  have "loaded img m2 i" if "i < Suc k" for i
  proof (cases "i = k")
    case False
    then have "seg_pa img i + seg_memsz img i \<le> SECTSIZE * (seg_pa img k div SECTSIZE)" "loaded img m i" using good k that Suc(5) by (auto simp: bootable_def)
    then show ?thesis using m(5) by (simp add: loaded_def)
  qed (simp add: m(4))
  moreover have "n = img_phnum img - Suc k" "Suc k \<le> img_phnum img" using Suc(2) k by auto
  ultimately obtain m' where m': "load_loop disk m2 (of_nat (0x10000 + img_phoff img + 32 * Suc k)) ?eph = Some m'"
    "header_in img m'" "\<forall>i < img_phnum img. loaded img m' i" using Suc(1) m(3) by blast
  have lt: "?ph < ?eph" unfolding word_less_nat_alt ph using k by simp
  have add: "of_nat (0x10000 + img_phoff img + 32 * Suc k) = ?ph + 32" by simp
  have "load_loop disk m ?ph ?eph = load_loop disk m2 (of_nat (0x10000 + img_phoff img + 32 * Suc k)) ?eph"
    unfolding add by (subst load_loop.simps) (simp only: lt if_True m bind.bind_lunit)
  then show ?case using m' by auto
qed

section \<open>The first page directory\<close>

text \<open>\<open>pt\<close> is the address at which the linker puts \<^verbatim>\<open>entry_pgtable\<close>.\<close>

definition entry_pgdir :: "u32 \<Rightarrow> nat \<Rightarrow> u32" where
  "entry_pgdir pt = (\<lambda>_. 0)(0 := (pt - KERNBASE) + PTE_P, unat (drop_bit 22 KERNBASE) := (pt - KERNBASE) + PTE_P + PTE_W)"

definition entry_pgtable :: "nat \<Rightarrow> u32" where
  "entry_pgtable i = (of_nat i * 0x1000) OR PTE_P OR PTE_W"

text \<open>What the processor makes of an address: the only page table in memory is \<^verbatim>\<open>entry_pgtable\<close>.\<close>

definition entry_translate :: "u32 \<Rightarrow> u32 \<Rightarrow> u32 option" where
  "entry_translate pt la =
     (let pde = entry_pgdir pt (unat (PDX la)); pte = entry_pgtable (unat (PTX la)) in
      if pde AND PTE_P \<noteq> 0 \<and> PTE_ADDR pde = pt - KERNBASE \<and> pte AND PTE_P \<noteq> 0 then Some (PTE_ADDR pte + PGOFF la) else None)"

lemma aligned_entry:
  assumes "unat a mod 4096 = 0" and "unat f < 4096"
  shows "PTE_ADDR (a + f) = a"
proof -
  have "unat a + unat f < 2 ^ 32"
  proof -
    have "unat a div 4096 < 1048576" by (rule less_mult_imp_div_less) (use unsigned_less [of a] in simp)
    moreover have "unat a = 4096 * (unat a div 4096)" using assms mult_div_mod_eq [of 4096 "unat a"] by linarith
    ultimately have "unat a + unat f < 4294967296" using assms(2) by linarith
    then show ?thesis by simp
  qed
  then have "unat (a + f) = unat a + unat f" by (subst unat_add_lem [THEN iffD1]) simp_all
  moreover have "(unat a + unat f) mod 4096 = unat f" using assms by (simp add: mod_add_left_eq [symmetric])
  ultimately have "unat (PTE_ADDR (a + f)) = unat a" unfolding unat_PTE_ADDR by simp
  then show ?thesis by (simp add: word_unat_eq_iff)
qed

lemma entry_pgtable_addr:
  assumes "i < 1024"
  shows "unat (PTE_ADDR (entry_pgtable i)) = 4096 * i" and "entry_pgtable i AND PTE_P \<noteq> 0"
proof -
  have e: "entry_pgtable i = mk_pte i PTE_W"
    by (simp add: entry_pgtable_def mk_pte_def push_bit_eq_mult or.commute or.left_commute mult.commute)
  have "pfn (entry_pgtable i) = i" unfolding e by (rule pfn_mk_pte) (use assms in \<open>simp_all add: perm_bits_def\<close>)
  then have "unat (entry_pgtable i) div 4096 = i" by (simp add: pfn_def unat_PGNUM)
  then show "unat (PTE_ADDR (entry_pgtable i)) = 4096 * i" by (simp add: unat_PTE_ADDR minus_mod_eq_mult_div)
  show "entry_pgtable i AND PTE_P \<noteq> 0" unfolding e using present_mk_pte [of i PTE_W] by (simp add: present_def)
qed

lemma quotient_range: "0 < d \<Longrightarrow> n div d = q \<longleftrightarrow> d * q \<le> n \<and> n < d * Suc q" for n d q :: nat
  using times_div_less_eq_dividend [of d n] dividend_less_times_div [of d n] by (auto intro: div_nat_eqI)

text \<open>The first four megabytes of physical memory are mapped at 0 and at \<^verbatim>\<open>KERNBASE\<close>, and nothing else is mapped.\<close>

lemma entry_maps_4MB:
  assumes "unat (pt - KERNBASE) mod 4096 = 0"
  shows "entry_translate pt la =
    (if unat la < 4194304 then Some la else if 0xF0000000 \<le> unat la \<and> unat la < 0xF0400000 then Some (la - KERNBASE) else None)"
proof -
  have "PTE_ADDR (entry_pgtable (unat (PTX la))) + PGOFF la = of_nat (unat (PTE_ADDR (entry_pgtable (unat (PTX la)))) + unat (PGOFF la))" by simp
  also have "unat (PTE_ADDR (entry_pgtable (unat (PTX la)))) + unat (PGOFF la) = unat la mod 4194304"
    using mod_mult2_eq [of "unat la" 4096 1024] by (simp add: entry_pgtable_addr(1) unat_PTX unat_PGOFF)
  finally have addr: "PTE_ADDR (entry_pgtable (unat (PTX la))) + PGOFF la = of_nat (unat la mod 4194304)" .
  have "unat la div 4194304 = 0 \<longleftrightarrow> unat la < 4194304" "unat la div 4194304 = 960 \<longleftrightarrow> 0xF0000000 \<le> unat la \<and> unat la < 0xF0400000"
    using quotient_range [of 4194304 "unat la" 0] quotient_range [of 4194304 "unat la" 960] by simp_all
  then have dir: "entry_pgdir pt (unat (PDX la)) =
    (if unat la < 4194304 then (pt - KERNBASE) + 1 else if 0xF0000000 \<le> unat la \<and> unat la < 0xF0400000 then (pt - KERNBASE) + 3 else 0)"
    by (simp add: entry_pgdir_def unat_PDX drop_bit_eq_div)
  have "unat (pt - KERNBASE) = 4096 * (unat (pt - KERNBASE) div 4096)"
    using assms mult_div_mod_eq [of 4096 "unat (pt - KERNBASE)"] by linarith
  from arg_cong [OF this, of "of_nat :: nat \<Rightarrow> u32"] have "pt - KERNBASE = 4096 * of_nat (unat (pt - KERNBASE) div 4096)"
    unfolding of_nat_mult by simp
  moreover have "even (4096 * x)" for x :: u32 by simp
  ultimately have "even (pt - KERNBASE)" by metis
  then have flags: "((pt - KERNBASE) + 1) AND PTE_P \<noteq> 0" "((pt - KERNBASE) + 3) AND PTE_P \<noteq> 0"
    unfolding and_one_eq by (simp_all add: mod2_eq_if)
  have "unat la mod 4194304 = unat la - 0xF0000000" if "0xF0000000 \<le> unat la" "unat la < 0xF0400000"
    using that quotient_range [of 4194304 "unat la" 960] by (simp add: modulo_nat_def)
  then show ?thesis
    unfolding entry_translate_def Let_def addr dir using flags aligned_entry [OF assms, of 1] aligned_entry [OF assms, of 3] entry_pgtable_addr(2) [OF PTX_bound, of la]
    by (auto simp: of_nat_diff)
qed

text \<open>C36. The boot loader jumps to the entry point of a well-formed kernel image, with every byte of every segment at its physical address and the rest of the
  segment zeroed. Segments are read in whole sectors, so that bytes around a segment are overwritten; they are loaded in increasing order, and none is damaged.\<close>

theorem bootmain_loads_kernel:
  assumes "bootable (kimage disk)"
  shows "\<exists>m'. bootmain disk m = Some (Jump (rd32 (kimage disk) 24) m') \<and> (\<forall>k < img_phnum (kimage disk). loaded (kimage disk) m' k)"
proof -
  let ?img = "kimage disk"
  obtain m1 where m1: "readseg disk m ELFHDR (512 * 8) 0 = Some m1" "\<And>x. m1 x = (if 128 \<le> x div SECTSIZE \<and> SECTSIZE * (x div SECTSIZE) < 0x11000 then ?img (x - 0x10000) else m x)"
    using readseg_spec [of ELFHDR "512 * 8" 0 disk m] by auto
  have hd: "header_in ?img m1"
    unfolding header_in_def
  proof (intro allI impI)
    fix x :: nat
    assume "x < 4096"
    then have "(65536 + x) div SECTSIZE = 128 + x div SECTSIZE" "SECTSIZE * (x div SECTSIZE) < 4096"
      using le_less_trans [OF times_div_less_eq_dividend [of SECTSIZE x]] by simp_all
    then show "m1 (0x10000 + x) = ?img x" unfolding m1(2) by simp
  qed
  have page: "img_phoff ?img + 32 * img_phnum ?img \<le> 4096" and magic: "rd32 ?img 0 = ELF_MAGIC" using assms by (auto simp: bootable_def)
  obtain m' where m': "load_loop disk m1 (of_nat (0x10000 + img_phoff ?img + 32 * 0)) (of_nat (0x10000 + img_phoff ?img + 32 * img_phnum ?img)) = Some m'"
    "header_in ?img m'" "\<forall>i < img_phnum ?img. loaded ?img m' i"
    using load_loop_spec [OF assms refl _ hd, of 0] by auto
  have at: "ld32 m1 ELFHDR = rd32 ?img 0" "ld32 m1 (ELFHDR + 28) = rd32 ?img 28" "ld16 m1 (ELFHDR + 44) = rd16 ?img 44" "ld32 m' (ELFHDR + 24) = rd32 ?img 24"
    by (rule header_ld [OF hd] header_ld [OF m'(2)]; simp)+
  have ph: "ELFHDR + rd32 ?img 28 = of_nat (0x10000 + img_phoff ?img + 32 * 0)"
    "ELFHDR + rd32 ?img 28 + 32 * ucast (rd16 ?img 44) = of_nat (0x10000 + img_phoff ?img + 32 * img_phnum ?img)"
    by (simp_all add: img_phoff_def img_phnum_def of_nat_unat)
  have "bootmain disk m = Some (Jump (rd32 ?img 24) m')"
    unfolding bootmain_def m1(1) Let_def bind.bind_lunit at(1-3) magic unfolding ph(2) unfolding ph(1) m'(1) bind.bind_lunit at(4) by simp
  then show ?thesis using m'(3) by blast
qed

text \<open>A kernel of one segment with eight bytes in the file and sixteen in memory.\<close>

definition tiny_kernel :: "nat \<Rightarrow> u8" where
  "tiny_kernel x =
     (if 4096 \<le> x then 1
      else ((\<lambda>_. 0)(0 := 0x7F, 1 := 0x45, 2 := 0x4C, 3 := 0x46, 24 := 0x0C, 26 := 0x10, 28 := 52, 44 := 1, 57 := 0x10, 66 := 0x10, 68 := 8, 72 := 16)) x)"

lemma tiny_kernel_image: "kimage (\<lambda>s k. tiny_kernel (SECTSIZE * (s - 1) + k)) = tiny_kernel"
  by (simp add: fun_eq_iff kimage_def)

lemma tiny_kernel_fields:
  "img_phoff tiny_kernel = 52" "img_phnum tiny_kernel = 1" "rd32 tiny_kernel 0 = ELF_MAGIC" "rd32 tiny_kernel 24 = 0x10000C"
  "seg_pa tiny_kernel 0 = 0x100000" "seg_offset tiny_kernel 0 = 4096" "seg_filesz tiny_kernel 0 = 8" "seg_memsz tiny_kernel 0 = 16"
  by (simp_all add: img_phoff_def img_phnum_def seg_pa_def seg_offset_def seg_filesz_def seg_memsz_def rd32_def rd16_def tiny_kernel_def)

theorem bootmain_loads_kernel_witness:
  "\<exists>m'. bootmain (\<lambda>s k. tiny_kernel (SECTSIZE * (s - 1) + k)) (\<lambda>_. 7) = Some (Jump 0x10000C m') \<and> m' 0x100007 = 1 \<and> m' 0x100008 = 0"
proof -
  have "bootable tiny_kernel" by (simp add: bootable_def tiny_kernel_fields)
  from bootmain_loads_kernel [of "\<lambda>s k. tiny_kernel (SECTSIZE * (s - 1) + k)" "\<lambda>_. 7", unfolded tiny_kernel_image tiny_kernel_fields, OF this]
  obtain m' where "bootmain (\<lambda>s k. tiny_kernel (SECTSIZE * (s - 1) + k)) (\<lambda>_. 7) = Some (Jump 0x10000C m')" and l: "loaded tiny_kernel m' 0" by auto
  moreover have "m' (0x100000 + 7) = 1" "m' (0x100000 + 8) = 0"
    using l [unfolded loaded_def tiny_kernel_fields, rule_format, of 7] l [unfolded loaded_def tiny_kernel_fields, rule_format, of 8]
    by (simp_all add: tiny_kernel_def)
  ultimately show ?thesis by auto
qed

end
