(* ===== verification/Spec2Isabelle.thy ===== *)
theory Spec2Isabelle
  imports KernMap Trap Kdebug Printf FsServ Pipe Fd LwipMem Inet Boot
begin

text \<open>
  Verification of JOS, the operating system of the MIT 6.828 labs, as it stands at the end of the last lab: \<^verbatim>\<open>lab/kern\<close> (the kernel),
  \<^verbatim>\<open>lab/lib\<close> (the user library), \<^verbatim>\<open>lab/fs\<close> (the file system server) and \<^verbatim>\<open>lab/inc\<close> (shared headers). All file
  names below are relative to \<^verbatim>\<open>src/lab\<close>.

  \<^bold>\<open>The program.\<close> The kernel is a small exokernel. Its memory manager hands out physical pages and maintains two-level page
  tables (\<^verbatim>\<open>kern/pmap.c\<close>); environments are processes with an address space each (\<^verbatim>\<open>kern/env.c\<close>), scheduled round robin
  (\<^verbatim>\<open>kern/sched.c\<close>) under one big lock (\<^verbatim>\<open>kern/spinlock.c\<close>). User programs enter the kernel by traps (\<^verbatim>\<open>kern/trap.c\<close>), which dispatch page
  faults, interrupts and system calls (\<^verbatim>\<open>kern/syscall.c\<close>). The calls only allocate, share and unmap pages, create environments and pass messages;
  everything else is built on them at user level: fork with copy-on-write (\<^verbatim>\<open>lib/fork.c\<close>), file descriptors (\<^verbatim>\<open>lib/fd.c\<close>), pipes
  (\<^verbatim>\<open>lib/pipe.c\<close>), and a file system server (\<^verbatim>\<open>fs/bc.c\<close>, \<^verbatim>\<open>fs/fs.c\<close>, \<^verbatim>\<open>fs/serv.c\<close>) that clients reach by messages.

  \<^bold>\<open>Theories and the code they model.\<close>
  \<^item> \<open>Prelude\<close>: machine types, error codes of \<^verbatim>\<open>inc/error.h\<close>, lists threaded through next pointers, and general lemmas.
  \<^item> \<open>Fifo\<close>: the locale \<open>fifo\<close>, the contract of a bounded queue, and the arithmetic of ring buffers. The console interprets it.
  \<^item> \<open>Mmu\<close>: \<^verbatim>\<open>inc/mmu.h\<close>, \<^verbatim>\<open>inc/memlayout.h\<close>, \<^verbatim>\<open>inc/types.h\<close>; addresses are 32-bit words.
  \<^item> \<open>Console\<close>, \<open>E1000\<close>: \<^verbatim>\<open>kern/console.c\<close> and \<^verbatim>\<open>kern/e1000.c\<close>, with the device side as fields of the state.
  \<^item> \<open>KState\<close>: the record \<open>kstate\<close> with one field per kernel global; pointers into \<^verbatim>\<open>pages[]\<close> and \<^verbatim>\<open>envs[]\<close> are indices, physical
    memory is \<open>frames\<close>. Operations of the memory manager return an option (\<open>None\<close> is a panic); operations that may leave the kernel return an \<open>outcome\<close>.
  \<^item> \<open>PageAlloc\<close>, \<open>PageTable\<close>: the two halves of \<^verbatim>\<open>kern/pmap.c\<close>. \<open>free_list\<close> is the invariant of the free list and the locale
    \<open>page_pool\<close> its contract. \<open>umap\<close> is the abstract address space, one finite map over all live page directories; \<open>vm_inv\<close> ties it to reference counts and
    the free list. The locale \<open>paging\<close>, interpreted on \<^verbatim>\<open>page_insert\<close> and \<^verbatim>\<open>page_remove\<close>, says that they are point updates of the map.
  \<^item> \<open>KernMap\<close>: the start of the memory manager, \<^verbatim>\<open>mem_init\<close> of \<^verbatim>\<open>kern/pmap.c\<close> in two halves, and its self test \<^verbatim>\<open>check_kern_pgdir\<close>. \<open>memlayout\<close> is the
    memory map of the kernel as a function of the page of the address space.
  \<^item> \<open>Spinlock\<close>: \<^verbatim>\<open>kern/spinlock.c\<close>, with a step relation that interleaves the processors, and \<^verbatim>\<open>kern/time.c\<close>.
  \<^item> \<open>Env\<close>, \<open>Sched\<close>: \<^verbatim>\<open>kern/env.c\<close> and \<^verbatim>\<open>kern/sched.c\<close>. \<open>env_inv\<close> is the invariant of the environment table.
  \<^item> \<open>Syscall\<close>, \<open>UserMem\<close>, \<open>Trap\<close>: \<^verbatim>\<open>kern/syscall.c\<close>, access to user memory through the loaded page directory, \<^verbatim>\<open>kern/trap.c\<close>.
  \<^item> \<open>Boot\<close>: \<^verbatim>\<open>boot/main.c\<close>, which loads the kernel, and \<^verbatim>\<open>kern/entrypgdir.c\<close>, the first page directory.
  \<^item> \<open>Kdebug\<close>: \<^verbatim>\<open>kern/kdebug.c\<close>.
  \<^item> \<open>CString\<close>, \<open>Printf\<close>: \<^verbatim>\<open>lib/string.c\<close>, \<^verbatim>\<open>lib/printfmt.c\<close> and the two \<^verbatim>\<open>printf.c\<close>, over a memory of bytes. The locale \<open>sink\<close> is what the formatter
    needs of the function that puts a character; it is interpreted for the three such functions in the code.
  \<^item> \<open>AddressSpace\<close>, \<open>Fork\<close>, \<open>Fd\<close>: the user library on top of the kernel. \<open>calling\<close> says that an environment runs on a kernel that keeps its invariants;
    \<open>AddressSpace\<close> states when the system calls succeed and what they do to the abstract map; \<open>Fork\<close> is \<^verbatim>\<open>lib/fork.c\<close> and \<^verbatim>\<open>lib/pgfault.c\<close>; \<open>Fd\<close> is
    \<^verbatim>\<open>lib/fd.c\<close>, \<^verbatim>\<open>lib/pageref.c\<close> and the creation of pipes.
  \<^item> \<open>Pipe\<close>: the two loops of \<^verbatim>\<open>lib/pipe.c\<close> as interleaved steps of a writer and a reader on the shared page.
  \<^item> \<open>BlockCache\<close>, \<open>Fs\<close>, \<open>FsServ\<close>: \<^verbatim>\<open>fs/bc.c\<close>, \<^verbatim>\<open>fs/fs.c\<close> and \<^verbatim>\<open>fs/serv.c\<close>. The \<open>view\<close> of the disk is what the server sees through its cache; a file that
    owns its blocks is an array of bytes.
  \<^item> \<open>Inet\<close>: \<^verbatim>\<open>net/lwip/core/ipv4/inet_chksum.c\<close> and \<^verbatim>\<open>inet.c\<close>; the reference definition of the checksum is arithmetic modulo 65535.
  \<^item> \<open>LwipMem\<close>: \<^verbatim>\<open>net/lwip/core/mem.c\<close>, the heap of the network server.

  \<^bold>\<open>What is shown.\<close> Start: the boot loader puts every segment of the kernel in its place, the memory manager builds exactly the documented map, and the kernel's invariant holds once the environment table is set up. Memory: allocation conserves pages, mapping and unmapping refine updates of the abstract map with exact reference counts, freeing an
  environment removes exactly its mappings, user pointers are checked exactly (and where the check wraps). Control: mutual exclusion of the lock, the scheduler runs
  an environment on one processor only and each within a bounded number of rounds, identifiers of dead environments stay invalid. System calls: no panic, confinement to
  the caller and its children, no gain of write access, one delivery per message, unprivileged trap frames; the same through a trap. User level: fork gives
  the child the parent's memory without write sharing, the page fault handler makes a private copy, \<^verbatim>\<open>dup\<close> and \<^verbatim>\<open>pipe\<close> share the right
  pages, bytes cross a pipe in order. Files: what is written is read back, through the functions and through requests to the server, sync makes it
  durable, and clients cannot disturb each other's open files. Libraries: strings, formatted output with its inverse, and the binary search of the debugger; the heap of the network server keeps
  allocations apart and merges what is returned; packets with their checksum verify, changed ones do not, and addresses are read as they are printed.
  Where the code does not do what it says, a lemma shows the case, such as \<open>user_mem_check_accepts_wrapped\<close>, \<open>ipc_send_overwrites_kernel_mapping\<close> or
  \<open>stab_binsearch_skips\<close>.

  \<^bold>\<open>Loops and bounds.\<close> A loop over machine words that might not end is a \<^theory_text>\<open>partial_function (option)\<close>, with \<open>None\<close> for not
  returning or for a panic, and the theorems state that a result exists. \<open>readn\<close> in \<open>Fd\<close> has one unit of fuel per byte asked for, which \<open>readn_returns\<close> shows to be
  enough. All other loops are structural or have a termination proof. Counters keep their width: reference counts are 16 bits wide and the theorems on sharing pages ask
  that they do not overflow, positions in a pipe are 32 bits wide and signed, ticks overflow at the point \<open>time_exact_until_overflow\<close> gives.

  \<^bold>\<open>Not modelled.\<close> The assembly (\<^verbatim>\<open>boot.S\<close>, \<^verbatim>\<open>entry.S\<close>, \<^verbatim>\<open>mpentry.S\<close>, \<^verbatim>\<open>trapentry.S\<close>, \<^verbatim>\<open>pfentry.S\<close>) and what only the processor or a device sees:
  segment descriptors, gates, interrupt controllers, the clock chip, PCI configuration, the disk controller. They are programmed input and output without a result in the
  data the rest of the program uses; where it matters, their effect is part of the state or an argument. \<^verbatim>\<open>kern/init.c\<close> and loading the control registers
  at the end of \<^verbatim>\<open>mem_init\<close> belong to this as well. Of the self tests of the memory manager those of the allocator and of the kernel's directory are modelled. The network server and the TCP/IP stack under \<^verbatim>\<open>net\<close> are a port of a third-party library with its own threads;
  of them only the parts listed above are modelled, which do not depend on the threads.
  User programs under \<^verbatim>\<open>user\<close> are tests and demonstrations of the parts modelled here. The exercises under \<^verbatim>\<open>src/HW\<close> are patches and
  programs for xv6 and for Linux, not for this system.
\<close>

section \<open>Start-up\<close>



end
